(* ===== verification/Prelude.thy ===== *)
theory Prelude
  imports Main "HOL-Library.Word"
begin

text \<open>
  Shared ground of the development: the types the host's TypeScript is modelled over
  (bytes, byte arrays, \<open>Int32Array\<close> cells), the array operations of the language that
  the source uses (\<open>subarray\<close>, \<open>slice\<close>, \<open>DataView.getInt32\<close>, \<open>DataView.setInt32\<close> and the
  64-bit pair), the lemmas about them that every component uses, and the locale
  \<open>event_machine\<close>: a pure transition function with an invariant, which is the shape of
  \<open>queue.ts\<close>, \<open>childLife.ts\<close> and \<open>schedule.ts\<close>.
\<close>

section \<open>Types\<close>

type_synonym byte = "8 word"
type_synonym bytes = "byte list"
type_synonym i32 = "32 word"
type_synonym i64 = "64 word"

named_theorems arr_simps \<open>byte-array operations unfolded at in-range indices\<close>

section \<open>Arrays of the language\<close>

text \<open>
  A relative index of \<open>TypedArray.prototype.subarray\<close> and \<open>slice\<close>: negative counts from
  the end, and both ends are clamped to the array.
\<close>

definition rel_index :: "nat \<Rightarrow> int \<Rightarrow> nat" where
  "rel_index n k = (if k < 0 then nat (max 0 (int n + k)) else nat (min k (int n)))"

definition subarray :: "'a list \<Rightarrow> int \<Rightarrow> int \<Rightarrow> 'a list" where
  "subarray xs a b =
     (let i = rel_index (length xs) a; j = rel_index (length xs) b
      in take (j - i) (drop i xs))"

text \<open>The one-argument form, \<open>xs.subarray(a)\<close>.\<close>

definition subarray_from :: "'a list \<Rightarrow> int \<Rightarrow> 'a list" where
  "subarray_from xs a = drop (rel_index (length xs) a) xs"

text \<open>\<open>dst.set(src, at)\<close>, which throws a \<open>RangeError\<close> where the source does not fit.\<close>

definition array_set :: "'a list \<Rightarrow> 'a list \<Rightarrow> nat \<Rightarrow> 'a list option" where
  "array_set dst src at =
     (if at + length src \<le> length dst
      then Some (take at dst @ src @ drop (at + length src) dst) else None)"

lemma rel_index_nat [arr_simps]: "rel_index n (int k) = min k n"
  by (simp add: rel_index_def min_def)

lemma rel_index_nonneg [arr_simps]: "0 \<le> k \<Longrightarrow> rel_index n k = min (nat k) n"
  by (auto simp: rel_index_def min_def)

lemma subarray_nat: "subarray xs (int a) (int b) = take (b - a) (drop a xs)"
  by (auto simp: subarray_def Let_def rel_index_nat min_def)

lemma subarray_from_nat: "subarray_from xs (int a) = drop a xs"
  by (auto simp: subarray_from_def rel_index_nat min_def)

lemma subarray_append_mid:
  "subarray (xs @ ys @ zs) (int (length xs)) (int (length xs + length ys)) = ys"
  by (simp only: subarray_nat) simp

lemma length_subarray_le: "length (subarray xs a b) \<le> length xs"
  by (simp add: subarray_def Let_def)

lemma array_set_length: "array_set dst src at = Some out \<Longrightarrow> length out = length dst"
  by (auto simp: array_set_def split: if_splits)

section \<open>Little-endian integers: DataView\<close>

text \<open>
  \<open>setInt32(at, n, true)\<close> stores \<open>ToInt32(n)\<close>, which is reduction modulo \<open>2^32\<close>;
  \<open>getInt32(at, true)\<close> reads four bytes as two's complement and throws a \<open>RangeError\<close>
  (here \<open>None\<close>) unless all four are inside the view.
\<close>

definition byte_at :: "i32 \<Rightarrow> nat \<Rightarrow> byte" where
  "byte_at w k = word_of_int (uint w div 256 ^ k)"

definition le4 :: "i32 \<Rightarrow> bytes" where
  "le4 w = [byte_at w 0, byte_at w 1, byte_at w 2, byte_at w 3]"

definition of_le4 :: "byte \<Rightarrow> byte \<Rightarrow> byte \<Rightarrow> byte \<Rightarrow> i32" where
  "of_le4 a b c d =
     word_of_int (uint a + 256 * uint b + 65536 * uint c + 16777216 * uint d)"

definition getInt32 :: "bytes \<Rightarrow> int \<Rightarrow> int option" where
  "getInt32 bs at =
     (if 0 \<le> at \<and> at + 4 \<le> int (length bs)
      then Some (sint (of_le4 (bs ! nat at) (bs ! (nat at + 1)) (bs ! (nat at + 2)) (bs ! (nat at + 3))))
      else None)"

definition half_at :: "i64 \<Rightarrow> nat \<Rightarrow> i32" where
  "half_at w k = word_of_int (uint w div 4294967296 ^ k)"

definition le8 :: "i64 \<Rightarrow> bytes" where
  "le8 w = le4 (half_at w 0) @ le4 (half_at w 1)"

definition of_le8 :: "i32 \<Rightarrow> i32 \<Rightarrow> i64" where
  "of_le8 lo hi = word_of_int (uint lo + 4294967296 * uint hi)"

definition getBigInt64 :: "bytes \<Rightarrow> int \<Rightarrow> int option" where
  "getBigInt64 bs at =
     (if 0 \<le> at \<and> at + 8 \<le> int (length bs)
      then (let k = nat at;
                lo = of_le4 (bs ! k) (bs ! (k + 1)) (bs ! (k + 2)) (bs ! (k + 3));
                hi = of_le4 (bs ! (k + 4)) (bs ! (k + 5)) (bs ! (k + 6)) (bs ! (k + 7))
            in Some (sint (of_le8 lo hi)))
      else None)"

lemma length_le4 [simp]: "length (le4 w) = 4"
  by (simp add: le4_def)

lemma length_le8 [simp]: "length (le8 w) = 8"
  by (simp add: le8_def)

lemma digits4:
  fixes x :: int
  assumes "0 \<le> x" "x < 4294967296"
  shows "x mod 256 + 256 * (x div 256 mod 256) + 65536 * (x div 65536 mod 256)
    + 16777216 * (x div 16777216 mod 256) = x"
proof -
  have "x mod 65536 = 256 * (x div 256 mod 256) + x mod 256"
    using zmod_zmult2_eq [of 256 x 256] by simp
  moreover have "x mod 16777216 = 65536 * (x div 65536 mod 256) + x mod 65536"
    using zmod_zmult2_eq [of 256 x 65536] by simp
  moreover have "x mod 4294967296 = 16777216 * (x div 16777216 mod 256) + x mod 16777216"
    using zmod_zmult2_eq [of 256 x 16777216] by simp
  moreover have "x mod 4294967296 = x"
    using assms by simp
  ultimately show ?thesis
    by linarith
qed

lemma uint_byte_at: "uint (byte_at w k) = uint w div 256 ^ k mod 256"
  by (simp add: byte_at_def uint_word_of_int)

lemma of_le4_byte_at:
  "of_le4 (byte_at w 0) (byte_at w (Suc 0)) (byte_at w 2) (byte_at w 3) = w"
proof -
  have lt: "0 \<le> uint w" "uint w < 4294967296"
    using uint_lt2p [of w] by simp_all
  have p: "(256::int) ^ 0 = 1" "(256::int) ^ Suc 0 = 256" "(256::int) ^ 2 = 65536"
    "(256::int) ^ 3 = 16777216"
    by simp_all
  have "of_le4 (byte_at w 0) (byte_at w (Suc 0)) (byte_at w 2) (byte_at w 3) = word_of_int (uint w)"
    unfolding of_le4_def uint_byte_at p div_by_1 digits4 [OF lt] ..
  then show ?thesis
    by (simp only: word_of_int_uint)
qed

lemma of_le8_half_at: "of_le8 (half_at w 0) (half_at w (Suc 0)) = w"
proof -
  have "0 \<le> uint w" "uint w < 18446744073709551616"
    using uint_lt2p [of w] by simp_all
  then have "uint w mod 4294967296 + 4294967296 * (uint w div 4294967296 mod 4294967296) = uint w"
    using zmod_zmult2_eq [of 4294967296 "uint w" 4294967296] by simp
  then show ?thesis
    by (simp only: of_le8_def half_at_def uint_word_of_int) simp
qed

text \<open>Reading back what was stored, wherever the field stands in the payload.\<close>

lemma getInt32_le4:
  "getInt32 (xs @ le4 w @ ys) (int (length xs)) = Some (sint w)"
proof -
  have n: "(xs @ le4 w @ ys) ! (length xs + k) = le4 w ! k" if "k < 4" for k
    using that by (simp add: nth_append)
  have "le4 w ! 0 = byte_at w 0" "le4 w ! 1 = byte_at w 1" "le4 w ! 2 = byte_at w 2"
    "le4 w ! 3 = byte_at w 3"
    by (simp_all add: le4_def)
  with n [of 0] n [of 1] n [of 2] n [of 3] show ?thesis
    by (simp add: getInt32_def of_le4_byte_at)
qed

lemma getBigInt64_le8:
  "getBigInt64 (xs @ le8 w @ ys) (int (length xs)) = Some (sint w)"
proof -
  have n: "(xs @ le8 w @ ys) ! (length xs + k) = le8 w ! k" if "k < 8" for k
    using that by (simp add: nth_append)
  have "le8 w ! 0 = byte_at (half_at w 0) 0" "le8 w ! 1 = byte_at (half_at w 0) 1"
    "le8 w ! 2 = byte_at (half_at w 0) 2" "le8 w ! 3 = byte_at (half_at w 0) 3"
    "le8 w ! 4 = byte_at (half_at w 1) 0" "le8 w ! 5 = byte_at (half_at w 1) 1"
    "le8 w ! 6 = byte_at (half_at w 1) 2" "le8 w ! 7 = byte_at (half_at w 1) 3"
    by (simp_all add: le8_def le4_def)
  with n [of 0] n [of 1] n [of 2] n [of 3] n [of 4] n [of 5] n [of 6] n [of 7] show ?thesis
    by (simp add: getBigInt64_def Let_def of_le4_byte_at of_le8_half_at)
qed

lemma getInt32_None_iff: "getInt32 bs at = None \<longleftrightarrow> at < 0 \<or> int (length bs) < at + 4"
  by (auto simp: getInt32_def)

text \<open>A number in the signed range survives \<open>ToInt32\<close>.\<close>

lemma sint_word_of_int_i32:
  "- 2147483648 \<le> n \<Longrightarrow> n < 2147483648 \<Longrightarrow> sint (word_of_int n :: i32) = n"
  by (simp add: sint_sbintrunc' signed_take_bit_int_eq_self)

section \<open>Event machines\<close>

text \<open>
  A component written as a pure function from a state and an event to a state and the
  effects its driver has to carry out. \<open>run_machine\<close> feeds it a sequence of events; the
  locale says that an invariant holds of the initial state and is kept by every event,
  and concludes that it holds after every sequence of events, that is in every
  interleaving of the parties that produce them.
\<close>

fun run_machine :: "('s \<Rightarrow> 'e \<Rightarrow> 's \<times> 'f list) \<Rightarrow> 's \<Rightarrow> 'e list \<Rightarrow> 's \<times> 'f list" where
  "run_machine f s [] = (s, [])"
| "run_machine f s (e # es) =
     (case f s e of (s', out) \<Rightarrow>
        case run_machine f s' es of (s'', out') \<Rightarrow> (s'', out @ out'))"

lemma fst_run_machine_Cons [simp]:
  "fst (run_machine f s (e # es)) = fst (run_machine f (fst (f s e)) es)"
  by (simp split: prod.splits)

lemma snd_run_machine_Cons [simp]:
  "snd (run_machine f s (e # es)) = snd (f s e) @ snd (run_machine f (fst (f s e)) es)"
  by (simp split: prod.splits)

lemma run_machine_append:
  "run_machine f s (es @ es') =
     (case run_machine f s es of (s', out) \<Rightarrow>
        case run_machine f s' es' of (s'', out') \<Rightarrow> (s'', out @ out'))"
  by (induction es arbitrary: s) (auto split: prod.splits)

lemma run_machine_snoc:
  "run_machine f s (es @ [e]) =
     (case run_machine f s es of (s', out) \<Rightarrow>
        case f s' e of (s'', out') \<Rightarrow> (s'', out @ out'))"
  by (simp add: run_machine_append split: prod.splits)

declare run_machine.simps(2) [simp del]

locale event_machine =
  fixes init :: 's
    and step :: "'s \<Rightarrow> 'e \<Rightarrow> 's \<times> 'f list"
    and inv :: "'s \<Rightarrow> bool"
  assumes inv_init: "inv init"
    and inv_step: "inv s \<Longrightarrow> inv (fst (step s e))"
begin

lemma inv_run_from: "inv s \<Longrightarrow> inv (fst (run_machine step s es))"
proof (induction es arbitrary: s)
  case (Cons e es)
  from inv_step [OF Cons.prems, of e] Cons.IH [of "fst (step s e)"] show ?case
    by simp
qed simp

lemma inv_run: "inv (fst (run_machine step init es))"
  by (rule inv_run_from) (rule inv_init)

text \<open>A relation between consecutive states that is reflexive and transitive holds across a run.\<close>

lemma mono_run:
  assumes refl: "\<And>s. R s s" and trans: "\<And>a b c. R a b \<Longrightarrow> R b c \<Longrightarrow> R a c"
    and step: "\<And>s e. inv s \<Longrightarrow> R s (fst (step s e))"
    and inv: "inv s"
  shows "R s (fst (run_machine step s es))"
  using inv
proof (induction es arbitrary: s)
  case Nil
  show ?case by (simp add: refl)
next
  case (Cons e es)
  have "R s (fst (step s e))"
    by (rule step [OF Cons.prems])
  moreover have "R (fst (step s e)) (fst (run_machine step (fst (step s e)) es))"
    by (rule Cons.IH) (rule inv_step [OF Cons.prems])
  ultimately show ?case
    unfolding fst_run_machine_Cons by (rule trans)
qed

end

end
