(* ===== verification/Utf8.thy ===== *)
theory Utf8
  imports Prelude
begin

text \<open>
  \<open>TextEncoder\<close> and \<open>TextDecoder\<close>, which every string that crosses the bridge goes
  through. A JavaScript string is modelled as its list of code points. The encoder is
  UTF-8 with U+FFFD in place of a lone surrogate; the decoder is the decoder of the
  Encoding Standard in its default mode, that is not fatal (U+FFFD for a maximal invalid
  part, the offending byte read again) and with a leading byte-order mark removed. The
  last point matters to the wire formats: a string that starts with U+FEFF does not come
  back as it went in.
\<close>

type_synonym jsstring = "nat list"

definition js :: "string \<Rightarrow> jsstring" where
  "js s = map of_char s"

definition REPLACEMENT :: nat where
  "REPLACEMENT = 65533"

definition scalar :: "nat \<Rightarrow> bool" where
  "scalar c \<longleftrightarrow> c < 55296 \<or> 57344 \<le> c \<and> c < 1114112"

text \<open>The decimal numeral of a number, as template literals print it.\<close>

fun dec_nat :: "nat \<Rightarrow> jsstring" where
  "dec_nat n = (if n < 10 then [48 + n] else dec_nat (n div 10) @ [48 + n mod 10])"

declare dec_nat.simps [simp del]

definition dec_int :: "int \<Rightarrow> jsstring" where
  "dec_int n = (if n < 0 then 45 # dec_nat (nat (- n)) else dec_nat (nat n))"

section \<open>Encoding\<close>

definition enc_cp :: "nat \<Rightarrow> bytes" where
  "enc_cp c =
     (if c < 128 then [of_nat c]
      else if c < 2048 then [of_nat (192 + c div 64), of_nat (128 + c mod 64)]
      else if c < 65536 then
        [of_nat (224 + c div 4096), of_nat (128 + c div 64 mod 64), of_nat (128 + c mod 64)]
      else
        [of_nat (240 + c div 262144), of_nat (128 + c div 4096 mod 64),
         of_nat (128 + c div 64 mod 64), of_nat (128 + c mod 64)])"

definition encode :: "jsstring \<Rightarrow> bytes" where
  "encode s = concat (map (\<lambda>c. enc_cp (if scalar c then c else REPLACEMENT)) s)"

section \<open>Decoding\<close>

text \<open>
  The decoder's state: \<open>None\<close> between code points, and inside one the number of bytes
  still needed, the range the next byte must be in, and the code point so far.
\<close>

record utf8_state =
  needed :: nat
  lower :: nat
  upper :: nat
  code_point :: nat

text \<open>What a lead byte starts: a complete code point, a longer one, or an error.\<close>

definition lead :: "nat \<Rightarrow> nat + utf8_state" where
  "lead b =
     (if b < 128 then Inl b
      else if 194 \<le> b \<and> b \<le> 223 then Inr \<lparr>needed = 1, lower = 128, upper = 191, code_point = b - 192\<rparr>
      else if 224 \<le> b \<and> b \<le> 239 then
        Inr \<lparr>needed = 2, lower = (if b = 224 then 160 else 128),
             upper = (if b = 237 then 159 else 191), code_point = b - 224\<rparr>
      else if 240 \<le> b \<and> b \<le> 244 then
        Inr \<lparr>needed = 3, lower = (if b = 240 then 144 else 128),
             upper = (if b = 244 then 143 else 191), code_point = b - 240\<rparr>
      else Inl REPLACEMENT)"

function dec_run :: "utf8_state option \<Rightarrow> bytes \<Rightarrow> jsstring" where
  "dec_run None [] = []"
| "dec_run (Some st) [] = [REPLACEMENT]"
| "dec_run None (b # bs) =
     (case lead (unat b) of Inl c \<Rightarrow> c # dec_run None bs | Inr st \<Rightarrow> dec_run (Some st) bs)"
| "dec_run (Some st) (b # bs) =
     (if lower st \<le> unat b \<and> unat b \<le> upper st then
        (let c = code_point st * 64 + (unat b - 128)
         in if needed st \<le> 1 then c # dec_run None bs
            else dec_run (Some \<lparr>needed = needed st - 1, lower = 128, upper = 191, code_point = c\<rparr>) bs)
      else REPLACEMENT # dec_run None (b # bs))"
  by pat_completeness auto
termination
  by (relation "measure (\<lambda>(st, bs). 2 * length bs + (case st of None \<Rightarrow> 0 | Some _ \<Rightarrow> 1))") auto

text \<open>\<open>new TextDecoder().decode\<close>: the byte-order mark goes first.\<close>

definition decode :: "bytes \<Rightarrow> jsstring" where
  "decode bs =
     (if take 3 bs = [239, 187, 191] then dec_run None (drop 3 bs) else dec_run None bs)"

text \<open>
  The strings the decoder gives back unchanged: scalar values only (a lone surrogate
  becomes U+FFFD on the way out) and no byte-order mark in front (U+FEFF, removed on the
  way in).
\<close>

definition text_ok :: "jsstring \<Rightarrow> bool" where
  "text_ok s \<longleftrightarrow> list_all scalar s \<and> take 1 s \<noteq> [65279]"

section \<open>The round trip\<close>

lemma unat_of_nat8: "c < 256 \<Longrightarrow> unat (of_nat c :: byte) = c"
  by (simp add: unat_of_nat)

lemma dec_two:
  assumes "2 \<le> h" "h < 32" "l < 64"
  shows "dec_run None (of_nat (192 + h) # of_nat (128 + l) # bs) = (h * 64 + l) # dec_run None bs"
proof -
  have "unat (of_nat (192 + h) :: byte) = 192 + h" "unat (of_nat (128 + l) :: byte) = 128 + l"
    using assms by (simp_all only: unat_of_nat8)
  then show ?thesis
    using assms by (simp add: lead_def Let_def del: of_nat_add)
qed

lemma dec_three:
  assumes "h < 16" "m < 64" "l < 64" "h = 0 \<longrightarrow> 32 \<le> m" "h = 13 \<longrightarrow> m < 32"
  shows "dec_run None (of_nat (224 + h) # of_nat (128 + m) # of_nat (128 + l) # bs)
    = ((h * 64 + m) * 64 + l) # dec_run None bs"
proof -
  have "unat (of_nat (224 + h) :: byte) = 224 + h" "unat (of_nat (128 + m) :: byte) = 128 + m"
    "unat (of_nat (128 + l) :: byte) = 128 + l"
    using assms by (simp_all only: unat_of_nat8)
  then show ?thesis
    using assms by (auto simp: lead_def Let_def simp del: of_nat_add)
qed

lemma dec_four:
  assumes "h < 5" "n < 64" "m < 64" "l < 64" "h = 0 \<longrightarrow> 16 \<le> n" "h = 4 \<longrightarrow> n < 16"
  shows "dec_run None (of_nat (240 + h) # of_nat (128 + n) # of_nat (128 + m) # of_nat (128 + l) # bs)
    = (((h * 64 + n) * 64 + m) * 64 + l) # dec_run None bs"
proof -
  have "unat (of_nat (240 + h) :: byte) = 240 + h" "unat (of_nat (128 + n) :: byte) = 128 + n"
    "unat (of_nat (128 + m) :: byte) = 128 + m" "unat (of_nat (128 + l) :: byte) = 128 + l"
    using assms by (simp_all only: unat_of_nat8)
  then show ?thesis
    using assms by (auto simp: lead_def Let_def simp del: of_nat_add)
qed

lemma dec_run_enc_cp:
  assumes "scalar c"
  shows "dec_run None (enc_cp c @ bs) = c # dec_run None bs"
proof -
  consider (a) "c < 128" | (b) "128 \<le> c" "c < 2048" | (c) "2048 \<le> c" "c < 65536"
    | (d) "65536 \<le> c" "c < 1114112"
    using assms by (fastforce simp: scalar_def)
  then show ?thesis
  proof cases
    case a
    then show ?thesis by (simp add: enc_cp_def lead_def unat_of_nat8)
  next
    case b
    have "dec_run None (of_nat (192 + c div 64) # of_nat (128 + c mod 64) # bs)
      = (c div 64 * 64 + c mod 64) # dec_run None bs"
      by (rule dec_two) (use b in auto)
    with b show ?thesis
      by (simp add: enc_cp_def del: of_nat_add)
  next
    case c
    have "dec_run None (of_nat (224 + c div 4096) # of_nat (128 + c div 64 mod 64) # of_nat (128 + c mod 64) # bs)
      = ((c div 4096 * 64 + c div 64 mod 64) * 64 + c mod 64) # dec_run None bs"
    proof (rule dec_three)
      have q: "c div 4096 = c div 64 div 64"
        by (simp add: div_mult2_eq [symmetric])
      have r: "c div 64 div 64 * 64 + c div 64 mod 64 = c div 64"
        by (rule div_mult_mod_eq)
      have "32 \<le> c div 64" "c div 64 < 864 \<or> 896 \<le> c div 64"
        using c assms unfolding scalar_def by linarith+
      then show "c div 4096 = 0 \<longrightarrow> 32 \<le> c div 64 mod 64" "c div 4096 = 13 \<longrightarrow> c div 64 mod 64 < 32"
        using r mod_less_divisor [of 64 "c div 64"] unfolding q by linarith+
    qed (use c in auto)
    moreover have "(c div 4096 * 64 + c div 64 mod 64) * 64 + c mod 64 = c"
      using div_mult_mod_eq [of "c div 64" 64] by (simp add: div_mult2_eq [symmetric])
    ultimately show ?thesis
      using c by (simp add: enc_cp_def del: of_nat_add)
  next
    case d
    have "dec_run None (of_nat (240 + c div 262144) # of_nat (128 + c div 4096 mod 64) #
        of_nat (128 + c div 64 mod 64) # of_nat (128 + c mod 64) # bs)
      = (((c div 262144 * 64 + c div 4096 mod 64) * 64 + c div 64 mod 64) * 64 + c mod 64) # dec_run None bs"
    proof (rule dec_four)
      have r: "c div 4096 div 64 * 64 + c div 4096 mod 64 = c div 4096"
        by (rule div_mult_mod_eq)
      have q: "c div 262144 = c div 4096 div 64"
        by (simp add: div_mult2_eq [symmetric])
      have "16 \<le> c div 4096" "c div 4096 < 272"
        using d by linarith+
      then show "c div 262144 = 0 \<longrightarrow> 16 \<le> c div 4096 mod 64" "c div 262144 = 4 \<longrightarrow> c div 4096 mod 64 < 16"
        using r unfolding q by linarith+
    qed (use d in auto)
    moreover have "((c div 262144 * 64 + c div 4096 mod 64) * 64 + c div 64 mod 64) * 64 + c mod 64 = c"
      using div_mult_mod_eq [of "c div 64" 64] div_mult_mod_eq [of "c div 4096" 64]
      by (simp add: div_mult2_eq [symmetric])
    ultimately show ?thesis
      using d by (simp add: enc_cp_def del: of_nat_add)
  qed
qed

lemma encode_Nil [simp]: "encode [] = []"
  by (simp add: encode_def)

lemma length_enc_cp_le: "length (enc_cp c) \<le> 4"
  by (simp add: enc_cp_def)

lemma length_encode_le: "length (encode s) \<le> 4 * length s"
proof (induction s)
  case (Cons c s)
  then show ?case using length_enc_cp_le [of "if scalar c then c else REPLACEMENT"] by (simp add: encode_def)
qed simp

lemma encode_append: "encode (s @ t) = encode s @ encode t"
  by (simp add: encode_def)

lemma enc_cp_not_Nil: "enc_cp c \<noteq> []"
  by (simp add: enc_cp_def)

lemma dec_run_encode:
  "list_all scalar s \<Longrightarrow> dec_run None (encode s @ bs) = s @ dec_run None bs"
  by (induction s) (simp_all add: encode_def dec_run_enc_cp)

lemma bom_starts:
  assumes "list_all scalar s" "take 3 (encode s) = [239, 187, 191]"
  shows "take 1 s = [65279]"
proof -
  have "encode s = [239, 187, 191] @ drop 3 (encode s)"
    by (metis assms(2) append_take_drop_id)
  then have "dec_run None (encode s) = dec_run None ([239, 187, 191] @ drop 3 (encode s))"
    by simp
  also have "\<dots> = 65279 # dec_run None (drop 3 (encode s))"
    by (simp add: lead_def)
  also have "dec_run None (encode s) = s"
    using dec_run_encode [OF assms(1), of "[]"] by simp
  finally show ?thesis
    by (metis One_nat_def take0 take_Suc_Cons)
qed

lemma decode_encode: "text_ok s \<Longrightarrow> decode (encode s) = s"
  using bom_starts [of s] dec_run_encode [of s "[]"]
  by (auto simp: decode_def text_ok_def)

lemma decode_encode_bom: "list_all scalar s \<Longrightarrow> decode (encode (65279 # s)) = s"
  using dec_run_encode [of s "[]"]
  by (simp add: decode_def encode_def enc_cp_def scalar_def)

lemma decode_Nil [simp]: "decode [] = []"
  by (simp add: decode_def)

end
