(* ===== verification/Layout.thy ===== *)
theory Layout
  imports Prelude
begin

text \<open>
  \<open>packages/platform/host/layout.ts\<close>: the shared-memory layout of the host-call bridge.
  The constants, the control block as a memory of 32-bit cells, the two buffer pools
  (\<open>acquireBuf\<close>, \<open>releaseBuf\<close>), the one-based handles that attach a pooled buffer to a
  slot (\<open>attach\<close>, \<open>attached\<close>, \<open>detach\<close>), and the byte regions the views of
  \<open>bridgeOf\<close> cover. The lemmas show that the regions are in range and disjoint, that a
  pool hands out a buffer at most once, and that zeroed memory means \<^emph>\<open>no buffer\<close>.
\<close>

section \<open>Constants\<close>

definition SLOTS :: nat where "SLOTS = 128"
definition BUFS :: nat where "BUFS = 8"
definition INLINE_BYTES :: nat where "INLINE_BYTES = 4096"
definition BUF_BYTES :: nat where "BUF_BYTES = 2 ^ 17"
definition CHUNK :: nat where "CHUNK = 2 ^ 16"

definition SUBMIT_SEQ :: nat where "SUBMIT_SEQ = 0"
definition DONE_SEQ :: nat where "DONE_SEQ = 1"
definition HOST_GONE :: nat where "HOST_GONE = 2"
definition CTRL_HEAD :: nat where "CTRL_HEAD = 3"
definition SLOT_INTS :: nat where "SLOT_INTS = 8"

text \<open>Offsets within a slot's block.\<close>

definition S_STATUS :: nat where "S_STATUS = 0"
definition S_OP :: nat where "S_OP = 1"
definition S_REQ_LEN :: nat where "S_REQ_LEN = 2"
definition S_RES_LEN :: nat where "S_RES_LEN = 3"
definition S_RES_STATUS :: nat where "S_RES_STATUS = 4"
definition S_GEN :: nat where "S_GEN = 5"
definition S_REQ_BUF :: nat where "S_REQ_BUF = 6"
definition S_RES_BUF :: nat where "S_RES_BUF = 7"

text \<open>The states of a slot, the statuses of an answer, and the two opcodes of the transport.\<close>

definition ST_FREE :: i32 where "ST_FREE = 0"
definition ST_PENDING :: i32 where "ST_PENDING = 1"
definition ST_RUNNING :: i32 where "ST_RUNNING = 2"
definition ST_READY :: i32 where "ST_READY = 3"
definition ST_CANCELLED :: i32 where "ST_CANCELLED = 4"
definition ST_CLAIMED :: i32 where "ST_CLAIMED = 5"

definition STATUS_OK :: i32 where "STATUS_OK = 0"
definition STATUS_ERR :: i32 where "STATUS_ERR = 1"
definition STATUS_MORE :: i32 where "STATUS_MORE = 2"
definition STATUS_ACK :: i32 where "STATUS_ACK = 3"

definition OP_CONTINUE :: i32 where "OP_CONTINUE = - 1"
definition OP_PUSH :: i32 where "OP_PUSH = - 2"

definition REQ_FREE_AT :: nat where "REQ_FREE_AT = CTRL_HEAD"
definition RES_FREE_AT :: nat where "RES_FREE_AT = REQ_FREE_AT + BUFS"
definition SLOTS_AT :: nat where "SLOTS_AT = RES_FREE_AT + BUFS"

definition CTRL_INTS :: nat where "CTRL_INTS = SLOTS_AT + SLOTS * SLOT_INTS"
definition CTRL_BYTES :: nat where "CTRL_BYTES = CTRL_INTS * 4"
definition REQ_OFFSET :: nat where "REQ_OFFSET = CTRL_BYTES"
definition RES_OFFSET :: nat where "RES_OFFSET = REQ_OFFSET + BUFS * BUF_BYTES"
definition INLINE_OFFSET :: nat where "INLINE_OFFSET = RES_OFFSET + BUFS * BUF_BYTES"
definition TOTAL_BYTES :: nat where "TOTAL_BYTES = INLINE_OFFSET + SLOTS * INLINE_BYTES"

lemmas size_defs = SLOTS_def BUFS_def INLINE_BYTES_def BUF_BYTES_def CHUNK_def
lemmas head_defs = SUBMIT_SEQ_def DONE_SEQ_def HOST_GONE_def CTRL_HEAD_def SLOT_INTS_def
lemmas field_defs = S_STATUS_def S_OP_def S_REQ_LEN_def S_RES_LEN_def S_RES_STATUS_def
  S_GEN_def S_REQ_BUF_def S_RES_BUF_def
lemmas state_defs = ST_FREE_def ST_PENDING_def ST_RUNNING_def ST_READY_def ST_CANCELLED_def
  ST_CLAIMED_def
lemmas status_defs = STATUS_OK_def STATUS_ERR_def STATUS_MORE_def STATUS_ACK_def
lemmas offset_defs = REQ_FREE_AT_def RES_FREE_AT_def SLOTS_AT_def CTRL_INTS_def CTRL_BYTES_def
  REQ_OFFSET_def RES_OFFSET_def INLINE_OFFSET_def TOTAL_BYTES_def
lemmas layout_defs = size_defs head_defs field_defs offset_defs

text \<open>Where slot \<open>i\<close>'s control block starts, and which slot an offset belongs to.\<close>

definition slotAt :: "nat \<Rightarrow> nat" where
  "slotAt i = SLOTS_AT + i * SLOT_INTS"

definition slotOf :: "nat \<Rightarrow> nat" where
  "slotOf at = (at - slotAt 0) div SLOT_INTS"

section \<open>The control block\<close>

text \<open>
  The \<open>Int32Array\<close> over the control block, addressed by what a cell is for. \<open>addr\<close> is the
  index the source computes for it; \<open>addr_inj\<close> and \<open>addr_bound\<close> below show that distinct
  cells have distinct indices inside the array, so a memory indexed by cells and the flat
  array are the same thing. Cells are read by \<open>Atomics.load\<close> and written by
  \<open>Atomics.store\<close>, \<open>add\<close>, \<open>exchange\<close> and \<open>compareExchange\<close>; each definition below is one
  or more of those calls in the source's order.
\<close>

datatype dir = Req | Res

datatype field = Status | Op | ReqLen | ResLen | ResStatus | Gen | BufOf dir

datatype cell = SubmitSeq | DoneSeq | HostGone | FreeFlag dir nat | Slot nat field

type_synonym ctrl = "cell \<Rightarrow> i32"

definition free_base :: "dir \<Rightarrow> nat" where
  "free_base d = (case d of Req \<Rightarrow> REQ_FREE_AT | Res \<Rightarrow> RES_FREE_AT)"

fun field_at :: "field \<Rightarrow> nat" where
  "field_at Status = S_STATUS"
| "field_at Op = S_OP"
| "field_at ReqLen = S_REQ_LEN"
| "field_at ResLen = S_RES_LEN"
| "field_at ResStatus = S_RES_STATUS"
| "field_at Gen = S_GEN"
| "field_at (BufOf d) = (case d of Req \<Rightarrow> S_REQ_BUF | Res \<Rightarrow> S_RES_BUF)"

fun addr :: "cell \<Rightarrow> nat" where
  "addr SubmitSeq = SUBMIT_SEQ"
| "addr DoneSeq = DONE_SEQ"
| "addr HostGone = HOST_GONE"
| "addr (FreeFlag d i) = free_base d + i"
| "addr (Slot s f) = slotAt s + field_at f"

text \<open>The cells that exist: \<open>BUFS\<close> flags per direction and \<open>SLOTS\<close> slots.\<close>

fun cell_ok :: "cell \<Rightarrow> bool" where
  "cell_ok (FreeFlag d i) = (i < BUFS)"
| "cell_ok (Slot s f) = (s < SLOTS)"
| "cell_ok _ = True"

text \<open>\<open>Atomics.compareExchange(ctrl, at, expected, v)\<close>: the new memory and the old value.\<close>

definition compareExchange :: "ctrl \<Rightarrow> cell \<Rightarrow> i32 \<Rightarrow> i32 \<Rightarrow> ctrl \<times> i32" where
  "compareExchange m c expected v = (if m c = expected then m(c := v) else m, m c)"

text \<open>\<open>Atomics.add(ctrl, at, 1)\<close>, which wraps.\<close>

definition bump :: "ctrl \<Rightarrow> cell \<Rightarrow> ctrl" where
  "bump m c = m(c := m c + 1)"

text \<open>
  \<open>acquireBuf\<close>: the scan from entry \<open>i\<close> on, one compare-and-exchange per entry; -1 when
  every entry is held.
\<close>

function acquire_from :: "ctrl \<Rightarrow> dir \<Rightarrow> nat \<Rightarrow> ctrl \<times> int" where
  "acquire_from m d i =
     (if i < BUFS then
        (case compareExchange m (FreeFlag d i) 0 1 of (m', old) \<Rightarrow>
           if old = 0 then (m', int i) else acquire_from m' d (Suc i))
      else (m, -1))"
  by pat_completeness auto
termination
  by (relation "measure (\<lambda>(m, d, i). BUFS - i)") auto

declare acquire_from.simps [simp del]

definition acquireBuf :: "ctrl \<Rightarrow> dir \<Rightarrow> ctrl \<times> int" where
  "acquireBuf m d = acquire_from m d 0"

definition releaseBuf :: "ctrl \<Rightarrow> dir \<Rightarrow> int \<Rightarrow> ctrl" where
  "releaseBuf m d i = (if i < 0 then m else m(FreeFlag d (nat i) := 0))"

definition attach :: "ctrl \<Rightarrow> nat \<Rightarrow> dir \<Rightarrow> int \<Rightarrow> ctrl" where
  "attach m s d i = m(Slot s (BufOf d) := word_of_int (i + 1))"

definition attached :: "ctrl \<Rightarrow> nat \<Rightarrow> dir \<Rightarrow> int" where
  "attached m s d = sint (m (Slot s (BufOf d))) - 1"

definition detach :: "ctrl \<Rightarrow> nat \<Rightarrow> dir \<Rightarrow> ctrl \<times> int" where
  "detach m s d = (m(Slot s (BufOf d) := 0), sint (m (Slot s (BufOf d))) - 1)"

text \<open>Which buffers of a pool are held.\<close>

definition busy_bufs :: "dir \<Rightarrow> ctrl \<Rightarrow> nat set" where
  "busy_bufs d m = {i. i < BUFS \<and> m (FreeFlag d i) \<noteq> 0}"

section \<open>The byte regions\<close>

text \<open>
  The views \<open>bridgeOf\<close> builds over the shared buffer: the control block, the pooled
  request and response buffers, and each slot's inline answer area, as half-open ranges
  of byte offsets.
\<close>

datatype view = Ctrl | ReqBuf nat | ResBuf nat | Inline nat

definition views :: "view list" where
  "views = Ctrl # map ReqBuf [0..<BUFS] @ map ResBuf [0..<BUFS] @ map Inline [0..<SLOTS]"

fun view_start :: "view \<Rightarrow> nat" where
  "view_start Ctrl = 0"
| "view_start (ReqBuf i) = REQ_OFFSET + i * BUF_BYTES"
| "view_start (ResBuf i) = RES_OFFSET + i * BUF_BYTES"
| "view_start (Inline i) = INLINE_OFFSET + i * INLINE_BYTES"

fun view_bytes :: "view \<Rightarrow> nat" where
  "view_bytes Ctrl = CTRL_INTS * 4"
| "view_bytes (ReqBuf i) = BUF_BYTES"
| "view_bytes (ResBuf i) = BUF_BYTES"
| "view_bytes (Inline i) = INLINE_BYTES"

definition view_range :: "view \<Rightarrow> nat set" where
  "view_range v = {view_start v ..< view_start v + view_bytes v}"

text \<open>Views that follow one another from offset \<open>a\<close> to offset \<open>z\<close>.\<close>

fun tiles :: "nat \<Rightarrow> view list \<Rightarrow> nat \<Rightarrow> bool" where
  "tiles a [] z = (a = z)"
| "tiles a (v # vs) z = (view_start v = a \<and> tiles (a + view_bytes v) vs z)"

text \<open>\<open>newBridge\<close>: a fresh shared buffer is zeroed.\<close>

definition newBridge :: ctrl where
  "newBridge = (\<lambda>_. 0)"


section \<open>Addresses and regions\<close>

lemma field_at_bound: "field_at f < SLOT_INTS"
  by (cases f) (auto simp: head_defs field_defs split: dir.splits)

lemma addr_bound: "cell_ok c \<Longrightarrow> addr c < CTRL_INTS"
proof (cases c)
  case (Slot s f)
  assume "cell_ok c"
  with Slot field_at_bound [of f] show ?thesis
    by (simp add: layout_defs slotAt_def)
qed (auto simp: layout_defs free_base_def split: dir.splits)

lemma field_at_inj: "field_at f = field_at g \<Longrightarrow> f = g"
  by (cases f; cases g) (auto simp: field_defs split: dir.splits)

lemma slot_addr_inj:
  assumes "addr (Slot s f) = addr (Slot t g)"
  shows "s = t \<and> f = g"
proof -
  have "s * SLOT_INTS + field_at f = t * SLOT_INTS + field_at g"
    using assms by (simp add: slotAt_def)
  moreover from this have "s = t"
    using field_at_bound [of f] field_at_bound [of g] by (simp add: SLOT_INTS_def)
  ultimately show ?thesis
    by (auto dest: field_at_inj)
qed

lemma slot_addr_high: "SLOTS_AT \<le> addr (Slot s f)"
  by (simp add: slotAt_def)

lemma low_addr: "cell_ok c \<Longrightarrow> (\<forall>s f. c \<noteq> Slot s f) \<Longrightarrow> addr c < SLOTS_AT"
  by (cases c) (auto simp: layout_defs free_base_def split: dir.splits)

lemma addr_inj:
  assumes "cell_ok c" "cell_ok c'" "addr c = addr c'"
  shows "c = c'"
proof (cases "\<exists>s f. c = Slot s f")
  case True
  then obtain s f where c: "c = Slot s f" by blast
  with assms low_addr [of c'] slot_addr_high [of s f] obtain t g where "c' = Slot t g"
    by (metis leD)
  with c assms(3) show ?thesis
    using slot_addr_inj by blast
next
  case False
  with assms low_addr [of c] have "\<forall>s f. c' \<noteq> Slot s f"
    by (metis leD slot_addr_high)
  with False assms show ?thesis
    by (cases c; cases c') (auto simp: layout_defs free_base_def split: dir.splits)
qed

lemma slotOf_slotAt [simp]: "slotOf (slotAt s) = s"
  by (simp add: slotOf_def slotAt_def SLOT_INTS_def)

text \<open>The views of the shared buffer follow one another without a gap or an overlap.\<close>

lemma view_starts:
  "map view_start views =
     0 # map (\<lambda>i. REQ_OFFSET + i * BUF_BYTES) [0..<BUFS]
       @ map (\<lambda>i. RES_OFFSET + i * BUF_BYTES) [0..<BUFS]
       @ map (\<lambda>i. INLINE_OFFSET + i * INLINE_BYTES) [0..<SLOTS]"
  by (simp add: views_def)

lemma tiles_append: "tiles a (us @ vs) z \<longleftrightarrow> (\<exists>m. tiles a us m \<and> tiles m vs z)"
  by (induction us arbitrary: a) auto

lemma tiles_map:
  assumes "\<And>i. view_start (f i) = b + i * k" "\<And>i. view_bytes (f i) = k"
  shows "tiles (b + i * k) (map f [i..<i + n]) (b + (i + n) * k)"
proof (induction n arbitrary: i)
  case (Suc n)
  have "[i..<i + Suc n] = i # [Suc i..<Suc i + n]"
    by (simp add: upt_conv_Cons del: upt_Suc)
  with Suc.IH [of "Suc i"] assms show ?case
    by (simp add: algebra_simps)
qed simp

lemma views_tile: "tiles 0 views TOTAL_BYTES"
proof -
  have "tiles REQ_OFFSET (map ReqBuf [0..<BUFS]) RES_OFFSET"
    using tiles_map [of ReqBuf REQ_OFFSET BUF_BYTES 0 BUFS] by (simp add: RES_OFFSET_def)
  moreover have "tiles RES_OFFSET (map ResBuf [0..<BUFS]) INLINE_OFFSET"
    using tiles_map [of ResBuf RES_OFFSET BUF_BYTES 0 BUFS] by (simp add: INLINE_OFFSET_def)
  moreover have "tiles INLINE_OFFSET (map Inline [0..<SLOTS]) TOTAL_BYTES"
    using tiles_map [of Inline INLINE_OFFSET INLINE_BYTES 0 SLOTS] by (simp add: TOTAL_BYTES_def)
  ultimately show ?thesis
    by (auto simp: views_def tiles_append REQ_OFFSET_def CTRL_BYTES_def)
qed

lemma tiles_le: "tiles a vs z \<Longrightarrow> a \<le> z"
  by (induction vs arbitrary: a) (auto dest!: spec intro: add_leD1)

lemma tiles_range: "tiles a vs z \<Longrightarrow> v \<in> set vs \<Longrightarrow> a \<le> view_start v \<and> view_start v + view_bytes v \<le> z"
proof (induction vs arbitrary: a)
  case (Cons u vs)
  then show ?case
    using tiles_le [of "a + view_bytes u" vs z] by (fastforce dest: add_leD1)
qed simp

lemma tiles_disjoint:
  assumes "tiles a vs z" "distinct vs" "u \<in> set vs" "v \<in> set vs" "u \<noteq> v"
  shows "view_range u \<inter> view_range v = {}"
  using assms
proof (induction vs arbitrary: a)
  case (Cons w vs)
  have far: "view_start w + view_bytes w \<le> view_start x" if "x \<in> set vs" for x
    using Cons.prems(1) that tiles_range [of "a + view_bytes w" vs z x] by simp
  from Cons show ?case
    by (fastforce simp: view_range_def dest: far)
qed simp

lemma distinct_views: "distinct views"
  by (auto simp: views_def distinct_map inj_on_def)

section \<open>Buffer pools\<close>

text \<open>
  What a client of a pool relies on: an acquired buffer was free and is now held and
  nothing else changed hands, -1 means that every buffer is held, and a release gives
  back exactly the buffer it names (and nothing for -1).
\<close>

locale buffer_pool =
  fixes acquire :: "'m \<Rightarrow> 'm \<times> int"
    and release :: "'m \<Rightarrow> int \<Rightarrow> 'm"
    and busy :: "'m \<Rightarrow> nat set"
    and cap :: nat
  assumes busy_bound: "busy m \<subseteq> {..<cap}"
    and acquire_none: "snd (acquire m) = -1 \<Longrightarrow> fst (acquire m) = m \<and> busy m = {..<cap}"
    and acquire_some: "snd (acquire m) \<noteq> -1 \<Longrightarrow>
      \<exists>i. snd (acquire m) = int i \<and> i < cap \<and> i \<notin> busy m \<and> busy (fst (acquire m)) = insert i (busy m)"
    and release_busy: "i < cap \<Longrightarrow> busy (release m (int i)) = busy m - {i}"
    and release_none: "release m (-1) = m"
begin

lemma acquire_iff: "snd (acquire m) = -1 \<longleftrightarrow> busy m = {..<cap}"
  using acquire_none [of m] acquire_some [of m] by auto

lemma acquire_fresh: "snd (acquire m) = int i \<Longrightarrow> i < cap \<and> i \<notin> busy m \<and> busy (fst (acquire m)) = insert i (busy m)"
  using acquire_some [of m] by auto

lemma acquire_release: "busy (release (fst (acquire m)) (snd (acquire m))) = busy m"
  using acquire_none [of m] acquire_some [of m] release_none release_busy
  by (cases "snd (acquire m) = -1") auto

text \<open>Two buffers acquired one after the other are different.\<close>

lemma acquire_twice:
  assumes "acquire m = (m', int i)" "acquire m' = (m'', int j)"
  shows "i \<noteq> j"
  using acquire_fresh [of m i] acquire_fresh [of m' j] assms by auto

text \<open>A pool with \<open>cap\<close> buffers never hands out more than \<open>cap\<close> of them.\<close>

lemma busy_card: "card (busy m) \<le> cap"
  using busy_bound [of m] by (metis card_lessThan card_mono finite_lessThan)

lemma acquire_available: "card (busy m) < cap \<Longrightarrow> \<exists>i. snd (acquire m) = int i"
  using acquire_none [of m] acquire_some [of m] by force

end

lemma acquire_from_spec:
  "(case acquire_from m d i of (m', r) \<Rightarrow>
      if r = -1 then m' = m \<and> (\<forall>j. i \<le> j \<and> j < BUFS \<longrightarrow> m (FreeFlag d j) \<noteq> 0)
      else \<exists>j. r = int j \<and> i \<le> j \<and> j < BUFS \<and> m (FreeFlag d j) = 0
        \<and> m' = m(FreeFlag d j := 1))"
proof (induction m d i rule: acquire_from.induct)
  case (1 m d i)
  show ?case
  proof (cases "i < BUFS \<and> m (FreeFlag d i) \<noteq> 0")
    case True
    then have same: "compareExchange m (FreeFlag d i) 0 1 = (m, m (FreeFlag d i))"
      by (simp add: compareExchange_def)
    with True have rec: "acquire_from m d i = acquire_from m d (Suc i)"
      by (simp add: acquire_from.simps [of m d i])
    from "1.IH" [OF conjunct1 [OF True] same [symmetric] conjunct2 [OF True]] True show ?thesis
      unfolding rec by (auto split: prod.splits if_splits) (metis Suc_leI le_neq_implies_less Suc_leD)+
  next
    case False
    then show ?thesis
      by (auto simp: acquire_from.simps [of m d i] compareExchange_def)
  qed
qed

lemma acquireBuf_cases:
  obtains (none) "acquireBuf m d = (m, -1)" "busy_bufs d m = {..<BUFS}"
  | (some) j where "acquireBuf m d = (m(FreeFlag d j := 1), int j)" "j < BUFS"
      "m (FreeFlag d j) = 0"
  using acquire_from_spec [where m = m and d = d and i = 0] unfolding acquireBuf_def busy_bufs_def
  by (auto split: prod.splits if_splits)

interpretation pool: buffer_pool "\<lambda>m. acquireBuf m d" "\<lambda>m. releaseBuf m d" "busy_bufs d" BUFS
  for d
proof (unfold_locales, goal_cases)
  case (1 m)
  show ?case by (auto simp: busy_bufs_def)
next
  case (2 m)
  then show ?case by (cases rule: acquireBuf_cases [where m = m and d = d]) auto
next
  case (3 m)
  then show ?case by (cases rule: acquireBuf_cases [where m = m and d = d]) (auto simp: busy_bufs_def)
next
  case (4 i m)
  then show ?case by (auto simp: busy_bufs_def releaseBuf_def)
next
  case (5 m)
  show ?case by (simp add: releaseBuf_def)
qed

section \<open>Attached buffers\<close>

lemma attached_attach:
  "- 1 \<le> i \<Longrightarrow> i < int BUFS \<Longrightarrow> attached (attach m s d i) s d = i"
  by (simp add: attached_def attach_def BUFS_def sint_word_of_int_i32 del: of_int_add)

lemma detach_attached: "snd (detach m s d) = attached m s d"
  by (simp add: detach_def attached_def)

lemma attached_detach: "attached (fst (detach m s d)) s d = -1"
  by (simp add: detach_def attached_def)

lemma detach_twice: "snd (detach (fst (detach m s d)) s d) = -1"
  by (simp add: detach_def)

lemma attached_newBridge: "attached newBridge s d = -1"
  by (simp add: attached_def newBridge_def)

section \<open>Properties\<close>

text \<open>
  C32. The shared buffer is laid out without waste or overlap: the control block, the pooled
  buffers of both directions and the inline areas follow one another from byte 0 to
  \<open>TOTAL_BYTES\<close>, so every view is inside the buffer and two different views share no byte.
\<close>

theorem views_disjoint:
  assumes "u \<in> set views" "v \<in> set views" "u \<noteq> v"
  shows "view_range u \<inter> view_range v = {} \<and> view_range u \<subseteq> {..<TOTAL_BYTES}
    \<and> tiles 0 views TOTAL_BYTES"
  using tiles_disjoint [OF views_tile distinct_views assms] tiles_range [OF views_tile assms(1)]
    views_tile
  by (auto simp: view_range_def)

theorem views_disjoint_witness:
  "view_range (ReqBuf 7) \<inter> view_range (ResBuf 0) = {}"
  using views_disjoint [of "ReqBuf 7" "ResBuf 0"] by (simp add: views_def BUFS_def)

text \<open>
  The control block is a record: two different cells (counters, buffer flags, fields of
  slots) have different indices, all inside the \<open>Int32Array\<close> of \<open>CTRL_INTS\<close> entries, and
  \<open>slotOf\<close> recovers the slot from the offset of its block.
\<close>

theorem cells_distinct:
  assumes "cell_ok c" "cell_ok c'" "c \<noteq> c'"
  shows "addr c \<noteq> addr c' \<and> addr c < CTRL_INTS \<and> slotOf (slotAt s) = s"
  using addr_inj [OF assms(1,2)] addr_bound [OF assms(1)] assms(3) by auto

theorem cells_distinct_witness:
  "addr (Slot 127 (BufOf Res)) \<noteq> addr (Slot 126 Status) \<and> addr (Slot 127 (BufOf Res)) < CTRL_INTS"
  using cells_distinct [of "Slot 127 (BufOf Res)" "Slot 126 Status"] by (simp add: SLOTS_def)

text \<open>
  A pooled buffer has one holder: \<open>acquireBuf\<close> answers a buffer that nobody held and
  marks it held, changing nothing else; it answers -1 exactly when all \<open>BUFS\<close> are held;
  and releasing what was acquired restores the pool.
\<close>

theorem acquire_exclusive:
  "(if busy_bufs d m = {..<BUFS} then acquireBuf m d = (m, -1)
    else \<exists>i<BUFS. i \<notin> busy_bufs d m \<and> acquireBuf m d = (m(FreeFlag d i := 1), int i)
           \<and> busy_bufs d (fst (acquireBuf m d)) = insert i (busy_bufs d m))
   \<and> busy_bufs d (releaseBuf (fst (acquireBuf m d)) d (snd (acquireBuf m d))) = busy_bufs d m"
proof (cases rule: acquireBuf_cases [where m = m and d = d])
  case none
  with pool.acquire_release [where m = m and d = d] show ?thesis by simp
next
  case (some j)
  then have "j \<notin> busy_bufs d m" "busy_bufs d m \<noteq> {..<BUFS}"
    by (auto simp: busy_bufs_def)
  with some pool.acquire_release [where m = m and d = d] pool.acquire_fresh [where m = m and d = d and i = j]
  show ?thesis by auto
qed

end
