(* ===== verification/Queue.thy ===== *)
theory Queue
  imports Layout "HOL-Library.Multiset"
begin

text \<open>
  \<open>packages/platform/host/queue.ts\<close>: the queue behind every pipe, as the pure transition
  function \<open>apply\<close> and the driver \<open>ByteQueue\<close> over it. The definitions follow the source
  branch by branch; the lemmas give the state invariant, the byte-stream refinement, that
  every party is answered exactly once, and what the cap does and does not promise.
\<close>

section \<open>State, events, effects\<close>

record parked =
  wid :: nat
  wbytes :: bytes

record queue_state =
  cap :: nat
  chunks :: "bytes list"
  held :: nat
  ended :: bool
  reader :: "nat option"
  writers :: "parked list"

datatype event = Push nat bytes | Next nat nat | End | EndWith bytes

datatype effect = ToWriter nat bool | ToReader nat bytes

type_synonym queue_step = "queue_state \<times> effect list"

definition emptyQueue :: "nat \<Rightarrow> queue_state" where
  "emptyQueue c = \<lparr>cap = c, chunks = [], held = 0, ended = False, reader = None, writers = []\<rparr>"

text \<open>\<open>join\<close>: one array from several, and the array itself when there is just one.\<close>

definition join :: "bytes list \<Rightarrow> bytes" where
  "join parts = (case parts of [p] \<Rightarrow> p | _ \<Rightarrow> concat parts)"

section \<open>Transitions\<close>

text \<open>The loop of \<open>releaseRoom\<close>: chunks, bytes held, parked writers, effects so far.\<close>

fun release_loop ::
  "nat \<Rightarrow> bytes list \<Rightarrow> nat \<Rightarrow> parked list \<Rightarrow> effect list \<Rightarrow> bytes list \<times> nat \<times> parked list \<times> effect list"
where
  "release_loop c cs h [] es = (cs, h, [], es)"
| "release_loop c cs h (w # ws) es =
     (if 0 < c \<and> c < h + length (wbytes w) then (cs, h, w # ws, es)
      else release_loop c (cs @ [wbytes w]) (h + length (wbytes w)) ws (es @ [ToWriter (wid w) True]))"

definition releaseRoom :: "queue_state \<Rightarrow> queue_step" where
  "releaseRoom s =
     (case release_loop (cap s) (chunks s) (held s) (writers s) [] of
        (cs, h, ws, es) \<Rightarrow> (s\<lparr>chunks := cs, held := h, writers := ws\<rparr>, es))"

text \<open>The loop of \<open>take\<close>: remaining chunks, parts taken, bytes taken.\<close>

fun take_loop :: "nat \<Rightarrow> bytes list \<Rightarrow> bytes list \<Rightarrow> nat \<Rightarrow> bytes list \<times> bytes list \<times> nat" where
  "take_loop limit [] parts got = ([], parts, got)"
| "take_loop limit (c # cs) parts got =
     (if got < limit then
        (if got + length c \<le> limit then take_loop limit cs (parts @ [c]) (got + length c)
         else (let room = limit - got in (drop room c # cs, parts @ [take room c], got + room)))
      else (c # cs, parts, got))"

definition take_bytes :: "queue_state \<Rightarrow> nat \<Rightarrow> queue_state \<times> bytes option" where
  "take_bytes s limit =
     (if chunks s = [] then (s, None)
      else (case take_loop limit (chunks s) [] 0 of
              (cs, parts, got) \<Rightarrow> (s\<lparr>chunks := cs, held := held s - got\<rparr>, Some (join parts))))"

definition end_stream :: "queue_state \<Rightarrow> queue_step" where
  "end_stream s =
     (s\<lparr>ended := True, reader := None, writers := []\<rparr>,
      (case reader s of None \<Rightarrow> [] | Some r \<Rightarrow> [ToReader r []])
        @ map (\<lambda>w. ToWriter (wid w) False) (writers s))"

fun apply_event :: "queue_state \<Rightarrow> event \<Rightarrow> queue_step" where
  "apply_event s (Push i b) =
     (if ended s then (s, [ToWriter i False])
      else if b = [] then (s, [ToWriter i True])
      else case reader s of
        Some r \<Rightarrow> (s\<lparr>reader := None\<rparr>, [ToReader r b, ToWriter i True])
      | None \<Rightarrow>
          (if 0 < cap s \<and> cap s < held s + length b
           then (s\<lparr>writers := writers s @ [\<lparr>wid = i, wbytes = b\<rparr>]\<rparr>, [])
           else (s\<lparr>chunks := chunks s @ [b], held := held s + length b\<rparr>, [ToWriter i True])))"
| "apply_event s (Next i limit) =
     (case take_bytes s limit of
        (s', Some taken) \<Rightarrow>
          (case releaseRoom s' of (s'', es) \<Rightarrow> (s'', ToReader i taken # es))
      | (_, None) \<Rightarrow>
          (if ended s then (s, [ToReader i []])
           else (s\<lparr>reader := Some i\<rparr>,
                 (case reader s of None \<Rightarrow> [] | Some r \<Rightarrow> [ToReader r []]))))"
| "apply_event s End = end_stream s"
| "apply_event s (EndWith b) =
     (if ended s then end_stream s
      else case reader s of
        Some r \<Rightarrow>
          (case end_stream (s\<lparr>reader := None\<rparr>) of (s', es) \<Rightarrow> (s', ToReader r b # es))
      | None \<Rightarrow> end_stream (s\<lparr>chunks := chunks s @ [b], held := held s + length b\<rparr>))"

section \<open>The driver\<close>

text \<open>
  \<open>ByteQueue\<close>: the state, the unresolved promises of readers and writers by id, and the
  id counter. A resolution is what a promise settles with.
\<close>

record byte_queue =
  qstate :: queue_state
  open_readers :: "nat set"
  open_writers :: "nat set"
  next_id :: nat

definition new_ByteQueue :: "nat \<Rightarrow> byte_queue" where
  "new_ByteQueue c = \<lparr>qstate = emptyQueue c, open_readers = {}, open_writers = {}, next_id = 0\<rparr>"

text \<open>The resolver of \<open>#run\<close>: look the id up, forget it, resolve it if it was there.\<close>

fun resolve :: "byte_queue \<Rightarrow> effect list \<Rightarrow> byte_queue \<times> effect list" where
  "resolve q [] = (q, [])"
| "resolve q (ToReader i b # es) =
     (case resolve (q\<lparr>open_readers := open_readers q - {i}\<rparr>) es of (q', rs) \<Rightarrow>
        (q', (if i \<in> open_readers q then [ToReader i b] else []) @ rs))"
| "resolve q (ToWriter i ok # es) =
     (case resolve (q\<lparr>open_writers := open_writers q - {i}\<rparr>) es of (q', rs) \<Rightarrow>
        (q', (if i \<in> open_writers q then [ToWriter i ok] else []) @ rs))"

definition bq_run :: "byte_queue \<Rightarrow> event \<Rightarrow> byte_queue \<times> effect list" where
  "bq_run q e =
     (case apply_event (qstate q) e of (s, es) \<Rightarrow> resolve (q\<lparr>qstate := s\<rparr>) es)"

definition bq_push :: "byte_queue \<Rightarrow> bytes \<Rightarrow> byte_queue \<times> effect list" where
  "bq_push q b =
     (let i = next_id q
      in bq_run (q\<lparr>next_id := Suc i, open_writers := insert i (open_writers q)\<rparr>) (Push i b))"

definition bq_next :: "byte_queue \<Rightarrow> byte_queue \<times> effect list" where
  "bq_next q =
     (let i = next_id q
      in bq_run (q\<lparr>next_id := Suc i, open_readers := insert i (open_readers q)\<rparr>) (Next i CHUNK))"

definition bq_end :: "byte_queue \<Rightarrow> byte_queue \<times> effect list" where
  "bq_end q = bq_run q End"

definition bq_endWith :: "byte_queue \<Rightarrow> bytes \<Rightarrow> byte_queue \<times> effect list" where
  "bq_endWith q b = bq_run q (EndWith b)"

text \<open>What a party that used the driver did, for statements over whole histories.\<close>

datatype bq_call = CallPush bytes | CallNext | CallEnd | CallEndWith bytes

fun bq_step :: "byte_queue \<Rightarrow> bq_call \<Rightarrow> byte_queue \<times> effect list" where
  "bq_step q (CallPush b) = bq_push q b"
| "bq_step q CallNext = bq_next q"
| "bq_step q CallEnd = bq_end q"
| "bq_step q (CallEndWith b) = bq_endWith q b"

text \<open>
  \<open>rest\<close>: call \<open>next\<close> until it answers with nothing. The loop over a queue that has ended,
  where every \<open>next\<close> is answered at once; fuel counts the turns.
\<close>

fun rest_loop :: "nat \<Rightarrow> queue_state \<Rightarrow> bytes list \<Rightarrow> bytes option" where
  "rest_loop 0 s parts = None"
| "rest_loop (Suc n) s parts =
     (case apply_event s (Next 0 CHUNK) of
        (s', ToReader _ c # _) \<Rightarrow> (if c = [] then Some (join parts) else rest_loop n s' (parts @ [c]))
      | _ \<Rightarrow> None)"

section \<open>Specification\<close>

text \<open>The bytes the queue holds, in order.\<close>

definition stream :: "queue_state \<Rightarrow> bytes" where
  "stream s = concat (chunks s)"

definition fits :: "queue_state \<Rightarrow> bytes \<Rightarrow> bool" where
  "fits s b \<longleftrightarrow> cap s = 0 \<or> held s + length b \<le> cap s"

definition queue_ok :: "queue_state \<Rightarrow> bool" where
  "queue_ok s \<longleftrightarrow>
     held s = length (stream s)
   \<and> (reader s \<noteq> None \<longrightarrow> chunks s = [])
   \<and> (ended s \<longrightarrow> reader s = None \<and> writers s = [])
   \<and> (\<forall>w\<in>set (writers s). wbytes w \<noteq> [])
   \<and> (writers s \<noteq> [] \<longrightarrow> \<not> fits s (wbytes (hd (writers s))))
   \<and> (\<not> ended s \<longrightarrow> [] \<notin> set (chunks s))
   \<and> (\<not> ended s \<and> 0 < cap s \<longrightarrow> held s \<le> cap s)"

text \<open>The bytes a sequence of effects handed to readers.\<close>

fun delivered :: "effect list \<Rightarrow> bytes" where
  "delivered [] = []"
| "delivered (ToReader i b # es) = b @ delivered es"
| "delivered (ToWriter i ok # es) = delivered es"

text \<open>
  The writes acknowledged, in the order of their acknowledgements; the last line of
  \<open>endWith\<close>, which counts unless the stream had ended before it; and what it is for a history
  to agree with an assignment of bytes to write ids.
\<close>

fun acks :: "effect list \<Rightarrow> nat list" where
  "acks [] = []"
| "acks (ToWriter i ok # es) = (if ok then i # acks es else acks es)"
| "acks (ToReader i b # es) = acks es"

fun final_line :: "event list \<Rightarrow> bytes" where
  "final_line [] = []"
| "final_line (End # es) = []"
| "final_line (EndWith b # es) = b"
| "final_line (_ # es) = final_line es"

fun pays :: "(nat \<Rightarrow> bytes) \<Rightarrow> event \<Rightarrow> bool" where
  "pays pay (Push i b) = (b = pay i)"
| "pays pay _ = True"

definition parked_as :: "(nat \<Rightarrow> bytes) \<Rightarrow> queue_state \<Rightarrow> bool" where
  "parked_as pay s \<longleftrightarrow> (\<forall>w\<in>set (writers s). wbytes w = pay (wid w))"

definition line_of :: "queue_state \<Rightarrow> event \<Rightarrow> bytes" where
  "line_of s e = (case e of EndWith b \<Rightarrow> if ended s then [] else b | _ \<Rightarrow> [])"

fun push_within :: "nat \<Rightarrow> event \<Rightarrow> bool" where
  "push_within c (Push i b) \<longleftrightarrow> c = 0 \<or> length b \<le> c"
| "push_within c _ \<longleftrightarrow> True"

definition parked_within :: "nat \<Rightarrow> queue_state \<Rightarrow> bool" where
  "parked_within c s \<longleftrightarrow> cap s = c \<and> (\<forall>w\<in>set (writers s). c = 0 \<or> length (wbytes w) \<le> c)"

fun push_ids :: "event list \<Rightarrow> nat multiset" where
  "push_ids [] = {#}"
| "push_ids (Push i b # es) = add_mset i (push_ids es)"
| "push_ids (_ # es) = push_ids es"

fun next_ids :: "event list \<Rightarrow> nat multiset" where
  "next_ids [] = {#}"
| "next_ids (Next i l # es) = add_mset i (next_ids es)"
| "next_ids (_ # es) = next_ids es"

fun writer_ids :: "effect list \<Rightarrow> nat multiset" where
  "writer_ids [] = {#}"
| "writer_ids (ToWriter i ok # es) = add_mset i (writer_ids es)"
| "writer_ids (ToReader i b # es) = writer_ids es"

fun reader_ids :: "effect list \<Rightarrow> nat multiset" where
  "reader_ids [] = {#}"
| "reader_ids (ToReader i b # es) = add_mset i (reader_ids es)"
| "reader_ids (ToWriter i ok # es) = reader_ids es"

text \<open>Who is waiting.\<close>

definition waiting_writers :: "queue_state \<Rightarrow> nat multiset" where
  "waiting_writers s = mset (map wid (writers s))"

definition waiting_readers :: "queue_state \<Rightarrow> nat multiset" where
  "waiting_readers s = (case reader s of None \<Rightarrow> {#} | Some r \<Rightarrow> {#r#})"

text \<open>What a call of the driver feeds to the machine: the next free id is the party's.\<close>

fun event_of :: "nat \<Rightarrow> bq_call \<Rightarrow> event" where
  "event_of n (CallPush b) = Push n b"
| "event_of n CallNext = Next n CHUNK"
| "event_of n CallEnd = End"
| "event_of n (CallEndWith b) = EndWith b"

fun takes_id :: "bq_call \<Rightarrow> bool" where
  "takes_id (CallPush b) = True"
| "takes_id CallNext = True"
| "takes_id _ = False"

fun events_of :: "nat \<Rightarrow> bq_call list \<Rightarrow> event list" where
  "events_of n [] = []"
| "events_of n (c # cs) = event_of n c # events_of (if takes_id c then Suc n else n) cs"

definition bq_ok :: "byte_queue \<Rightarrow> bool" where
  "bq_ok q \<longleftrightarrow> queue_ok (qstate q)
     \<and> open_readers q = set_mset (waiting_readers (qstate q))
     \<and> open_writers q = set_mset (waiting_writers (qstate q))
     \<and> distinct (map wid (writers (qstate q)))
     \<and> (\<forall>i\<in>open_readers q \<union> open_writers q. i < next_id q)"

text \<open>A queue whose only write is parked, with or without a reader waiting.\<close>

definition stuck :: "nat \<Rightarrow> bytes \<Rightarrow> nat option \<Rightarrow> queue_state" where
  "stuck c b r = \<lparr>cap = c, chunks = [], held = 0, ended = False, reader = r, writers = [\<lparr>wid = 0, wbytes = b\<rparr>]\<rparr>"

section \<open>Lemmas: the two loops\<close>

lemma join_concat [simp]: "join parts = concat parts"
  by (auto simp: join_def split: list.splits)

lemma release_loop_spec:
  assumes "release_loop c cs h ws es = (cs', h', ws', es')"
  shows "\<exists>done. ws = done @ ws' \<and> cs' = cs @ map wbytes done
      \<and> h' = h + length (concat (map wbytes done))
      \<and> es' = es @ map (\<lambda>w. ToWriter (wid w) True) done
      \<and> (ws' \<noteq> [] \<longrightarrow> 0 < c \<and> c < h' + length (wbytes (hd ws')))
      \<and> (0 < c \<longrightarrow> h \<le> c \<longrightarrow> h' \<le> c)"
  using assms
proof (induction c cs h ws es arbitrary: cs' h' ws' es' rule: release_loop.induct)
  case (1 c cs h es)
  then show ?case by simp
next
  case (2 c cs h w ws es)
  show ?case
  proof (cases "0 < c \<and> c < h + length (wbytes w)")
    case True
    with "2.prems" show ?thesis by (intro exI [of _ "[]"]) auto
  next
    case False
    with "2.prems" have "release_loop c (cs @ [wbytes w]) (h + length (wbytes w)) ws (es @ [ToWriter (wid w) True]) = (cs', h', ws', es')"
      by simp
    from "2.IH" [OF False this] obtain "done" where "ws = done @ ws'" "cs' = (cs @ [wbytes w]) @ map wbytes done"
      "h' = h + length (wbytes w) + length (concat (map wbytes done))"
      "es' = (es @ [ToWriter (wid w) True]) @ map (\<lambda>w. ToWriter (wid w) True) done"
      "ws' \<noteq> [] \<longrightarrow> 0 < c \<and> c < h' + length (wbytes (hd ws'))"
      "0 < c \<longrightarrow> h + length (wbytes w) \<le> c \<longrightarrow> h' \<le> c"
      by blast
    with False show ?thesis
      by (intro exI [of _ "w # done"]) auto
  qed
qed

lemma take_loop_spec:
  assumes "take_loop limit cs parts got = (cs', parts', got')" "got \<le> limit"
  shows "concat parts' @ concat cs' = concat parts @ concat cs
    \<and> length (concat parts') + got = length (concat parts) + got'
    \<and> got' \<le> limit \<and> ([] \<notin> set cs \<longrightarrow> [] \<notin> set cs')
    \<and> (got' < limit \<longrightarrow> cs' = [])"
  using assms
proof (induction limit cs parts got arbitrary: cs' parts' got' rule: take_loop.induct)
  case (1 limit parts got)
  then show ?case by auto
next
  case (2 limit c cs parts got)
  show ?case
  proof (cases "got < limit \<and> got + length c \<le> limit")
    case True
    with "2.prems" "2.IH" show ?thesis by fastforce
  next
    case False
    with "2.prems" show ?thesis by (auto simp: Let_def split: if_splits)
  qed
qed

lemma take_bytes_None [simp]: "chunks s = [] \<Longrightarrow> take_bytes s limit = (s, None)"
  by (simp add: take_bytes_def)

lemma take_bytes_Some:
  assumes "chunks s \<noteq> []" "held s = length (stream s)"
  obtains cs t where "take_bytes s limit = (s\<lparr>chunks := cs, held := held s - length t\<rparr>, Some t)"
    "t @ concat cs = stream s" "length t \<le> limit" "[] \<notin> set (chunks s) \<longrightarrow> [] \<notin> set cs"
    "length t < limit \<longrightarrow> cs = []"
proof -
  obtain cs parts got where tl: "take_loop limit (chunks s) [] 0 = (cs, parts, got)"
    by (metis prod_cases3)
  from take_loop_spec [OF this] have *: "concat parts @ concat cs = stream s"
    "length (concat parts) = got" "got \<le> limit" "[] \<notin> set (chunks s) \<longrightarrow> [] \<notin> set cs"
    "got < limit \<longrightarrow> cs = []"
    by (auto simp: stream_def)
  show thesis
    by (rule that [where t = "concat parts" and cs = cs]) (use assms(1) tl * in \<open>simp_all add: take_bytes_def\<close>)
qed

text \<open>A read of a queue with bytes in it: what it takes, and the writers its room lets in.\<close>

lemma apply_Next_taken:
  assumes "chunks s \<noteq> []" "held s = length (stream s)"
  obtains s' t ok where
    "apply_event s (Next i limit) = (s', ToReader i t # map (\<lambda>w. ToWriter (wid w) True) ok)"
    "writers s = ok @ writers s'" "t @ stream s' = stream s @ concat (map wbytes ok)"
    "held s' = length (stream s')" "cap s' = cap s" "ended s' = ended s" "reader s' = reader s"
    "writers s' \<noteq> [] \<longrightarrow> \<not> fits s' (wbytes (hd (writers s')))"
    "[] \<notin> set (chunks s) \<longrightarrow> (\<forall>w\<in>set (writers s). wbytes w \<noteq> []) \<longrightarrow> [] \<notin> set (chunks s')"
    "0 < cap s \<longrightarrow> held s \<le> cap s \<longrightarrow> held s' \<le> cap s'" "length t \<le> limit"
    "length t < limit \<longrightarrow> ok = [] \<longrightarrow> chunks s' = []"
proof -
  from take_bytes_Some [OF assms, of limit] obtain cs t where
    t: "take_bytes s limit = (s\<lparr>chunks := cs, held := held s - length t\<rparr>, Some t)"
    "t @ concat cs = stream s" "length t \<le> limit" "[] \<notin> set (chunks s) \<longrightarrow> [] \<notin> set cs"
    "length t < limit \<longrightarrow> cs = []"
    by blast
  obtain cs' h' ws' es' where rl: "release_loop (cap s) cs (held s - length t) (writers s) [] = (cs', h', ws', es')"
    by (metis prod_cases4)
  from release_loop_spec [OF this] obtain ok where
    ok: "writers s = ok @ ws'" "cs' = cs @ map wbytes ok"
      "h' = held s - length t + length (concat (map wbytes ok))"
      "es' = map (\<lambda>w. ToWriter (wid w) True) ok"
      "ws' \<noteq> [] \<longrightarrow> 0 < cap s \<and> cap s < h' + length (wbytes (hd ws'))"
      "0 < cap s \<longrightarrow> held s - length t \<le> cap s \<longrightarrow> h' \<le> cap s"
    by auto
  have len: "length (stream s) = length t + length (concat cs)"
    using t(2) by (metis length_append)
  let ?s = "s\<lparr>chunks := cs', held := h', writers := ws'\<rparr>"
  have st: "stream ?s = concat cs @ concat (map wbytes ok)"
    by (simp add: stream_def ok(2))
  have ap: "apply_event s (Next i limit) = (?s, ToReader i t # map (\<lambda>w. ToWriter (wid w) True) ok)"
    by (simp add: t(1) releaseRoom_def rl ok(4))
  have le: "0 < cap s \<longrightarrow> held s \<le> cap s \<longrightarrow> held ?s \<le> cap ?s"
    using ok(6) by auto
  have ne: "[] \<notin> set (chunks s) \<longrightarrow> (\<forall>w\<in>set (writers s). wbytes w \<noteq> []) \<longrightarrow> [] \<notin> set (chunks ?s)"
    using t(4) by (auto simp: ok(1,2) dest!: sym [of "[]"])
  have seq: "t @ stream ?s = stream s @ concat (map wbytes ok)"
    by (simp add: st flip: t(2))
  have hl: "held ?s = length (stream ?s)"
    using assms(2) len unfolding st by (simp add: ok(3))
  have nf: "writers ?s \<noteq> [] \<longrightarrow> \<not> fits ?s (wbytes (hd (writers ?s)))"
    using ok(5) by (auto simp: fits_def)
  show thesis
    by (rule that [OF ap _ seq hl _ _ _ nf ne le t(3)]) (use t(5) ok(1,2) in simp_all)
qed

section \<open>The invariant\<close>

lemma queue_ok_empty: "queue_ok (emptyQueue c)"
  by (simp add: queue_ok_def emptyQueue_def stream_def)

lemma queue_ok_end: "queue_ok s \<Longrightarrow> queue_ok (fst (end_stream s))"
  by (simp add: queue_ok_def end_stream_def stream_def)

lemma queue_ok_push: "queue_ok s \<Longrightarrow> queue_ok (fst (apply_event s (Push i b)))"
  by (auto simp: queue_ok_def stream_def fits_def hd_append split: option.splits)

lemma queue_ok_next: 
  assumes "queue_ok s" shows "queue_ok (fst (apply_event s (Next i limit)))"
proof (cases "chunks s = []")
  case True
  with assms show ?thesis by (auto simp: queue_ok_def stream_def fits_def)
next
  case False
  from assms have "held s = length (stream s)" by (simp add: queue_ok_def)
  with False show ?thesis
    by (rule apply_Next_taken [where i = i and limit = limit]) (use assms False in \<open>auto simp: queue_ok_def\<close>)
qed

lemma queue_ok_endWith: "queue_ok s \<Longrightarrow> queue_ok (fst (apply_event s (EndWith b)))"
  by (auto simp: queue_ok_def end_stream_def stream_def split: option.splits)

lemma queue_ok_step: "queue_ok s \<Longrightarrow> queue_ok (fst (apply_event s e))"
  by (cases e) (simp_all only: queue_ok_push queue_ok_next queue_ok_endWith apply_event.simps(3) queue_ok_end)

interpretation qm: event_machine "emptyQueue c" apply_event queue_ok for c
  by unfold_locales (rule queue_ok_empty, rule queue_ok_step)

section \<open>The byte stream\<close>

lemma delivered_append [simp]: "delivered (es @ es') = delivered es @ delivered es'"
  by (induction es rule: delivered.induct) auto

lemma delivered_writers [simp]: "delivered (map (\<lambda>w. ToWriter (f w) ok) ws) = []"
  by (induction ws) auto

lemma acks_append [simp]: "acks (es @ es') = acks es @ acks es'"
  by (induction es rule: acks.induct) auto

lemma acks_released [simp]: "acks (map (\<lambda>w. ToWriter (wid w) True) ws) = map wid ws"
  by (induction ws) auto

lemma acks_refused [simp]: "acks (map (\<lambda>w. ToWriter (wid w) False) ws) = []"
  by (induction ws) auto

lemma writer_ids_append [simp]: "writer_ids (es @ es') = writer_ids es + writer_ids es'"
  by (induction es rule: writer_ids.induct) auto

lemma reader_ids_append [simp]: "reader_ids (es @ es') = reader_ids es + reader_ids es'"
  by (induction es rule: reader_ids.induct) auto

lemma writer_ids_writers [simp]: "writer_ids (map (\<lambda>w. ToWriter (wid w) ok) ws) = mset (map wid ws)"
  by (induction ws) auto

lemma reader_ids_writers [simp]: "reader_ids (map (\<lambda>w. ToWriter (wid w) ok) ws) = {#}"
  by (induction ws) auto

lemma apply_Next_empty [simp]:
  "chunks s = [] \<Longrightarrow> apply_event s (Next i limit) =
     (if ended s then (s, [ToReader i []])
      else (s\<lparr>reader := Some i\<rparr>, (case reader s of None \<Rightarrow> [] | Some r \<Rightarrow> [ToReader r []])))"
  by simp

declare apply_event.simps(2) [simp del]

text \<open>One event: either nothing was taken, or the read took.\<close>

lemma event_cases [consumes 1, case_names taken other]:
  assumes "queue_ok s"
  obtains i limit s' t ok where "e = Next i limit"
    "apply_event s e = (s', ToReader i t # map (\<lambda>w. ToWriter (wid w) True) ok)"
    "writers s = ok @ writers s'" "t @ stream s' = stream s @ concat (map wbytes ok)"
    "ended s' = ended s" "reader s' = reader s" "chunks s \<noteq> []"
  | "\<And>i limit. e = Next i limit \<Longrightarrow> chunks s = []"
proof (cases "\<exists>i limit. e = Next i limit \<and> chunks s \<noteq> []")
  case True
  then obtain i limit where e: "e = Next i limit" and c: "chunks s \<noteq> []" by blast
  from assms have h: "held s = length (stream s)" by (simp add: queue_ok_def)
  from apply_Next_taken [OF c h, of i limit] obtain s' t ok where
    "apply_event s e = (s', ToReader i t # map (\<lambda>w. ToWriter (wid w) True) ok)"
    "writers s = ok @ writers s'" "t @ stream s' = stream s @ concat (map wbytes ok)"
    "ended s' = ended s" "reader s' = reader s"
    unfolding e by blast
  from that(1) [OF e this c] show thesis .
next
  case False
  then show thesis by (intro that(2)) auto
qed

lemma step_bytes:
  assumes ok: "queue_ok s" and pk: "parked_as pay s" and e: "pays pay e"
  shows "delivered (snd (apply_event s e)) @ stream (fst (apply_event s e))
       = stream s @ concat (map pay (acks (snd (apply_event s e)))) @ line_of s e"
    and "parked_as pay (fst (apply_event s e))"
proof -
  show "delivered (snd (apply_event s e)) @ stream (fst (apply_event s e))
       = stream s @ concat (map pay (acks (snd (apply_event s e)))) @ line_of s e"
  using ok proof (cases rule: event_cases [where e = e])
    case (taken i limit s' t okw)
    moreover from pk taken have "map wbytes okw = map (pay \<circ> wid) okw" by (auto simp: parked_as_def)
    ultimately show ?thesis by (simp add: line_of_def)
  next
    case other
    with ok e show ?thesis
      by (cases e) (auto simp: queue_ok_def stream_def line_of_def end_stream_def split: option.splits)
  qed
  show "parked_as pay (fst (apply_event s e))"
  using ok proof (cases rule: event_cases [where e = e])
    case (taken i limit s' t okw)
    with pk show ?thesis by (simp add: parked_as_def)
  next
    case other
    with pk e show ?thesis
      by (cases e) (auto simp: parked_as_def end_stream_def split: option.splits)
  qed
qed

lemma step_ended:
  assumes "queue_ok s"
  shows "ended (fst (apply_event s e)) \<longleftrightarrow> ended s \<or> e = End \<or> (\<exists>b. e = EndWith b)"
  using assms proof (cases rule: event_cases [where e = e])
  case other
  then show ?thesis by (cases e) (auto simp: end_stream_def split: option.splits)
qed auto

lemma acks_ended:
  assumes "queue_ok s" "ended s"
  shows "acks (snd (apply_event s e)) = []"
  using assms(1) proof (cases rule: event_cases [where e = e])
  case (taken i limit s' t okw)
  with assms show ?thesis by (auto simp: queue_ok_def)
next
  case other
  with assms show ?thesis by (cases e) (auto simp: queue_ok_def end_stream_def split: option.splits)
qed

lemma acks_ended_run:
  "queue_ok s \<Longrightarrow> ended s \<Longrightarrow> acks (snd (run_machine apply_event s es)) = []"
proof (induction es arbitrary: s)
  case (Cons e es)
  have "acks (snd (run_machine apply_event (fst (apply_event s e)) es)) = []"
    using Cons.prems by (intro Cons.IH queue_ok_step) (simp_all add: step_ended)
  with acks_ended [OF Cons.prems, of e] show ?case
    by simp
qed simp

lemma run_bytes:
  assumes "queue_ok s" "parked_as pay s" "\<forall>e\<in>set es. pays pay e"
  shows "delivered (snd (run_machine apply_event s es)) @ stream (fst (run_machine apply_event s es))
       = stream s @ concat (map pay (acks (snd (run_machine apply_event s es)))) 
         @ (if ended s then [] else final_line es)"
  using assms
proof (induction es arbitrary: s)
  case Nil
  then show ?case by simp
next
  case (Cons e es)
  obtain s' out where st: "apply_event s e = (s', out)" by fastforce
  obtain s'' out' where rn: "run_machine apply_event s' es = (s'', out')" by fastforce
  from Cons.prems st have ok': "queue_ok s'" and pk': "parked_as pay s'"
    using queue_ok_step [of s e] step_bytes(2) [of s pay e] by auto
  from Cons.prems(3) have "\<forall>e\<in>set es. pays pay e" by simp
  from Cons.IH [OF ok' pk' this] rn have ih: "delivered out' @ stream s'' = stream s' @ concat (map pay (acks out'))
     @ (if ended s' then [] else final_line es)" by simp
  from step_bytes(1) [of s pay e] Cons.prems st have
    one: "delivered out @ stream s' = stream s @ concat (map pay (acks out)) @ line_of s e" by simp
  have end': "ended s' \<longleftrightarrow> ended s \<or> e = End \<or> (\<exists>b. e = EndWith b)"
    using step_ended [OF Cons.prems(1), of e] st by simp
  have a: "acks out' = []" if "ended s'"
    using acks_ended_run [OF ok' that, of es] rn by simp
  have "(delivered out @ delivered out') @ stream s'' = (delivered out @ stream s') @ concat (map pay (acks out'))
     @ (if ended s' then [] else final_line es)" using ih by simp
  also have "\<dots> = stream s @ concat (map pay (acks out)) @ line_of s e @ concat (map pay (acks out'))
     @ (if ended s' then [] else final_line es)" by (simp only: one append_assoc)
  also have "\<dots> = stream s @ concat (map pay (acks (out @ out'))) @ (if ended s then [] else final_line (e # es))"
    using end' a by (cases e) (auto simp: line_of_def)
  finally show ?case by (simp add: st rn)
qed

section \<open>Every party is answered\<close>

lemma step_answers:
  assumes "queue_ok s"
  shows "waiting_writers s + push_ids [e] = writer_ids (snd (apply_event s e)) + waiting_writers (fst (apply_event s e))"
    and "waiting_readers s + next_ids [e] = reader_ids (snd (apply_event s e)) + waiting_readers (fst (apply_event s e))"
proof -
  show "waiting_writers s + push_ids [e] = writer_ids (snd (apply_event s e)) + waiting_writers (fst (apply_event s e))"
  using assms proof (cases rule: event_cases [where e = e])
    case (taken i limit s' t okw)
    then show ?thesis by (simp add: waiting_writers_def)
  next
    case other
    then show ?thesis
      by (cases e) (auto simp: waiting_writers_def end_stream_def split: option.splits)
  qed
  show "waiting_readers s + next_ids [e] = reader_ids (snd (apply_event s e)) + waiting_readers (fst (apply_event s e))"
  using assms proof (cases rule: event_cases [where e = e])
    case (taken i limit s' t okw)
    then show ?thesis by (simp add: waiting_readers_def)
  next
    case other
    then show ?thesis
      by (cases e) (auto simp: waiting_readers_def end_stream_def split: option.splits)
  qed
qed

lemma push_ids_Cons: "push_ids (e # es) = push_ids [e] + push_ids es"
  by (cases e) auto

lemma next_ids_Cons: "next_ids (e # es) = next_ids [e] + next_ids es"
  by (cases e) auto

lemma run_answers:
  assumes "queue_ok s"
  shows "waiting_writers s + push_ids es = writer_ids (snd (run_machine apply_event s es)) + waiting_writers (fst (run_machine apply_event s es))
     \<and> waiting_readers s + next_ids es = reader_ids (snd (run_machine apply_event s es)) + waiting_readers (fst (run_machine apply_event s es))"
  using assms
proof (induction es arbitrary: s)
  case (Cons e es)
  obtain s' out where st: "apply_event s e = (s', out)" by fastforce
  obtain s'' out' where rn: "run_machine apply_event s' es = (s'', out')" by fastforce
  have "queue_ok s'" using queue_ok_step [OF Cons.prems, of e] st by simp
  from Cons.IH [OF this] rn have ih: "waiting_writers s' + push_ids es = writer_ids out' + waiting_writers s''"
    "waiting_readers s' + next_ids es = reader_ids out' + waiting_readers s''" by simp_all
  from step_answers [OF Cons.prems, of e] st have one: "waiting_writers s + push_ids [e] = writer_ids out + waiting_writers s'"
    "waiting_readers s + next_ids [e] = reader_ids out + waiting_readers s'" by simp_all
  have "waiting_writers s + push_ids (e # es) = (waiting_writers s + push_ids [e]) + push_ids es"
    "waiting_readers s + next_ids (e # es) = (waiting_readers s + next_ids [e]) + next_ids es"
    by (simp_all add: push_ids_Cons [of e es] next_ids_Cons [of e es])
  then show ?case
    by (simp add: st rn one ih add.assoc)
qed simp

section \<open>The driver keeps its promises\<close>

text \<open>The resolver drops nothing when every effect names an open party, once.\<close>

lemma resolve_all:
  assumes "set_mset (reader_ids es) \<subseteq> open_readers q" "set_mset (writer_ids es) \<subseteq> open_writers q"
    and "\<And>i. count (reader_ids es) i \<le> 1" "\<And>i. count (writer_ids es) i \<le> 1"
  shows "resolve q es = (q\<lparr>open_readers := open_readers q - set_mset (reader_ids es),
            open_writers := open_writers q - set_mset (writer_ids es)\<rparr>, es)"
  using assms
proof (induction q es rule: resolve.induct)
  case (1 q)
  then show ?case by simp
next
  case (2 q i b es)
  have ni: "i \<notin># reader_ids es"
    using "2.prems"(3) [of i] by (simp add: not_in_iff)
  have c: "count (reader_ids es) j \<le> 1" "count (writer_ids es) j \<le> 1" for j
    using "2.prems"(3) [of j] "2.prems"(4) [of j] by (auto split: if_splits)
  have "resolve (q\<lparr>open_readers := open_readers q - {i}\<rparr>) es =
    (q\<lparr>open_readers := open_readers q - {i} - set_mset (reader_ids es),
       open_writers := open_writers q - set_mset (writer_ids es)\<rparr>, es)"
    using "2.IH" [OF _ _ c] "2.prems"(1,2) ni by auto
  moreover have "open_readers q - {i} - set_mset (reader_ids es) = open_readers q - set_mset (reader_ids (ToReader i b # es))"
    by auto
  ultimately show ?case using "2.prems"(1) by simp
next
  case (3 q i ok es)
  have ni: "i \<notin># writer_ids es"
    using "3.prems"(4) [of i] by (simp add: not_in_iff)
  have c: "count (reader_ids es) j \<le> 1" "count (writer_ids es) j \<le> 1" for j
    using "3.prems"(3) [of j] "3.prems"(4) [of j] by (auto split: if_splits)
  have "resolve (q\<lparr>open_writers := open_writers q - {i}\<rparr>) es =
    (q\<lparr>open_readers := open_readers q - set_mset (reader_ids es),
       open_writers := open_writers q - {i} - set_mset (writer_ids es)\<rparr>, es)"
    using "3.IH" [OF _ _ c] "3.prems"(1,2) ni by auto
  moreover have "open_writers q - {i} - set_mset (writer_ids es) = open_writers q - set_mset (writer_ids (ToWriter i ok # es))"
    by auto
  ultimately show ?case using "3.prems"(2) by simp
qed

lemma distinct_waiting: "distinct (map wid (writers s)) \<longleftrightarrow> (\<forall>i. count (waiting_writers s) i \<le> 1)"
proof
  assume "distinct (map wid (writers s))"
  then show "\<forall>i. count (waiting_writers s) i \<le> 1"
    unfolding waiting_writers_def distinct_count_atmost_1 by simp
next
  assume le: "\<forall>i. count (waiting_writers s) i \<le> 1"
  have "count (waiting_writers s) i = (if i \<in> set (map wid (writers s)) then 1 else 0)" for i
  proof (cases "i \<in> set (map wid (writers s))")
    case True
    then have "i \<in># waiting_writers s" by (simp add: waiting_writers_def)
    then have "0 < count (waiting_writers s) i" by simp
    with le [rule_format, of i] have "count (waiting_writers s) i = 1" by linarith
    with True show ?thesis by simp
  qed (auto simp: waiting_writers_def count_eq_zero_iff)
  then show "distinct (map wid (writers s))"
    unfolding waiting_writers_def distinct_count_atmost_1 by blast
qed

lemma count_disjoint:
  assumes "\<And>i. count A i + count B i \<le> (1::nat)"
  shows "set_mset A \<inter> set_mset B = {}"
proof -
  have False if "i \<in># A" "i \<in># B" for i
  proof -
    from that have "0 < count A i" "0 < count B i" by simp_all
    with assms [of i] show False by linarith
  qed
  then show ?thesis by blast
qed

lemma count_waiting_readers: "count (waiting_readers s) i \<le> 1"
  by (simp add: waiting_readers_def split: option.splits)

text \<open>
  Running an event whose parties are registered: everything is delivered, and the open
  parties afterwards are the waiting ones.
\<close>

lemma bq_run_ok:
  assumes "queue_ok (qstate q)"
    and or: "open_readers q = set_mset (waiting_readers (qstate q) + next_ids [e])"
    and ow: "open_writers q = set_mset (waiting_writers (qstate q) + push_ids [e])"
    and cr: "\<And>i. count (waiting_readers (qstate q) + next_ids [e]) i \<le> 1"
    and cw: "\<And>i. count (waiting_writers (qstate q) + push_ids [e]) i \<le> 1"
    and lt: "\<forall>i\<in>open_readers q \<union> open_writers q. i < next_id q"
  shows "bq_ok (fst (bq_run q e)) \<and> snd (bq_run q e) = snd (apply_event (qstate q) e)
     \<and> qstate (fst (bq_run q e)) = fst (apply_event (qstate q) e) \<and> next_id (fst (bq_run q e)) = next_id q"
proof -
  obtain s es where st: "apply_event (qstate q) e = (s, es)" by fastforce
  note ans = step_answers [OF assms(1), of e, unfolded st fst_conv snd_conv]
  have r: "count (reader_ids es) i + count (waiting_readers s) i \<le> 1" for i
    using cr [of i] unfolding ans(2) by simp
  have w: "count (writer_ids es) i + count (waiting_writers s) i \<le> 1" for i
    using cw [of i] unfolding ans(1) by simp
  have dr: "set_mset (reader_ids es) \<inter> set_mset (waiting_readers s) = {}"
    by (rule count_disjoint) (rule r)
  have dw: "set_mset (writer_ids es) \<inter> set_mset (waiting_writers s) = {}"
    by (rule count_disjoint) (rule w)
  have run: "bq_run q e = (q\<lparr>qstate := s, open_readers := open_readers q - set_mset (reader_ids es),
      open_writers := open_writers q - set_mset (writer_ids es)\<rparr>, es)"
    unfolding bq_run_def st prod.case
    by (subst resolve_all) (use r w or ow ans in \<open>auto intro: add_leD1\<close>)
  have "queue_ok s" using queue_ok_step [OF assms(1), of e] st by simp
  moreover have "open_readers q - set_mset (reader_ids es) = set_mset (waiting_readers s)"
    using dr or ans(2) by auto
  moreover have "open_writers q - set_mset (writer_ids es) = set_mset (waiting_writers s)"
    using dw ow ans(1) by auto
  moreover have "distinct (map wid (writers s))"
    using w by (auto simp: distinct_waiting intro: add_leD2)
  ultimately show ?thesis using lt st run by (auto simp: bq_ok_def)
qed

lemma bq_step_ok:
  assumes "bq_ok q"
  shows "bq_ok (fst (bq_step q c)) \<and> snd (bq_step q c) = snd (apply_event (qstate q) (event_of (next_id q) c))
     \<and> qstate (fst (bq_step q c)) = fst (apply_event (qstate q) (event_of (next_id q) c))
     \<and> next_id (fst (bq_step q c)) = (if takes_id c then Suc (next_id q) else next_id q)"
proof -
  from assms have ok: "queue_ok (qstate q)" "open_readers q = set_mset (waiting_readers (qstate q))"
    "open_writers q = set_mset (waiting_writers (qstate q))"
    "\<And>i. count (waiting_writers (qstate q)) i \<le> 1"
    and lt: "\<forall>i\<in>open_readers q \<union> open_writers q. i < next_id q"
    by (auto simp: bq_ok_def distinct_waiting)
  have n: "count (waiting_writers (qstate q)) (next_id q) = 0" "count (waiting_readers (qstate q)) (next_id q) = 0"
    using lt ok(2,3) by (auto simp: count_eq_zero_iff)
  have w1: "count (waiting_writers (qstate q) + push_ids [Push (next_id q) b]) i \<le> 1" for i b
    using ok(4) [of i] n(1) by auto
  have r1: "count (waiting_readers (qstate q) + next_ids [Next (next_id q) l]) i \<le> 1" for i l
    using count_waiting_readers [of "qstate q" i] n(2) by auto
  show ?thesis
  proof (cases c)
    case (CallPush b)
    let ?q = "q\<lparr>next_id := Suc (next_id q), open_writers := insert (next_id q) (open_writers q)\<rparr>"
    show ?thesis
      using bq_run_ok [of ?q "Push (next_id q) b"] ok lt count_waiting_readers [of "qstate q"] w1 [of b]
      by (simp add: CallPush bq_push_def Let_def less_Suc_eq del: apply_event.simps)
  next
    case CallNext
    let ?q = "q\<lparr>next_id := Suc (next_id q), open_readers := insert (next_id q) (open_readers q)\<rparr>"
    show ?thesis
      using bq_run_ok [of ?q "Next (next_id q) CHUNK"] ok lt r1 [of CHUNK]
      by (simp add: CallNext bq_next_def Let_def less_Suc_eq del: apply_event.simps)
  next
    case CallEnd
    show ?thesis
      using bq_run_ok [of q End] ok lt count_waiting_readers [of "qstate q"]
      by (simp add: CallEnd bq_end_def del: apply_event.simps)
  next
    case (CallEndWith b)
    show ?thesis
      using bq_run_ok [of q "EndWith b"] ok lt count_waiting_readers [of "qstate q"]
      by (simp add: CallEndWith bq_endWith_def del: apply_event.simps)
  qed
qed

lemma bq_ok_new: "bq_ok (new_ByteQueue c)"
  using queue_ok_empty [of c]
  by (simp add: bq_ok_def new_ByteQueue_def emptyQueue_def waiting_readers_def waiting_writers_def)

interpretation bq: event_machine "new_ByteQueue c" bq_step bq_ok for c
  by unfold_locales (simp_all add: bq_ok_new bq_step_ok)

lemma bq_refines_from:
  assumes "bq_ok q"
  shows "snd (run_machine bq_step q cs) = snd (run_machine apply_event (qstate q) (events_of (next_id q) cs))
     \<and> qstate (fst (run_machine bq_step q cs)) = fst (run_machine apply_event (qstate q) (events_of (next_id q) cs))"
  using assms
proof (induction cs arbitrary: q)
  case (Cons c cs)
  obtain q' out where st: "bq_step q c = (q', out)" by fastforce
  from bq_step_ok [OF Cons.prems, of c] st have "bq_ok q'" and
    o: "apply_event (qstate q) (event_of (next_id q) c) = (qstate q', out)"
    "next_id q' = (if takes_id c then Suc (next_id q) else next_id q)"
    by (auto simp: prod_eq_iff simp del: apply_event.simps)
  from Cons.IH [OF this(1)] show ?case
    by (simp add: st o del: apply_event.simps)
qed simp

text \<open>\<open>rest\<close> on a stream that has ended: one turn at most per byte.\<close>

lemma rest_loop_ended:
  assumes "queue_ok s" "ended s" "length (stream s) < fuel"
  shows "rest_loop fuel s parts = Some (concat parts @ stream s)"
  using assms
proof (induction fuel arbitrary: s parts)
  case (Suc n)
  show ?case
  proof (cases "chunks s = []")
    case True
    with Suc.prems show ?thesis by (simp add: stream_def)
  next
    case False
    from Suc.prems have hl: "held s = length (stream s)" and nw: "writers s = []"
      by (simp_all add: queue_ok_def)
    obtain s' t where st: "apply_event s (Next 0 CHUNK) = (s', [ToReader 0 t])"
      "t @ stream s' = stream s" "ended s'" "length t < CHUNK \<longrightarrow> chunks s' = []"
      by (rule apply_Next_taken [OF False hl, of 0 CHUNK]) (use nw Suc.prems(2) in simp)
    show ?thesis
    proof (cases "t = []")
      case True
      with st(4) have "stream s' = []" by (simp add: stream_def CHUNK_def)
      with st True show ?thesis by simp
    next
      case False
      have "queue_ok s'" using queue_ok_step [OF Suc.prems(1), of "Next 0 CHUNK"] st(1) by simp
      moreover have "length (stream s') < n"
      proof -
        have "length (stream s) = length t + length (stream s')" by (metis st(2) length_append)
        moreover have "0 < length t" using False by simp
        ultimately show ?thesis using Suc.prems(3) by linarith
      qed
      ultimately have "rest_loop n s' (parts @ [t]) = Some (concat parts @ t @ stream s')"
        using Suc.IH [of s' "parts @ [t]"] st(3) by simp
      with st(1) False show ?thesis by (simp add: st(2))
    qed
  qed
qed simp

text \<open>A reader and a writer both waiting: only a write larger than the cap does that.\<close>

lemma both_waiting_oversized:
  assumes "queue_ok s" "reader s \<noteq> None" "writers s \<noteq> []"
  shows "0 < cap s" "cap s < length (wbytes (hd (writers s)))"
  using assms by (auto simp: queue_ok_def fits_def stream_def)

lemma cap_step: "cap (fst (apply_event s e)) = cap s"
  by (cases e) (auto simp: end_stream_def apply_event.simps(2) take_bytes_def releaseRoom_def split: option.splits prod.splits)

lemma parked_within_step:
  assumes "queue_ok s" "parked_within c s" "push_within c e"
  shows "parked_within c (fst (apply_event s e))"
  using assms(1) proof (cases rule: event_cases [where e = e])
  case (taken i limit s' t okw)
  with assms(2) cap_step [of s e] show ?thesis by (auto simp: parked_within_def)
next
  case other
  with assms(2,3) show ?thesis
    by (cases e) (auto simp: parked_within_def end_stream_def split: option.splits)
qed

lemma parked_within_run:
  assumes "queue_ok s" "parked_within c s" "\<forall>e\<in>set es. push_within c e"
  shows "parked_within c (fst (run_machine apply_event s es))"
  using assms
proof (induction es arbitrary: s)
  case (Cons e es)
  have "parked_within c (fst (run_machine apply_event (fst (apply_event s e)) es))"
    using Cons.prems by (intro Cons.IH queue_ok_step parked_within_step) simp_all
  then show ?case by simp
qed simp

text \<open>A queue whose one write is larger than its cap answers every read with nothing.\<close>

lemma stuck_next: "apply_event (stuck c b r) (Next i l) =
   (stuck c b (Some i), case r of None \<Rightarrow> [] | Some r \<Rightarrow> [ToReader r []])"
  by (simp add: stuck_def)

lemma stuck_run:
  "delivered (snd (run_machine apply_event (stuck c b r) (map (\<lambda>i. Next i l) is))) = []
   \<and> writers (fst (run_machine apply_event (stuck c b r) (map (\<lambda>i. Next i l) is))) = [\<lparr>wid = 0, wbytes = b\<rparr>]
   \<and> acks (snd (run_machine apply_event (stuck c b r) (map (\<lambda>i. Next i l) is))) = []"
proof (induction "is" arbitrary: r)
  case Nil
  then show ?case by (simp add: stuck_def)
next
  case (Cons i "is")
  from Cons [of "Some i"] show ?case
    by (simp add: stuck_next split: option.splits)
qed

section \<open>Properties\<close>

text \<open>
  C10. After every sequence of pushes, reads and ends, in every interleaving, the queue is
  well formed: the byte count is that of the chunks, a waiting reader means nothing is
  queued, an ended stream has nobody waiting, a writer is parked only if the one at the
  head of the line does not fit, no empty chunk is queued on a live stream, and a live
  capped queue holds no more than its cap.
\<close>

theorem queue_invariant: "queue_ok (fst (run_machine apply_event (emptyQueue c) es))"
  by (rule qm.inv_run)

text \<open>
  C8. A queue is a byte stream: over every history of events, what the readers were handed
  followed by what is still queued is exactly the bytes of the acknowledged writes, in the
  order of their acknowledgements, followed by the final line of an \<open>endWith\<close> that found the
  stream open. Nothing is lost, duplicated, reordered after acknowledgement, or delivered
  for a write that was refused or is still parked.
\<close>

theorem queue_stream:
  assumes "\<forall>e\<in>set es. pays pay e"
    and "run_machine apply_event (emptyQueue c) es = (s, out)"
  shows "delivered out @ stream s = concat (map pay (acks out)) @ final_line es"
proof -
  have "parked_as pay (emptyQueue c)" "stream (emptyQueue c) = []" "\<not> ended (emptyQueue c)"
    by (simp_all add: parked_as_def emptyQueue_def stream_def)
  with run_bytes [OF queue_ok_empty _ assms(1)] assms(2) show ?thesis
    by fastforce
qed

theorem queue_stream_witness:
  "\<exists>s out. run_machine apply_event (emptyQueue 4)
      [Push 0 [1, 2, 3], Push 1 [4, 5], Next 2 2, EndWith [9], Next 3 65536] = (s, out)
    \<and> delivered out @ stream s = [1, 2, 3, 4, 5, 9]"
proof -
  define pay :: "nat \<Rightarrow> bytes" where "pay = (\<lambda>i. if i = 0 then [1, 2, 3] else [4, 5])"
  let ?es = "[Push 0 [1, 2, 3], Push 1 [4, 5], Next 2 2, EndWith [9], Next 3 65536]"
  obtain s out where run: "run_machine apply_event (emptyQueue 4) ?es = (s, out)"
    by fastforce
  have "acks out = [0, 1]"
    using run
    by (simp add: run_machine.simps apply_event.simps emptyQueue_def take_bytes_def releaseRoom_def
        end_stream_def) auto
  moreover have "delivered out @ stream s = concat (map pay (acks out)) @ final_line ?es"
    using run by (intro queue_stream [where c = 4]) (simp_all add: pay_def)
  ultimately show ?thesis
    using run by (intro exI [of _ s] exI [of _ out]) (simp add: pay_def)
qed

text \<open>
  Everyone who asks is answered, once: over every history the ids of the pushes are the
  ids of the writers answered together with those still parked, as multisets, and the ids
  of the reads are the ids of the readers answered together with the one waiting.
\<close>

theorem queue_answers:
  "push_ids es = writer_ids (snd (run_machine apply_event (emptyQueue c) es))
       + waiting_writers (fst (run_machine apply_event (emptyQueue c) es))
   \<and> next_ids es = reader_ids (snd (run_machine apply_event (emptyQueue c) es))
       + waiting_readers (fst (run_machine apply_event (emptyQueue c) es))"
  using run_answers [OF queue_ok_empty, of c es]
  by (simp add: waiting_writers_def waiting_readers_def emptyQueue_def)

text \<open>
  C9. The driver refines the machine: over every sequence of calls on a new \<open>ByteQueue\<close> the
  promises settle with exactly the effects the machine produces on the same calls, none
  dropped, and the promises still open are those of the parties the machine has waiting.
\<close>

theorem driver_refines_machine:
  assumes "run_machine bq_step (new_ByteQueue c) cs = (q, settled)"
  shows "run_machine apply_event (emptyQueue c) (events_of 0 cs) = (qstate q, settled) \<and> bq_ok q"
proof -
  have "qstate (new_ByteQueue c) = emptyQueue c" "next_id (new_ByteQueue c) = 0"
    by (simp_all add: new_ByteQueue_def)
  with bq_refines_from [OF bq_ok_new, of c cs] bq.inv_run [of c cs] assms show ?thesis
    by (simp add: prod_eq_iff)
qed

theorem driver_refines_machine_witness:
  "\<exists>q settled. run_machine bq_step (new_ByteQueue 4) [CallPush [1], CallNext, CallNext] = (q, settled)
    \<and> run_machine apply_event (emptyQueue 4) (events_of 0 [CallPush [1], CallNext, CallNext])
        = (qstate q, settled) \<and> bq_ok q"
  by (metis driver_refines_machine surj_pair)

text \<open>
  \<open>rest\<close> on a stream that has ended, after any history, returns everything still queued,
  with one turn of its loop per byte and one more as enough fuel.
\<close>

theorem rest_returns_everything:
  assumes "s = fst (run_machine apply_event (emptyQueue c) es)" "ended s"
  shows "rest_loop (Suc (length (stream s))) s [] = Some (stream s)"
  using rest_loop_ended [of s "Suc (length (stream s))" "[]"] assms qm.inv_run [of c es] by simp

theorem rest_returns_everything_witness:
  "rest_loop 4 (fst (run_machine apply_event (emptyQueue 0) [Push 0 [1, 2], Push 1 [3], End])) []
     = Some [1, 2, 3]"
  using rest_returns_everything [of _ 0 "[Push 0 [1, 2], Push 1 [3], End]"]
  by (simp add: emptyQueue_def end_stream_def stream_def eval_nat_numeral)

text \<open>
  C11. A pipe whose writes each fit its cap never has both sides waiting: in every
  interleaving, if a reader waits then no writer is parked.
\<close>

theorem no_mutual_wait:
  assumes "\<forall>e\<in>set es. push_within c e"
    and "s = fst (run_machine apply_event (emptyQueue c) es)"
  shows "reader s = None \<or> writers s = []"
proof (rule ccontr)
  assume "\<not> (reader s = None \<or> writers s = [])"
  then have "reader s \<noteq> None" "hd (writers s) \<in> set (writers s)" "writers s \<noteq> []"
    by simp_all
  moreover have "queue_ok s" "parked_within c s"
    using assms qm.inv_run [of c es] parked_within_run [OF queue_ok_empty _ assms(1)]
    by (simp_all add: parked_within_def emptyQueue_def)
  ultimately show False
    using both_waiting_oversized [of s] by (simp add: parked_within_def) (metis hd_in_set leD)
qed

theorem no_mutual_wait_witness:
  "let s = fst (run_machine apply_event (emptyQueue 4) [Push 0 [1, 2, 3], Push 1 [4, 5], Next 2 65536])
   in reader s = None \<or> writers s = []"
proof -
  have "\<forall>e\<in>set [Push 0 [1, 2, 3], Push 1 [4, 5], Next 2 65536]. push_within 4 e" by simp
  from no_mutual_wait [OF this refl] show ?thesis unfolding Let_def .
qed

text \<open>
  A write larger than the cap onto an idle queue is never delivered: however often the
  stream is read afterwards, no byte reaches a reader and the write stays parked, although
  nothing else is queued. Each reader but the last is answered with the end-of-stream mark.
\<close>

theorem oversized_write_starves:
  assumes "0 < c" "c < length b"
    and "run_machine apply_event (emptyQueue c) (Push 0 b # map (\<lambda>i. Next i limit) ids) = (s, out)"
  shows "delivered out = [] \<and> acks out = [] \<and> writers s = [\<lparr>wid = 0, wbytes = b\<rparr>]"
proof -
  have "apply_event (emptyQueue c) (Push 0 b) = (stuck c b None, [])"
    using assms(1,2) by (auto simp: emptyQueue_def stuck_def)
  then show ?thesis
    using stuck_run [of c b None limit ids] assms(3) by (simp add: prod_eq_iff)
qed

theorem oversized_write_starves_witness:
  "\<exists>s out. run_machine apply_event (emptyQueue 2) (Push 0 [1, 2, 3] # map (\<lambda>i. Next i 65536) [1, 2]) = (s, out)
     \<and> delivered out = [] \<and> writers s = [\<lparr>wid = 0, wbytes = [1, 2, 3]\<rparr>]"
proof -
  obtain s out where
    "run_machine apply_event (emptyQueue 2) (Push 0 [1, 2, 3] # map (\<lambda>i. Next i 65536) [1, 2]) = (s, out)"
    by fastforce
  with oversized_write_starves [of 2 "[1, 2, 3]" 65536 "[1, 2]"] show ?thesis
    by auto
qed

text \<open>
  Writes are not always taken in the order they arrive: with a cap of four, a three-byte
  write parks behind a three-byte one, and a one-byte write that arrives later is queued
  and delivered ahead of it.
\<close>

theorem later_write_overtakes:
  "delivered (snd (run_machine apply_event (emptyQueue 4)
      [Push 0 [1, 1, 1], Push 1 [2, 2, 2], Push 2 [3], Next 3 65536, Next 4 65536]))
   = [1, 1, 1, 3, 2, 2, 2]"
  by (simp add: apply_event.simps emptyQueue_def take_bytes_def releaseRoom_def)

end
