(* ===== verification/Child_Life.thy ===== *)
theory Child_Life
  imports Utf8
begin

text \<open>
  \<open>packages/platform/host/childLife.ts\<close>: the life of a spawned child as a transition
  function over what the runtime may report about it, in any order and any number of
  times. The lemmas compute the state after an arbitrary history from the history's first
  event and first terminal event, and show that each promise is settled at most once and
  in the right order.
\<close>

section \<open>State, events, effects\<close>

datatype life_event =
    Ready
  | Result bool int
  | Error jsstring
  | Grace
  | Kill

record life_state =
  started :: bool
  loaded :: "jsstring option"
  exited :: "int option"
  shutDown :: bool

datatype life_effect =
    SettleLoaded jsstring
  | SettleExit int
  | Shutdown
  | SayOnStderr jsstring

type_synonym life_step_result = "life_state \<times> life_effect list"

definition newborn :: life_state where
  "newborn = \<lparr>started = False, loaded = None, exited = None, shutDown = False\<rparr>"

section \<open>Transitions\<close>

text \<open>
  The two closures of \<open>step\<close>, which update \<open>next\<close> and push onto \<open>effects\<close>, as functions on
  the pair of them.
\<close>

definition settleLoaded :: "jsstring \<Rightarrow> life_step_result \<Rightarrow> life_step_result" where
  "settleLoaded why r =
     (case r of (s, es) \<Rightarrow>
        if loaded s \<noteq> None then (s, es)
        else (s\<lparr>loaded := Some why\<rparr>, es @ [SettleLoaded why]))"

definition KILLED_EARLY :: jsstring where
  "KILLED_EARLY = js ''the child was killed before it reported ready''"

definition NOT_READY :: jsstring where
  "NOT_READY = js ''did not report ready within the grace''"

definition say :: "jsstring \<Rightarrow> life_step_result \<Rightarrow> life_step_result" where
  "say line r = (case r of (s, es) \<Rightarrow> (s, es @ [SayOnStderr line]))"

definition finish :: "int \<Rightarrow> life_step_result \<Rightarrow> life_step_result" where
  "finish code r =
     (if exited (fst r) \<noteq> None then r
      else case settleLoaded (if started (fst r) then [] else KILLED_EARLY) r of
        (s, es) \<Rightarrow>
          (case (if \<not> shutDown s then (s\<lparr>shutDown := True\<rparr>, es @ [Shutdown]) else (s, es)) of
             (s, es) \<Rightarrow> (s\<lparr>exited := Some code\<rparr>, es @ [SettleExit code])))"

definition start :: "life_step_result \<Rightarrow> life_step_result" where
  "start r = (case r of (s, es) \<Rightarrow> (s\<lparr>started := True\<rparr>, es))"

fun life_step :: "life_state \<Rightarrow> life_event \<Rightarrow> life_step_result" where
  "life_step s Ready = start (settleLoaded [] (s, []))"
| "life_step s (Result ok code) =
     (let r = start (settleLoaded [] (s, []));
          r = (if \<not> ok then say (js ''wac: <result error>'') r else r)
      in finish (if ok then code else -1) r)"
| "life_step s (Error message) =
     (let r = settleLoaded message (s, []);
          r = (if started (fst r) then say (js ''wac: '' @ message) r else r)
      in finish (-1) r)"
| "life_step s Grace = (if \<not> started s then settleLoaded NOT_READY (s, []) else (s, []))"
| "life_step s Kill = finish (-1) (s, [])"

section \<open>Specification\<close>

text \<open>What an event says about the load, if it is the first one, and what it says about the exit.\<close>

fun why_of :: "life_event \<Rightarrow> jsstring" where
  "why_of Ready = []"
| "why_of (Result ok code) = []"
| "why_of (Error m) = m"
| "why_of Grace = NOT_READY"
| "why_of Kill = KILLED_EARLY"

fun exit_of :: "life_event \<Rightarrow> int option" where
  "exit_of (Result ok code) = Some (if ok then code else -1)"
| "exit_of (Error m) = Some (-1)"
| "exit_of Kill = Some (-1)"
| "exit_of _ = None"

fun starts :: "life_event \<Rightarrow> bool" where
  "starts Ready = True"
| "starts (Result ok code) = True"
| "starts _ = False"

fun first_why :: "life_event list \<Rightarrow> jsstring option" where
  "first_why [] = None"
| "first_why (e # es) = Some (why_of e)"

fun first_exit :: "life_event list \<Rightarrow> int option" where
  "first_exit [] = None"
| "first_exit (e # es) = (case exit_of e of None \<Rightarrow> first_exit es | Some c \<Rightarrow> Some c)"

definition outcome :: "life_event list \<Rightarrow> life_state" where
  "outcome es =
     \<lparr>started = list_ex starts es, loaded = first_why es, exited = first_exit es,
      shutDown = (first_exit es \<noteq> None)\<rparr>"

text \<open>The settlements in a sequence of effects.\<close>

fun loads :: "life_effect list \<Rightarrow> jsstring list" where
  "loads [] = []"
| "loads (SettleLoaded w # es) = w # loads es"
| "loads (_ # es) = loads es"

fun exits :: "life_effect list \<Rightarrow> int list" where
  "exits [] = []"
| "exits (SettleExit c # es) = c # exits es"
| "exits (_ # es) = exits es"

fun shutdowns :: "life_effect list \<Rightarrow> nat" where
  "shutdowns [] = 0"
| "shutdowns (Shutdown # es) = Suc (shutdowns es)"
| "shutdowns (_ # es) = shutdowns es"

text \<open>Every exit is settled after a shutdown; \<open>d\<close> says that one has already happened.\<close>

fun exit_after_shutdown :: "bool \<Rightarrow> life_effect list \<Rightarrow> bool" where
  "exit_after_shutdown d [] = True"
| "exit_after_shutdown d (Shutdown # es) = exit_after_shutdown True es"
| "exit_after_shutdown d (SettleExit c # es) = (d \<and> exit_after_shutdown d es)"
| "exit_after_shutdown d (_ # es) = exit_after_shutdown d es"

definition opt_list :: "'a option \<Rightarrow> 'a list" where
  "opt_list x = (case x of None \<Rightarrow> [] | Some a \<Rightarrow> [a])"

definition life_ok :: "life_state \<Rightarrow> bool" where
  "life_ok s \<longleftrightarrow> (started s \<longrightarrow> loaded s \<noteq> None) \<and> (exited s \<noteq> None \<longrightarrow> loaded s \<noteq> None)
     \<and> (shutDown s \<longleftrightarrow> exited s \<noteq> None)"

section \<open>Lemmas\<close>

lemmas life_defs = settleLoaded_def say_def finish_def start_def Let_def

lemma life_ok_step: "life_ok s \<Longrightarrow> life_ok (fst (life_step s e))"
  by (cases e) (auto simp: life_ok_def life_defs)

interpretation life: event_machine newborn life_step life_ok
  by unfold_locales (simp_all add: life_ok_step, simp add: life_ok_def newborn_def)

lemma loads_append [simp]: "loads (xs @ ys) = loads xs @ loads ys"
  by (induction xs rule: loads.induct) auto

lemma exits_append [simp]: "exits (xs @ ys) = exits xs @ exits ys"
  by (induction xs rule: exits.induct) auto

lemma shutdowns_append [simp]: "shutdowns (xs @ ys) = shutdowns xs + shutdowns ys"
  by (induction xs rule: shutdowns.induct) auto

lemma exit_after_shutdown_append:
  "exit_after_shutdown d (xs @ ys) \<longleftrightarrow>
     exit_after_shutdown d xs \<and> exit_after_shutdown (d \<or> 0 < shutdowns xs) ys"
  by (induction d xs rule: exit_after_shutdown.induct) auto

text \<open>One event, as the change it makes to the outcome and to the settlements.\<close>

lemma life_step_state:
  assumes "life_ok s"
  shows "fst (life_step s e) =
     \<lparr>started = (started s \<or> starts e),
      loaded = (case loaded s of None \<Rightarrow> Some (why_of e) | Some w \<Rightarrow> Some w),
      exited = (case exited s of None \<Rightarrow> exit_of e | Some c \<Rightarrow> Some c),
      shutDown = (exited s \<noteq> None \<or> exit_of e \<noteq> None)\<rparr>"
  using assms by (cases e; cases s) (auto simp: life_ok_def life_defs split: option.splits)

lemma life_step_effects:
  assumes "life_ok s"
  shows "loads (snd (life_step s e)) = (if loaded s = None then [why_of e] else [])"
    and "exits (snd (life_step s e)) = (if exited s = None then opt_list (exit_of e) else [])"
    and "shutdowns (snd (life_step s e)) = (if exited s = None \<and> exit_of e \<noteq> None then 1 else 0)"
    and "exit_after_shutdown (shutDown s) (snd (life_step s e))"
  using assms by (cases e; auto simp: life_ok_def life_defs opt_list_def split: option.splits)+

lemma run_life_from:
  assumes "life_ok s" and "run_machine life_step s es = (s', out)"
  shows "started s' = (started s \<or> list_ex starts es)"
    and "loaded s' = (case loaded s of None \<Rightarrow> first_why es | Some w \<Rightarrow> Some w)"
    and "exited s' = (case exited s of None \<Rightarrow> first_exit es | Some c \<Rightarrow> Some c)"
    and "opt_list (loaded s) @ loads out = opt_list (loaded s')"
    and "opt_list (exited s) @ exits out = opt_list (exited s')"
    and "(if shutDown s then 1 else 0) + shutdowns out = (if shutDown s' then 1 else 0)"
    and "exit_after_shutdown (shutDown s) out"
  using assms
proof (atomize (full), induction es arbitrary: s out)
  case Nil
  then show ?case by (auto split: option.splits)
next
  case (Cons e es)
  obtain s1 o1 where st: "life_step s e = (s1, o1)" by fastforce
  obtain o2 where rn: "run_machine life_step s1 es = (s', o2)" and out: "out = o1 @ o2"
    using Cons.prems st by (auto simp: run_machine.simps split: prod.splits)
  have ok1: "life_ok s1" using life_ok_step [of s e] Cons.prems st by simp
  note ih = Cons.IH [OF ok1 rn]
  from life_step_state [of s e] Cons.prems st have s1: "started s1 = (started s \<or> starts e)"
    "loaded s1 = (case loaded s of None \<Rightarrow> Some (why_of e) | Some w \<Rightarrow> Some w)"
    "exited s1 = (case exited s of None \<Rightarrow> exit_of e | Some c \<Rightarrow> Some c)"
    "shutDown s1 = (exited s \<noteq> None \<or> exit_of e \<noteq> None)"
    by auto
  from life_step_effects [of s e] Cons.prems st have e1:
    "loads o1 = (if loaded s = None then [why_of e] else [])"
    "exits o1 = (if exited s = None then opt_list (exit_of e) else [])"
    "shutdowns o1 = (if exited s = None \<and> exit_of e \<noteq> None then 1 else 0)"
    "exit_after_shutdown (shutDown s) o1"
    by auto
  have sd: "shutDown s = (exited s \<noteq> None)"
    using Cons.prems by (simp add: life_ok_def)
  show ?case
    using ih s1 e1 sd unfolding out
    by (auto simp: opt_list_def exit_after_shutdown_append split: option.splits if_splits)
qed

section \<open>Properties\<close>

text \<open>
  What became of a child depends only on the order of events, and on little of it:
  \<open>loaded\<close> settles with what the first event of all says, the exit code is the one of the
  first terminal event (a result, an error or a kill), the streams are ended exactly when
  there was one, and nothing that arrives later (a \<open>ready\<close> after the grace timer, a second
  result, an error after a kill) changes any of them.
\<close>

theorem life_outcome: "fst (run_machine life_step newborn es) = outcome es"
proof -
  obtain s out where run: "run_machine life_step newborn es = (s, out)" by fastforce
  have "life_ok newborn" by (rule life.inv_init)
  note r = run_life_from [OF this run]
  have "life_ok s" using life.inv_run [of es] run by simp
  then have "shutDown s = (exited s \<noteq> None)" by (simp add: life_ok_def)
  with r(1-3) have "s = outcome es"
    by (simp add: outcome_def newborn_def)
  then show ?thesis
    by (simp add: run)
qed

text \<open>
  Each promise about a child is settled once and in the right order: over every history
  \<open>loaded\<close> and \<open>exit\<close> are settled at most once and with the values in the state, the shutdown
  happens at most once, and no exit is settled before the shutdown.
\<close>

theorem life_settles_once:
  assumes "run_machine life_step newborn es = (s, out)"
  shows "loads out = opt_list (loaded s) \<and> exits out = opt_list (exited s)
    \<and> shutdowns out = (if exited s = None then 0 else 1) \<and> exit_after_shutdown False out"
proof -
  note r = run_life_from [OF life.inv_init assms]
  have "life_ok s" using life.inv_run [of es] assms by simp
  with r(4-7) show ?thesis
    by (auto simp: newborn_def opt_list_def life_ok_def)
qed

theorem life_settles_once_witness:
  "\<exists>s out. run_machine life_step newborn [Grace, Ready, Kill, Result True 3] = (s, out)
     \<and> loads out = [NOT_READY] \<and> exits out = [-1] \<and> shutdowns out = 1"
proof -
  let ?es = "[Grace, Ready, Kill, Result True 3]"
  obtain s out where run: "run_machine life_step newborn ?es = (s, out)" by fastforce
  then have "loaded s = Some NOT_READY" "exited s = Some (-1)"
    by (auto simp: run_machine.simps newborn_def life_defs)
  with life_settles_once [OF run] run show ?thesis
    by (auto simp: opt_list_def)
qed

end
