(* ===== verification/Schedule.thy ===== *)
theory Schedule
  imports Utf8 "HOL-Library.Multiset" "HOL-Library.AList"
begin

text \<open>
  \<open>packages/platform/host/schedule.ts\<close>: which completed answer is delivered next. The
  scheduler is a state machine over the calls of the responders (\<open>ready\<close>, \<open>quiet\<close>) and the
  firing of its hurry-up timer; delivering an answer is its effect. The lemmas show that
  one worker runs at a time, that nothing is lost, duplicated or stalled, and what each
  policy promises about order.
\<close>

unbundle bit_operations_syntax

section \<open>The policy and its generator\<close>

datatype policy = Off | Fifo | Seeded

definition DEFAULT_SEED :: nat where "DEFAULT_SEED = 20260806"

text \<open>
  \<open>Number(digits)\<close>: the double nearest to a decimal numeral, ties to even; \<open>None\<close> is
  \<open>Infinity\<close>. Numbers below \<open>2^53\<close> are exact.
\<close>

definition round_half_even :: "nat \<Rightarrow> nat \<Rightarrow> nat" where
  "round_half_even n u =
     (let q = n div u; r = n mod u
      in if 2 * r < u \<or> (2 * r = u \<and> even q) then q * u else Suc q * u)"

function bits_over :: "nat \<Rightarrow> nat" where
  "bits_over n = (if n < 2 ^ 53 then 0 else Suc (bits_over (n div 2)))"
  by pat_completeness auto
termination
  by (relation "measure id") auto

declare bits_over.simps [simp del]

definition Number_nat :: "nat \<Rightarrow> nat option" where
  "Number_nat n =
     (let m = (if n < 2 ^ 53 then n else round_half_even n (2 ^ bits_over n))
      in if m < 2 ^ 1024 then Some m else None)"

definition digit :: "char \<Rightarrow> bool" where
  "digit c \<longleftrightarrow> 48 \<le> (of_char c :: nat) \<and> (of_char c :: nat) \<le> 57"

fun digits_value :: "string \<Rightarrow> nat \<Rightarrow> nat" where
  "digits_value [] n = n"
| "digits_value (c # cs) n = digits_value cs (10 * n + (of_char c - 48))"

text \<open>
  The match of \<open>/^seed(?:=(\d+))?$/\<close>: \<open>None\<close> for no match, otherwise the digits of the
  group if it took part.
\<close>

definition seed_match :: "string \<Rightarrow> string option option" where
  "seed_match raw =
     (if raw = ''seed'' then Some None
      else if take 5 raw = ''seed='' \<and> drop 5 raw \<noteq> [] \<and> list_all digit (drop 5 raw)
      then Some (Some (drop 5 raw))
      else None)"

text \<open>
  \<open>policyOf\<close>: the outer \<open>option\<close> of the argument is whether \<open>Deno.env.get\<close> threw, the inner
  one what it answered. The seed is a double, \<open>None\<close> for \<open>Infinity\<close>.
\<close>

definition policyOf :: "string option option \<Rightarrow> policy \<times> nat option" where
  "policyOf env =
     (case env of
        None \<Rightarrow> (Off, Some 0)
      | Some got \<Rightarrow>
          (let raw = (case got of None \<Rightarrow> '''' | Some s \<Rightarrow> s)
           in if raw = ''off'' then (Off, Some 0)
              else if raw = ''fifo'' then (Fifo, Some 0)
              else case seed_match raw of
                Some None \<Rightarrow> (Seeded, Some DEFAULT_SEED)
              | Some (Some ds) \<Rightarrow> (Seeded, Number_nat (digits_value ds 0))
              | None \<Rightarrow> (Off, Some 0)))"

text \<open>
  \<open>rng\<close>: xorshift32. The bitwise operators read their operands modulo \<open>2^32\<close>, so the
  state is a 32-bit word from the first shift on; \<open>seed || 1\<close> replaces only a seed that is
  the number zero.
\<close>

definition rng_init :: "nat option \<Rightarrow> i32" where
  "rng_init seed =
     (case seed of None \<Rightarrow> 0 | Some n \<Rightarrow> if n = 0 then 1 else word_of_nat n)"

definition rng_next :: "i32 \<Rightarrow> i32" where
  "rng_next x =
     (let x = x XOR push_bit 13 x;
          x = x XOR drop_bit 17 x
      in x XOR push_bit 5 x)"

section \<open>The scheduler\<close>

text \<open>A completed answer: \<open>deliver\<close> names the closure that writes it into its slot.\<close>

record pending =
  bridge :: nat
  pslot :: nat
  seq :: nat
  deliver :: nat

text \<open>
  The fields of \<open>Scheduler\<close>. \<open>idle\<close> is whether the hurry-up timer is armed. The registered
  descriptions are kept in insertion order; one that throws when called is \<open>None\<close>.
\<close>

record scheduler_state =
  the_policy :: policy
  rng_state :: i32
  ready_list :: "pending list"
  next_seq :: nat
  sched_log :: "pending list"
  running :: "nat set"
  idle :: bool
  bridges :: "(nat \<times> jsstring option) list"

definition new_Scheduler :: "policy \<Rightarrow> nat option \<Rightarrow> scheduler_state" where
  "new_Scheduler p seed =
     \<lparr>the_policy = p, rng_state = rng_init seed, ready_list = [], next_seq = 0, sched_log = [],
      running = {}, idle = False, bridges = []\<rparr>"

definition on :: "scheduler_state \<Rightarrow> bool" where
  "on s \<longleftrightarrow> the_policy s \<noteq> Off"

definition armIdle :: "scheduler_state \<Rightarrow> scheduler_state" where
  "armIdle s = (if idle s \<or> running s = {} then s else s\<lparr>idle := True\<rparr>)"

text \<open>The scan of \<open>#choose\<close> under \<open>fifo\<close>: the index of the least \<open>seq\<close>.\<close>

definition first_ready :: "pending list \<Rightarrow> nat" where
  "first_ready r = fold (\<lambda>i best. if seq (r ! i) < seq (r ! best) then i else best) [1..<length r] 0"

definition choose_next :: "scheduler_state \<Rightarrow> scheduler_state \<times> int" where
  "choose_next s =
     (if ready_list s = [] then (s, -1)
      else if the_policy s = Fifo then (s, int (first_ready (ready_list s)))
      else (let x = rng_next (rng_state s)
            in (s\<lparr>rng_state := x\<rparr>, int (unat x mod length (ready_list s)))))"

definition pump :: "scheduler_state \<Rightarrow> scheduler_state \<times> nat list" where
  "pump s =
     (if ready_list s = [] then (s, [])
      else if running s \<noteq> {} then (armIdle s, [])
      else case choose_next s of (s, at) \<Rightarrow>
        if at < 0 then (s, [])
        else
          (let k = nat at; chosen = ready_list s ! k;
               s = s\<lparr>ready_list := take k (ready_list s) @ drop (Suc k) (ready_list s),
                     sched_log := sched_log s @ [chosen],
                     running := insert (bridge chosen) (running s)\<rparr>
           in (armIdle s, [deliver chosen])))"

definition ready_call :: "scheduler_state \<Rightarrow> nat \<Rightarrow> nat \<Rightarrow> nat \<Rightarrow> scheduler_state \<times> nat list" where
  "ready_call s b sl d =
     (if the_policy s = Off then (s, [d])
      else pump (s\<lparr>ready_list := ready_list s @ [\<lparr>bridge = b, pslot = sl, seq = next_seq s, deliver = d\<rparr>],
                    next_seq := Suc (next_seq s)\<rparr>))"

definition quiet :: "scheduler_state \<Rightarrow> nat \<Rightarrow> scheduler_state \<times> nat list" where
  "quiet s b = (if b \<notin> running s then (s, []) else pump (s\<lparr>running := running s - {b}\<rparr>))"

text \<open>The timer's callback; it only exists while the timer is armed.\<close>

definition idle_fires :: "scheduler_state \<Rightarrow> scheduler_state \<times> nat list" where
  "idle_fires s = (if \<not> idle s then (s, []) else pump (s\<lparr>idle := False, running := {}\<rparr>))"

definition register :: "scheduler_state \<Rightarrow> nat \<Rightarrow> jsstring option \<Rightarrow> scheduler_state" where
  "register s b describe = s\<lparr>bridges := AList.update b describe (bridges s)\<rparr>"

definition forget :: "scheduler_state \<Rightarrow> nat \<Rightarrow> scheduler_state" where
  "forget s b = s\<lparr>bridges := AList.delete b (bridges s)\<rparr>"

text \<open>How a log entry prints, and the survey's text.\<close>

definition log_line :: "pending \<Rightarrow> jsstring" where
  "log_line p = dec_nat (bridge p) @ js '':'' @ dec_nat (pslot p) @ js ''@'' @ dec_nat (seq p)"

fun join_lines :: "jsstring list \<Rightarrow> jsstring" where
  "join_lines [] = []"
| "join_lines [l] = l"
| "join_lines (l # ls) = l @ [10] @ join_lines ls"

definition survey :: "scheduler_state \<Rightarrow> jsstring" where
  "survey s =
     join_lines (map (\<lambda>(b, d). js ''    bridge '' @ dec_nat b @ js '': ''
        @ (case d of Some t \<Rightarrow> t | None \<Rightarrow> js ''<gone>'')) (bridges s))"

text \<open>\<open>scheduler()\<close>: the shared one, built from the environment on first use.\<close>

definition scheduler :: "string option option \<Rightarrow> scheduler_state option \<Rightarrow> scheduler_state" where
  "scheduler env shared =
     (case shared of Some s \<Rightarrow> s | None \<Rightarrow> (case policyOf env of (p, seed) \<Rightarrow> new_Scheduler p seed))"

section \<open>Histories\<close>

datatype sched_event =
    ReadyCall nat nat nat
  | QuietCall nat
  | IdleFires
  | Register nat "jsstring option"
  | Forget nat

fun sched_step :: "scheduler_state \<Rightarrow> sched_event \<Rightarrow> scheduler_state \<times> nat list" where
  "sched_step s (ReadyCall b sl d) = ready_call s b sl d"
| "sched_step s (QuietCall b) = quiet s b"
| "sched_step s IdleFires = idle_fires s"
| "sched_step s (Register b d) = (register s b d, [])"
| "sched_step s (Forget b) = (forget s b, [])"

fun submitted :: "sched_event list \<Rightarrow> nat list" where
  "submitted [] = []"
| "submitted (ReadyCall b sl d # es) = d # submitted es"
| "submitted (_ # es) = submitted es"

text \<open>
  The invariant: at most one worker runs; while one runs the timer is armed; answers wait
  only while one runs; the waiting answers are in the order of their numbers, all numbered
  below the counter; and with the policy off nothing ever waits.
\<close>

definition sched_ok :: "scheduler_state \<Rightarrow> bool" where
  "sched_ok s \<longleftrightarrow>
     (\<exists>b. running s \<subseteq> {b})
   \<and> (running s \<noteq> {} \<longrightarrow> idle s)
   \<and> (ready_list s \<noteq> [] \<longrightarrow> running s \<noteq> {})
   \<and> sorted_wrt (<) (map seq (ready_list s))
   \<and> (\<forall>p\<in>set (ready_list s). seq p < next_seq s)
   \<and> (the_policy s = Off \<longrightarrow> ready_list s = [] \<and> running s = {} \<and> \<not> idle s)"

text \<open>What \<open>#pump\<close> needs of the state it is called on: all of it but the third clause.\<close>

definition pump_ready :: "scheduler_state \<Rightarrow> bool" where
  "pump_ready s \<longleftrightarrow>
     (\<exists>b. running s \<subseteq> {b}) \<and> (running s \<noteq> {} \<longrightarrow> idle s) \<and> sorted_wrt (<) (map seq (ready_list s))
   \<and> (\<forall>p\<in>set (ready_list s). seq p < next_seq s)
   \<and> (the_policy s = Off \<longrightarrow> ready_list s = [] \<and> running s = {} \<and> \<not> idle s)"

section \<open>The generator is a permutation\<close>

lemma push_bit_fixed:
  fixes z :: i32
  assumes "0 < n" "z = push_bit n z"
  shows "z = 0"
proof -
  have "\<not> bit z k" for k
  proof (induction k rule: less_induct)
    case (less k)
    have "bit z k = bit (push_bit n z) k" using assms(2) by simp
    also have "\<dots> \<longleftrightarrow> n \<le> k \<and> k < 32 \<and> bit z (k - n)" by (auto simp: bit_push_bit_iff)
    finally show ?case using less [of "k - n"] assms(1) by auto
  qed
  then show ?thesis by (auto intro: bit_eqI)
qed

lemma drop_bit_fixed:
  fixes z :: i32
  assumes "0 < n" "z = drop_bit n z"
  shows "z = 0"
proof -
  have "\<not> bit z k" for k
  proof (induction "32 - k" arbitrary: k rule: less_induct)
    case less
    have eq: "bit z k = bit z (n + k)" using assms(2) by (metis bit_drop_bit_eq comp_apply)
    show ?case
    proof (cases "k < 32")
      case True
      with less [of "n + k"] assms(1) eq show ?thesis by auto
    next
      case False
      then show ?thesis using bit_imp_le_length [of z k] by auto
    qed
  qed
  then show ?thesis by (auto intro: bit_eqI)
qed

lemma xor_zero_eq: "x XOR y = 0 \<Longrightarrow> x = (y :: i32)"
  by (metis xor.left_neutral xor.assoc xor_self_eq)

lemma xor_fixed_inj:
  fixes f :: "i32 \<Rightarrow> i32"
  assumes lin: "\<And>x y. f (x XOR y) = f x XOR f y" and ker: "\<And>z. z = f z \<Longrightarrow> z = 0"
  shows "x XOR f x = y XOR f y \<Longrightarrow> x = y"
proof -
  assume eq: "x XOR f x = y XOR f y"
  have "(x XOR y) XOR f (x XOR y) = (x XOR f x) XOR (y XOR f y)"
    unfolding lin by (simp only: xor.assoc xor.left_commute xor.commute)
  also have "\<dots> = 0" using eq by simp
  finally have "x XOR y = f (x XOR y)" by (rule xor_zero_eq)
  then show "x = y" using ker xor_zero_eq by blast
qed

lemma rng_next_inj: "rng_next x = rng_next y \<Longrightarrow> x = y"
proof -
  assume eq: "rng_next x = rng_next y"
  have a: "x = y" if "x XOR push_bit n x = y XOR push_bit n y" "0 < n" for x y :: i32 and n
    by (rule xor_fixed_inj [where f = "push_bit n", OF push_bit_xor _ that(1)])
      (rule push_bit_fixed [OF that(2)])
  have b: "x = y" if "x XOR drop_bit n x = y XOR drop_bit n y" "0 < n" for x y :: i32 and n
    by (rule xor_fixed_inj [where f = "drop_bit n", OF drop_bit_xor _ that(1)])
      (rule drop_bit_fixed [OF that(2)])
  define f :: "i32 \<Rightarrow> i32" where "f = (\<lambda>x. x XOR push_bit 13 x)"
  define g :: "i32 \<Rightarrow> i32" where "g = (\<lambda>x. x XOR drop_bit 17 x)"
  have nx: "rng_next x = g (f x) XOR push_bit 5 (g (f x))" for x
    by (simp add: rng_next_def f_def g_def Let_def)
  have "g (f x) = g (f y)"
    using eq unfolding nx by (rule a) simp
  then have "f x = f y"
    unfolding g_def by (rule b) simp
  then show "x = y"
    unfolding f_def by (rule a) simp
qed

lemma rng_next_zero: "rng_next 0 = 0"
  by (simp add: rng_next_def)

lemma rng_next_nonzero: "x \<noteq> 0 \<Longrightarrow> rng_next x \<noteq> 0"
  using rng_next_inj [of x 0] rng_next_zero by auto

section \<open>Choosing and pumping\<close>

lemma armIdle_simps [simp]:
  "the_policy (armIdle s) = the_policy s" "rng_state (armIdle s) = rng_state s"
  "ready_list (armIdle s) = ready_list s" "next_seq (armIdle s) = next_seq s"
  "sched_log (armIdle s) = sched_log s" "running (armIdle s) = running s" "bridges (armIdle s) = bridges s"
  "idle (armIdle s) \<longleftrightarrow> idle s \<or> running s \<noteq> {}"
  by (auto simp: armIdle_def)

lemma first_ready_range: "r \<noteq> [] \<Longrightarrow> first_ready r < length r"
proof -
  assume ne: "r \<noteq> []"
  have "fold (\<lambda>i best. if seq (r ! i) < seq (r ! best) then i else best) is b < length r"
    if "b < length r" "\<forall>i\<in>set is. i < length r" for "is" b
    using that by (induction "is" arbitrary: b) auto
  with ne show ?thesis by (auto simp: first_ready_def)
qed

lemma first_ready_sorted:
  assumes "sorted_wrt (<) (map seq r)"
  shows "first_ready r = 0"
proof -
  have le: "\<not> seq (r ! i) < seq (r ! 0)" if "i < length r" for i
    using assms that by (cases "i = 0") (auto simp: sorted_wrt_iff_nth_less dest: less_imp_not_less)
  have "fold (\<lambda>i best. if seq (r ! i) < seq (r ! best) then i else best) is 0 = 0"
    if "\<forall>i\<in>set is. i < length r" for "is"
    using that by (induction "is") (auto simp: le)
  then show ?thesis by (auto simp: first_ready_def)
qed

lemma choose_next_spec:
  assumes "ready_list s \<noteq> []"
  obtains x k where "choose_next s = (s\<lparr>rng_state := x\<rparr>, int k)" "k < length (ready_list s)"
    "the_policy s = Fifo \<Longrightarrow> sorted_wrt (<) (map seq (ready_list s)) \<Longrightarrow> k = 0"
proof (cases "the_policy s = Fifo")
  case True
  show thesis
    by (rule that [of "rng_state s" "first_ready (ready_list s)"])
      (use assms True in \<open>simp_all add: choose_next_def first_ready_range first_ready_sorted\<close>)
next
  case False
  show thesis
    by (rule that [of "rng_next (rng_state s)" "unat (rng_next (rng_state s)) mod length (ready_list s)"])
      (use assms False in \<open>simp_all add: choose_next_def Let_def\<close>)
qed

text \<open>The three ways a pump goes.\<close>

lemma pump_cases [case_names empty busy delivers]:
  obtains "ready_list s = []" "pump s = (s, [])"
  | "ready_list s \<noteq> []" "running s \<noteq> {}" "pump s = (armIdle s, [])"
  | k s' where "running s = {}" "k < length (ready_list s)"
      "pump s = (s', [deliver (ready_list s ! k)])"
      "ready_list s' = take k (ready_list s) @ drop (Suc k) (ready_list s)"
      "running s' = {bridge (ready_list s ! k)}" "idle s'" "the_policy s' = the_policy s"
      "next_seq s' = next_seq s" "sched_log s' = sched_log s @ [ready_list s ! k]"
      "the_policy s = Fifo \<Longrightarrow> sorted_wrt (<) (map seq (ready_list s)) \<Longrightarrow> k = 0"
proof -
  consider "ready_list s = []" | "ready_list s \<noteq> []" "running s \<noteq> {}" | "ready_list s \<noteq> []" "running s = {}"
    by blast
  then show thesis
  proof cases
    case 1
    with that(1) show thesis by (simp add: pump_def)
  next
    case 2
    with that(2) show thesis by (simp add: pump_def)
  next
    case 3
    from choose_next_spec [OF 3(1)] obtain x k where
      c: "choose_next s = (s\<lparr>rng_state := x\<rparr>, int k)" "k < length (ready_list s)"
      and f: "the_policy s = Fifo \<Longrightarrow> sorted_wrt (<) (map seq (ready_list s)) \<Longrightarrow> k = 0"
      by blast
    let ?p = "ready_list s ! k"
    let ?s = "s\<lparr>rng_state := x, ready_list := take k (ready_list s) @ drop (Suc k) (ready_list s),
      sched_log := sched_log s @ [?p], running := {bridge ?p}\<rparr>"
    have "pump s = (armIdle ?s, [deliver ?p])"
      using 3 c by (simp add: pump_def Let_def)
    from that(3) [OF 3(2) c(2) this] f show thesis by simp
  qed
qed

lemma sorted_wrt_removed:
  "sorted_wrt P (map f xs) \<Longrightarrow> sorted_wrt P (map f (take k xs @ drop (Suc k) xs))"
proof (induction xs arbitrary: k)
  case (Cons x xs)
  then show ?case
    by (cases k) (auto simp: image_iff dest: in_set_takeD in_set_dropD)
qed simp

lemma sched_ok_pump: "pump_ready s \<Longrightarrow> sched_ok (fst (pump s))"
proof (cases rule: pump_cases [where s = s])
  case (delivers k s')
  assume "pump_ready s"
  with delivers sorted_wrt_removed [of "(<)" seq "ready_list s" k] show ?thesis
    by (auto simp: pump_ready_def sched_ok_def dest: in_set_takeD in_set_dropD)
qed (auto simp: pump_ready_def sched_ok_def)

text \<open>An event either pumps a state that is ready for it, or delivers at once, or changes no queue.\<close>

lemma sched_step_cases [consumes 1, case_names pumps off still]:
  assumes ok: "sched_ok s"
  obtains s1 where "sched_step s e = pump s1" "pump_ready s1" "the_policy s \<noteq> Off"
      "map deliver (ready_list s1) = map deliver (ready_list s) @ submitted [e]"
      "the_policy s1 = the_policy s" "sched_log s1 = sched_log s"
      "running s1 = running s \<or> e = IdleFires \<or> (\<exists>b. e = QuietCall b \<and> b \<in> running s)"
  | "the_policy s = Off" "sched_step s e = (s, submitted [e])"
  | bs where "sched_step s e = (s\<lparr>bridges := bs\<rparr>, [])" "submitted [e] = []"
proof (cases e)
  case (ReadyCall b sl d)
  show thesis
  proof (cases "the_policy s = Off")
    case True
    with that(2) ReadyCall show thesis by (simp add: ready_call_def)
  next
    case False
    let ?s = "s\<lparr>ready_list := ready_list s @ [\<lparr>bridge = b, pslot = sl, seq = next_seq s, deliver = d\<rparr>],
      next_seq := Suc (next_seq s)\<rparr>"
    have "pump_ready ?s"
      using ok False by (auto simp: pump_ready_def sched_ok_def sorted_wrt_append less_Suc_eq)
    with False that(1) [of ?s] ReadyCall show thesis by (simp add: ready_call_def)
  qed
next
  case (QuietCall b)
  show thesis
  proof (cases "b \<in> running s")
    case True
    let ?s = "s\<lparr>running := running s - {b}\<rparr>"
    have "pump_ready ?s" "the_policy s \<noteq> Off"
      using ok True by (auto simp: pump_ready_def sched_ok_def)
    with True that(1) [of ?s] QuietCall show thesis by (simp add: quiet_def)
  next
    case False
    with that(3) [of "bridges s"] QuietCall show thesis by (simp add: quiet_def)
  qed
next
  case IdleFires
  show thesis
  proof (cases "idle s \<and> the_policy s \<noteq> Off")
    case True
    let ?s = "s\<lparr>idle := False, running := {}\<rparr>"
    have "pump_ready ?s" using ok by (auto simp: pump_ready_def sched_ok_def)
    with True that(1) [of ?s] IdleFires show thesis by (simp add: idle_fires_def)
  next
    case False
    with ok that(3) [of "bridges s"] IdleFires show thesis
      by (cases "idle s") (simp_all add: idle_fires_def sched_ok_def pump_def)
  qed
next
  case (Register b d)
  with that(3) [of "AList.update b d (bridges s)"] show thesis by (simp add: register_def)
next
  case (Forget b)
  with that(3) [of "AList.delete b (bridges s)"] show thesis by (simp add: forget_def)
qed

lemma sched_ok_step:
  assumes "sched_ok s" shows "sched_ok (fst (sched_step s e))"
  using assms
proof (cases rule: sched_step_cases [where e = e])
  case (pumps s1)
  then show ?thesis by (simp add: sched_ok_pump)
next
  case off
  then show ?thesis using assms by simp
next
  case (still bs)
  then show ?thesis using assms by (simp add: sched_ok_def)
qed

lemma sched_ok_new: "sched_ok (new_Scheduler p seed)"
  by (simp add: new_Scheduler_def sched_ok_def)

interpretation sched: event_machine "new_Scheduler p seed" sched_step sched_ok for p seed
  by unfold_locales (rule sched_ok_new, rule sched_ok_step)

section \<open>Order, loss and progress\<close>

lemma mset_removed: "k < length xs \<Longrightarrow> mset (take k xs @ drop (Suc k) xs) + {#xs ! k#} = mset xs"
proof -
  assume "k < length xs"
  then have "mset xs = mset (take k xs @ xs ! k # drop (Suc k) xs)"
    by (simp add: id_take_nth_drop [symmetric])
  then show ?thesis by simp
qed

lemma pump_conserves:
  "mset (map deliver (ready_list s)) = mset (snd (pump s)) + mset (map deliver (ready_list (fst (pump s))))"
proof (cases rule: pump_cases [where s = s])
  case (delivers k s')
  from mset_removed [OF delivers(2)] have "image_mset deliver (mset (ready_list s)) =
      image_mset deliver (mset (take k (ready_list s) @ drop (Suc k) (ready_list s)) + {#ready_list s ! k#})"
    by simp
  then show ?thesis using delivers by (simp add: add.commute)
qed auto

lemma pump_fifo:
  assumes "the_policy s = Fifo" "pump_ready s"
  shows "map deliver (ready_list s) = snd (pump s) @ map deliver (ready_list (fst (pump s)))"
proof (cases rule: pump_cases [where s = s])
  case (delivers k s')
  moreover have "k = 0" using delivers(10) assms by (simp add: pump_ready_def)
  ultimately show ?thesis by (cases "ready_list s") auto
qed auto

lemma policy_step:
  assumes "sched_ok s" shows "the_policy (fst (sched_step s e)) = the_policy s"
  using assms
proof (cases rule: sched_step_cases [where e = e])
  case (pumps s1)
  then show ?thesis by (cases rule: pump_cases [where s = s1]) auto
qed simp_all

lemma step_conserves:
  assumes "sched_ok s"
  shows "mset (map deliver (ready_list s)) + mset (submitted [e]) =
     mset (snd (sched_step s e)) + mset (map deliver (ready_list (fst (sched_step s e))))"
  using assms
proof (cases rule: sched_step_cases [where e = e])
  case (pumps s1)
  have "mset (map deliver (ready_list s)) + mset (submitted [e]) = mset (map deliver (ready_list s1))"
    by (simp only: pumps(4) mset_append)
  then show ?thesis by (simp only: pumps(1) pump_conserves [of s1])
next
  case off
  with assms show ?thesis by (simp add: sched_ok_def)
qed simp

lemma step_fifo:
  assumes "sched_ok s" "the_policy s \<noteq> Seeded"
  shows "map deliver (ready_list s) @ submitted [e] =
     snd (sched_step s e) @ map deliver (ready_list (fst (sched_step s e)))"
  using assms(1)
proof (cases rule: sched_step_cases [where e = e])
  case (pumps s1)
  with assms(2) have "the_policy s1 = Fifo" by (cases "the_policy s") auto
  from pump_fifo [OF this pumps(2)] show ?thesis by (simp only: pumps(1,4))
next
  case off
  with assms show ?thesis by (simp add: sched_ok_def)
qed simp

lemma step_one:
  assumes "sched_ok s" "the_policy s \<noteq> Off" "snd (sched_step s e) \<noteq> []"
  shows "length (snd (sched_step s e)) = 1"
    and "running s = {} \<or> e = IdleFires \<or> (\<exists>b. e = QuietCall b \<and> running s = {b})"
    and "\<exists>b. running (fst (sched_step s e)) = {b}"
proof -
  from assms(1) have "length (snd (sched_step s e)) = 1
    \<and> (running s = {} \<or> e = IdleFires \<or> (\<exists>b. e = QuietCall b \<and> running s = {b}))
    \<and> (\<exists>b. running (fst (sched_step s e)) = {b})"
  proof (cases rule: sched_step_cases [where e = e])
    case (pumps s1)
    from assms(1) obtain r where "running s \<subseteq> {r}" by (auto simp: sched_ok_def)
    with pumps assms(3) show ?thesis by (cases rule: pump_cases [where s = s1]) auto
  next
    case off
    with assms(2) show ?thesis by simp
  next
    case (still bs)
    with assms(3) show ?thesis by simp
  qed
  then show "length (snd (sched_step s e)) = 1"
    and "running s = {} \<or> e = IdleFires \<or> (\<exists>b. e = QuietCall b \<and> running s = {b})"
    and "\<exists>b. running (fst (sched_step s e)) = {b}"
    by blast+
qed

lemma submitted_Cons: "submitted (e # es) = submitted [e] @ submitted es"
  by (cases e) auto

lemma run_conserves:
  assumes "sched_ok s"
  shows "mset (map deliver (ready_list s)) + mset (submitted es) =
     mset (snd (run_machine sched_step s es)) + mset (map deliver (ready_list (fst (run_machine sched_step s es))))"
  using assms
proof (induction es arbitrary: s)
  case (Cons e es)
  from Cons.IH [OF sched_ok_step [OF Cons.prems, of e]] step_conserves [OF Cons.prems, of e] show ?case
    by (simp add: submitted_Cons [of e es] del: submitted.simps(2) sched_step.simps) (metis add.assoc add.commute)
qed simp

lemma run_fifo:
  assumes "sched_ok s" "the_policy s \<noteq> Seeded"
  shows "map deliver (ready_list s) @ submitted es =
     snd (run_machine sched_step s es) @ map deliver (ready_list (fst (run_machine sched_step s es)))"
  using assms
proof (induction es arbitrary: s)
  case (Cons e es)
  let ?s = "fst (sched_step s e)"
  have ih: "map deliver (ready_list ?s) @ submitted es =
     snd (run_machine sched_step ?s es) @ map deliver (ready_list (fst (run_machine sched_step ?s es)))"
    using Cons.prems by (intro Cons.IH) (simp_all add: sched_ok_step policy_step del: sched_step.simps)
  have "map deliver (ready_list s) @ submitted (e # es) =
      (map deliver (ready_list s) @ submitted [e]) @ submitted es"
    by (simp only: submitted_Cons [of e es] append_assoc)
  also have "\<dots> = snd (sched_step s e) @ map deliver (ready_list ?s) @ submitted es"
    by (simp only: step_fifo [OF Cons.prems] append_assoc)
  finally show ?case by (simp only: ih snd_run_machine_Cons fst_run_machine_Cons append_assoc)
qed simp

text \<open>Each firing of the timer delivers one waiting answer, so the waiting ones all go.\<close>

lemma idle_progress:
  assumes "sched_ok s" "ready_list s \<noteq> []"
  shows "length (ready_list (fst (sched_step s IdleFires))) = length (ready_list s) - 1"
proof -
  let ?s = "s\<lparr>idle := False, running := {}\<rparr>"
  have "idle s" using assms by (auto simp: sched_ok_def)
  then have "sched_step s IdleFires = pump ?s" by (simp add: idle_fires_def)
  then show ?thesis
    using assms(2) by (cases rule: pump_cases [where s = ?s]) auto
qed

lemma idle_drains:
  assumes "sched_ok s"
  shows "ready_list (fst (run_machine sched_step s (replicate (length (ready_list s)) IdleFires))) = []"
  using assms
proof (induction "length (ready_list s)" arbitrary: s)
  case (Suc n)
  have "length (ready_list (fst (sched_step s IdleFires))) = n"
    using idle_progress [OF Suc.prems] Suc.hyps(2) by (metis diff_Suc_1 length_0_conv nat.distinct(1))
  with Suc.hyps(1) [of "fst (sched_step s IdleFires)"] sched_ok_step [OF Suc.prems, of IdleFires] Suc.hyps(2)
  show ?case by (metis fst_run_machine_Cons replicate_Suc)
qed simp

section \<open>Properties\<close>

text \<open>
  C24. One worker at a time, as far as the scheduler knows: over every history with the scheduler on, an
  event delivers at most one answer, and after a delivery exactly one worker is counted as running. An
  event other than the hurry-up timer delivers only when no worker is running, or by the return of the
  only one that is. The timer forgets whoever is running and delivers: a worker that is still busy then
  runs beside the one it wakes, which the code accepts.
\<close>

theorem one_worker_at_a_time:
  assumes "s = fst (run_machine sched_step (new_Scheduler p seed) es)" "the_policy s \<noteq> Off"
    and "sched_step s e = (s', out)" "out \<noteq> []"
  shows "length out = 1 \<and> (\<exists>b. running s' = {b})
    \<and> (running s = {} \<or> e = IdleFires \<or> (\<exists>b. e = QuietCall b \<and> running s = {b}))"
proof -
  have "sched_ok s" unfolding assms(1) by (rule sched.inv_run)
  from step_one [OF this assms(2), of e] assms(3,4) show ?thesis by simp
qed

theorem one_worker_at_a_time_witness:
  "let s = fst (run_machine sched_step (new_Scheduler Fifo (Some 0)) [ReadyCall 0 0 7, ReadyCall 1 0 8])
   in running s = {0} \<and> snd (sched_step s (QuietCall 0)) = [8]"
proof -
  define s where "s = fst (run_machine sched_step (new_Scheduler Fifo (Some 0)) [ReadyCall 0 0 7, ReadyCall 1 0 8])"
  have s: "running s = {0}" "the_policy s = Fifo" "sched_step s (QuietCall 0) = (fst (quiet s 0), [8])"
    by (simp_all add: s_def new_Scheduler_def ready_call_def pump_def choose_next_def first_ready_def
        armIdle_def quiet_def Let_def)
  have "length [8 :: nat] = 1 \<and> (\<exists>b. running (fst (quiet s 0)) = {b})"
    using one_worker_at_a_time [OF s_def _ s(3)] s(2) by simp
  with s show ?thesis
    unfolding Let_def s_def [symmetric] by (metis snd_conv)
qed

text \<open>
  Nothing is lost or delivered twice: over every history the answers delivered and the
  answers still waiting are together exactly the answers submitted. Under \<open>off\<close> and
  \<open>fifo\<close> they are so as sequences: delivery is in the order the answers became ready.
\<close>

theorem scheduler_conserves:
  "case run_machine sched_step (new_Scheduler p seed) es of (s, out) \<Rightarrow>
     mset (submitted es) = mset out + mset (map deliver (ready_list s))
     \<and> (p = Seeded \<or> submitted es = out @ map deliver (ready_list s))"
  using run_conserves [OF sched_ok_new, of p seed es] run_fifo [OF sched_ok_new, of p seed es]
  by (cases p) (auto simp: new_Scheduler_def split: prod.splits)

text \<open>
  C25. The scheduler cannot stall: in every reachable state with an answer waiting the
  hurry-up timer is armed, and letting it fire as often as there are answers waiting
  delivers them all.
\<close>

theorem scheduler_never_stalls:
  assumes "s = fst (run_machine sched_step (new_Scheduler p seed) es)" "ready_list s \<noteq> []"
  shows "idle s
    \<and> ready_list (fst (run_machine sched_step s (replicate (length (ready_list s)) IdleFires))) = []"
proof -
  have "sched_ok s" unfolding assms(1) by (rule sched.inv_run)
  with idle_drains [OF this] assms(2) show ?thesis by (auto simp: sched_ok_def)
qed

theorem scheduler_never_stalls_witness:
  "idle (fst (run_machine sched_step (new_Scheduler Seeded (Some 5)) [ReadyCall 0 0 7, ReadyCall 1 0 8]))"
proof -
  let ?s = "fst (run_machine sched_step (new_Scheduler Seeded (Some 5)) [ReadyCall 0 0 7, ReadyCall 1 0 8])"
  have "ready_list ?s \<noteq> []"
    by (simp add: new_Scheduler_def ready_call_def pump_def choose_next_def armIdle_def Let_def)
  from scheduler_never_stalls [OF refl this] show ?thesis by blast
qed

text \<open>
  The generator does not collapse: \<open>xorshift32\<close> is injective on 32-bit states and never
  reaches zero from a non-zero one, so a seed below \<open>2^32\<close> never degenerates. A seed that
  is a positive multiple of \<open>2^32\<close> does: \<open>seed || 1\<close> lets it through and every choice is 0.
\<close>

theorem rng_permutes:
  "inj rng_next \<and> (rng_next x = 0 \<longleftrightarrow> x = 0)
   \<and> (seed < 4294967296 \<longrightarrow> rng_init (Some seed) \<noteq> 0) \<and> rng_init (Some (4294967296 * Suc k)) = 0"
proof (intro conjI)
  show "inj rng_next" by (rule injI) (rule rng_next_inj)
  show "rng_next x = 0 \<longleftrightarrow> x = 0" using rng_next_nonzero rng_next_zero by auto
  show "seed < 4294967296 \<longrightarrow> rng_init (Some seed) \<noteq> 0"
    by (auto simp: rng_init_def word_of_nat_eq_0_iff dest: nat_dvd_not_less)
  show "rng_init (Some (4294967296 * Suc k)) = 0"
  proof -
    have "(word_of_nat (4294967296 * Suc k) :: i32) = 0"
      unfolding word_of_nat_eq_0_iff by simp
    then show ?thesis by (simp only: rng_init_def option.case) simp
  qed
qed

theorem rng_permutes_witness: "rng_init (Some DEFAULT_SEED) \<noteq> 0 \<and> rng_next 1 \<noteq> 0"
  using rng_permutes [of 1 DEFAULT_SEED 0] by (simp add: DEFAULT_SEED_def)

end
