(* ===== verification/Faults.thy ===== *)
theory Faults
  imports Utf8
begin

text \<open>
  \<open>packages/platform/host/faults.ts\<close>: which of the platform's fault categories a thrown
  value belongs to, and the payloads that carry a category and a message. A thrown value is
  modelled by what the classifier asks of it; a value it cannot ask (\<open>null\<close> and
  \<open>undefined\<close>, whose properties cannot be read) is kept apart, because there the classifier
  itself throws.
\<close>

section \<open>Categories\<close>

definition FAULT_NONE :: int where "FAULT_NONE = 0"
definition FAULT_NOT_FOUND :: int where "FAULT_NOT_FOUND = 1"
definition FAULT_DENIED :: int where "FAULT_DENIED = 2"
definition FAULT_EXISTS :: int where "FAULT_EXISTS = 3"
definition FAULT_NOT_EMPTY :: int where "FAULT_NOT_EMPTY = 4"
definition FAULT_OTHER :: int where "FAULT_OTHER = 5"
definition FAULT_NOT_REPRESENTABLE :: int where "FAULT_NOT_REPRESENTABLE = 6"
definition FAULT_NOT_GRANTED :: int where "FAULT_NOT_GRANTED = 7"

lemmas fault_defs = FAULT_NONE_def FAULT_NOT_FOUND_def FAULT_DENIED_def FAULT_EXISTS_def
  FAULT_NOT_EMPTY_def FAULT_OTHER_def FAULT_NOT_REPRESENTABLE_def FAULT_NOT_GRANTED_def

section \<open>Thrown values\<close>

text \<open>
  Of an object: the Deno error classes it is an instance of, its \<open>code\<close> and its \<open>name\<close>
  where they are strings, and its text (\<open>message\<close> for an \<open>Error\<close>, \<open>String(e)\<close> otherwise).
\<close>

record error_object =
  is_NotFound :: bool
  is_PermissionDenied :: bool
  is_AlreadyExists :: bool
  code :: "jsstring option"
  ename :: "jsstring option"
  etext :: jsstring

datatype thrown =
    Faulted int jsstring
  | Object error_object
  | Nullish jsstring

fun text_of :: "thrown \<Rightarrow> jsstring" where
  "text_of (Faulted f m) = m"
| "text_of (Object e) = etext e"
| "text_of (Nullish s) = s"

text \<open>
  A test of a literal alternative of a regular expression with the flag \<open>i\<close>: the text
  contains it up to the case of ASCII letters.
\<close>

definition lower_cp :: "nat \<Rightarrow> nat" where
  "lower_cp c = (if 65 \<le> c \<and> c \<le> 90 then c + 32 else c)"

fun starts_with :: "'a list \<Rightarrow> 'a list \<Rightarrow> bool" where
  "starts_with s [] = True"
| "starts_with [] (p # ps) = False"
| "starts_with (c # cs) (p # ps) = (c = p \<and> starts_with cs ps)"

fun includes_str :: "'a list \<Rightarrow> 'a list \<Rightarrow> bool" where
  "includes_str [] pat = (pat = [])"
| "includes_str (c # cs) pat = (starts_with (c # cs) pat \<or> includes_str cs pat)"

definition matches_i :: "jsstring \<Rightarrow> string \<Rightarrow> bool" where
  "matches_i s pat = includes_str (map lower_cp s) (js pat)"

section \<open>Classification\<close>

text \<open>
  \<open>faultOf\<close>; the first argument is whether \<open>Deno.errors\<close> is there, and \<open>None\<close> is the
  \<open>TypeError\<close> of reading \<open>code\<close> of \<open>null\<close> or \<open>undefined\<close>.
\<close>

fun faultOf :: "bool \<Rightarrow> thrown \<Rightarrow> int option" where
  "faultOf deno (Faulted f m) = Some f"
| "faultOf deno (Nullish s) = None"
| "faultOf deno (Object e) = Some
     (if deno \<and> is_NotFound e then FAULT_NOT_FOUND
      else if deno \<and> is_PermissionDenied e then FAULT_DENIED
      else if deno \<and> is_AlreadyExists e then FAULT_EXISTS
      else if code e = Some (js ''ENOENT'') then FAULT_NOT_FOUND
      else if code e = Some (js ''EACCES'') \<or> code e = Some (js ''EPERM'') then FAULT_DENIED
      else if code e = Some (js ''EEXIST'') then FAULT_EXISTS
      else if code e = Some (js ''ENOTEMPTY'') then FAULT_NOT_EMPTY
      else if ename e = Some (js ''NotFoundError'') then FAULT_NOT_FOUND
      else if ename e = Some (js ''NotAllowedError'') \<or> ename e = Some (js ''NoModificationAllowedError'')
           \<or> ename e = Some (js ''SecurityError'') then FAULT_DENIED
      else if ename e = Some (js ''InvalidModificationError'') then FAULT_NOT_EMPTY
      else if matches_i (etext e) ''not empty'' \<or> matches_i (etext e) ''os error 39''
           \<or> matches_i (etext e) ''os error 66'' then FAULT_NOT_EMPTY
      else if matches_i (etext e) ''not granted'' then FAULT_NOT_GRANTED
      else FAULT_OTHER)"

definition faultOfPath :: "bool \<Rightarrow> thrown \<Rightarrow> jsstring \<Rightarrow> int option" where
  "faultOfPath deno e path =
     (case faultOf deno e of
        None \<Rightarrow> None
      | Some fault \<Rightarrow>
          if fault \<noteq> FAULT_NOT_FOUND \<or> REPLACEMENT \<notin> set path then Some fault
          else Some FAULT_NOT_REPRESENTABLE)"

text \<open>The words of \<open>pathFailure\<close>, after the path; U+2014 is the dash.\<close>

definition NOT_REPRESENTABLE_WORDS :: jsstring where
  "NOT_REPRESENTABLE_WORDS =
     js '': the name is not representable on this host '' @ [8212]
     @ js '' it contains U+FFFD, which is what a lossy ''
     @ js ''directory read leaves in place of bytes that are not valid UTF-8, and no path in this runtime''
     @ [39] @ js ''s '' @ js ''filesystem API can name the original''"

definition pathFailure :: "bool \<Rightarrow> thrown \<Rightarrow> jsstring \<Rightarrow> thrown option" where
  "pathFailure deno e path =
     (case faultOfPath deno e path of
        None \<Rightarrow> None
      | Some f \<Rightarrow>
          if f \<noteq> FAULT_NOT_REPRESENTABLE then Some e
          else Some (Faulted FAULT_NOT_REPRESENTABLE (path @ NOT_REPRESENTABLE_WORDS)))"

definition statFault :: "bool \<Rightarrow> thrown \<Rightarrow> jsstring \<Rightarrow> int option" where
  "statFault deno e path =
     (case faultOfPath deno e path of
        None \<Rightarrow> None
      | Some f \<Rightarrow> Some (if f = FAULT_NOT_REPRESENTABLE \<or> f = FAULT_DENIED then f else FAULT_NONE))"

section \<open>Payloads\<close>

definition changeBytes :: "int \<Rightarrow> jsstring \<Rightarrow> bytes" where
  "changeBytes fault message = word_of_int fault # encode message"

definition faultedBytes :: "int \<Rightarrow> jsstring \<Rightarrow> bytes" where
  "faultedBytes fault message = changeBytes fault message"

definition CHANGED_OK :: bytes where
  "CHANGED_OK = [word_of_int FAULT_NONE]"

definition phraseOf :: "int \<Rightarrow> jsstring" where
  "phraseOf fault =
     (if fault = FAULT_NOT_FOUND then js ''no such file or directory''
      else if fault = FAULT_DENIED then js ''permission denied''
      else if fault = FAULT_EXISTS then js ''already exists''
      else if fault = FAULT_NOT_EMPTY then js ''directory not empty''
      else if fault = FAULT_NOT_REPRESENTABLE then js ''the name is not representable on this host''
      else if fault = FAULT_NOT_GRANTED then js ''not granted to this application''
      else [])"

text \<open>
  \<open>changed\<close>: the work either settles or throws, and its outcome is the argument; the
  result is \<open>None\<close> where the promise itself is rejected because the classifier threw.
\<close>

definition changed :: "bool \<Rightarrow> thrown option \<Rightarrow> (int \<Rightarrow> jsstring \<Rightarrow> jsstring) \<Rightarrow> bytes option" where
  "changed deno work describe =
     (case work of
        None \<Rightarrow> Some CHANGED_OK
      | Some e \<Rightarrow>
          (case faultOf deno e of
             None \<Rightarrow> None
           | Some fault \<Rightarrow> Some (changeBytes fault (describe fault (text_of e)))))"

definition STAT_BYTES :: nat where "STAT_BYTES = 21"
definition STAT_FAULT :: nat where "STAT_FAULT = 20"

section \<open>Lemmas\<close>

lemma starts_with_append [simp]: "starts_with (p @ xs) p"
  by (induction p) auto

lemma includes_iff: "includes_str s pat \<longleftrightarrow> (\<exists>a b. s = a @ pat @ b)"
proof
  show "includes_str s pat \<Longrightarrow> \<exists>a b. s = a @ pat @ b"
  proof (induction s pat rule: includes_str.induct)
    case (2 c cs pat)
    have st: "starts_with xs ps \<Longrightarrow> \<exists>b. xs = ps @ b" for xs ps :: "'a list"
      by (induction xs ps rule: starts_with.induct) auto
    from "2.prems" consider "starts_with (c # cs) pat" | "includes_str cs pat" by auto
    then show ?case
    proof cases
      case 1
      with st show ?thesis by (metis append_Nil)
    next
      case 2
      with "2.IH" show ?thesis by (metis append_Cons)
    qed
  qed auto
  show "\<exists>a b. s = a @ pat @ b \<Longrightarrow> includes_str s pat"
  proof -
    assume "\<exists>a b. s = a @ pat @ b"
    then obtain a b where s: "s = a @ pat @ b" by blast
    show "includes_str s pat" unfolding s
    proof (induction a)
      case Nil
      have "starts_with (pat @ b) pat" by simp
      then show ?case by (cases "pat @ b") auto
    qed simp
  qed
qed

lemma faultOf_range:
  "faultOf deno (Object e) \<in> Some ` {FAULT_NOT_FOUND, FAULT_DENIED, FAULT_EXISTS, FAULT_NOT_EMPTY,
     FAULT_OTHER, FAULT_NOT_GRANTED}"
  by simp

lemma faultOfPath_cases:
  assumes "faultOf deno e = Some f"
  shows "faultOfPath deno e path =
    Some (if f = FAULT_NOT_FOUND \<and> REPLACEMENT \<in> set path then FAULT_NOT_REPRESENTABLE else f)"
  using assms by (simp add: faultOfPath_def)

section \<open>Properties\<close>

text \<open>
  A refined failure carries its category: whatever was thrown, if the classifier can
  read it, then classifying what \<open>pathFailure\<close> hands on gives exactly the category
  \<open>faultOfPath\<close> computed, so no reply path needs to know the path again. The message is the
  original one unless the name was the problem.
\<close>

theorem pathFailure_carries_fault:
  assumes "pathFailure deno e path = Some e'"
  shows "faultOf deno e' = faultOfPath deno e path
    \<and> (faultOfPath deno e path \<noteq> Some FAULT_NOT_REPRESENTABLE \<longrightarrow> e' = e)"
  using assms by (auto simp: pathFailure_def faultOfPath_def split: option.splits if_splits)

theorem pathFailure_carries_fault_witness:
  "faultOf True (Faulted 6 ([65533] @ NOT_REPRESENTABLE_WORDS))
     = faultOfPath True (Faulted FAULT_NOT_FOUND []) [65533]"
  using pathFailure_carries_fault [of True "Faulted FAULT_NOT_FOUND []" "[65533]"
      "Faulted 6 ([65533] @ NOT_REPRESENTABLE_WORDS)"]
  by (simp add: pathFailure_def faultOfPath_def fault_defs REPLACEMENT_def)

text \<open>
  A failed \<open>stat\<close> is a fault only where nothing can be said: of an operating-system
  error it reports \<open>FAULT_NOT_REPRESENTABLE\<close> (for a missing file whose name contains
  U+FFFD), \<open>FAULT_DENIED\<close>, or plain absence, and absence is what every other category
  becomes.
\<close>

theorem statFault_narrow:
  assumes "faultOf deno (Object e) = Some f"
  shows "statFault deno (Object e) path =
    Some (if f = FAULT_NOT_FOUND \<and> REPLACEMENT \<in> set path then FAULT_NOT_REPRESENTABLE
          else if f = FAULT_DENIED then FAULT_DENIED else FAULT_NONE)"
proof -
  have "f \<noteq> FAULT_NOT_REPRESENTABLE"
    using faultOf_range [of deno e] assms by (auto simp: fault_defs)
  with faultOfPath_cases [OF assms] show ?thesis
    by (auto simp: statFault_def fault_defs)
qed

theorem statFault_narrow_witness:
  "statFault False (Object \<lparr>is_NotFound = False, is_PermissionDenied = False, is_AlreadyExists = False,
      code = Some (js ''EACCES''), ename = None, etext = []\<rparr>) [97] = Some FAULT_DENIED"
  using statFault_narrow [of False "\<lparr>is_NotFound = False, is_PermissionDenied = False,
      is_AlreadyExists = False, code = Some (js ''EACCES''), ename = None, etext = []\<rparr>" FAULT_DENIED "[97]"]
  by (simp add: js_def fault_defs)

text \<open>
  A rename whose destination cannot be expressed is blamed on its source: when the
  operation fails with "not found" and only the destination contains U+FFFD, the two
  nested refinements of the rename handler (\<open>deno.ts\<close>, \<open>onPath(from, onPath(to, ..))\<close>)
  hand on a message that names the source and says that it contains U+FFFD.
\<close>

theorem rename_blames_source:
  assumes "faultOf deno e = Some FAULT_NOT_FOUND" "REPLACEMENT \<in> set to_path"
    and "pathFailure deno e to_path = Some e'"
  shows "pathFailure deno e' from_path
    = Some (Faulted FAULT_NOT_REPRESENTABLE (from_path @ NOT_REPRESENTABLE_WORDS))"
  using assms by (auto simp: pathFailure_def faultOfPath_def fault_defs)

theorem rename_blames_source_witness:
  "\<exists>e'. pathFailure True (Faulted FAULT_NOT_FOUND []) [98, 65533] = Some e'
     \<and> pathFailure True e' [97] = Some (Faulted FAULT_NOT_REPRESENTABLE ([97] @ NOT_REPRESENTABLE_WORDS))"
proof -
  let ?e = "Faulted FAULT_NOT_REPRESENTABLE ([98, 65533] @ NOT_REPRESENTABLE_WORDS)"
  have "pathFailure True (Faulted FAULT_NOT_FOUND []) [98, 65533] = Some ?e"
    by (simp add: pathFailure_def faultOfPath_def fault_defs REPLACEMENT_def)
  with rename_blames_source [of True "Faulted FAULT_NOT_FOUND []" "[98, 65533]" ?e "[97]"]
  show ?thesis by (auto simp: REPLACEMENT_def)
qed

end
