(* ===== verification/Wire.thy ===== *)
theory Wire
  imports Faults Layout
begin

text \<open>
  The payloads of host calls: the field encoders of \<open>call.ts\<close>, the request encoders and
  answer decoders of \<open>provider.ts\<close> (the worker's side), and the request decoders and answer
  encoders of \<open>children.ts\<close>, \<open>child.ts\<close> and \<open>deno.ts\<close> (the host's side). Each pair is
  written in a different file by hand; the properties are that they agree, byte for byte,
  on everything that can be sent.
\<close>

unbundle bit_operations_syntax

section \<open>Fields: call.ts\<close>

definition str :: "jsstring \<Rightarrow> bytes" where "str s = encode s"
definition unstr :: "bytes \<Rightarrow> jsstring" where "unstr b = decode b"

text \<open>An argument as bytes: only a string is encoded.\<close>

definition argBytes :: "jsstring + bytes \<Rightarrow> bytes" where
  "argBytes a = (case a of Inl s \<Rightarrow> encode s | Inr b \<Rightarrow> b)"

definition i32le :: "int \<Rightarrow> bytes" where "i32le n = le4 (word_of_int n)"
definition readI32le :: "bytes \<Rightarrow> int option" where "readI32le b = getInt32 b 0"
definition i64le :: "int \<Rightarrow> bytes" where "i64le n = le8 (word_of_int n)"
definition readI64le :: "bytes \<Rightarrow> int option" where "readI64le b = getBigInt64 b 0"

text \<open>What a call that failed raises in the worker; \<open>OtherError\<close> is any other exception.\<close>

datatype call_error = HostCallError jsstring int | OtherError jsstring

fun message_of :: "call_error \<Rightarrow> jsstring" where
  "message_of (HostCallError m f) = m"
| "message_of (OtherError m) = m"

definition faultedMessage :: "bytes \<Rightarrow> int \<times> jsstring" where
  "faultedMessage b =
     (if b = [] then (5, []) else (uint (hd b), decode (subarray_from b 1)))"

text \<open>\<open>b[i] === v\<close>, which is false outside the array.\<close>

definition byte_is :: "bytes \<Rightarrow> int \<Rightarrow> byte \<Rightarrow> bool" where
  "byte_is b i v \<longleftrightarrow> 0 \<le> i \<and> i < int (length b) \<and> b ! nat i = v"

section \<open>Tickets: provider.ts\<close>

record ticket =
  tslot :: nat
  tgen :: int

text \<open>\<open>Math.ceil(Math.log2(SLOTS))\<close>.\<close>

definition SLOT_BITS :: nat where
  "SLOT_BITS = length (takeWhile (\<lambda>k. 2 ^ k < SLOTS) [0..<SLOTS])"

definition SLOT_MASK :: i32 where
  "SLOT_MASK = push_bit SLOT_BITS 1 - 1"

definition pack :: "ticket \<Rightarrow> int" where
  "pack t = sint (word_of_nat (tslot t) OR push_bit SLOT_BITS (word_of_int (tgen t)) :: i32)"

definition unpack :: "int \<Rightarrow> ticket" where
  "unpack ident =
     \<lparr>tslot = unat (word_of_int ident AND SLOT_MASK), tgen = uint (drop_bit SLOT_BITS (word_of_int ident :: i32))\<rparr>"

section \<open>Requests: provider.ts\<close>

definition flag :: "bool \<Rightarrow> bytes" where "flag on = [if on then 1 else 0]"

definition headed :: "bytes \<Rightarrow> bytes \<Rightarrow> bytes" where "headed head body = head @ body"

definition prefixed :: "bytes \<Rightarrow> bytes \<Rightarrow> bytes" where
  "prefixed head body = i32le (int (length head)) @ head @ body"

definition twoPaths :: "jsstring \<Rightarrow> jsstring \<Rightarrow> bytes" where
  "twoPaths a b = i32le (int (length (str a))) @ str a @ str b"

definition flagged :: "bool \<Rightarrow> jsstring \<Rightarrow> bytes" where
  "flagged on path = (if on then 1 else 0) # str path"

definition argvBytes :: "bytes list \<Rightarrow> bytes" where
  "argvBytes args =
     i32le (int (length args)) @ concat (map (\<lambda>a. i32le (int (length a)) @ a) args)"

definition spawn_payload :: "jsstring \<Rightarrow> bytes list \<Rightarrow> int \<Rightarrow> jsstring \<Rightarrow> bool \<Rightarrow> bytes" where
  "spawn_payload source args grants cwd inheritIn =
     headed (i32le grants)
       (prefixed (str source) (headed (argvBytes args) (prefixed (str cwd) (flag inheritIn))))"

definition spawnSelf_payload :: "bytes list \<Rightarrow> int \<Rightarrow> jsstring \<Rightarrow> bool \<Rightarrow> bytes" where
  "spawnSelf_payload args grants cwd inheritIn =
     headed (i32le grants) (headed (argvBytes args) (prefixed (str cwd) (flag inheritIn)))"

text \<open>\<open>join\<close> and \<open>split\<close> with the NUL character.\<close>

fun join0 :: "jsstring list \<Rightarrow> jsstring" where
  "join0 [] = []"
| "join0 [s] = s"
| "join0 (s # ss) = s @ 0 # join0 ss"

fun split0 :: "jsstring \<Rightarrow> jsstring list" where
  "split0 [] = [[]]"
| "split0 (c # cs) =
     (if c = 0 then [] # split0 cs
      else case split0 cs of [] \<Rightarrow> [[c]] | s # ss \<Rightarrow> (c # s) # ss)"

definition pushChild_payload :: "jsstring list \<Rightarrow> bytes \<Rightarrow> jsstring \<Rightarrow> bytes" where
  "pushChild_payload argv stdin cwd =
     headed (i32le (int (length argv)))
       (prefixed (str (join0 argv)) (prefixed (str cwd) stdin))"

text \<open>The \<open>Page\<close> requests: two strings, an image, a download.\<close>

definition two :: "jsstring \<Rightarrow> jsstring \<Rightarrow> bytes" where
  "two a b = i32le (int (length (str a))) @ str a @ str b"

definition drawPixels_payload :: "jsstring \<Rightarrow> int \<Rightarrow> int \<Rightarrow> bytes \<Rightarrow> bytes" where
  "drawPixels_payload ident w h rgba =
     i32le w @ i32le h @ i32le (int (length (str ident))) @ str ident @ rgba"

definition offerDownload_payload :: "jsstring \<Rightarrow> bytes \<Rightarrow> bytes" where
  "offerDownload_payload name body = i32le (int (length (str name))) @ str name @ body"

section \<open>Requests, read by the host\<close>

text \<open>\<open>unpackArgs\<close>: the loop from the cursor on, then the whole.\<close>

fun args_loop :: "nat \<Rightarrow> bytes \<Rightarrow> int \<Rightarrow> (bytes list \<times> int) option" where
  "args_loop 0 p cursor = Some ([], cursor)"
| "args_loop (Suc n) p cursor =
     (case getInt32 p cursor of
        None \<Rightarrow> None
      | Some len \<Rightarrow>
          (case args_loop n p (cursor + (4 + len)) of
             None \<Rightarrow> None
           | Some (args, at) \<Rightarrow> Some (subarray p (cursor + 4) (cursor + 4 + len) # args, at)))"

definition unpackArgs :: "bytes \<Rightarrow> int \<Rightarrow> (bytes list \<times> int) option" where
  "unpackArgs p at =
     (case getInt32 p at of None \<Rightarrow> None | Some count \<Rightarrow> args_loop (nat count) p (at + 4))"

record spawn_request =
  source :: jsstring
  args :: "bytes list"
  cwd :: jsstring
  inheritIn :: bool

definition want :: "bytes \<Rightarrow> int option" where
  "want p = getInt32 p 0"

text \<open>The tail the two spawn payloads share: directory and flag.\<close>

definition unpackSpawn :: "bytes \<Rightarrow> spawn_request option" where
  "unpackSpawn p =
     (case getInt32 p 4 of
        None \<Rightarrow> None
      | Some sourceLen \<Rightarrow>
          (case unpackArgs p (8 + sourceLen) of
             None \<Rightarrow> None
           | Some (as, at) \<Rightarrow>
               (case getInt32 p at of
                  None \<Rightarrow> None
                | Some cwdLen \<Rightarrow>
                    Some \<lparr>source = decode (subarray p 8 (8 + sourceLen)), args = as,
                          cwd = decode (subarray p (at + 4) (at + 4 + cwdLen)),
                          inheritIn = byte_is p (at + 4 + cwdLen) 1\<rparr>)))"

definition unpackSpawnSelf :: "bytes \<Rightarrow> (bytes list \<times> jsstring \<times> bool) option" where
  "unpackSpawnSelf p =
     (case unpackArgs p 4 of
        None \<Rightarrow> None
      | Some (as, at) \<Rightarrow>
          (case getInt32 p at of
             None \<Rightarrow> None
           | Some cwdLen \<Rightarrow>
               Some (as, decode (subarray p (at + 4) (at + 4 + cwdLen)), byte_is p (at + 4 + cwdLen) 1)))"

definition unpackPush :: "bytes \<Rightarrow> (jsstring list \<times> bytes \<times> jsstring) option" where
  "unpackPush p =
     (case getInt32 p 0 of
        None \<Rightarrow> None
      | Some count \<Rightarrow>
          (case getInt32 p 4 of
             None \<Rightarrow> None
           | Some argvLen \<Rightarrow>
               (let argv = (if count = 0 then [] else split0 (decode (subarray p 8 (8 + argvLen))));
                    cwdAt = 8 + argvLen
                in case getInt32 p cwdAt of
                     None \<Rightarrow> None
                   | Some cwdLen \<Rightarrow>
                       Some (argv, subarray_from p (cwdAt + 4 + cwdLen),
                             decode (subarray p (cwdAt + 4) (cwdAt + 4 + cwdLen))))))"

text \<open>What the handlers of \<open>deno.ts\<close> read: a rename, a write, a change with a flag, an address.\<close>

definition rename_args :: "bytes \<Rightarrow> (jsstring \<times> jsstring) option" where
  "rename_args p =
     map_option (\<lambda>n. (unstr (subarray p 4 (4 + n)), unstr (subarray_from p (4 + n)))) (readI32le p)"

definition writeFile_args :: "bytes \<Rightarrow> (jsstring \<times> bytes) option" where
  "writeFile_args p =
     map_option (\<lambda>n. (unstr (subarray p 4 (4 + n)), subarray_from p (4 + n))) (readI32le p)"

definition flagged_args :: "bytes \<Rightarrow> bool \<times> jsstring" where
  "flagged_args p = (byte_is p 0 1, unstr (subarray_from p 1))"

definition connect_args :: "bytes \<Rightarrow> (int \<times> jsstring) option" where
  "connect_args p = map_option (\<lambda>port. (port, unstr (subarray_from p 4))) (readI32le p)"

definition send_args :: "bytes \<Rightarrow> (int \<times> bytes) option" where
  "send_args p = map_option (\<lambda>h. (h, subarray_from p 4)) (readI32le p)"

section \<open>Answers, written by the host\<close>

definition data :: "bytes \<Rightarrow> bytes" where "data b = 0 # b"
definition END_READ :: bytes where "END_READ = [1]"
definition failed :: "jsstring \<Rightarrow> bytes" where "failed why = 2 # encode why"
definition lineOf :: "bytes \<Rightarrow> bytes" where "lineOf p = p @ [10]"

definition withPeer :: "int \<Rightarrow> jsstring \<Rightarrow> int \<Rightarrow> bytes" where
  "withPeer handle peer port = i32le handle @ i32le port @ encode peer"

definition env_answer :: "jsstring option \<Rightarrow> bytes" where
  "env_answer v = (case v of None \<Rightarrow> [0] | Some s \<Rightarrow> 1 # str s)"

record file_stat =
  isFile :: bool
  isDirectory :: bool
  size_of :: int
  mtime :: int
  isSymlink :: bool

definition stat_answer :: "file_stat + int \<Rightarrow> bytes" where
  "stat_answer r =
     (case r of
        Inl st \<Rightarrow> [1, if isFile st then 1 else 0, if isDirectory st then 1 else 0]
          @ i64le (size_of st) @ i64le (mtime st) @ [if isSymlink st then 1 else 0, 0]
      | Inr fault \<Rightarrow> replicate 20 0 @ [word_of_int fault])"

definition packCaptured :: "bytes \<Rightarrow> bytes \<Rightarrow> bytes" where
  "packCaptured out err = i32le (int (length out)) @ out @ err"

definition twoHandles :: "int \<Rightarrow> int \<Rightarrow> jsstring \<Rightarrow> bytes" where
  "twoHandles handle errHandle why =
     i32le handle @ i32le errHandle @ encode (takeWhile (\<lambda>c. c \<noteq> 10) why)"

definition failedChild :: "jsstring \<Rightarrow> bytes" where
  "failedChild why = twoHandles (-1) (-1) why"

definition noSpawnHere :: "jsstring \<Rightarrow> bytes" where
  "noSpawnHere why = twoHandles (-2) (-2) why"

section \<open>Answers, read by the worker: provider.ts\<close>

text \<open>
  The resolvers, over what \<open>collect\<close> did: it raised, or it answered. \<open>oob\<close> is the message
  of the exception a \<open>DataView\<close> raises when it is read out of range.
\<close>

type_synonym answer = "call_error + bytes"

datatype read_result = Data bytes | EndOfInput | Failed jsstring

definition readOf :: "bytes \<Rightarrow> read_result" where
  "readOf out =
     (if out = [] \<or> hd out = 1 then EndOfInput
      else if hd out = 2 then Failed (unstr (subarray_from out 1))
      else Data (subarray_from out 1))"

definition read :: "answer \<Rightarrow> read_result" where
  "read a = (case a of Inr out \<Rightarrow> readOf out | Inl e \<Rightarrow> Failed (message_of e))"

definition change :: "answer \<Rightarrow> int \<times> jsstring" where
  "change a =
     (case a of
        Inr out \<Rightarrow> (if out = [] then (0, []) else (uint (hd out), unstr (subarray_from out 1)))
      | Inl e \<Rightarrow> (5, message_of e))"

definition fileResult :: "answer \<Rightarrow> bool \<times> bytes \<times> jsstring \<times> int" where
  "fileResult a =
     (case a of
        Inr out \<Rightarrow> (True, out, [], 0)
      | Inl (HostCallError m f) \<Rightarrow> (False, [], m, f)
      | Inl (OtherError m) \<Rightarrow> (False, [], m, FAULT_OTHER))"

definition child_of :: "jsstring \<Rightarrow> answer \<Rightarrow> int \<times> int \<times> jsstring" where
  "child_of oob a =
     (case a of
        Inl e \<Rightarrow> (-1, -1, message_of e)
      | Inr out \<Rightarrow>
          (case (readI32le out, readI32le (subarray_from out 4)) of
             (Some h, Some eh) \<Rightarrow> (h, eh, if h < 0 then unstr (subarray_from out 8) else [])
           | _ \<Rightarrow> (-1, -1, oob)))"

definition captured :: "answer \<Rightarrow> bytes \<times> bytes" where
  "captured a =
     (case a of
        Inl e \<Rightarrow> ([], [])
      | Inr out \<Rightarrow>
          (case readI32le out of
             None \<Rightarrow> ([], [])
           | Some n \<Rightarrow> (subarray out 4 (4 + n), subarray_from out (4 + n))))"

definition socket :: "jsstring \<Rightarrow> answer \<Rightarrow> int \<times> jsstring \<times> jsstring \<times> int" where
  "socket oob a =
     (case a of
        Inl e \<Rightarrow> (-1, message_of e, [], 0)
      | Inr out \<Rightarrow>
          (case (readI32le out, readI32le (subarray_from out 4)) of
             (Some h, Some port) \<Rightarrow> (h, [], unstr (subarray_from out 8), port)
           | _ \<Rightarrow> (-1, oob, [], 0)))"

record stat_result =
  s_exists :: bool
  s_isFile :: bool
  s_isDir :: bool
  s_size :: int
  s_mtime :: int
  s_isSymlink :: bool
  s_fault :: int

definition stat :: "answer \<Rightarrow> stat_result" where
  "stat a =
     (let broken = \<lparr>s_exists = False, s_isFile = False, s_isDir = False, s_size = 0, s_mtime = 0,
                    s_isSymlink = False, s_fault = FAULT_OTHER\<rparr>
      in case a of
           Inl e \<Rightarrow> broken
         | Inr out \<Rightarrow>
             (case (getBigInt64 out 3, getBigInt64 out 11) of
                (Some sz, Some mt) \<Rightarrow>
                  \<lparr>s_exists = byte_is out 0 1, s_isFile = byte_is out 1 1, s_isDir = byte_is out 2 1,
                   s_size = sz, s_mtime = mt, s_isSymlink = byte_is out 19 1,
                   s_fault = (if length out \<le> 20 then 0 else uint (out ! 20))\<rparr>
              | _ \<Rightarrow> broken))"

definition dirNames :: "answer \<Rightarrow> jsstring list option" where
  "dirNames a =
     (case a of
        Inl e \<Rightarrow> None
      | Inr out \<Rightarrow> Some (if out = [] then [] else split0 (unstr out)))"

definition maybeText :: "bytes \<Rightarrow> jsstring option" where
  "maybeText out = (if byte_is out 0 1 then Some (unstr (subarray_from out 1)) else None)"

definition maybeBytes :: "bytes \<Rightarrow> bytes option" where
  "maybeBytes out = (if byte_is out 0 1 then Some (subarray_from out 1) else None)"

text \<open>The numbers a field can carry.\<close>

definition i32_ok :: "int \<Rightarrow> bool" where
  "i32_ok n \<longleftrightarrow> - 2147483648 \<le> n \<and> n < 2147483648"

definition i64_ok :: "int \<Rightarrow> bool" where
  "i64_ok n \<longleftrightarrow> - 9223372036854775808 \<le> n \<and> n < 9223372036854775808"

section \<open>Fields read back\<close>

lemma length_i32le [simp]: "length (i32le n) = 4"
  by (simp add: i32le_def)

lemma length_i64le [simp]: "length (i64le n) = 8"
  by (simp add: i64le_def)

lemma sint_word_of_int_i64: "i64_ok n \<Longrightarrow> sint (word_of_int n :: i64) = n"
  by (simp add: i64_ok_def sint_sbintrunc' signed_take_bit_int_eq_self)

lemma get_i32le:
  "i32_ok n \<Longrightarrow> k = int (length xs) \<Longrightarrow> getInt32 (xs @ i32le n @ ys) k = Some n"
  by (simp add: i32le_def getInt32_le4 i32_ok_def sint_word_of_int_i32)

lemma get_i32le_0: "i32_ok n \<Longrightarrow> getInt32 (i32le n @ ys) 0 = Some n"
  using get_i32le [of n 0 "[]" ys] by simp

lemma get_i64le:
  "i64_ok n \<Longrightarrow> k = int (length xs) \<Longrightarrow> getBigInt64 (xs @ i64le n @ ys) k = Some n"
  by (simp add: i64le_def getBigInt64_le8 sint_word_of_int_i64)

lemma i32_ok_length: "length xs < 2147483648 \<Longrightarrow> i32_ok (int (length xs))"
  by (simp add: i32_ok_def)

lemma subarray_mid:
  "a = int (length xs) \<Longrightarrow> b = int (length xs) + int (length ys) \<Longrightarrow> subarray (xs @ ys @ zs) a b = ys"
  using subarray_append_mid [of xs ys zs] by simp

lemma subarray_from_mid: "a = int (length xs) \<Longrightarrow> subarray_from (xs @ ys) a = ys"
  using subarray_from_nat [of "xs @ ys" "length xs"] by simp

lemma byte_is_mid: "i = int (length xs) \<Longrightarrow> byte_is (xs @ b # ys) i v \<longleftrightarrow> b = v"
  by (simp add: byte_is_def)

lemma subarray_from_1 [simp]: "subarray_from (b # bs) 1 = bs"
  using subarray_from_mid [of 1 "[b]" bs] by simp

section \<open>Tickets\<close>

lemma SLOT_BITS_7: "SLOT_BITS = 7"
  by code_simp

lemma SLOT_MASK_mask: "SLOT_MASK = mask 7"
  by (simp add: SLOT_MASK_def SLOT_BITS_7 mask_eq_exp_minus_1)

lemma pack_word: "word_of_int (pack t) = (word_of_nat (tslot t) OR push_bit 7 (word_of_int (tgen t)) :: i32)"
  by (simp add: pack_def SLOT_BITS_7)

lemma unpack_pack_slot:
  assumes "tslot t < SLOTS"
  shows "tslot (unpack (pack t)) = tslot t"
proof -
  have lt: "tslot t < 2 ^ 7" using assms by (simp add: SLOTS_def)
  have "(word_of_nat (tslot t) OR push_bit 7 (word_of_int (tgen t)) :: i32) AND mask 7
      = take_bit 7 (word_of_nat (tslot t))"
    by (simp add: take_bit_eq_mask [symmetric] take_bit_or take_bit_push_bit)
  moreover have "unat (take_bit 7 (word_of_nat (tslot t)) :: i32) = tslot t"
    using lt unfolding unsigned_take_bit_eq by (simp add: unat_of_nat take_bit_eq_mod)
  ultimately show ?thesis
    by (simp add: unpack_def SLOT_MASK_mask pack_word)
qed

lemma unpack_pack_gen:
  assumes "tslot t < SLOTS"
  shows "tgen (unpack (pack t)) = tgen t mod 33554432"
proof -
  have lt: "tslot t < 2 ^ 7" using assms by (simp add: SLOTS_def)
  have z: "drop_bit 7 (word_of_nat (tslot t) :: i32) = 0"
    using lt by (simp add: drop_bit_eq_div word_arith_nat_div unat_of_nat) 
  have "drop_bit 7 (word_of_nat (tslot t) OR push_bit 7 (word_of_int (tgen t)) :: i32)
     = drop_bit 7 (push_bit 7 (word_of_int (tgen t)))"
    by (simp add: drop_bit_or z)
  also have "\<dots> = take_bit 25 (word_of_int (tgen t))"
    by (rule bit_word_eqI) (auto simp: bit_drop_bit_eq bit_push_bit_iff bit_take_bit_iff)
  finally have "tgen (unpack (pack t)) = uint (take_bit 25 (word_of_int (tgen t)) :: i32)"
    by (simp add: unpack_def pack_word SLOT_BITS_7)
  also have "\<dots> = tgen t mod 33554432"
    unfolding unsigned_take_bit_eq by (simp add: uint_word_of_int take_bit_eq_mod mod_mod_cancel)
  finally show ?thesis .
qed

section \<open>Argument vectors\<close>

abbreviation arg_bytes :: "bytes \<Rightarrow> bytes" where
  "arg_bytes a \<equiv> i32le (int (length a)) @ a"

lemma args_loop_concat:
  assumes "\<forall>a\<in>set as. length a < 2147483648"
  shows "args_loop (length as) (xs @ concat (map arg_bytes as) @ ys) (int (length xs))
    = Some (as, int (length (xs @ concat (map arg_bytes as))))"
  using assms
proof (induction "as" arbitrary: xs)
  case (Cons a "as")
  let ?p = "xs @ concat (map arg_bytes (a # as)) @ ys"
  let ?tl = "concat (map arg_bytes as) @ ys"
  have p1: "?p = xs @ i32le (int (length a)) @ (a @ ?tl)"
    and p2: "?p = (xs @ i32le (int (length a))) @ a @ ?tl"
    and p3: "?p = (xs @ arg_bytes a) @ ?tl" by simp_all
  have g: "getInt32 ?p (int (length xs)) = Some (int (length a))"
    unfolding p1 by (rule get_i32le) (use Cons.prems in \<open>simp_all add: i32_ok_length\<close>)
  have s: "subarray ?p (int (length xs) + 4) (int (length xs) + 4 + int (length a)) = a"
    unfolding p2 by (rule subarray_mid) simp_all
  have "int (length xs) + (4 + int (length a)) = int (length (xs @ arg_bytes a))" by simp
  moreover have "args_loop (length as) ?p (int (length (xs @ arg_bytes a)))
      = Some (as, int (length ((xs @ arg_bytes a) @ concat (map arg_bytes as))))"
    unfolding p3 using Cons.prems by (intro Cons.IH) simp
  ultimately have "args_loop (length as) ?p (int (length xs) + (4 + int (length a)))
      = Some (as, int (length ((xs @ arg_bytes a) @ concat (map arg_bytes as))))" by (simp only:)
  with g s show ?case by (simp del: map_append concat_append append_assoc)
qed simp

lemma unpackArgs_argvBytes:
  assumes "length as < 2147483648" "\<forall>a\<in>set as. length a < 2147483648" "k = int (length xs)"
  shows "unpackArgs (xs @ argvBytes as @ ys) k = Some (as, int (length (xs @ argvBytes as)))"
proof -
  have g: "getInt32 (xs @ i32le (int (length as)) @ (concat (map arg_bytes as) @ ys)) k = Some (int (length as))"
    by (rule get_i32le) (use assms in \<open>simp_all add: i32_ok_length\<close>)
  have "args_loop (length as) ((xs @ i32le (int (length as))) @ concat (map arg_bytes as) @ ys)
       (int (length (xs @ i32le (int (length as)))))
     = Some (as, int (length ((xs @ i32le (int (length as))) @ concat (map arg_bytes as))))"
    by (rule args_loop_concat [OF assms(2)])
  moreover have "int (length (xs @ i32le (int (length as)))) = k + 4" using assms(3) by simp
  ultimately show ?thesis
    using g by (simp add: unpackArgs_def argvBytes_def)
qed

text \<open>The tail of both spawn payloads: the directory, then the flag.\<close>

lemma spawn_tail:
  assumes "length (str c) < 2147483648" "text_ok c" "k = int (length xs)"
    and "p = xs @ prefixed (str c) (flag b)"
  shows "getInt32 p k = Some (int (length (str c)))"
    and "decode (subarray p (k + 4) (k + 4 + int (length (str c)))) = c"
    and "byte_is p (k + 4 + int (length (str c))) 1 = b"
proof -
  have p1: "p = xs @ i32le (int (length (str c))) @ (str c @ flag b)"
    and p2: "p = (xs @ i32le (int (length (str c)))) @ str c @ flag b"
    and p3: "p = (xs @ i32le (int (length (str c))) @ str c) @ (if b then 1 else 0) # []"
    using assms(4) by (simp_all add: prefixed_def flag_def)
  show "getInt32 p k = Some (int (length (str c)))"
    unfolding p1 by (rule get_i32le) (use assms in \<open>simp_all add: i32_ok_length\<close>)
  have "subarray p (k + 4) (k + 4 + int (length (str c))) = str c"
    unfolding p2 by (rule subarray_mid) (use assms(3) in simp_all)
  then show "decode (subarray p (k + 4) (k + 4 + int (length (str c)))) = c"
    using assms(2) by (simp add: str_def decode_encode)
  show "byte_is p (k + 4 + int (length (str c))) 1 = b"
    unfolding p3 by (subst byte_is_mid) (use assms(3) in simp_all)
qed

lemma spawn_roundtrip_lemma:
  assumes "i32_ok grants" "text_ok src" "text_ok c" "length (str src) < 2147483648" "length (str c) < 2147483648"
    "length as < 2147483648" "\<forall>a\<in>set as. length a < 2147483648"
  shows "unpackSpawn (spawn_payload src as grants c b) = Some \<lparr>source = src, args = as, cwd = c, inheritIn = b\<rparr>"
proof -
  let ?p = "spawn_payload src as grants c b"
  let ?h = "i32le grants @ i32le (int (length (str src))) @ str src"
  have p1: "?p = i32le grants @ i32le (int (length (str src))) @ (str src @ argvBytes as @ prefixed (str c) (flag b))"
    and p2: "?p = (i32le grants @ i32le (int (length (str src)))) @ str src @ (argvBytes as @ prefixed (str c) (flag b))"
    and p3: "?p = ?h @ argvBytes as @ prefixed (str c) (flag b)"
    and p4: "?p = (?h @ argvBytes as) @ prefixed (str c) (flag b)"
    by (simp_all add: spawn_payload_def headed_def prefixed_def)
  have a: "getInt32 ?p 4 = Some (int (length (str src)))"
    unfolding p1 by (rule get_i32le) (use assms(4) in \<open>simp_all add: i32_ok_length\<close>)
  have b: "decode (subarray ?p 8 (8 + int (length (str src)))) = src"
    unfolding p2 by (subst subarray_mid) (use assms(2) in \<open>simp_all add: str_def decode_encode\<close>)
  have d: "unpackArgs ?p (8 + int (length (str src))) = Some (as, int (length (?h @ argvBytes as)))"
    unfolding p3 by (rule unpackArgs_argvBytes [OF assms(6,7)]) simp
  note e = spawn_tail [OF assms(5,3) refl p4]
  show ?thesis
    unfolding unpackSpawn_def a option.case d prod.case e b ..
qed

lemma spawnSelf_roundtrip_lemma:
  assumes "i32_ok grants" "text_ok c" "length (str c) < 2147483648"
    "length as < 2147483648" "\<forall>a\<in>set as. length a < 2147483648"
  shows "unpackSpawnSelf (spawnSelf_payload as grants c b) = Some (as, c, b)"
proof -
  let ?p = "spawnSelf_payload as grants c b"
  have p3: "?p = i32le grants @ argvBytes as @ prefixed (str c) (flag b)"
    and p4: "?p = (i32le grants @ argvBytes as) @ prefixed (str c) (flag b)"
    by (simp_all add: spawnSelf_payload_def headed_def)
  have d: "unpackArgs ?p 4 = Some (as, int (length (i32le grants @ argvBytes as)))"
    unfolding p3 by (rule unpackArgs_argvBytes [OF assms(4,5)]) simp
  note e = spawn_tail [OF assms(3,2) refl p4]
  show ?thesis
    unfolding unpackSpawnSelf_def option.case d prod.case e ..
qed

section \<open>Pushed children\<close>

lemma split0_not_Nil [simp]: "split0 s \<noteq> []"
  by (cases s) (auto split: list.splits)

lemma split0_plain: "0 \<notin> set s \<Longrightarrow> split0 s = [s]"
  by (induction s) auto

lemma split0_append: "0 \<notin> set s \<Longrightarrow> split0 (s @ 0 # t) = s # split0 t"
  by (induction s) auto

lemma split0_join0: "ss \<noteq> [] \<Longrightarrow> \<forall>s\<in>set ss. 0 \<notin> set s \<Longrightarrow> split0 (join0 ss) = ss"
  by (induction ss rule: join0.induct) (auto simp: split0_plain split0_append)

lemma push_roundtrip_lemma:
  assumes "\<forall>s\<in>set argv. 0 \<notin> set s" "text_ok (join0 argv)" "text_ok c"
    "length argv < 2147483648" "length (str (join0 argv)) < 2147483648" "length (str c) < 2147483648"
  shows "unpackPush (pushChild_payload argv stdin c) = Some (argv, stdin, c)"
proof -
  let ?p = "pushChild_payload argv stdin c"
  let ?n = "int (length argv)" and ?a = "str (join0 argv)"
  let ?h = "i32le ?n @ i32le (int (length ?a)) @ ?a"
  have p0: "?p = i32le ?n @ (i32le (int (length ?a)) @ ?a @ prefixed (str c) stdin)"
    and p1: "?p = i32le ?n @ i32le (int (length ?a)) @ (?a @ prefixed (str c) stdin)"
    and p2: "?p = (i32le ?n @ i32le (int (length ?a))) @ ?a @ prefixed (str c) stdin"
    and p3: "?p = ?h @ i32le (int (length (str c))) @ (str c @ stdin)"
    and p4: "?p = (?h @ i32le (int (length (str c)))) @ str c @ stdin"
    and p5: "?p = (?h @ i32le (int (length (str c))) @ str c) @ stdin"
    by (simp_all add: pushChild_payload_def headed_def prefixed_def)
  have g0: "getInt32 ?p 0 = Some ?n"
    unfolding p0 by (rule get_i32le_0) (use assms(4) in \<open>simp add: i32_ok_length\<close>)
  have g1: "getInt32 ?p 4 = Some (int (length ?a))"
    unfolding p1 by (rule get_i32le) (use assms(5) in \<open>simp_all add: i32_ok_length\<close>)
  have a: "decode (subarray ?p 8 (8 + int (length ?a))) = join0 argv"
    unfolding p2 by (subst subarray_mid) (use assms(2) in \<open>simp_all add: str_def decode_encode\<close>)
  have g2: "getInt32 ?p (8 + int (length ?a)) = Some (int (length (str c)))"
    unfolding p3 by (rule get_i32le) (use assms(6) in \<open>simp_all add: i32_ok_length\<close>)
  have c: "decode (subarray ?p (8 + int (length ?a) + 4) (8 + int (length ?a) + 4 + int (length (str c)))) = c"
    unfolding p4 by (subst subarray_mid) (use assms(3) in \<open>simp_all add: str_def decode_encode\<close>)
  have s: "subarray_from ?p (8 + int (length ?a) + 4 + int (length (str c))) = stdin"
    unfolding p5 by (rule subarray_from_mid) simp
  have v: "(if ?n = 0 then [] else split0 (join0 argv)) = argv"
    using split0_join0 [of argv] assms(1) by simp
  show ?thesis
    unfolding unpackPush_def g0 g1 option.case Let_def a g2 c s v ..
qed

section \<open>Answers\<close>

lemma twoHandles_read:
  assumes "i32_ok h" "i32_ok eh"
  shows "readI32le (twoHandles h eh why) = Some h"
    and "readI32le (subarray_from (twoHandles h eh why) 4) = Some eh"
    and "subarray_from (twoHandles h eh why) 8 = encode (takeWhile (\<lambda>c. c \<noteq> 10) why)"
proof -
  let ?t = "encode (takeWhile (\<lambda>c. c \<noteq> 10) why)"
  have p: "twoHandles h eh why = i32le h @ (i32le eh @ ?t)"
    "twoHandles h eh why = (i32le h @ i32le eh) @ ?t" by (simp_all add: twoHandles_def)
  show "readI32le (twoHandles h eh why) = Some h"
    unfolding p(1) readI32le_def by (rule get_i32le_0 [OF assms(1)])
  have "subarray_from (twoHandles h eh why) 4 = i32le eh @ ?t"
    unfolding p(1) by (rule subarray_from_mid) simp
  then show "readI32le (subarray_from (twoHandles h eh why) 4) = Some eh"
    by (simp add: readI32le_def get_i32le_0 assms(2))
  show "subarray_from (twoHandles h eh why) 8 = ?t"
    unfolding p(2) by (rule subarray_from_mid) simp
qed

lemma captured_packCaptured:
  assumes "length out < 2147483648"
  shows "captured (Inr (packCaptured out err)) = (out, err)"
proof -
  let ?n = "int (length out)"
  have p: "packCaptured out err = i32le ?n @ (out @ err)" "packCaptured out err = i32le ?n @ out @ err"
    "packCaptured out err = (i32le ?n @ out) @ err" by (simp_all add: packCaptured_def)
  have "readI32le (packCaptured out err) = Some ?n"
    unfolding p(1) readI32le_def by (rule get_i32le_0) (use assms in \<open>simp add: i32_ok_length\<close>)
  moreover have "subarray (packCaptured out err) 4 (4 + ?n) = out"
    unfolding p(2) by (rule subarray_mid) simp_all
  moreover have "subarray_from (packCaptured out err) (4 + ?n) = err"
    unfolding p(3) by (rule subarray_from_mid) simp
  ultimately show ?thesis by (simp add: captured_def)
qed

lemma twoPaths_read:
  assumes "text_ok a" "text_ok b" "length (str a) < 2147483648"
  shows "rename_args (twoPaths a b) = Some (a, b)"
    and "writeFile_args (prefixed (str a) body) = Some (a, body)"
proof -
  let ?n = "int (length (str a))"
  have r: "readI32le (i32le ?n @ str a @ x) = Some ?n" for x
    unfolding readI32le_def by (rule get_i32le_0) (use assms in \<open>simp add: i32_ok_length\<close>)
  have s: "subarray (i32le ?n @ str a @ x) 4 (4 + ?n) = str a" for x
    by (rule subarray_mid) simp_all
  have f: "subarray_from (i32le ?n @ str a @ x) (4 + ?n) = x" for x
    using subarray_from_mid [of "4 + ?n" "i32le ?n @ str a" x] by simp
  show "rename_args (twoPaths a b) = Some (a, b)"
    using assms by (simp add: rename_args_def twoPaths_def r s f unstr_def) (simp add: str_def decode_encode)
  show "writeFile_args (prefixed (str a) body) = Some (a, body)"
    using assms by (simp add: writeFile_args_def prefixed_def r s f unstr_def) (simp add: str_def decode_encode)
qed

lemma stat_read:
  assumes "i64_ok (size_of st)" "i64_ok (mtime st)"
  shows "stat (Inr (stat_answer (Inl st))) =
    \<lparr>s_exists = True, s_isFile = isFile st, s_isDir = isDirectory st, s_size = size_of st,
     s_mtime = mtime st, s_isSymlink = isSymlink st, s_fault = 0\<rparr>"
proof -
  let ?f = "if isFile st then 1 else (0 :: byte)" and ?d = "if isDirectory st then 1 else (0 :: byte)"
    and ?l = "if isSymlink st then 1 else (0 :: byte)"
  let ?s = "i64le (size_of st)" and ?m = "i64le (mtime st)"
  let ?p = "stat_answer (Inl st)"
  have p1: "?p = [1, ?f, ?d] @ ?s @ (?m @ [?l, 0])" and p2: "?p = ([1, ?f, ?d] @ ?s) @ ?m @ [?l, 0]"
    and p3: "?p = ([1, ?f, ?d] @ ?s @ ?m) @ ?l # [0]"
    and p0: "?p = [] @ 1 # ([?f, ?d] @ ?s @ ?m @ [?l, 0])"
    and pf: "?p = [1] @ ?f # ([?d] @ ?s @ ?m @ [?l, 0])"
    and pd: "?p = [1, ?f] @ ?d # (?s @ ?m @ [?l, 0])"
    by (simp_all add: stat_answer_def)
  have "getBigInt64 ?p 3 = Some (size_of st)"
    unfolding p1 by (rule get_i64le [OF assms(1)]) simp
  moreover have "getBigInt64 ?p 11 = Some (mtime st)"
    unfolding p2 by (rule get_i64le [OF assms(2)]) simp
  moreover have "byte_is ?p 0 1" unfolding p0 by (subst byte_is_mid) simp_all
  moreover have "byte_is ?p 1 1 = isFile st" unfolding pf by (subst byte_is_mid) simp_all
  moreover have "byte_is ?p 2 1 = isDirectory st" unfolding pd by (subst byte_is_mid) simp_all
  moreover have "byte_is ?p 19 1 = isSymlink st" unfolding p3 by (subst byte_is_mid) simp_all
  moreover have "?p ! 20 = 0" "length ?p = 21" unfolding p3 by (simp_all add: nth_append)
  ultimately show ?thesis by (simp add: stat_def Let_def)
qed

section \<open>Properties\<close>

text \<open>
  C30. A spawn arrives as it was sent: for every source, argument vector (arguments are
  arbitrary bytes), grant mask, directory and flag that fit the format, the host's
  \<open>unpackSpawn\<close> and \<open>want\<close> read back exactly what \<open>provider.ts\<close> wrote.
\<close>

theorem spawn_roundtrip:
  assumes "i32_ok grants" "text_ok src" "text_ok dir" "length (str src) < 2147483648"
    "length (str dir) < 2147483648" "length argv < 2147483648"
    "\<forall>a\<in>set argv. length a < 2147483648"
  shows "want (spawn_payload src argv grants dir b) = Some grants
    \<and> unpackSpawn (spawn_payload src argv grants dir b)
        = Some \<lparr>source = src, args = argv, cwd = dir, inheritIn = b\<rparr>
    \<and> unpackSpawnSelf (spawnSelf_payload argv grants dir b) = Some (argv, dir, b)"
  using spawn_roundtrip_lemma [OF assms] spawnSelf_roundtrip_lemma [OF assms(1,3,5,6,7)]
    get_i32le_0 [OF assms(1)]
  by (simp add: want_def spawn_payload_def headed_def)

theorem spawn_roundtrip_witness:
  "unpackSpawn (spawn_payload [47, 47] [[255, 0], []] 5 [47] True)
     = Some \<lparr>source = [47, 47], args = [[255, 0], []], cwd = [47], inheritIn = True\<rparr>"
  using spawn_roundtrip [of 5 "[47, 47]" "[47]" "[[255, 0], []]" True]
  by (simp add: i32_ok_def text_ok_def scalar_def str_def encode_def enc_cp_def)

text \<open>
  A pushed child arrives as it was sent: for arguments that contain no NUL, the argument
  vector (the empty one included, which a bare split could not express), the directory and
  the input come back from \<open>unpackPush\<close>.
\<close>

theorem push_roundtrip:
  assumes "\<forall>s\<in>set argv. 0 \<notin> set s" "text_ok (join0 argv)" "text_ok dir"
    "length argv < 2147483648" "length (str (join0 argv)) < 2147483648"
    "length (str dir) < 2147483648"
  shows "unpackPush (pushChild_payload argv stdin dir) = Some (argv, stdin, dir)"
  by (rule push_roundtrip_lemma [OF assms])

theorem push_roundtrip_witness:
  "unpackPush (pushChild_payload [[97], [], [98]] [1, 2, 3] []) = Some ([[97], [], [98]], [1, 2, 3], [])"
  using push_roundtrip [of "[[97], [], [98]]" "[]" "[1, 2, 3]"]
  by (simp add: text_ok_def scalar_def str_def encode_def enc_cp_def)

text \<open>
  A ticket survives being packed into one \<open>i32\<close> as long as its slot's generation is below
  \<open>2^25\<close>.
\<close>

theorem ticket_roundtrip:
  assumes "tslot t < SLOTS" "0 \<le> tgen t" "tgen t < 33554432"
  shows "unpack (pack t) = t"
  using unpack_pack_slot [OF assms(1)] unpack_pack_gen [OF assms(1)] assms(2,3) by simp

theorem ticket_roundtrip_witness: "unpack (pack \<lparr>tslot = 127, tgen = 33554431\<rparr>) = \<lparr>tslot = 127, tgen = 33554431\<rparr>"
  using ticket_roundtrip [of "\<lparr>tslot = 127, tgen = 33554431\<rparr>"] by (simp add: SLOTS_def)

text \<open>
  From generation \<open>2^25\<close> on it does not: the packed ticket names an older generation of
  the same slot, so a slot that has been reused that often refuses every ticket for it.
\<close>

theorem ticket_generation_truncated:
  assumes "tslot t < SLOTS" "tgen t < 0 \<or> 33554432 \<le> tgen t"
  shows "tslot (unpack (pack t)) = tslot t \<and> tgen (unpack (pack t)) \<noteq> tgen t"
proof -
  have "0 \<le> tgen t mod 33554432" "tgen t mod 33554432 < 33554432" by simp_all
  with unpack_pack_slot [OF assms(1)] unpack_pack_gen [OF assms(1)] assms(2) show ?thesis
    by (metis leD)
qed

theorem ticket_generation_truncated_witness:
  "tgen (unpack (pack \<lparr>tslot = 0, tgen = 33554432\<rparr>)) \<noteq> 33554432"
  using ticket_generation_truncated [of "\<lparr>tslot = 0, tgen = 33554432\<rparr>"] by (simp add: SLOTS_def)

text \<open>
  C31. What a read, a change or a failed call answered is told apart and read back: data
  (empty data too) is data, the end is the end, a failure keeps its message, a change keeps
  its category and message, and so does the error payload of any failed call.
\<close>

theorem answers_roundtrip:
  assumes "text_ok m" "0 \<le> f" "f < 256"
  shows "readOf (data b) = Data b \<and> readOf END_READ = EndOfInput \<and> readOf (failed m) = Failed m
    \<and> change (Inr (changeBytes f m)) = (f, m) \<and> faultedMessage (faultedBytes f m) = (f, m)
    \<and> change (Inr CHANGED_OK) = (0, [])"
  using assms
  by (simp add: readOf_def data_def END_READ_def failed_def change_def changeBytes_def
      faultedMessage_def faultedBytes_def CHANGED_OK_def FAULT_NONE_def unstr_def decode_encode
      uint_word_of_int)

theorem answers_roundtrip_witness:
  "faultedMessage (faultedBytes FAULT_NOT_GRANTED (js ''no'')) = (7, js ''no'')"
  using answers_roundtrip [of "js ''no''" 7]
  by (simp add: text_ok_def scalar_def js_def FAULT_NOT_GRANTED_def)

text \<open>
  A child's two handles, the reason it never started (its first line), and what a called
  child wrote on its two streams are read back by the worker as the host answered them.
\<close>

theorem child_answers_roundtrip:
  assumes "i32_ok h" "i32_ok eh" "0 \<le> h" "length out < 2147483648" "text_ok (takeWhile (\<lambda>c. c \<noteq> 10) why)"
  shows "child_of oob (Inr (twoHandles h eh [])) = (h, eh, [])
    \<and> child_of oob (Inr (failedChild why)) = (-1, -1, takeWhile (\<lambda>c. c \<noteq> 10) why)
    \<and> child_of oob (Inr (noSpawnHere why)) = (-2, -2, takeWhile (\<lambda>c. c \<noteq> 10) why)
    \<and> captured (Inr (packCaptured out err)) = (out, err)"
proof -
  have "i32_ok (-1)" "i32_ok (-2)" by (simp_all add: i32_ok_def)
  then show ?thesis
    using assms
    by (simp add: child_of_def twoHandles_read failedChild_def noSpawnHere_def captured_packCaptured
        unstr_def decode_encode)
qed

theorem child_answers_roundtrip_witness:
  "child_of [] (Inr (failedChild [97, 10, 98])) = (-1, -1, [97])"
  using child_answers_roundtrip [of 1 2 "[]" "[97, 10, 98]" "[]" "[]"]
  by (simp add: i32_ok_def text_ok_def scalar_def)

text \<open>
  The path-taking calls: \<open>rename\<close>, \<open>writeFile\<close>, the flagged changes, \<open>connect\<close> and \<open>send\<close>
  read on the host what the worker's encoders put in.
\<close>

theorem path_calls_roundtrip:
  assumes "text_ok a" "text_ok b" "length (str a) < 2147483648" "i32_ok n"
  shows "rename_args (twoPaths a b) = Some (a, b)
    \<and> writeFile_args (prefixed (str a) body) = Some (a, body)
    \<and> flagged_args (flagged on a) = (on, a)
    \<and> connect_args (headed (i32le n) (str a)) = Some (n, a)
    \<and> send_args (headed (i32le n) body) = Some (n, body)"
proof -
  have s: "subarray_from (i32le n @ x) 4 = x" for x
    by (rule subarray_from_mid) simp
  have "flagged_args (flagged on a) = (on, a)"
    using assms(1) byte_is_mid [of 0 "[]" "if on then 1 else 0" "str a" 1]
    by (simp add: flagged_args_def flagged_def unstr_def str_def decode_encode)
  moreover have "connect_args (headed (i32le n) (str a)) = Some (n, a)"
    using assms by (simp add: connect_args_def headed_def readI32le_def get_i32le_0 s unstr_def str_def decode_encode)
  moreover have "send_args (headed (i32le n) body) = Some (n, body)"
    using assms by (simp add: send_args_def headed_def readI32le_def get_i32le_0 s)
  ultimately show ?thesis
    using twoPaths_read [OF assms(1-3)] by simp
qed

theorem path_calls_roundtrip_witness:
  "rename_args (twoPaths [97] [98, 233]) = Some ([97], [98, 233])"
  using path_calls_roundtrip [of "[97]" "[98, 233]" 80 "[]" True]
  by (simp add: text_ok_def scalar_def str_def encode_def enc_cp_def i32_ok_def)

text \<open>
  A \<open>stat\<close> answer: everything a host knows of a file comes back, in the 21-byte layout
  that \<open>faults.ts\<close> documents.
\<close>

theorem stat_roundtrip:
  assumes "i64_ok (size_of st)" "i64_ok (mtime st)"
  shows "stat (Inr (stat_answer (Inl st))) =
      \<lparr>s_exists = True, s_isFile = isFile st, s_isDir = isDirectory st, s_size = size_of st,
       s_mtime = mtime st, s_isSymlink = isSymlink st, s_fault = 0\<rparr>
    \<and> length (stat_answer (Inl st)) = STAT_BYTES \<and> length (stat_answer (Inr f)) = STAT_BYTES"
  using stat_read [OF assms] by (simp add: stat_answer_def STAT_BYTES_def)

theorem stat_roundtrip_witness:
  "s_size (stat (Inr (stat_answer (Inl \<lparr>isFile = True, isDirectory = False, size_of = 5000000000,
      mtime = -1, isSymlink = False\<rparr>)))) = 5000000000"
  using stat_roundtrip [of "\<lparr>isFile = True, isDirectory = False, size_of = 5000000000,
      mtime = -1, isSymlink = False\<rparr>" 0]
  by (simp add: i64_ok_def)

end
