(* ===== verification/Child_Stack.thy ===== *)
theory Child_Stack
  imports Wire
begin

text \<open>
  \<open>packages/platform/host/child.ts\<close>: the world of a child program that runs inside its
  parent, as a stack of frames. The lemmas show that a child is fed exactly the input it
  was pushed with, that popping it answers exactly what it was told had been kept, that
  what it keeps is capped, and that nothing it does reaches the frames below it.
\<close>

section \<open>Paths\<close>

text \<open>A path is a string; 47 is the slash.\<close>

definition joinPath :: "jsstring \<Rightarrow> jsstring \<Rightarrow> jsstring" where
  "joinPath dir path =
     (if dir = [] \<or> starts_with path [47] then path
      else if path = [] then dir
      else if last dir = 47 then dir @ path else dir @ [47] @ path)"

section \<open>The stack\<close>

definition CAP :: nat where "CAP = push_bit 20 8"

record frame =
  argv :: "jsstring list"
  stdin :: bytes
  at :: nat
  fcwd :: jsstring
  out :: "bytes list"
  err :: "bytes list"
  written :: nat

text \<open>The stack, innermost frame first.\<close>

type_synonym stack = "frame list"

definition active :: "stack \<Rightarrow> bool" where "active s \<longleftrightarrow> s \<noteq> []"

definition push :: "stack \<Rightarrow> jsstring list \<Rightarrow> bytes \<Rightarrow> jsstring \<Rightarrow> stack" where
  "push s as inp dir =
     \<lparr>argv = as, stdin = inp, at = 0, fcwd = dir, out = [], err = [], written = 0\<rparr> # s"

definition args_of :: "stack \<Rightarrow> jsstring list option" where
  "args_of s = (case s of [] \<Rightarrow> None | f # _ \<Rightarrow> Some (argv f))"

definition pop :: "stack \<Rightarrow> stack \<times> bytes \<times> bytes" where
  "pop s = (case s of [] \<Rightarrow> ([], [], []) | f # fs \<Rightarrow> (fs, concat (out f), concat (err f)))"

definition readChunk :: "stack \<Rightarrow> stack \<times> bytes option" where
  "readChunk s =
     (case s of
        [] \<Rightarrow> (s, None)
      | f # fs \<Rightarrow>
          (let e = min (at f + CHUNK) (length (stdin f));
               slice = subarray (stdin f) (int (at f)) (int e)
           in (f\<lparr>at := e\<rparr> # fs, Some slice)))"

definition readAll :: "stack \<Rightarrow> stack \<times> bytes option" where
  "readAll s =
     (case s of
        [] \<Rightarrow> (s, None)
      | f # fs \<Rightarrow> (f\<lparr>at := length (stdin f)\<rparr> # fs, Some (subarray_from (stdin f) (int (at f)))))"

definition write_out :: "stack \<Rightarrow> bytes \<Rightarrow> stack \<times> bool" where
  "write_out s b =
     (case s of
        [] \<Rightarrow> (s, False)
      | f # fs \<Rightarrow>
          (if CAP < written f + length b then (s, False)
           else (f\<lparr>out := out f @ [b], written := written f + length b\<rparr> # fs, True)))"

definition warn :: "stack \<Rightarrow> bytes \<Rightarrow> stack \<times> bool" where
  "warn s b = (case s of [] \<Rightarrow> (s, False) | f # fs \<Rightarrow> (f\<lparr>err := err f @ [b]\<rparr> # fs, True))"

definition path_of :: "stack \<Rightarrow> jsstring \<Rightarrow> jsstring" where
  "path_of s p = (case s of [] \<Rightarrow> p | f # _ \<Rightarrow> joinPath (fcwd f) p)"

section \<open>Histories\<close>

datatype stack_event =
    PushEv "jsstring list" bytes jsstring
  | PopEv
  | ReadChunkEv
  | ReadAllEv
  | WriteEv bytes
  | WarnEv bytes

datatype stack_answer =
    Popped bytes bytes
  | Chunk "bytes option"
  | Kept bool
  | Warned bool

fun stack_step :: "stack \<Rightarrow> stack_event \<Rightarrow> stack \<times> stack_answer list" where
  "stack_step s (PushEv a i d) = (push s a i d, [])"
| "stack_step s PopEv = (case pop s of (s', o1, e1) \<Rightarrow> (s', [Popped o1 e1]))"
| "stack_step s ReadChunkEv = (case readChunk s of (s', c) \<Rightarrow> (s', [Chunk c]))"
| "stack_step s ReadAllEv = (case readAll s of (s', c) \<Rightarrow> (s', [Chunk c]))"
| "stack_step s (WriteEv b) = (case write_out s b of (s', ok) \<Rightarrow> (s', [Kept ok]))"
| "stack_step s (WarnEv b) = (case warn s b of (s', ok) \<Rightarrow> (s', [Warned ok]))"

definition frame_ok :: "frame \<Rightarrow> bool" where
  "frame_ok f \<longleftrightarrow> at f \<le> length (stdin f) \<and> written f = length (concat (out f)) \<and> written f \<le> CAP"

definition stack_ok :: "stack \<Rightarrow> bool" where
  "stack_ok s \<longleftrightarrow> (\<forall>f\<in>set s. frame_ok f)"

text \<open>The calls of one child, without pushes and pops, and what they were about.\<close>

fun own :: "stack_event \<Rightarrow> bool" where
  "own (PushEv a i d) = False"
| "own PopEv = False"
| "own _ = True"

fun kept_bytes :: "stack_event list \<Rightarrow> stack_answer list \<Rightarrow> bytes" where
  "kept_bytes (WriteEv b # es) (Kept ok # as) = (if ok then b else []) @ kept_bytes es as"
| "kept_bytes (_ # es) (_ # as) = kept_bytes es as"
| "kept_bytes _ _ = []"

fun warned_bytes :: "stack_event list \<Rightarrow> bytes" where
  "warned_bytes [] = []"
| "warned_bytes (WarnEv b # es) = b @ warned_bytes es"
| "warned_bytes (_ # es) = warned_bytes es"

fun read_bytes :: "stack_answer list \<Rightarrow> bytes" where
  "read_bytes [] = []"
| "read_bytes (Chunk (Some c) # as) = c @ read_bytes as"
| "read_bytes (_ # as) = read_bytes as"

text \<open>The depth a history reaches above its base; \<open>None\<close> if it pops the base itself.\<close>

fun depth :: "nat \<Rightarrow> stack_event list \<Rightarrow> nat option" where
  "depth n [] = Some n"
| "depth n (PushEv a i d # es) = depth (Suc n) es"
| "depth n (PopEv # es) = (case n of 0 \<Rightarrow> None | Suc m \<Rightarrow> depth m es)"
| "depth n (_ # es) = depth n es"

section \<open>Paths compose\<close>

lemma starts_with_single: "starts_with p [c] \<longleftrightarrow> (\<exists>q. p = c # q)"
  by (cases p) auto

lemma joinPath_assoc: "joinPath a (joinPath b p) = joinPath (joinPath a b) p"
  by (cases b) (auto simp: joinPath_def starts_with_single)

section \<open>One child\<close>

lemma CAP_pos: "0 < CAP"
  by (simp add: CAP_def)

lemma stack_ok_step: "stack_ok s \<Longrightarrow> stack_ok (fst (stack_step s e))"
  by (cases e; cases s)
    (auto simp: stack_ok_def frame_ok_def push_def pop_def readChunk_def readAll_def write_out_def
      warn_def Let_def split: if_splits)

interpretation kids: event_machine "[]" stack_step stack_ok
  by unfold_locales (rule stack_ok_step | simp add: stack_ok_def)+

lemma own_step:
  assumes "own e" "frame_ok f"
  shows "\<exists>f' a. stack_step (f # s) e = (f' # s, [a]) \<and> frame_ok f' \<and> stdin f' = stdin f
    \<and> concat (out f') = concat (out f) @ kept_bytes [e] [a]
    \<and> concat (err f') = concat (err f) @ warned_bytes [e]
    \<and> take (at f') (stdin f) = take (at f) (stdin f) @ read_bytes [a]"
  using assms
proof (cases e)
  case ReadChunkEv
  have "take (min (at f + CHUNK) (length (stdin f))) (stdin f)
      = take (at f) (stdin f) @ take (min (at f + CHUNK) (length (stdin f)) - at f) (drop (at f) (stdin f))"
    using assms(2) by (simp add: frame_ok_def take_add [symmetric])
  with ReadChunkEv assms(2) show ?thesis
    by (simp add: readChunk_def Let_def subarray_nat frame_ok_def)
next
  case ReadAllEv
  with assms(2) show ?thesis by (simp add: readAll_def subarray_from_nat frame_ok_def)
qed (auto simp: write_out_def warn_def frame_ok_def)

lemma kept_bytes_Cons: "kept_bytes (e # es) (a # as) = kept_bytes [e] [a] @ kept_bytes es as"
  by (cases e; cases a) auto

lemma warned_bytes_Cons: "warned_bytes (e # es) = warned_bytes [e] @ warned_bytes es"
  by (cases e) auto

lemma read_bytes_Cons: "read_bytes (a # as) = read_bytes [a] @ read_bytes as"
  by (induction "[a]" rule: read_bytes.induct) (auto split: option.splits)

lemma own_run:
  assumes "\<forall>e\<in>set es. own e" "frame_ok f" and run: "run_machine stack_step (f # s) es = (s', as)"
  shows "\<exists>f'. s' = f' # s \<and> stdin f' = stdin f
    \<and> concat (out f') = concat (out f) @ kept_bytes es as
    \<and> concat (err f') = concat (err f) @ warned_bytes es
    \<and> take (at f') (stdin f) = take (at f) (stdin f) @ read_bytes as"
  using assms
proof (induction es arbitrary: f "as")
  case (Cons e es)
  from own_step [of e f s] Cons.prems obtain f1 a where
    ok: "frame_ok f1" and st: "stack_step (f # s) e = (f1 # s, [a])" "stdin f1 = stdin f"
    "concat (out f1) = concat (out f) @ kept_bytes [e] [a]"
    "concat (err f1) = concat (err f) @ warned_bytes [e]"
    "take (at f1) (stdin f) = take (at f) (stdin f) @ read_bytes [a]" by auto
  from Cons.prems(3) st(1) obtain as1 where rn: "run_machine stack_step (f1 # s) es = (s', as1)" "as = a # as1"
    by (auto simp: run_machine.simps split: prod.splits)
  from Cons.IH [OF _ ok rn(1)] Cons.prems(1) show ?case
    by (auto simp: st rn(2) kept_bytes_Cons [of e es a as1] warned_bytes_Cons [of e es] read_bytes_Cons [of a as1])
qed auto

text \<open>Reading on: each chunk is within \<open>CHUNK\<close>, and an empty one means that all was read.\<close>

lemma readChunk_progress:
  assumes "frame_ok f" "readChunk (f # s) = (f' # s', Some c)"
  shows "length c \<le> CHUNK" "c = [] \<longleftrightarrow> at f = length (stdin f)"
  using assms by (auto simp: readChunk_def Let_def subarray_nat frame_ok_def CHUNK_def)

text \<open>Below the base nothing changes.\<close>

lemma depth_step:
  assumes "length fs = Suc n" "depth n (e # es) = Some m"
  shows "\<exists>fs'. fst (stack_step (fs @ s) e) = fs' @ s \<and>
    (\<exists>k. length fs' = Suc k \<and> depth k es = Some m)"
proof -
  from assms(1) obtain f gs where fs: "fs = f # gs" by (cases fs) auto
  show ?thesis
  proof (cases e)
    case (PushEv a i d)
    with assms show ?thesis by (intro exI [of _ "push fs a i d"]) (simp add: push_def)
  next
    case PopEv
    with assms fs show ?thesis by (intro exI [of _ gs]) (auto simp: pop_def split: nat.splits)
  qed (use assms fs in \<open>auto simp: readChunk_def readAll_def write_out_def warn_def Let_def\<close>)
qed

lemma depth_run:
  assumes "length fs = Suc n" "depth n es = Some m"
  shows "\<exists>fs'. fst (run_machine stack_step (fs @ s) es) = fs' @ s \<and> length fs' = Suc m"
  using assms
proof (induction es arbitrary: fs n)
  case (Cons e es)
  from depth_step [OF Cons.prems, of s] obtain fs' k where
    st: "fst (stack_step (fs @ s) e) = fs' @ s" "length fs' = Suc k" "depth k es = Some m" by blast
  from Cons.IH [OF st(2,3)] st(1) show ?case by simp
qed auto

section \<open>Properties\<close>

text \<open>
  A called child gets its input and gives back its output: over any sequence of its own
  reads, writes and warnings, the bytes it read are a prefix of what it was pushed with,
  popping it answers exactly the writes that were acknowledged, in order, and every
  warning, and the frames below are as they were.
\<close>

theorem child_io:
  assumes "\<forall>e\<in>set es. own e" "stack_ok s"
    and "run_machine stack_step s (PushEv a inp dir # es) = (s', as)"
  shows "pop s' = (s, kept_bytes es as, warned_bytes es) \<and> (\<exists>rest. inp = read_bytes as @ rest)"
proof -
  let ?f = "\<lparr>argv = a, stdin = inp, at = 0, fcwd = dir, out = [], err = [], written = 0\<rparr>"
  have run: "run_machine stack_step (?f # s) es = (s', as)"
    using assms(3) by (simp add: run_machine.simps push_def)
  have "frame_ok ?f" by (simp add: frame_ok_def)
  from own_run [OF assms(1) this run] obtain f' where
    f': "s' = f' # s" "concat (out f') = kept_bytes es as" "concat (err f') = warned_bytes es"
      "take (at f') inp = read_bytes as" by auto
  have "inp = read_bytes as @ drop (at f') inp"
    by (metis append_take_drop_id f'(4))
  with f' show ?thesis by (auto simp: pop_def)
qed

theorem child_io_witness:
  "\<exists>s' as. run_machine stack_step [] [PushEv [] [1, 2] [], ReadChunkEv, WriteEv [7], WarnEv [8]] = (s', as)
     \<and> pop s' = ([], [7], [8])"
proof -
  let ?es = "[ReadChunkEv, WriteEv [7], WarnEv [8]]"
  obtain s' as where run: "run_machine stack_step [] (PushEv [] [1, 2] [] # ?es) = (s', as)"
    by fastforce
  then have "kept_bytes ?es as = [7]"
    by (auto simp: run_machine.simps push_def readChunk_def write_out_def warn_def Let_def CAP_def)
  with child_io [OF _ _ run] run show ?thesis
    by (auto simp: stack_ok_def)
qed

text \<open>
  C29. Whatever a child does, however many children it pushes and pops of its own, its parent
  is untouched: once the history is back at the child's own level, popping it restores the
  stack it was pushed on. And the standard output captured in every frame stays within \<open>CAP\<close> bytes;
  standard error, which the code leaves uncapped, and the input a child is given are not bounded.
\<close>

theorem child_isolated:
  assumes "depth 0 es = Some 0" "stack_ok s"
    and "s' = fst (run_machine stack_step s (PushEv a inp dir # es))"
  shows "fst (pop s') = s \<and> stack_ok s' \<and> (\<forall>f\<in>set s'. length (concat (out f)) \<le> CAP)"
proof -
  let ?f = "\<lparr>argv = a, stdin = inp, at = 0, fcwd = dir, out = [], err = [], written = 0\<rparr>"
  have "fst (run_machine stack_step s (PushEv a inp dir # es)) = fst (run_machine stack_step ([?f] @ s) es)"
    by (simp add: push_def)
  moreover have "length [?f] = Suc 0" by simp
  ultimately obtain fs' where "s' = fs' @ s" "length fs' = Suc 0"
    using depth_run [OF _ assms(1), of "[?f]" s] assms(3) by auto
  moreover have "stack_ok s'" unfolding assms(3) by (rule kids.inv_run_from [OF assms(2)])
  moreover from \<open>stack_ok s'\<close> have "\<forall>f\<in>set s'. length (concat (out f)) \<le> CAP"
    by (auto simp: stack_ok_def frame_ok_def)
  ultimately show ?thesis by (cases fs') (auto simp: pop_def)
qed

theorem child_isolated_witness:
  "fst (pop (fst (run_machine stack_step []
      [PushEv [] [1] [], WriteEv [5], PushEv [] [2] [], WriteEv [6], PopEv]))) = []"
  using child_isolated [of "[WriteEv [5], PushEv [] [2] [], WriteEv [6], PopEv]" "[]" _ "[]" "[1]" "[]"]
  by (simp add: stack_ok_def)

text \<open>
  Joining directories is associative, so a path means the same whether a child's
  directory is joined first or its parent's: \<open>P\<close> in the hosts may nest them freely. An
  absolute path is never touched and an empty directory adds nothing.
\<close>

theorem joinPath_composes:
  "joinPath a (joinPath b p) = joinPath (joinPath a b) p \<and> joinPath [] p = p
   \<and> joinPath a (47 # p) = 47 # p \<and> joinPath a [] = a"
  using joinPath_assoc [of a b p] by (auto simp: joinPath_def)

end
