(* ===== verification/Bridge.thy ===== *)
theory Bridge
  imports Wire
begin

text \<open>
  The bridge itself: the worker's side (\<open>call.ts\<close>) and the host's side (\<open>respond.ts\<close>) as
  functions on the shared memory, and the two of them running against each other as a step
  relation. Each function is the code of one operation between two points where it can park
  or be raced; the relation interleaves them at those points.
\<close>

section \<open>Shared memory\<close>

record shared =
  ctrl :: ctrl
  reqBuf :: "nat \<Rightarrow> bytes"
  resBuf :: "nat \<Rightarrow> bytes"
  inlineBuf :: "nat \<Rightarrow> bytes"

definition new_shared :: shared where
  "new_shared =
     \<lparr>ctrl = newBridge, reqBuf = (\<lambda>_. replicate BUF_BYTES 0), resBuf = (\<lambda>_. replicate BUF_BYTES 0),
      inlineBuf = (\<lambda>_. replicate INLINE_BYTES 0)\<rparr>"

abbreviation ld :: "shared \<Rightarrow> nat \<Rightarrow> field \<Rightarrow> i32" where
  "ld m s f \<equiv> ctrl m (Slot s f)"

definition put :: "shared \<Rightarrow> cell \<Rightarrow> i32 \<Rightarrow> shared" where
  "put m c v = m\<lparr>ctrl := (ctrl m)(c := v)\<rparr>"

definition add1 :: "shared \<Rightarrow> cell \<Rightarrow> shared" where
  "add1 m c = m\<lparr>ctrl := bump (ctrl m) c\<rparr>"

text \<open>\<open>dst.set(src, 0)\<close> for a source that fits, and \<open>src.slice(0, len)\<close>.\<close>

definition fill :: "bytes \<Rightarrow> bytes \<Rightarrow> bytes" where
  "fill dst src = src @ drop (length src) dst"

definition slice0 :: "bytes \<Rightarrow> i32 \<Rightarrow> bytes" where
  "slice0 src len = subarray src 0 (sint len)"

text \<open>Detach whatever buffer a slot has in one direction and give it back to its pool.\<close>

definition drop_buf :: "shared \<Rightarrow> nat \<Rightarrow> dir \<Rightarrow> shared" where
  "drop_buf m s d =
     (case detach (ctrl m) s d of (c, i) \<Rightarrow> m\<lparr>ctrl := releaseBuf c d i\<rparr>)"

section \<open>The worker: call.ts\<close>

definition ping :: "shared \<Rightarrow> shared" where
  "ping m = add1 m SubmitSeq"

definition HOST_STOPPED :: jsstring where
  "HOST_STOPPED =
     js ''the host stopped answering: this program'' @ [39]
     @ js ''s capabilities are gone, so the call cannot complete''"

definition gone :: "shared \<Rightarrow> call_error option" where
  "gone m = (if ctrl m HostGone = 0 then None else Some (HostCallError HOST_STOPPED FAULT_OTHER))"

text \<open>
  One pass of \<open>claim\<close> over the slots: the slot taken, or how many were \<open>ST_READY\<close>. With all
  of them ready the call raises; otherwise it parks and makes another pass.
\<close>

fun claim_scan :: "ctrl \<Rightarrow> nat list \<Rightarrow> nat \<Rightarrow> ctrl \<times> (nat + nat)" where
  "claim_scan c [] ready = (c, Inr ready)"
| "claim_scan c (i # is) ready =
     (case compareExchange c (Slot i Status) ST_FREE ST_CLAIMED of (c', old) \<Rightarrow>
        if old = ST_FREE then (c', Inl i)
        else claim_scan c' is (if c' (Slot i Status) = ST_READY then Suc ready else ready))"

datatype claim_result = Claimed nat | RingFull | Park

definition claim_pass :: "shared \<Rightarrow> shared \<times> claim_result" where
  "claim_pass m =
     (case claim_scan (ctrl m) [0..<SLOTS] 0 of
        (c, Inl i) \<Rightarrow> (m\<lparr>ctrl := c\<rparr>, Claimed i)
      | (c, Inr ready) \<Rightarrow> (m\<lparr>ctrl := c\<rparr>, if ready = SLOTS then RingFull else Park))"

text \<open>One pass of \<open>takeReqBuf\<close>: a buffer, or \<open>None\<close> to park and look again.\<close>

definition takeReqBuf_pass :: "shared \<Rightarrow> shared \<times> nat option" where
  "takeReqBuf_pass m =
     (case acquireBuf (ctrl m) Req of
        (c, i) \<Rightarrow> (m\<lparr>ctrl := c\<rparr>, if 0 \<le> i then Some (nat i) else None))"

text \<open>Put a piece of a request into buffer \<open>bi\<close> and publish the slot with it.\<close>

definition publish :: "shared \<Rightarrow> nat \<Rightarrow> nat \<Rightarrow> i32 \<Rightarrow> bytes \<Rightarrow> shared" where
  "publish m s bi op piece =
     (let m = m\<lparr>reqBuf := (reqBuf m)(bi := fill (reqBuf m bi) piece)\<rparr>;
          m = m\<lparr>ctrl := attach (ctrl m) s Req (int bi)\<rparr>;
          m = put m (Slot s Op) op;
          m = put m (Slot s ReqLen) (word_of_nat (length piece));
          m = put m (Slot s Status) ST_PENDING
      in ping m)"

definition readRes :: "shared \<Rightarrow> nat \<Rightarrow> shared \<times> bytes" where
  "readRes m s =
     (let len = ld m s ResLen;
          bi = attached (ctrl m) s Res;
          out = slice0 (if bi < 0 then inlineBuf m s else resBuf m (nat bi)) len;
          m = m\<lparr>ctrl := fst (detach (ctrl m) s Res)\<rparr>;
          m = m\<lparr>ctrl := releaseBuf (ctrl m) Res bi\<rparr>
      in (ping m, out))"

definition release :: "shared \<Rightarrow> nat \<Rightarrow> shared" where
  "release m s =
     (let m = drop_buf m s Res;
          m = add1 m (Slot s Gen);
          m = put m (Slot s Status) ST_FREE
      in add1 m DoneSeq)"

text \<open>Ask for the tail of an answer.\<close>

definition ask_more :: "shared \<Rightarrow> nat \<Rightarrow> shared" where
  "ask_more m s =
     (let m = put m (Slot s Op) OP_CONTINUE;
          m = put m (Slot s ReqLen) 0;
          m = put m (Slot s Status) ST_PENDING
      in ping m)"

definition isDone :: "shared \<Rightarrow> ticket \<Rightarrow> bool" where
  "isDone m t \<longleftrightarrow> sint (ld m (tslot t) Gen) \<noteq> tgen t \<or> ld m (tslot t) Status = ST_READY"

text \<open>One pass of \<open>waitAny\<close> over its tickets.\<close>

definition waitAny_pass :: "shared \<Rightarrow> ticket list \<Rightarrow> ticket option" where
  "waitAny_pass m ts = find (isDone m) ts"

section \<open>The host: respond.ts\<close>

text \<open>Per slot, kept between the pieces of one call: answer tail, its status, request head.\<close>

record host =
  tail :: "nat \<Rightarrow> bytes option"
  finalStatus :: "nat \<Rightarrow> i32"
  partial :: "nat \<Rightarrow> bytes list"

definition new_host :: host where
  "new_host = \<lparr>tail = (\<lambda>_. None), finalStatus = (\<lambda>_. STATUS_OK), partial = (\<lambda>_. [])\<rparr>"

definition joined :: "bytes list \<Rightarrow> bytes \<Rightarrow> bytes" where
  "joined parts piece = concat parts @ piece"

text \<open>
  \<open>write\<close>, after its check of the generation: the answer goes into a pooled buffer if it is
  large and one is free, into the slot's inline area otherwise, and what does not fit is
  kept as the tail.
\<close>

definition write_fill :: "shared \<Rightarrow> host \<Rightarrow> nat \<Rightarrow> i32 \<Rightarrow> bytes \<Rightarrow> shared \<times> host" where
  "write_fill m h s status body =
     (let (c, bi) = (if length body > INLINE_BYTES then acquireBuf (ctrl m) Res else (ctrl m, -1));
          m = m\<lparr>ctrl := c\<rparr>;
          room = (if 0 \<le> bi then BUF_BYTES else INLINE_BYTES);
          fits = min (length body) room;
          rest = drop fits body;
          piece = take fits body;
          m = (if 0 \<le> bi then m\<lparr>resBuf := (resBuf m)(nat bi := fill (resBuf m (nat bi)) piece)\<rparr>
               else m\<lparr>inlineBuf := (inlineBuf m)(s := fill (inlineBuf m s) piece)\<rparr>);
          m = m\<lparr>ctrl := attach (ctrl m) s Res bi\<rparr>;
          m = put m (Slot s ResLen) (word_of_nat fits);
          m = put m (Slot s ResStatus) (if rest \<noteq> [] then STATUS_MORE else status)
      in (m, if rest \<noteq> []
             then h\<lparr>tail := (tail h)(s := Some rest), finalStatus := (finalStatus h)(s := status)\<rparr>
             else h))"

text \<open>The publication: a compare-and-exchange, undone in part when the slot is no longer running.\<close>

definition write_publish :: "shared \<Rightarrow> host \<Rightarrow> nat \<Rightarrow> shared \<times> host" where
  "write_publish m h s =
     (case compareExchange (ctrl m) (Slot s Status) ST_RUNNING ST_READY of (c, old) \<Rightarrow>
        if old \<noteq> ST_RUNNING
        then (drop_buf (m\<lparr>ctrl := c\<rparr>) s Res, h\<lparr>tail := (tail h)(s := None)\<rparr>)
        else (add1 (m\<lparr>ctrl := c\<rparr>) DoneSeq, h))"

text \<open>The whole of \<open>write\<close>, with nothing in between.\<close>

definition write_answer :: "shared \<Rightarrow> host \<Rightarrow> nat \<Rightarrow> i32 \<Rightarrow> bytes \<Rightarrow> i32 \<Rightarrow> shared \<times> host" where
  "write_answer m h s status body gen =
     (if ld m s Gen \<noteq> gen then (m, h)
      else case write_fill m h s status body of (m, h) \<Rightarrow> write_publish m h s)"

definition abandon :: "shared \<Rightarrow> host \<Rightarrow> nat \<Rightarrow> shared \<times> host" where
  "abandon m h s =
     (let m = drop_buf m s Req;
          m = drop_buf m s Res;
          m = put m (Slot s Status) ST_FREE
      in (add1 m DoneSeq, h\<lparr>tail := (tail h)(s := None), partial := (partial h)(s := [])\<rparr>))"

text \<open>\<open>take\<close> up to its compare-and-exchange: generation, opcode and payload, copied out.\<close>

definition take_read :: "shared \<Rightarrow> nat \<Rightarrow> shared \<times> i32 \<times> i32 \<times> bytes" where
  "take_read m s =
     (let gen = ld m s Gen;
          op = ld m s Op;
          len = ld m s ReqLen;
          (c, rb) = detach (ctrl m) s Req;
          m = m\<lparr>ctrl := c\<rparr>;
          payload = (if rb < 0 then [] else slice0 (reqBuf m (nat rb)) len);
          m = m\<lparr>ctrl := releaseBuf (ctrl m) Req rb\<rparr>
      in (add1 m DoneSeq, gen, op, payload))"

definition take_cas :: "shared \<Rightarrow> nat \<Rightarrow> shared \<times> bool" where
  "take_cas m s =
     (case compareExchange (ctrl m) (Slot s Status) ST_PENDING ST_RUNNING of (c, old) \<Rightarrow>
        (m\<lparr>ctrl := c\<rparr>, old = ST_PENDING))"

text \<open>
  \<open>take\<close> after it: a reply at once, or a handler to run on the whole request. \<open>known\<close> is
  whether the handler table has an entry.
\<close>

datatype dispatch = Reply i32 bytes | Run i32 bytes

definition NO_HANDLER :: "i32 \<Rightarrow> jsstring" where
  "NO_HANDLER op = js ''no handler for capability '' @ dec_int (sint op)"

definition take_dispatch ::
  "(i32 \<Rightarrow> bool) \<Rightarrow> host \<Rightarrow> nat \<Rightarrow> i32 \<Rightarrow> bytes \<Rightarrow> host \<times> dispatch" where
  "take_dispatch known h s op payload =
     (if op = OP_CONTINUE then
        (h\<lparr>tail := (tail h)(s := None)\<rparr>,
         Reply (finalStatus h s) (case tail h s of None \<Rightarrow> [] | Some t \<Rightarrow> t))
      else if op = OP_PUSH then
        (h\<lparr>partial := (partial h)(s := partial h s @ [payload])\<rparr>, Reply STATUS_ACK [])
      else
        (let whole = (if partial h s \<noteq> [] then joined (partial h s) payload else payload);
             h = h\<lparr>partial := (partial h)(s := [])\<rparr>
         in (h, if known op then Run op whole
                else Reply STATUS_ERR (faultedBytes FAULT_OTHER (NO_HANDLER op)))))"

text \<open>
  \<open>failPending\<close>, one access at a time: the flag; for each slot a look at its status, the exchange
  that takes a slot that is still pending and returns its request buffer, and the answer, which goes
  through \<open>reply\<close> like any other; and the wake-up at the end. \<open>stop\<close> then wakes the loop.
\<close>

definition fail_flag :: "shared \<Rightarrow> shared" where
  "fail_flag m = put m HostGone 1"

datatype fail_case = TakeIt | AnswerIt | PassBy

definition fail_look :: "shared \<Rightarrow> nat \<Rightarrow> fail_case" where
  "fail_look m s =
     (let st = ld m s Status in
      if st = ST_PENDING then TakeIt else if st \<noteq> ST_RUNNING then PassBy else AnswerIt)"

definition fail_exchange :: "shared \<Rightarrow> nat \<Rightarrow> shared \<times> bool" where
  "fail_exchange m s =
     (case compareExchange (ctrl m) (Slot s Status) ST_PENDING ST_RUNNING of (c, old) \<Rightarrow>
        if old \<noteq> ST_PENDING then (m\<lparr>ctrl := c\<rparr>, False)
        else (drop_buf (m\<lparr>ctrl := c\<rparr>) s Req, True))"

definition fail_wake :: "shared \<Rightarrow> shared" where
  "fail_wake m = add1 m DoneSeq"

definition STOPPED_WHY :: jsstring where
  "STOPPED_WHY = js ''the host responder was stopped''"

definition stop_wake :: "shared \<Rightarrow> shared" where
  "stop_wake m = add1 m SubmitSeq"

end
