(* ===== verification/Bridge_Slot.thy ===== *)
theory Bridge_Slot
  imports Bridge
begin

text \<open>
  One slot of the ring, seen by itself: everything about it that the worker, the host, the
  handlers and the scheduler hold, and the invariant that says where a call stands. Each
  lemma is one step of the protocol and shows that the invariant survives it. The steps and
  their guards are those of \<open>Bridge_System\<close>; this theory is about what they do to the slot
  they touch.
\<close>

section \<open>The view of a slot\<close>

text \<open>What the worker is doing with the slot, and what the host is.\<close>

datatype worker_at =
    WNone
  | Fill i32 bytes
  | Await i32 bytes
  | Collecting nat "bytes list"
  | Cancelling
  | Bumped

datatype host_at =
    HNone
  | Seen
  | Took nat i32 bytes
  | Replying i32 bytes nat
  | Writing i32 bytes nat
  | Filled

text \<open>
  Generations are numbers here. \<open>req_view\<close> and \<open>res_view\<close> are what the host would read as
  the request and the worker as the answer; the last three fields are what was sent as,
  taken as and answered to the call that owns the slot.
\<close>

record slot_view =
  st :: i32
  opc :: i32
  gen :: nat
  req_held :: bool
  req_view :: bytes
  res_held :: bool
  res_view :: bytes
  rst :: i32
  vtail :: "bytes option"
  vfinal :: i32
  par :: "bytes list"
  wat :: worker_at
  hat :: host_at
  vjobs :: "(nat \<times> nat \<times> i32 \<times> bytes) list"
  vready :: "(nat \<times> i32 \<times> bytes) list"
  tks :: "(nat \<times> nat) set"
  own :: "nat option"
  vsent :: "(i32 \<times> bytes) option"
  vtaken :: "(i32 \<times> bytes) option"
  vanswer :: "(i32 \<times> bytes) option"

section \<open>The invariant\<close>

definition user_op :: "i32 \<Rightarrow> bool" where
  "user_op x \<longleftrightarrow> x \<noteq> OP_PUSH \<and> x \<noteq> OP_CONTINUE"

definition final_status :: "i32 \<Rightarrow> bool" where
  "final_status x \<longleftrightarrow> x = STATUS_OK \<or> x = STATUS_ERR"

definition cur_jobs :: "slot_view \<Rightarrow> (nat \<times> nat \<times> i32 \<times> bytes) list" where
  "cur_jobs l = filter (\<lambda>j. fst j = gen l) (vjobs l)"

definition cur_ready :: "slot_view \<Rightarrow> (nat \<times> i32 \<times> bytes) list" where
  "cur_ready l = filter (\<lambda>r. fst r = gen l) (vready l)"

definition ticketed :: "slot_view \<Rightarrow> bool" where
  "ticketed l \<longleftrightarrow> (\<exists>c. (gen l, c) \<in> tks l)"

text \<open>Nothing carries a generation from the future, and a current ticket is the owner's.\<close>

fun host_gen :: "host_at \<Rightarrow> nat" where
  "host_gen (Took e x b) = e"
| "host_gen (Replying x b e) = e"
| "host_gen (Writing x b e) = e"
| "host_gen _ = 0"

definition bounded :: "slot_view \<Rightarrow> bool" where
  "bounded l \<longleftrightarrow> (\<forall>j\<in>set (vjobs l). fst j \<le> gen l) \<and> (\<forall>r\<in>set (vready l). fst r \<le> gen l)
     \<and> (\<forall>t\<in>tks l. fst t \<le> gen l \<and> (fst t = gen l \<longrightarrow> own l = Some (snd t)))
     \<and> host_gen (hat l) \<le> gen l"

text \<open>The host is not working on this slot, but for the writing of an answer it will drop.\<close>

fun host_away :: "nat \<Rightarrow> host_at \<Rightarrow> bool" where
  "host_away g HNone = True"
| "host_away g (Writing x b e) = (e < g)"
| "host_away g _ = False"

definition unclaimed :: "slot_view \<Rightarrow> bool" where
  "unclaimed l \<longleftrightarrow> cur_jobs l = [] \<and> cur_ready l = []"

text \<open>The answer in the slot: what is visible, and the tail the host keeps.\<close>

definition visible :: "slot_view \<Rightarrow> bytes list \<Rightarrow> bool" where
  "visible l ps \<longleftrightarrow>
     (if rst l = STATUS_MORE
      then \<exists>t. vtail l = Some t \<and> final_status (vfinal l)
        \<and> vanswer l = Some (vfinal l, concat ps @ res_view l @ t)
      else final_status (rst l) \<and> vanswer l = Some (rst l, concat ps @ res_view l))"

text \<open>A call that has a ticket; \<open>ps\<close> is what the worker has collected of its answer.\<close>

definition pending_ok :: "slot_view \<Rightarrow> bytes list \<Rightarrow> bool" where
  "pending_ok l ps \<longleftrightarrow>
     unclaimed l \<and> \<not> res_held l \<and>
     (if opc l = OP_CONTINUE then
        \<not> req_held l \<and> (host_away (gen l) (hat l) \<or> hat l = Seen \<or> (\<exists>b. hat l = Took (gen l) OP_CONTINUE b))
        \<and> par l = [] \<and> vtaken l = vsent l \<and> vsent l \<noteq> None \<and> final_status (vfinal l)
        \<and> (\<exists>t. vtail l = Some t \<and> vanswer l = Some (vfinal l, concat ps @ t))
      else
        user_op (opc l) \<and> ps = [] \<and> vtaken l = None \<and> vanswer l = None
        \<and> (((host_away (gen l) (hat l) \<or> hat l = Seen) \<and> req_held l
              \<and> vsent l = Some (opc l, concat (par l) @ req_view l))
          \<or> (\<exists>b. hat l = Took (gen l) (opc l) b \<and> \<not> req_held l \<and> vsent l = Some (opc l, concat (par l) @ b))))"

definition answering :: "slot_view \<Rightarrow> bytes list \<Rightarrow> bool" where
  "answering l ps \<longleftrightarrow>
     (\<exists>c x b. cur_jobs l = [(gen l, c, x, b)] \<and> own l = Some c \<and> cur_ready l = []
        \<and> host_away (gen l) (hat l) \<and> \<not> res_held l \<and> ps = [] \<and> vanswer l = None)
   \<or> (\<exists>x b. cur_jobs l = [] \<and> cur_ready l = [(gen l, x, b)] \<and> host_away (gen l) (hat l)
        \<and> \<not> res_held l \<and> final_status x \<and> vanswer l = Some (x, concat ps @ b))
   \<or> (\<exists>x b. unclaimed l \<and> (hat l = Replying x b (gen l) \<or> hat l = Writing x b (gen l))
        \<and> \<not> res_held l \<and> final_status x \<and> vanswer l = Some (x, concat ps @ b))
   \<or> (unclaimed l \<and> hat l = Filled \<and> visible l ps)"

definition call_ok :: "slot_view \<Rightarrow> bytes list \<Rightarrow> bool" where
  "call_ok l ps \<longleftrightarrow>
     (st l = ST_PENDING \<and> pending_ok l ps)
   \<or> (st l = ST_RUNNING \<and> \<not> req_held l \<and> par l = [] \<and> vtaken l = vsent l \<and> vsent l \<noteq> None
        \<and> answering l ps)
   \<or> (st l = ST_READY \<and> \<not> req_held l \<and> par l = [] \<and> vtaken l = vsent l \<and> vsent l \<noteq> None
        \<and> unclaimed l \<and> host_away (gen l) (hat l) \<and> visible l ps)"

text \<open>A piece of an oversized request on its way; \<open>x\<close> is the call's opcode, \<open>r\<close> the rest.\<close>

definition acking :: "slot_view \<Rightarrow> bool" where
  "acking l \<longleftrightarrow>
     cur_jobs l = [] \<and>
     ((cur_ready l = [(gen l, STATUS_ACK, [])] \<and> host_away (gen l) (hat l) \<and> \<not> res_held l)
    \<or> (cur_ready l = [] \<and> (hat l = Replying STATUS_ACK [] (gen l) \<or> hat l = Writing STATUS_ACK [] (gen l))
        \<and> \<not> res_held l)
    \<or> (cur_ready l = [] \<and> hat l = Filled \<and> rst l = STATUS_ACK))"

definition piece_ok :: "slot_view \<Rightarrow> i32 \<Rightarrow> bytes \<Rightarrow> bool" where
  "piece_ok l x r \<longleftrightarrow>
     user_op x \<and> vtaken l = None \<and> vanswer l = None \<and>
     ((st l = ST_PENDING \<and> opc l = OP_PUSH \<and> unclaimed l \<and> \<not> res_held l
        \<and> (((host_away (gen l) (hat l) \<or> hat l = Seen) \<and> req_held l
              \<and> vsent l = Some (x, concat (par l) @ req_view l @ r))
          \<or> (\<exists>b. hat l = Took (gen l) OP_PUSH b \<and> \<not> req_held l
              \<and> vsent l = Some (x, concat (par l) @ b @ r))))
    \<or> (st l = ST_RUNNING \<and> \<not> req_held l \<and> vsent l = Some (x, concat (par l) @ r) \<and> acking l)
    \<or> (st l = ST_READY \<and> \<not> req_held l \<and> vsent l = Some (x, concat (par l) @ r) \<and> unclaimed l
        \<and> host_away (gen l) (hat l) \<and> rst l = STATUS_ACK))"

text \<open>
  A call that was cancelled: from the bump of the generation on no answer is current, and an
  answer already on its way finds no buffer in the slot.
\<close>

definition dead_ok :: "slot_view \<Rightarrow> bool" where
  "dead_ok l \<longleftrightarrow>
     unclaimed l
   \<and> (\<forall>x b e. hat l = Replying x b e \<longrightarrow> e < gen l \<and> \<not> res_held l)
   \<and> (\<forall>x b. hat l = Writing x b (gen l) \<longrightarrow> \<not> res_held l)
   \<and> (hat l = Seen \<or> (\<exists>e x b. hat l = Took e x b) \<longrightarrow> st l = ST_PENDING \<or> st l = ST_CANCELLED)
   \<and> (st l = ST_RUNNING \<or> st l = ST_READY \<longrightarrow> \<not> req_held l)
   \<and> (\<forall>e x b. hat l = Took e x b \<longrightarrow> \<not> req_held l \<and> (st l = ST_PENDING \<longrightarrow> e < gen l))
   \<and> (st l = ST_PENDING \<longrightarrow> \<not> res_held l
        \<and> (host_away (gen l) (hat l) \<or> hat l = Seen \<or> (\<exists>e x b. hat l = Took e x b)))"

definition slot_ok :: "slot_view \<Rightarrow> bool" where
  "slot_ok l \<longleftrightarrow> bounded l \<and>
     (case wat l of
        WNone \<Rightarrow>
          if ticketed l then call_ok l []
          else (st l = ST_FREE \<and> unclaimed l \<and> host_away (gen l) (hat l) \<and> par l = []
                 \<and> \<not> req_held l \<and> \<not> res_held l)
             \<or> (st l = ST_CANCELLED \<and> dead_ok l)
      | Fill x r \<Rightarrow>
          \<not> ticketed l \<and> own l \<noteq> None \<and> (st l = ST_CLAIMED \<or> st l = ST_READY) \<and> unclaimed l
          \<and> host_away (gen l) (hat l) \<and> \<not> req_held l \<and> \<not> res_held l \<and> user_op x
          \<and> vsent l = Some (x, concat (par l) @ r) \<and> vtaken l = None \<and> vanswer l = None
      | Await x r \<Rightarrow> \<not> ticketed l \<and> own l \<noteq> None \<and> piece_ok l x r
      | Collecting c ps \<Rightarrow> ticketed l \<and> own l = Some c \<and> call_ok l ps
      | Cancelling \<Rightarrow> ticketed l \<and> call_ok l []
      | Bumped \<Rightarrow> \<not> ticketed l \<and> (st l = ST_PENDING \<or> st l = ST_RUNNING \<or> st l = ST_READY) \<and> dead_ok l)"

section \<open>Steps of the worker\<close>

lemma st_distinct [simp]:
  "ST_FREE \<noteq> ST_PENDING" "ST_FREE \<noteq> ST_RUNNING" "ST_FREE \<noteq> ST_READY" "ST_FREE \<noteq> ST_CANCELLED" "ST_FREE \<noteq> ST_CLAIMED"
  "ST_PENDING \<noteq> ST_FREE" "ST_PENDING \<noteq> ST_RUNNING" "ST_PENDING \<noteq> ST_READY" "ST_PENDING \<noteq> ST_CANCELLED" "ST_PENDING \<noteq> ST_CLAIMED"
  "ST_RUNNING \<noteq> ST_FREE" "ST_RUNNING \<noteq> ST_PENDING" "ST_RUNNING \<noteq> ST_READY" "ST_RUNNING \<noteq> ST_CANCELLED" "ST_RUNNING \<noteq> ST_CLAIMED"
  "ST_READY \<noteq> ST_FREE" "ST_READY \<noteq> ST_PENDING" "ST_READY \<noteq> ST_RUNNING" "ST_READY \<noteq> ST_CANCELLED" "ST_READY \<noteq> ST_CLAIMED"
  "ST_CANCELLED \<noteq> ST_FREE" "ST_CANCELLED \<noteq> ST_PENDING" "ST_CANCELLED \<noteq> ST_RUNNING" "ST_CANCELLED \<noteq> ST_READY" "ST_CANCELLED \<noteq> ST_CLAIMED"
  "ST_CLAIMED \<noteq> ST_FREE" "ST_CLAIMED \<noteq> ST_PENDING" "ST_CLAIMED \<noteq> ST_RUNNING" "ST_CLAIMED \<noteq> ST_READY" "ST_CLAIMED \<noteq> ST_CANCELLED"
  by (simp_all add: state_defs)

lemma status_distinct [simp]:
  "STATUS_ACK \<noteq> STATUS_MORE" "STATUS_ACK \<noteq> STATUS_ERR" "STATUS_ACK \<noteq> STATUS_OK"
  "STATUS_MORE \<noteq> STATUS_ERR" "STATUS_MORE \<noteq> STATUS_OK" "STATUS_MORE \<noteq> STATUS_ACK" "STATUS_ERR \<noteq> STATUS_MORE" "STATUS_OK \<noteq> STATUS_MORE"
  "STATUS_ERR \<noteq> STATUS_ACK" "STATUS_OK \<noteq> STATUS_ACK" "STATUS_OK \<noteq> STATUS_ERR" "STATUS_ERR \<noteq> STATUS_OK"
  by (simp_all add: status_defs)

lemma op_distinct [simp]: "OP_PUSH \<noteq> OP_CONTINUE" "OP_CONTINUE \<noteq> OP_PUSH"
  by (simp_all add: OP_PUSH_def OP_CONTINUE_def)

lemma final_not [simp]: "\<not> final_status STATUS_MORE" "\<not> final_status STATUS_ACK" "final_status STATUS_ERR"
  by (simp_all add: final_status_def)

lemma not_user [simp]: "\<not> user_op OP_PUSH" "\<not> user_op OP_CONTINUE"
  by (simp_all add: user_op_def)

lemmas slot_defs = slot_ok_def bounded_def ticketed_def unclaimed_def cur_jobs_def cur_ready_def

text \<open>Only \<open>slot_ok\<close> itself looks at what the worker is doing.\<close>

lemma wat_irrelevant [simp]:
  "bounded (l\<lparr>wat := w\<rparr>) = bounded l" "ticketed (l\<lparr>wat := w\<rparr>) = ticketed l"
  "unclaimed (l\<lparr>wat := w\<rparr>) = unclaimed l" "call_ok (l\<lparr>wat := w\<rparr>) ps = call_ok l ps"
  "dead_ok (l\<lparr>wat := w\<rparr>) = dead_ok l"
proof -
  show "bounded (l\<lparr>wat := w\<rparr>) = bounded l" "ticketed (l\<lparr>wat := w\<rparr>) = ticketed l"
    by (simp_all add: bounded_def ticketed_def)
  show u: "unclaimed (l\<lparr>wat := w\<rparr>) = unclaimed l"
    by (simp add: unclaimed_def cur_jobs_def cur_ready_def)
  have v: "visible (l\<lparr>wat := w\<rparr>) ps = visible l ps" by (simp add: visible_def)
  have a: "answering (l\<lparr>wat := w\<rparr>) ps = answering l ps"
    by (simp add: answering_def u v cur_jobs_def cur_ready_def)
  have p: "pending_ok (l\<lparr>wat := w\<rparr>) ps = pending_ok l ps" by (simp add: pending_ok_def u)
  show "call_ok (l\<lparr>wat := w\<rparr>) ps = call_ok l ps" by (simp add: call_ok_def u v a p)
  show "dead_ok (l\<lparr>wat := w\<rparr>) = dead_ok l" by (simp add: dead_ok_def u)
qed

lemma slot_claim:
  assumes "slot_ok l" "wat l = WNone" "st l = ST_FREE" "user_op x"
  shows "slot_ok (l\<lparr>st := ST_CLAIMED, wat := Fill x p, own := Some c, vsent := Some (x, p), vtaken := None, vanswer := None\<rparr>)"
  using assms by (auto simp: slot_defs call_ok_def split: if_splits)

lemma slot_push:
  assumes "slot_ok l" "wat l = Fill x (piece @ rest)"
  shows "slot_ok (l\<lparr>st := ST_PENDING, opc := OP_PUSH, req_held := True, req_view := piece, wat := Await x rest\<rparr>)"
  using assms by (simp add: slot_defs piece_ok_def)

lemma slot_last:
  assumes "slot_ok l" "wat l = Fill x r" "own l = Some c"
  shows "slot_ok (l\<lparr>st := ST_PENDING, opc := x, req_held := True, req_view := r, wat := WNone, tks := insert (gen l, c) (tks l)\<rparr>)"
  using assms by (auto simp: slot_defs call_ok_def pending_ok_def user_op_def)

lemma slot_fill_own: "slot_ok l \<Longrightarrow> wat l = Fill x r \<Longrightarrow> \<exists>c. own l = Some c"
  by (simp add: slot_ok_def)

lemma slot_ack:
  assumes "slot_ok l" "wat l = Await x r" "st l = ST_READY"
  shows "rst l = STATUS_ACK"
    and "slot_ok (l\<lparr>res_held := False, res_view := v, wat := Fill x r\<rparr>)"
  using assms by (simp_all add: slot_defs piece_ok_def)

lemma slot_collect_begin:
  assumes "slot_ok l" "wat l = WNone" "(gen l, c) \<in> tks l"
  shows "slot_ok (l\<lparr>wat := Collecting c []\<rparr>)"
proof -
  from assms(3) have "ticketed l" by (auto simp: ticketed_def)
  with assms show ?thesis by (auto simp: slot_ok_def bounded_def)
qed

lemma slot_collect_more:
  assumes "slot_ok l" "wat l = Collecting c ps" "st l = ST_READY" "rst l = STATUS_MORE"
  shows "slot_ok (l\<lparr>res_held := False, res_view := v, opc := OP_CONTINUE, st := ST_PENDING, wat := Collecting c (ps @ [res_view l])\<rparr>)"
  using assms by (auto simp: slot_defs call_ok_def pending_ok_def visible_def)

lemma slot_collect_done:
  assumes "slot_ok l" "wat l = Collecting c ps" "st l = ST_READY" "rst l \<noteq> STATUS_MORE"
  shows "own l = Some c" "final_status (rst l)" "vtaken l = vsent l" "vanswer l = Some (rst l, concat ps @ res_view l)"
  using assms by (simp_all add: slot_defs call_ok_def visible_def)

lemma unclaimed_bump:
  assumes "bounded l"
  shows "filter (\<lambda>j. fst j = Suc (gen l)) (vjobs l) = []" "filter (\<lambda>r. fst r = Suc (gen l)) (vready l) = []"
  using assms by (fastforce simp: bounded_def filter_empty_conv)+

lemma slot_release:
  assumes "slot_ok l" "ticketed l" "st l = ST_READY"
  shows "slot_ok (l\<lparr>res_held := False, res_view := v, gen := Suc (gen l), st := ST_FREE, wat := WNone\<rparr>)"
proof -
  from assms have b: "bounded l" and c: "\<exists>ps. call_ok l ps"
    by (auto simp: slot_ok_def split: worker_at.splits if_splits)
  from c assms(3) have "par l = []" "\<not> req_held l" "host_away (gen l) (hat l)"
    by (auto simp: call_ok_def)
  moreover from this(3) have "host_away (Suc (gen l)) (hat l)"
    by (cases "hat l") auto
  ultimately show ?thesis
    using b unclaimed_bump [OF b]
    by (fastforce simp: slot_ok_def bounded_def ticketed_def unclaimed_def cur_jobs_def cur_ready_def)
qed

lemma slot_cancel1:
  assumes "slot_ok l" "wat l = WNone" "ticketed l"
  shows "slot_ok (l\<lparr>wat := Cancelling\<rparr>)"
  using assms by (simp add: slot_ok_def)

lemma call_ok_dead:
  assumes "bounded l" "call_ok l ps"
  shows "dead_ok (l\<lparr>gen := Suc (gen l)\<rparr>)"
proof -
  have g: "host_gen (hat l) < Suc (gen l)" using assms(1) by (simp add: bounded_def)
  have u: "unclaimed (l\<lparr>gen := Suc (gen l)\<rparr>)"
    using unclaimed_bump [OF assms(1)] by (simp add: unclaimed_def cur_jobs_def cur_ready_def)
  from assms(2) consider (p) "st l = ST_PENDING" "pending_ok l ps"
    | (r) "st l = ST_RUNNING" "\<not> req_held l" "answering l ps"
    | (y) "st l = ST_READY" "\<not> req_held l" "host_away (gen l) (hat l)"
    by (auto simp: call_ok_def)
  then show ?thesis
  proof cases
    case p
    then have h: "host_away (gen l) (hat l) \<or> hat l = Seen \<or> (\<exists>e x b. hat l = Took e x b \<and> \<not> req_held l)"
      and "\<not> res_held l"
      by (auto simp: pending_ok_def split: if_splits)
    with p(1) u g show ?thesis by (cases "hat l") (auto simp: dead_ok_def)
  next
    case r
    then show ?thesis using u g by (cases "hat l") (auto simp: dead_ok_def answering_def)
  next
    case y
    then show ?thesis using u g by (cases "hat l") (auto simp: dead_ok_def)
  qed
qed

lemma slot_cancel2:
  assumes "slot_ok l" "wat l = Cancelling"
  shows "slot_ok (l\<lparr>gen := Suc (gen l), wat := Bumped\<rparr>)"
proof -
  from assms have b: "bounded l" and c: "call_ok l []" by (auto simp: slot_ok_def)
  have "bounded (l\<lparr>gen := Suc (gen l)\<rparr>)" "\<not> ticketed (l\<lparr>gen := Suc (gen l)\<rparr>)"
    using b by (fastforce simp: bounded_def ticketed_def)+
  with call_ok_dead [OF b c] c show ?thesis
    by (auto simp: slot_ok_def call_ok_def)
qed

lemma slot_cancel3:
  assumes "slot_ok l" "wat l = Bumped"
  shows "slot_ok (l\<lparr>st := ST_CANCELLED, wat := WNone\<rparr>)"
  using assms by (auto simp: slot_defs dead_ok_def)

section \<open>Steps of the host\<close>

lemma slot_saw:
  assumes "slot_ok l" "hat l = HNone" "st l = ST_PENDING"
  shows "slot_ok (l\<lparr>hat := Seen\<rparr>)"
  using assms
  by (cases "wat l") (auto simp: slot_defs call_ok_def pending_ok_def piece_ok_def dead_ok_def split: if_splits)

lemma slot_take_read:
  assumes "slot_ok l" "hat l = Seen" "wat l \<noteq> Bumped"
  shows "slot_ok (l\<lparr>req_held := False, req_view := v, hat := Took (gen l) (opc l) (req_view l)\<rparr>)"
  using assms
  by (cases "wat l") (auto simp: slot_defs call_ok_def pending_ok_def answering_def piece_ok_def acking_def dead_ok_def split: if_splits)

lemma slot_take_lost:
  assumes "slot_ok l" "hat l = Took e x b" "st l \<noteq> ST_PENDING"
  shows "slot_ok (l\<lparr>hat := HNone\<rparr>)"
  using assms
  by (cases "wat l") (auto simp: slot_defs call_ok_def pending_ok_def answering_def piece_ok_def acking_def dead_ok_def split: if_splits)

lemma slot_take_continue:
  assumes "slot_ok l" "hat l = Took e OP_CONTINUE b" "st l = ST_PENDING"
  shows "slot_ok (l\<lparr>st := ST_RUNNING, vtail := None,
     hat := Replying (vfinal l) (case vtail l of None \<Rightarrow> [] | Some t \<Rightarrow> t) e\<rparr>)"
  using assms
  by (cases "wat l") (auto simp: slot_defs call_ok_def pending_ok_def answering_def piece_ok_def acking_def dead_ok_def split: if_splits)

lemma slot_take_push:
  assumes "slot_ok l" "hat l = Took e OP_PUSH b" "st l = ST_PENDING"
  shows "slot_ok (l\<lparr>st := ST_RUNNING, par := par l @ [b], hat := Replying STATUS_ACK [] e\<rparr>)"
  using assms
  by (cases "wat l") (auto simp: slot_defs call_ok_def pending_ok_def answering_def piece_ok_def acking_def dead_ok_def split: if_splits)

lemma slot_take_unknown:
  assumes "slot_ok l" "hat l = Took e x b" "st l = ST_PENDING" "user_op x"
  shows "slot_ok (l\<lparr>st := ST_RUNNING, par := [], hat := Replying STATUS_ERR body e,
     vtaken := Some (x, concat (par l) @ b), vanswer := Some (STATUS_ERR, body)\<rparr>)"
  using assms
  by (cases "wat l") (auto simp: slot_defs call_ok_def pending_ok_def answering_def piece_ok_def acking_def dead_ok_def split: if_splits)

lemma slot_take_run:
  assumes "slot_ok l" "hat l = Took e x b" "st l = ST_PENDING" "user_op x" "own l = Some c"
  shows "slot_ok (l\<lparr>st := ST_RUNNING, par := [], hat := HNone, vjobs := vjobs l @ [(e, c, x, concat (par l) @ b)],
     vtaken := Some (x, concat (par l) @ b)\<rparr>)"
  using assms
  by (cases "wat l") (auto simp: slot_defs call_ok_def pending_ok_def answering_def piece_ok_def acking_def dead_ok_def split: if_splits)

lemma slot_took_own:
  assumes "slot_ok l" "hat l = Took e x b" "st l = ST_PENDING" "wat l \<noteq> Bumped"
  shows "own l \<noteq> None"
  using assms
  by (cases "wat l") (auto simp: slot_defs call_ok_def split: if_splits)

lemma slot_take_orphan:
  assumes "slot_ok l" "hat l = Took e x b" "st l = ST_PENDING" "user_op x" "own l = None"
  shows "slot_ok (l\<lparr>st := ST_RUNNING, par := [], hat := Replying STATUS_ERR body e\<rparr>)"
proof -
  have "wat l = Bumped" using slot_took_own [OF assms(1-3)] assms(5) by blast
  with assms show ?thesis by (auto simp: slot_defs dead_ok_def)
qed

lemma filter_remove1_other: "\<not> P x \<Longrightarrow> filter P (remove1 x xs) = filter P xs"
  by (induction xs) auto

lemma filter_remove1_same: "filter P (remove1 x xs) = (if P x then remove1 x (filter P xs) else filter P xs)"
  by (induction xs) auto

lemma set_remove1_le: "\<forall>y\<in>set xs. P y \<Longrightarrow> \<forall>y\<in>set (remove1 x xs). P y"
  by (meson notin_set_remove1)

text \<open>Jobs and answers of an older generation do not matter.\<close>

lemma jobs_irrelevant:
  assumes "slot_ok l" "filter (\<lambda>j. fst j = gen l) jl = filter (\<lambda>j. fst j = gen l) (vjobs l)"
    "\<forall>j\<in>set jl. fst j \<le> gen l"
  shows "slot_ok (l\<lparr>vjobs := jl\<rparr>)"
proof -
  let ?l = "l\<lparr>vjobs := jl\<rparr>"
  have b: "bounded ?l" using assms(1,3) by (simp add: slot_ok_def bounded_def)
  have c: "cur_jobs ?l = cur_jobs l" "cur_ready ?l = cur_ready l" "ticketed ?l = ticketed l"
    using assms(2) by (simp_all add: cur_jobs_def cur_ready_def ticketed_def)
  then have u: "unclaimed ?l = unclaimed l" by (simp add: unclaimed_def)
  have v: "visible ?l ps = visible l ps" for ps by (simp add: visible_def)
  have a: "answering ?l ps = answering l ps" "pending_ok ?l ps = pending_ok l ps" for ps
    by (simp_all add: answering_def pending_ok_def u v c)
  have "call_ok ?l ps = call_ok l ps" "dead_ok ?l = dead_ok l" "piece_ok ?l x r = piece_ok l x r" for ps x r
    by (simp_all add: call_ok_def dead_ok_def piece_ok_def acking_def u v a c)
  with b c u assms(1) show ?thesis by (cases "wat l") (simp_all add: slot_ok_def)
qed

lemma ready_irrelevant:
  assumes "slot_ok l" "filter (\<lambda>j. fst j = gen l) rs = filter (\<lambda>j. fst j = gen l) (vready l)"
    "\<forall>j\<in>set rs. fst j \<le> gen l"
  shows "slot_ok (l\<lparr>vready := rs\<rparr>)"
proof -
  let ?l = "l\<lparr>vready := rs\<rparr>"
  have b: "bounded ?l" using assms(1,3) by (simp add: slot_ok_def bounded_def)
  have c: "cur_jobs ?l = cur_jobs l" "cur_ready ?l = cur_ready l" "ticketed ?l = ticketed l"
    using assms(2) by (simp_all add: cur_jobs_def cur_ready_def ticketed_def)
  then have u: "unclaimed ?l = unclaimed l" by (simp add: unclaimed_def)
  have v: "visible ?l ps = visible l ps" for ps by (simp add: visible_def)
  have a: "answering ?l ps = answering l ps" "pending_ok ?l ps = pending_ok l ps" for ps
    by (simp_all add: answering_def pending_ok_def u v c)
  have "call_ok ?l ps = call_ok l ps" "dead_ok ?l = dead_ok l" "piece_ok ?l x r = piece_ok l x r" for ps x r
    by (simp_all add: call_ok_def dead_ok_def piece_ok_def acking_def u v a c)
  with b c u assms(1) show ?thesis by (cases "wat l") (simp_all add: slot_ok_def)
qed

lemma slot_job_drop:
  assumes "slot_ok l" "fst j \<noteq> gen l"
  shows "slot_ok (l\<lparr>vjobs := remove1 j (vjobs l)\<rparr>)"
  using assms(1)
proof (rule jobs_irrelevant)
  show "filter (\<lambda>j. fst j = gen l) (remove1 j (vjobs l)) = filter (\<lambda>j. fst j = gen l) (vjobs l)"
    using assms(2) by (simp add: filter_remove1_other)
  show "\<forall>j\<in>set (remove1 j (vjobs l)). fst j \<le> gen l"
    using assms(1) by (intro set_remove1_le) (simp add: slot_ok_def bounded_def)
qed

lemma slot_ready_drop:
  assumes "slot_ok l" "fst j \<noteq> gen l"
  shows "slot_ok (l\<lparr>vready := remove1 j (vready l)\<rparr>)"
  using assms(1)
proof (rule ready_irrelevant)
  show "filter (\<lambda>j. fst j = gen l) (remove1 j (vready l)) = filter (\<lambda>j. fst j = gen l) (vready l)"
    using assms(2) by (simp add: filter_remove1_other)
  show "\<forall>j\<in>set (remove1 j (vready l)). fst j \<le> gen l"
    using assms(1) by (intro set_remove1_le) (simp add: slot_ok_def bounded_def)
qed

lemma away_simps:
  assumes "host_away g h"
  shows "h \<noteq> Seen" "h \<noteq> Took e x b" "h \<noteq> Replying x b e" "h \<noteq> Filled" "h \<noteq> Writing x b g"
  using assms by auto

lemma hat_irrelevant:
  assumes "slot_ok l" "host_away (gen l) (hat l)" "host_away (gen l) h"
  shows "slot_ok (l\<lparr>hat := h\<rparr>)"
proof -
  let ?l = "l\<lparr>hat := h\<rparr>"
  have g: "host_gen h \<le> gen l" using assms(3) by (cases h) auto
  have b: "bounded ?l" using assms(1) g by (simp add: slot_ok_def bounded_def)
  note n = away_simps [OF assms(2)] away_simps [OF assms(3)] assms(2,3)
  have c: "cur_jobs ?l = cur_jobs l" "cur_ready ?l = cur_ready l" "ticketed ?l = ticketed l"
    "unclaimed ?l = unclaimed l"
    by (simp_all add: cur_jobs_def cur_ready_def ticketed_def unclaimed_def)
  have v: "visible ?l ps = visible l ps" for ps by (simp add: visible_def)
  have a: "answering ?l ps = answering l ps" for ps by (simp add: answering_def v c n)
  have p: "pending_ok ?l ps = pending_ok l ps" for ps by (simp add: pending_ok_def c n)
  have "call_ok ?l ps = call_ok l ps" for ps by (simp add: call_ok_def v a p c n)
  moreover have "dead_ok ?l = dead_ok l" by (simp add: dead_ok_def c n)
  moreover have "piece_ok ?l x r = piece_ok l x r" for x r by (simp add: piece_ok_def acking_def c n)
  ultimately show ?thesis using b c n assms(1)
    by (cases "wat l") (simp_all add: slot_ok_def split: if_splits)
qed

lemma slot_job_current:
  assumes "slot_ok l" "(gen l, c, x, b) \<in> set (vjobs l)"
  shows "own l = Some c" "ticketed l" "wat l \<noteq> Bumped" "st l = ST_RUNNING"
    "cur_jobs l = [(gen l, c, x, b)]" "cur_ready l = []" "vanswer l = None" "\<not> res_held l" "\<not> req_held l" "par l = []"
      "vtaken l = vsent l" "vsent l \<noteq> None" "wat l = Collecting d ps \<Longrightarrow> ps = []" "bounded l" "wat l = Collecting d ps \<Longrightarrow> own l = Some d"
      "wat l = WNone \<or> (\<exists>d. wat l = Collecting d []) \<or> wat l = Cancelling"
proof -
  have m: "(gen l, c, x, b) \<in> set (cur_jobs l)" using assms(2) by (simp add: cur_jobs_def)
  have "\<exists>ps. ticketed l \<and> call_ok l ps \<and> (wat l = WNone \<and> ps = [] \<or> (\<exists>d. wat l = Collecting d ps) \<or> wat l = Cancelling \<and> ps = [])"
    using assms(1) m by (cases "wat l") (auto simp: slot_ok_def unclaimed_def dead_ok_def piece_ok_def acking_def split: if_splits)
  then obtain qs where t: "ticketed l" "call_ok l qs" and w: "wat l = WNone \<and> qs = [] \<or> (\<exists>d. wat l = Collecting d qs) \<or> wat l = Cancelling \<and> qs = []" by blast
  from t(2) m have a: "st l = ST_RUNNING" "answering l qs" "\<not> req_held l" "par l = []" "vtaken l = vsent l" "vsent l \<noteq> None"
    by (auto simp: call_ok_def pending_ok_def unclaimed_def)
  from a(2) m have b: "cur_jobs l = [(gen l, c, x, b)]" "own l = Some c" "cur_ready l = []" "\<not> res_held l" "qs = []" "vanswer l = None"
    by (auto simp: answering_def unclaimed_def)
  show "own l = Some c" "ticketed l" "wat l \<noteq> Bumped" "st l = ST_RUNNING"
    "cur_jobs l = [(gen l, c, x, b)]" "cur_ready l = []" "vanswer l = None" "\<not> res_held l" "\<not> req_held l" "par l = []"
      "vtaken l = vsent l" "vsent l \<noteq> None" "wat l = WNone \<or> (\<exists>d. wat l = Collecting d []) \<or> wat l = Cancelling"
    using a b t w by auto
  show "wat l = Collecting d ps \<Longrightarrow> ps = []" using w b(5) by auto
  show "bounded l" using assms(1) by (simp add: slot_ok_def)
  show "wat l = Collecting d ps \<Longrightarrow> own l = Some d" using assms(1) by (simp add: slot_ok_def)
qed

lemma slot_job_done:
  assumes "slot_ok l" "(gen l, c, x, b) \<in> set (vjobs l)" "hat l = HNone" "final_status y"
  shows "slot_ok (l\<lparr>vjobs := remove1 (gen l, c, x, b) (vjobs l), hat := Replying y ans (gen l), vanswer := Some (y, ans)\<rparr>)"
    (is "slot_ok ?l")
proof -
  note j = slot_job_current [OF assms(1,2)]
  have "bounded ?l" using j(14) set_remove1_le [of "vjobs l" "\<lambda>j. fst j \<le> gen l" "(gen l, c, x, b)"] by (simp add: bounded_def)
  moreover have u: "unclaimed ?l"
    using j(5,6) by (simp add: unclaimed_def cur_jobs_def cur_ready_def filter_remove1_same)
  moreover have "ticketed ?l" using j(2) by (simp add: ticketed_def)
  moreover have "call_ok ?l []"
    using j u assms(4) by (simp add: call_ok_def answering_def)
  ultimately show ?thesis
    using j(15,16) j(13) by (auto simp: slot_ok_def)
qed

lemma slot_reply_now:
  assumes "slot_ok l" "hat l = Replying x b e"
  shows "slot_ok (l\<lparr>hat := Writing x b (gen l)\<rparr>)"
  using assms
  by (cases "wat l") (auto simp: slot_defs call_ok_def pending_ok_def answering_def visible_def piece_ok_def acking_def dead_ok_def split: if_splits)

lemma slot_reply_queue:
  assumes "slot_ok l" "hat l = Replying x b (gen l)"
  shows "slot_ok (l\<lparr>vready := vready l @ [(gen l, x, b)], hat := HNone\<rparr>)"
  using assms
  by (cases "wat l") (auto simp: slot_defs call_ok_def pending_ok_def answering_def visible_def piece_ok_def acking_def dead_ok_def split: if_splits)

text \<open>A queued answer of the current generation is the call's, or an acknowledgement.\<close>

lemma slot_ready_cases [consumes 2, case_names call ack]:
  assumes "slot_ok l" "(gen l, x, b) \<in> set (vready l)"
  obtains ps where "wat l = WNone \<and> ps = [] \<or> (\<exists>c. wat l = Collecting c ps) \<or> wat l = Cancelling \<and> ps = []"
      "ticketed l" "st l = ST_RUNNING" "\<not> req_held l" "par l = []" "vtaken l = vsent l" "vsent l \<noteq> None"
      "cur_jobs l = []" "cur_ready l = [(gen l, x, b)]" "\<not> res_held l" "final_status x"
      "vanswer l = Some (x, concat ps @ b)"
  | y r where "wat l = Await y r" "piece_ok l y r" "st l = ST_RUNNING" "cur_jobs l = []"
      "cur_ready l = [(gen l, x, b)]" "\<not> res_held l" "x = STATUS_ACK" "b = []"
proof -
  have m: "(gen l, x, b) \<in> set (cur_ready l)" using assms(2) by (simp add: cur_ready_def)
  then have nu: "\<not> unclaimed l" by (auto simp: unclaimed_def)
  have *: "st l = ST_RUNNING \<and> \<not> req_held l \<and> par l = [] \<and> vtaken l = vsent l \<and> vsent l \<noteq> None
      \<and> cur_jobs l = [] \<and> cur_ready l = [(gen l, x, b)] \<and> \<not> res_held l \<and> final_status x
      \<and> vanswer l = Some (x, concat ps @ b)" if "call_ok l ps" for ps
  proof -
    from that nu have r: "st l = ST_RUNNING" "answering l ps" "\<not> req_held l" "par l = []" "vtaken l = vsent l" "vsent l \<noteq> None"
      by (auto simp: call_ok_def pending_ok_def)
    from r(2) nu m show ?thesis using r by (auto simp: answering_def)
  qed
  show thesis
  proof (cases "wat l")
    case WNone
    with assms(1) nu have "call_ok l []" "ticketed l" by (auto simp: slot_ok_def dead_ok_def split: if_splits)
    from * [OF this(1)] this(2) WNone show thesis by (intro that(1) [of "[]"]) simp_all
  next
    case (Fill y r)
    with assms(1) nu show thesis by (simp add: slot_ok_def)
  next
    case (Await y r)
    with assms(1) have p: "piece_ok l y r" by (simp add: slot_ok_def)
    with nu have "st l = ST_RUNNING" "acking l" by (auto simp: piece_ok_def)
    moreover from this(2) m nu have "cur_jobs l = []" "cur_ready l = [(gen l, x, b)]" "\<not> res_held l" "x = STATUS_ACK" "b = []"
      by (auto simp: acking_def)
    ultimately show thesis using Await p by (intro that(2)) simp_all
  next
    case (Collecting c ps)
    with assms(1) have "call_ok l ps" "ticketed l" by (simp_all add: slot_ok_def)
    from * [OF this(1)] this(2) Collecting show thesis by (intro that(1) [of ps]) simp_all
  next
    case Cancelling
    with assms(1) have "call_ok l []" "ticketed l" by (simp_all add: slot_ok_def)
    from * [OF this(1)] this(2) Cancelling show thesis by (intro that(1) [of "[]"]) simp_all
  next
    case Bumped
    with assms(1) nu show thesis by (simp add: slot_ok_def dead_ok_def)
  qed
qed

lemma slot_deliver:
  assumes "slot_ok l" "(e, x, b) \<in> set (vready l)" "hat l = HNone"
  shows "slot_ok (l\<lparr>vready := remove1 (e, x, b) (vready l), hat := Writing x b e\<rparr>)" (is "slot_ok ?l")
proof -
  have le: "e \<le> gen l" and b0: "bounded l" using assms(1,2) by (auto simp: slot_ok_def bounded_def)
  have b: "bounded ?l"
    using b0 le set_remove1_le [of "vready l" "\<lambda>j. fst j \<le> gen l" "(e, x, b)"] by (simp add: bounded_def)
  show ?thesis
  proof (cases "e = gen l")
    case False
    let ?m = "l\<lparr>vready := remove1 (e, x, b) (vready l)\<rparr>"
    have "slot_ok ?m"
      using slot_ready_drop [OF assms(1), of "(e, x, b)"] False by simp
    from hat_irrelevant [OF this, of "Writing x b e"] False le assms(3) show ?thesis by simp
  next
    case True
    have r: "cur_ready ?l = remove1 (gen l, x, b) (cur_ready l)" "cur_jobs ?l = cur_jobs l" "ticketed ?l = ticketed l"
      using True by (simp_all add: cur_ready_def cur_jobs_def filter_remove1_same ticketed_def)
    have "(gen l, x, b) \<in> set (vready l)" using True assms(2) by simp
    with assms(1) show ?thesis
    proof (cases rule: slot_ready_cases)
      case (call ps)
      then have u: "unclaimed ?l" using r by (simp add: unclaimed_def)
      have "call_ok ?l ps" using call u True by (simp add: call_ok_def answering_def)
      with call(1,2) r(3) b show ?thesis
        using assms(1) by (auto simp: slot_ok_def)
    next
      case (ack y q)
      then have u: "unclaimed ?l" using r by (simp add: unclaimed_def)
      have "piece_ok ?l y q" using ack u True by (simp add: piece_ok_def acking_def unclaimed_def)
      with ack(1) r(3) b show ?thesis
        using assms(1) by (simp add: slot_ok_def)
    qed
  qed
qed

lemma slot_write_stale:
  assumes "slot_ok l" "hat l = Writing x b e" "e \<noteq> gen l"
  shows "slot_ok (l\<lparr>hat := HNone\<rparr>)"
proof (rule hat_irrelevant [OF assms(1)])
  have "e \<le> gen l" using assms(1,2) by (simp add: slot_ok_def bounded_def)
  with assms show "host_away (gen l) (hat l)" by simp
qed simp

text \<open>An answer about to be written is the call's, an acknowledgement, or for nobody.\<close>

lemma slot_writing_cases [consumes 2, case_names call ack dead]:
  assumes "slot_ok l" "hat l = Writing x b (gen l)"
  obtains ps where "wat l = WNone \<and> ps = [] \<or> (\<exists>c. wat l = Collecting c ps) \<or> wat l = Cancelling \<and> ps = []"
      "ticketed l" "st l = ST_RUNNING" "\<not> req_held l" "par l = []" "vtaken l = vsent l" "vsent l \<noteq> None"
      "unclaimed l" "\<not> res_held l" "final_status x" "vanswer l = Some (x, concat ps @ b)"
  | y r where "wat l = Await y r" "piece_ok l y r" "st l = ST_RUNNING" "unclaimed l" "\<not> res_held l"
      "x = STATUS_ACK" "b = []"
  | "wat l = Bumped \<or> wat l = WNone \<and> st l = ST_CANCELLED" "\<not> ticketed l" "dead_ok l" "\<not> res_held l" "st l \<noteq> ST_PENDING"
proof -
  have na: "\<not> host_away (gen l) (hat l)" using assms(2) by simp
  have *: "st l = ST_RUNNING \<and> \<not> req_held l \<and> par l = [] \<and> vtaken l = vsent l \<and> vsent l \<noteq> None
      \<and> unclaimed l \<and> \<not> res_held l \<and> final_status x \<and> vanswer l = Some (x, concat ps @ b)" if "call_ok l ps" for ps
    using that assms(2) by (auto simp: call_ok_def pending_ok_def answering_def split: if_splits)
  show thesis
  proof (cases "wat l")
    case WNone
    show thesis
    proof (cases "ticketed l")
      case True
      with WNone assms(1) have "call_ok l []" by (simp add: slot_ok_def)
      from * [OF this] WNone True show thesis by (intro that(1) [of "[]"]) simp_all
    next
      case False
      with WNone assms(1) na have "st l = ST_CANCELLED" "dead_ok l" by (auto simp: slot_ok_def)
      with WNone False assms(2) show thesis by (intro that(3)) (simp_all add: dead_ok_def)
    qed
  next
    case (Fill y r)
    with assms(1) na show thesis by (simp add: slot_ok_def)
  next
    case (Await y r)
    with assms(1) have p: "piece_ok l y r" by (simp add: slot_ok_def)
    with assms(2) have "st l = ST_RUNNING" "acking l" by (auto simp: piece_ok_def)
    moreover from this(2) assms(2) have "unclaimed l" "\<not> res_held l" "x = STATUS_ACK" "b = []"
      by (auto simp: acking_def unclaimed_def)
    ultimately show thesis using Await p by (intro that(2)) simp_all
  next
    case (Collecting c ps)
    with assms(1) have "call_ok l ps" "ticketed l" by (simp_all add: slot_ok_def)
    from * [OF this(1)] this(2) Collecting show thesis by (intro that(1) [of ps]) simp_all
  next
    case Cancelling
    with assms(1) have "call_ok l []" "ticketed l" by (simp_all add: slot_ok_def)
    from * [OF this(1)] this(2) Cancelling show thesis by (intro that(1) [of "[]"]) simp_all
  next
    case Bumped
    with assms have d: "dead_ok l" "\<not> ticketed l" by (simp_all add: slot_ok_def)
    with assms(2) have "st l \<noteq> ST_PENDING" "\<not> res_held l" by (auto simp: dead_ok_def)
    with Bumped d show thesis by (intro that(3)) simp_all
  qed
qed

lemma slot_write_fill:
  assumes "slot_ok l" "hat l = Writing x b (gen l)"
  shows "slot_ok (l\<lparr>res_held := hb, res_view := take k b, rst := (if drop k b \<noteq> [] then STATUS_MORE else x),
       vtail := (if drop k b \<noteq> [] then Some (drop k b) else vtail l),
       vfinal := (if drop k b \<noteq> [] then x else vfinal l), hat := Filled\<rparr>)" (is "slot_ok ?l")
proof -
  have b: "bounded ?l" using assms(1) by (simp add: slot_ok_def bounded_def)
  have c: "cur_jobs ?l = cur_jobs l" "cur_ready ?l = cur_ready l" "ticketed ?l = ticketed l"
    "unclaimed ?l = unclaimed l"
    by (simp_all add: cur_jobs_def cur_ready_def ticketed_def unclaimed_def)
  show ?thesis using assms
  proof (cases rule: slot_writing_cases)
    case (call ps)
    have "visible ?l ps" using call by (auto simp: visible_def final_status_def)
    then have "call_ok ?l ps" using call c by (simp add: call_ok_def answering_def)
    with call(1,2) c b assms(1) show ?thesis by (auto simp: slot_ok_def)
  next
    case (ack y r)
    then have "piece_ok ?l y r" using c by (simp add: piece_ok_def acking_def unclaimed_def)
    with ack(1) c b assms(1) show ?thesis by (simp add: slot_ok_def)
  next
    case dead
    then have "dead_ok ?l" using c by (auto simp: dead_ok_def)
    with dead c b assms(1) show ?thesis by (auto simp: slot_ok_def)
  qed
qed

lemma slot_publish_ok:
  assumes "slot_ok l" "hat l = Filled" "st l = ST_RUNNING"
  shows "slot_ok (l\<lparr>st := ST_READY, hat := HNone\<rparr>)"
  using assms
  by (cases "wat l") (auto simp: slot_defs call_ok_def pending_ok_def answering_def visible_def piece_ok_def acking_def dead_ok_def split: if_splits)

lemma slot_publish_lost:
  assumes "slot_ok l" "hat l = Filled" "st l \<noteq> ST_RUNNING"
  shows "slot_ok (l\<lparr>res_held := False, res_view := v, vtail := None, hat := HNone\<rparr>)"
  using assms
  by (cases "wat l") (auto simp: slot_defs call_ok_def pending_ok_def answering_def visible_def piece_ok_def acking_def dead_ok_def split: if_splits)

lemma slot_abandon:
  assumes "slot_ok l" "hat l = HNone" "st l = ST_CANCELLED"
  shows "slot_ok (l\<lparr>req_held := False, req_view := v, res_held := False, res_view := w, st := ST_FREE, vtail := None, par := []\<rparr>)"
  using assms
  by (cases "wat l") (auto simp: slot_defs call_ok_def pending_ok_def answering_def visible_def piece_ok_def acking_def dead_ok_def split: if_splits)

end
