(* ===== verification/Bridge_Mem.thy ===== *)
theory Bridge_Mem
  imports Bridge_Slot
begin

text \<open>
  What each operation of the bridge does to the shared memory: to the slot it is about, to
  every other slot, and to the pools. A slot is seen through its fields, the request the
  host would read from it and the answer the worker would.
\<close>

section \<open>Requests, answers and the pools\<close>

definition request :: "shared \<Rightarrow> nat \<Rightarrow> bytes" where
  "request m s =
     (let rb = attached (ctrl m) s Req in
      if rb < 0 then [] else slice0 (reqBuf m (nat rb)) (ld m s ReqLen))"

definition response :: "shared \<Rightarrow> nat \<Rightarrow> bytes" where
  "response m s =
     (let bi = attached (ctrl m) s Res in
      slice0 (if bi < 0 then inlineBuf m s else resBuf m (nat bi)) (ld m s ResLen))"

text \<open>Every held buffer is attached to one slot, and every attached buffer is held.\<close>

definition pool_ok :: "shared \<Rightarrow> bool" where
  "pool_ok m \<longleftrightarrow>
     (\<forall>d s. -1 \<le> attached (ctrl m) s d \<and> attached (ctrl m) s d < int BUFS)
   \<and> (\<forall>d s. 0 \<le> attached (ctrl m) s d \<longrightarrow> ctrl m (FreeFlag d (nat (attached (ctrl m) s d))) \<noteq> 0)
   \<and> (\<forall>d s t. attached (ctrl m) s d = attached (ctrl m) t d \<longrightarrow> 0 \<le> attached (ctrl m) s d \<longrightarrow> s = t)
   \<and> (\<forall>d i. i < BUFS \<longrightarrow> ctrl m (FreeFlag d i) \<noteq> 0 \<longrightarrow> (\<exists>s. attached (ctrl m) s d = int i))"

lemma pool_ok_new: "pool_ok new_shared"
  by (auto simp: pool_ok_def new_shared_def attached_newBridge) (simp_all add: newBridge_def BUFS_def)

text \<open>Another slot that looks the same.\<close>

definition same_slot :: "shared \<Rightarrow> shared \<Rightarrow> nat \<Rightarrow> bool" where
  "same_slot m m' t \<longleftrightarrow> (\<forall>f. ld m' t f = ld m t f) \<and> request m' t = request m t \<and> response m' t = response m t"

lemma same_slot_trans: "same_slot m m' t \<Longrightarrow> same_slot m' m'' t \<Longrightarrow> same_slot m m'' t"
  by (simp add: same_slot_def)

section \<open>The primitives\<close>

fun plain :: "cell \<Rightarrow> bool" where
  "plain (FreeFlag d i) = False"
| "plain (Slot s (BufOf d)) = False"
| "plain c = True"

lemma put_simps [simp]:
  "ctrl (put m c v) = (ctrl m)(c := v)" "reqBuf (put m c v) = reqBuf m" "resBuf (put m c v) = resBuf m"
  "inlineBuf (put m c v) = inlineBuf m"
  by (simp_all add: put_def)

lemma add1_put: "add1 m c = put m c (ctrl m c + 1)"
  by (simp add: add1_def put_def bump_def)

lemma attached_put [simp]: "plain c \<Longrightarrow> attached (k(c := v)) s d = attached k s d"
  by (auto simp: attached_def)

lemma pool_ok_put [simp]: "plain c \<Longrightarrow> pool_ok (put m c v) = pool_ok m"
proof -
  assume c: "plain c"
  then have "FreeFlag d i \<noteq> c" for d i by auto
  with c show ?thesis by (simp add: pool_ok_def)
qed

lemma same_slot_put [simp]: "plain c \<Longrightarrow> (\<forall>f. c \<noteq> Slot t f) \<Longrightarrow> same_slot m (put m c v) t"
  by (auto simp: same_slot_def request_def response_def Let_def)

lemma request_put:
  "plain c \<Longrightarrow> c \<noteq> Slot s ReqLen \<Longrightarrow> request (put m c v) s = request m s"
  by (auto simp: request_def Let_def)

lemma response_put:
  "plain c \<Longrightarrow> c \<noteq> Slot s ResLen \<Longrightarrow> response (put m c v) s = response m s"
  by (auto simp: response_def Let_def)

lemma drop_buf_simps [simp]:
  "reqBuf (drop_buf m s d) = reqBuf m" "resBuf (drop_buf m s d) = resBuf m" "inlineBuf (drop_buf m s d) = inlineBuf m"
  by (simp_all add: drop_buf_def split: prod.splits)

lemma ctrl_drop_buf:
  "ctrl (drop_buf m s d) =
     releaseBuf ((ctrl m)(Slot s (BufOf d) := 0)) d (attached (ctrl m) s d)"
  by (simp add: drop_buf_def detach_def attached_def)

lemma ld_drop_buf [simp]: "ld (drop_buf m s d) t f = (if t = s \<and> f = BufOf d then 0 else ld m t f)"
  by (simp add: ctrl_drop_buf releaseBuf_def)

lemma attached_drop_buf [simp]:
  "attached (ctrl (drop_buf m s d)) t e = (if t = s \<and> e = d then -1 else attached (ctrl m) t e)"
  by (auto simp: attached_def)

lemma pool_ok_drop_buf [simp]:
  assumes "pool_ok m"
  shows "pool_ok (drop_buf m s d)"
proof -
  have f: "ctrl (drop_buf m s d) (FreeFlag e i) =
      (if e = d \<and> attached (ctrl m) s d = int i then 0 else ctrl m (FreeFlag e i))" for e i
    by (auto simp: ctrl_drop_buf releaseBuf_def)
  from assms have r: "\<And>d s. -1 \<le> attached (ctrl m) s d" "\<And>d s. attached (ctrl m) s d < int BUFS"
    and b: "\<And>d s. 0 \<le> attached (ctrl m) s d \<Longrightarrow> ctrl m (FreeFlag d (nat (attached (ctrl m) s d))) \<noteq> 0"
    and j: "\<And>d s t. attached (ctrl m) s d = attached (ctrl m) t d \<Longrightarrow> 0 \<le> attached (ctrl m) s d \<Longrightarrow> s = t"
    and k: "\<And>d i. i < BUFS \<Longrightarrow> ctrl m (FreeFlag d i) \<noteq> 0 \<Longrightarrow> \<exists>s. attached (ctrl m) s d = int i"
    by (simp_all add: pool_ok_def)
  show ?thesis
    unfolding pool_ok_def f
  proof (intro conjI allI impI)
    fix e t
    show "- 1 \<le> attached (ctrl (drop_buf m s d)) t e" "attached (ctrl (drop_buf m s d)) t e < int BUFS"
      using r by auto
    show "0 \<le> attached (ctrl (drop_buf m s d)) t e \<Longrightarrow>
      (if e = d \<and> attached (ctrl m) s d = int (nat (attached (ctrl (drop_buf m s d)) t e)) then 0
       else ctrl m (FreeFlag e (nat (attached (ctrl (drop_buf m s d)) t e)))) \<noteq> 0"
      using b [of t e] j [of s d t] by (auto split: if_splits)
    fix u
    show "attached (ctrl (drop_buf m s d)) t e = attached (ctrl (drop_buf m s d)) u e \<Longrightarrow>
      0 \<le> attached (ctrl (drop_buf m s d)) t e \<Longrightarrow> t = u"
      using j [of t e u] by (auto split: if_splits)
  next
    fix e i
    assume "i < BUFS" "(if e = d \<and> attached (ctrl m) s d = int i then 0 else ctrl m (FreeFlag e i)) \<noteq> 0"
    with k [of i e] obtain t where "attached (ctrl m) t e = int i" "\<not> (e = d \<and> attached (ctrl m) s d = int i)"
      by (auto split: if_splits)
    then show "\<exists>t. attached (ctrl (drop_buf m s d)) t e = int i" by (intro exI [of _ t]) auto
  qed
qed

lemma same_slot_drop_buf [simp]: "t \<noteq> s \<Longrightarrow> same_slot m (drop_buf m s d) t"
  by (simp add: same_slot_def request_def response_def Let_def)

lemma request_drop_buf [simp]: "request (drop_buf m s d) s = (if d = Req then [] else request m s)"
  by (auto simp: request_def Let_def)

lemma response_drop_res [simp]: "response (drop_buf m s Req) s = response m s"
  by (auto simp: response_def Let_def)

text \<open>Take a free buffer for a slot and put bytes into it.\<close>

definition load_buf :: "shared \<Rightarrow> nat \<Rightarrow> dir \<Rightarrow> nat \<Rightarrow> bytes \<Rightarrow> shared" where
  "load_buf m s d j piece =
     (let m = m\<lparr>ctrl := attach ((ctrl m)(FreeFlag d j := 1)) s d (int j)\<rparr> in
      case d of
        Req \<Rightarrow> m\<lparr>reqBuf := (reqBuf m)(j := fill (reqBuf m j) piece)\<rparr>
      | Res \<Rightarrow> m\<lparr>resBuf := (resBuf m)(j := fill (resBuf m j) piece)\<rparr>)"

lemma ctrl_load_buf: "ctrl (load_buf m s d j p) = attach ((ctrl m)(FreeFlag d j := 1)) s d (int j)"
  by (simp add: load_buf_def Let_def split: dir.splits)

lemma load_buf_simps [simp]:
  "inlineBuf (load_buf m s d j p) = inlineBuf m"
  "reqBuf (load_buf m s d j p) = (if d = Req then (reqBuf m)(j := fill (reqBuf m j) p) else reqBuf m)"
  "resBuf (load_buf m s d j p) = (if d = Res then (resBuf m)(j := fill (resBuf m j) p) else resBuf m)"
  by (cases d; simp add: load_buf_def Let_def)+

lemma ld_load_buf [simp]: "f \<noteq> BufOf d \<or> t \<noteq> s \<Longrightarrow> ld (load_buf m s d j p) t f = ld m t f"
  by (auto simp: ctrl_load_buf attach_def)

lemma attached_load_buf [simp]:
  assumes "j < BUFS"
  shows "attached (ctrl (load_buf m s d j p)) t e = (if t = s \<and> e = d then int j else attached (ctrl m) t e)"
proof (cases "t = s \<and> e = d")
  case True
  with assms show ?thesis by (simp add: ctrl_load_buf attached_attach)
next
  case False
  then show ?thesis by (auto simp: ctrl_load_buf attached_def attach_def)
qed

lemma pool_ok_load_buf:
  assumes "pool_ok m" "j < BUFS" "ctrl m (FreeFlag d j) = 0" "attached (ctrl m) s d = -1"
  shows "pool_ok (load_buf m s d j p)"
proof -
  have f: "ctrl (load_buf m s d j p) (FreeFlag e i) = (if e = d \<and> i = j then 1 else ctrl m (FreeFlag e i))" for e i
    by (simp add: ctrl_load_buf attach_def)
  have n: "attached (ctrl m) t d \<noteq> int j" for t
    using assms(1,3) by (auto simp: pool_ok_def) (metis nat_int of_nat_0_le_iff)
  note a = attached_load_buf [OF assms(2), of m s d p]
  from assms(1) have r: "\<And>d s. -1 \<le> attached (ctrl m) s d" "\<And>d s. attached (ctrl m) s d < int BUFS"
    and b: "\<And>d s. 0 \<le> attached (ctrl m) s d \<Longrightarrow> ctrl m (FreeFlag d (nat (attached (ctrl m) s d))) \<noteq> 0"
    and j: "\<And>d s t. attached (ctrl m) s d = attached (ctrl m) t d \<Longrightarrow> 0 \<le> attached (ctrl m) s d \<Longrightarrow> s = t"
    and k: "\<And>d i. i < BUFS \<Longrightarrow> ctrl m (FreeFlag d i) \<noteq> 0 \<Longrightarrow> \<exists>s. attached (ctrl m) s d = int i"
    by (simp_all add: pool_ok_def)
  show ?thesis
    unfolding pool_ok_def f a
  proof (intro conjI allI impI)
    fix e t
    let ?a = "if t = s \<and> e = d then int j else attached (ctrl m) t e"
    show "- 1 \<le> ?a" using r by simp
    show "?a < int BUFS" using r assms(2) by simp
    show "0 \<le> ?a \<Longrightarrow> (if e = d \<and> nat ?a = j then 1 else ctrl m (FreeFlag e (nat ?a))) \<noteq> 0"
      using b [of t e] by (auto split: if_splits)
    fix u
    show "?a = (if u = s \<and> e = d then int j else attached (ctrl m) u e) \<Longrightarrow> 0 \<le> ?a \<Longrightarrow> t = u"
      using j [of t e u] n [of t] n [of u] by (auto split: if_splits)
  next
    fix e i
    assume i: "i < BUFS" "(if e = d \<and> i = j then 1 else ctrl m (FreeFlag e i)) \<noteq> (0::i32)"
    show "\<exists>t. (if t = s \<and> e = d then int j else attached (ctrl m) t e) = int i"
    proof (cases "e = d \<and> i = j")
      case True
      then show ?thesis by auto
    next
      case False
      with i k [of i e] obtain t where t: "attached (ctrl m) t e = int i" by auto
      then have "\<not> (t = s \<and> e = d)" using assms(4) by auto
      with t show ?thesis by (intro exI [of _ t]) auto
    qed
  qed
qed

lemma same_slot_load_buf:
  assumes "pool_ok m" "j < BUFS" "ctrl m (FreeFlag d j) = 0" "t \<noteq> s"
  shows "same_slot m (load_buf m s d j p) t"
proof -
  have n: "nat (attached (ctrl m) t d) = j \<Longrightarrow> attached (ctrl m) t d < 0"
    using assms(1,3) by (auto simp: pool_ok_def) (metis linorder_not_le)
  then show ?thesis using assms
    by (cases d) (auto simp: same_slot_def request_def response_def Let_def)
qed

lemma slice0_fill: "length p < 2 ^ 31 \<Longrightarrow> slice0 (fill dst p) (word_of_nat (length p)) = p"
  using subarray_nat [of "fill dst p" 0 "length p"] sint_word_of_int_i32 [of "int (length p)"]
  by (simp add: slice0_def fill_def)


section \<open>The operations\<close>

text \<open>Each operation is a composition of the primitives.\<close>

lemma takeReqBuf_publish:
  assumes "takeReqBuf_pass m = (m', Some bi)"
  shows "bi < BUFS" "ctrl m (FreeFlag Req bi) = 0"
    "publish m' s bi op piece =
       ping (put (put (put (load_buf m s Req bi piece) (Slot s Op) op) (Slot s ReqLen) (word_of_nat (length piece)))
         (Slot s Status) ST_PENDING)"
proof -
  have "bi < BUFS \<and> ctrl m (FreeFlag Req bi) = 0 \<and> m' = m\<lparr>ctrl := (ctrl m)(FreeFlag Req bi := 1)\<rparr>"
  proof (cases rule: acquireBuf_cases [where m = "ctrl m" and d = Req])
    case none
    with assms show ?thesis by (simp add: takeReqBuf_pass_def)
  next
    case (some j)
    with assms have "m' = m\<lparr>ctrl := (ctrl m)(FreeFlag Req j := 1)\<rparr>" "bi = j" by (auto simp: takeReqBuf_pass_def)
    with some show ?thesis by simp
  qed
  then show "bi < BUFS" "ctrl m (FreeFlag Req bi) = 0"
    "publish m' s bi op piece =
       ping (put (put (put (load_buf m s Req bi piece) (Slot s Op) op) (Slot s ReqLen) (word_of_nat (length piece)))
         (Slot s Status) ST_PENDING)"
    by (simp_all add: publish_def load_buf_def Let_def) (cases m; simp)
qed

lemma readRes_eq: "readRes m s = (ping (drop_buf m s Res), response m s)"
  by (simp add: readRes_def response_def Let_def drop_buf_def detach_def attached_def)

lemma take_read_eq:
  "take_read m s = (add1 (drop_buf m s Req) DoneSeq, ld m s Gen, ld m s Op, request m s)"
  by (simp add: take_read_def request_def Let_def drop_buf_def detach_def attached_def)

text \<open>An answer placed in a slot: \<open>k\<close> bytes of it, in the inline area or in a pooled buffer.\<close>

definition placed :: "shared \<Rightarrow> nat \<Rightarrow> bytes \<Rightarrow> nat \<Rightarrow> int \<Rightarrow> shared" where
  "placed m s body k bi =
     (if 0 \<le> bi then load_buf m s Res (nat bi) (take k body)
      else m\<lparr>inlineBuf := (inlineBuf m)(s := fill (inlineBuf m s) (take k body)), ctrl := attach (ctrl m) s Res (-1)\<rparr>)"

lemma write_fill_cases:
  obtains bi k where
    "bi = -1 \<and> k \<le> INLINE_BYTES \<or> (\<exists>j. bi = int j \<and> j < BUFS \<and> ctrl m (FreeFlag Res j) = 0 \<and> k \<le> BUF_BYTES)"
    "k \<le> length body"
    "write_fill m h s status body =
      (put (put (placed m s body k bi) (Slot s ResLen) (word_of_nat k))
         (Slot s ResStatus) (if drop k body \<noteq> [] then STATUS_MORE else status),
       if drop k body \<noteq> [] then h\<lparr>tail := (tail h)(s := Some (drop k body)), finalStatus := (finalStatus h)(s := status)\<rparr> else h)"
proof (cases "length body > INLINE_BYTES")
  case False
  then show thesis
    by (intro that [of "-1" "length body"]) (simp_all add: write_fill_def placed_def Let_def)
next
  case True
  show thesis
  proof (cases rule: acquireBuf_cases [where m = "ctrl m" and d = Res])
    case none
    with True show thesis
      by (intro that [of "-1" "min (length body) INLINE_BYTES"]) (simp_all add: write_fill_def placed_def Let_def)
  next
    case (some j)
    with True show thesis
      by (intro that [of "int j" "min (length body) BUF_BYTES"]) (simp_all add: write_fill_def placed_def load_buf_def Let_def)
  qed
qed

lemmas op_eqs = readRes_eq take_read_eq release_def ask_more_def abandon_def ping_def add1_put Let_def

end
