(* ===== verification/Bridge_System.thy ===== *)
theory Bridge_System
  imports Bridge_Mem
begin

text \<open>
  Worker and host running against each other. A state is the shared memory, the host's own
  tables, where each side is in its code, the handlers that are running, the answers the
  scheduler holds and the tickets the program has been given; the last fields are ghosts that
  record what each call sent, what the host took it as, what it answered and what was
  collected. A step is the code of one side between two points at which the other side can
  intervene: each atomic access that the other side races for (the exchange in \<open>claim\<close>,
  \<open>take\<close> and \<open>write\<close>, the load of the generation in \<open>reply\<close>, the two stores of \<open>cancel\<close>)
  begins a step of its own, and the plain accesses to a slot that only one side may touch are
  part of the step they belong to. The scan of a buffer pool, one exchange per entry in the code, is
  part of a step too: only one side takes from a pool and the other only gives back, so a scan that
  finds nothing would have found nothing when it began, and one that finds an entry had it free when it
  took it. What the merge loses is which free entry that is, on which nothing depends.
\<close>

section \<open>States\<close>

text \<open>
  The worker: outside, in \<open>submit\<close> with a piece to publish or waiting for its
  acknowledgement, in \<open>collect\<close>, or in \<open>cancel\<close> before and after the bump of the generation.
\<close>

datatype wpc =
    WIdle
  | WFill nat i32 i32 bytes
  | WAwait nat i32 i32 bytes
  | WCollect nat nat "bytes list"
  | WCancel1 nat
  | WCancel2 nat

text \<open>
  The host: outside, in \<open>take\<close> before and after it has copied the request, in \<open>reply\<close>, in
  \<open>write\<close>, and in \<open>write\<close> before the exchange that publishes.
\<close>

datatype hpc =
    HIdle
  | HSaw nat
  | HTake nat i32 i32 bytes
  | HReply nat i32 bytes i32
  | HWrite nat i32 bytes i32
  | HFilled nat

record job =
  jslot :: nat
  jgen :: i32
  jcall :: nat
  jop :: i32
  jbody :: bytes

record reply =
  rslot :: nat
  rgen :: i32
  rstatus :: i32
  rbody :: bytes

record sys =
  mem :: shared
  hst :: host
  wpc :: wpc
  hpc :: hpc
  jobq :: "job list"
  readyq :: "reply list"
  tickets :: "(nat \<times> i32 \<times> nat) set"
  owner :: "nat \<Rightarrow> nat option"
  next_call :: nat
  sent :: "nat \<rightharpoonup> i32 \<times> bytes"
  taken :: "nat \<rightharpoonup> i32 \<times> bytes"
  answer :: "nat \<rightharpoonup> i32 \<times> bytes"
  got :: "(nat \<times> i32 \<times> bytes) list"

definition init :: sys where
  "init =
     \<lparr>mem = new_shared, hst = new_host, wpc = WIdle, hpc = HIdle, jobq = [], readyq = [], tickets = {},
      owner = (\<lambda>_. None), next_call = 0, sent = Map.empty, taken = Map.empty, answer = Map.empty, got = []\<rparr>"

text \<open>Note what the owner of a slot was taken as, and what it is answered.\<close>

definition noting :: "sys \<Rightarrow> nat \<Rightarrow> (nat \<rightharpoonup> 'v) \<Rightarrow> 'v \<Rightarrow> nat \<rightharpoonup> 'v" where
  "noting \<sigma> s f v = (case owner \<sigma> s of None \<Rightarrow> f | Some c \<Rightarrow> f(c \<mapsto> v))"

section \<open>Steps\<close>

text \<open>
  \<open>known\<close> says which opcodes have a handler and \<open>on\<close> whether answers go through the
  scheduler. The worker's steps come first.
\<close>

inductive bridge_step :: "(i32 \<Rightarrow> bool) \<Rightarrow> bool \<Rightarrow> sys \<Rightarrow> sys \<Rightarrow> bool" for known on where
  claim:
    "wpc \<sigma> = WIdle \<Longrightarrow> user_op op \<Longrightarrow> s < SLOTS \<Longrightarrow>
     compareExchange (ctrl (mem \<sigma>)) (Slot s Status) ST_FREE ST_CLAIMED = (c', ST_FREE) \<Longrightarrow>
     bridge_step known on \<sigma>
       (\<sigma>\<lparr>mem := (mem \<sigma>)\<lparr>ctrl := c'\<rparr>, wpc := WFill s (c' (Slot s Gen)) op p,
          owner := (owner \<sigma>)(s := Some (next_call \<sigma>)), next_call := Suc (next_call \<sigma>),
          sent := (sent \<sigma>)(next_call \<sigma> \<mapsto> (op, p))\<rparr>)"
| push:
    "wpc \<sigma> = WFill s g op r \<Longrightarrow> BUF_BYTES < length r \<Longrightarrow> takeReqBuf_pass (mem \<sigma>) = (m, Some bi) \<Longrightarrow>
     bridge_step known on \<sigma>
       (\<sigma>\<lparr>mem := publish m s bi OP_PUSH (take BUF_BYTES r), wpc := WAwait s g op (drop BUF_BYTES r)\<rparr>)"
| push_last:
    "wpc \<sigma> = WFill s g op r \<Longrightarrow> length r \<le> BUF_BYTES \<Longrightarrow> takeReqBuf_pass (mem \<sigma>) = (m, Some bi) \<Longrightarrow>
     owner \<sigma> s = Some c \<Longrightarrow>
     bridge_step known on \<sigma>
       (\<sigma>\<lparr>mem := publish m s bi op r, wpc := WIdle, tickets := insert (s, g, c) (tickets \<sigma>)\<rparr>)"
| ack:
    "wpc \<sigma> = WAwait s g op r \<Longrightarrow> ld (mem \<sigma>) s Status = ST_READY \<Longrightarrow> readRes (mem \<sigma>) s = (m, out) \<Longrightarrow>
     ld m s ResStatus \<noteq> STATUS_ERR \<Longrightarrow>
     bridge_step known on \<sigma> (\<sigma>\<lparr>mem := m, wpc := WFill s g op r\<rparr>)"
| ack_err:
    "wpc \<sigma> = WAwait s g op r \<Longrightarrow> ld (mem \<sigma>) s Status = ST_READY \<Longrightarrow> readRes (mem \<sigma>) s = (m, out) \<Longrightarrow>
     ld m s ResStatus = STATUS_ERR \<Longrightarrow>
     bridge_step known on \<sigma> (\<sigma>\<lparr>mem := release m s, wpc := WIdle\<rparr>)"
| collect_begin:
    "wpc \<sigma> = WIdle \<Longrightarrow> (s, g, c) \<in> tickets \<sigma> \<Longrightarrow> ld (mem \<sigma>) s Gen = g \<Longrightarrow>
     bridge_step known on \<sigma> (\<sigma>\<lparr>wpc := WCollect s c []\<rparr>)"
| collect_more:
    "wpc \<sigma> = WCollect s c ps \<Longrightarrow> ld (mem \<sigma>) s Status = ST_READY \<Longrightarrow>
     ld (mem \<sigma>) s ResStatus = STATUS_MORE \<Longrightarrow> readRes (mem \<sigma>) s = (m, chunk) \<Longrightarrow>
     bridge_step known on \<sigma> (\<sigma>\<lparr>mem := ask_more m s, wpc := WCollect s c (ps @ [chunk])\<rparr>)"
| collect_ok:
    "wpc \<sigma> = WCollect s c ps \<Longrightarrow> ld (mem \<sigma>) s Status = ST_READY \<Longrightarrow> ld (mem \<sigma>) s ResStatus = x \<Longrightarrow>
     x \<noteq> STATUS_MORE \<Longrightarrow> x \<noteq> STATUS_ERR \<Longrightarrow> readRes (mem \<sigma>) s = (m, chunk) \<Longrightarrow>
     bridge_step known on \<sigma>
       (\<sigma>\<lparr>mem := release m s, wpc := WIdle, got := got \<sigma> @ [(c, x, concat (ps @ [chunk]))]\<rparr>)"
| collect_err:
    "wpc \<sigma> = WCollect s c ps \<Longrightarrow> ld (mem \<sigma>) s Status = ST_READY \<Longrightarrow>
     ld (mem \<sigma>) s ResStatus = STATUS_ERR \<Longrightarrow> readRes (mem \<sigma>) s = (m, chunk) \<Longrightarrow>
     bridge_step known on \<sigma>
       (\<sigma>\<lparr>mem := release m s, wpc := WIdle, got := got \<sigma> @ [(c, STATUS_ERR, chunk)]\<rparr>)"
| cancel_ready:
    "wpc \<sigma> = WIdle \<Longrightarrow> (s, g, c) \<in> tickets \<sigma> \<Longrightarrow> ld (mem \<sigma>) s Gen = g \<Longrightarrow>
     ld (mem \<sigma>) s Status = ST_READY \<Longrightarrow>
     bridge_step known on \<sigma> (\<sigma>\<lparr>mem := release (mem \<sigma>) s\<rparr>)"
| cancel:
    "wpc \<sigma> = WIdle \<Longrightarrow> (s, g, c) \<in> tickets \<sigma> \<Longrightarrow> ld (mem \<sigma>) s Gen = g \<Longrightarrow>
     ld (mem \<sigma>) s Status \<noteq> ST_READY \<Longrightarrow>
     bridge_step known on \<sigma> (\<sigma>\<lparr>wpc := WCancel1 s\<rparr>)"
| cancel_bump:
    "wpc \<sigma> = WCancel1 s \<Longrightarrow>
     bridge_step known on \<sigma> (\<sigma>\<lparr>mem := add1 (mem \<sigma>) (Slot s Gen), wpc := WCancel2 s\<rparr>)"
| cancel_store:
    "wpc \<sigma> = WCancel2 s \<Longrightarrow>
     bridge_step known on \<sigma> (\<sigma>\<lparr>mem := ping (put (mem \<sigma>) (Slot s Status) ST_CANCELLED), wpc := WIdle\<rparr>)"
| saw:
    "hpc \<sigma> = HIdle \<Longrightarrow> s < SLOTS \<Longrightarrow> ld (mem \<sigma>) s Status = ST_PENDING \<Longrightarrow>
     bridge_step known on \<sigma> (\<sigma>\<lparr>hpc := HSaw s\<rparr>)"
| take_copy:
    "hpc \<sigma> = HSaw s \<Longrightarrow> take_read (mem \<sigma>) s = (m, g, op, b) \<Longrightarrow>
     bridge_step known on \<sigma> (\<sigma>\<lparr>mem := m, hpc := HTake s g op b\<rparr>)"
| take_lost:
    "hpc \<sigma> = HTake s g op b \<Longrightarrow> take_cas (mem \<sigma>) s = (m, False) \<Longrightarrow>
     bridge_step known on \<sigma> (\<sigma>\<lparr>mem := m, hpc := HIdle\<rparr>)"
| take_reply:
    "hpc \<sigma> = HTake s g op b \<Longrightarrow> take_cas (mem \<sigma>) s = (m, True) \<Longrightarrow>
     take_dispatch known (hst \<sigma>) s op b = (h, Reply x body) \<Longrightarrow>
     bridge_step known on \<sigma>
       (\<sigma>\<lparr>mem := m, hst := h, hpc := HReply s x body g,
          taken := (if user_op op then noting \<sigma> s (taken \<sigma>) (op, concat (partial (hst \<sigma>) s) @ b) else taken \<sigma>),
          answer := (if user_op op then noting \<sigma> s (answer \<sigma>) (x, body) else answer \<sigma>)\<rparr>)"
| take_run:
    "hpc \<sigma> = HTake s g op b \<Longrightarrow> take_cas (mem \<sigma>) s = (m, True) \<Longrightarrow>
     take_dispatch known (hst \<sigma>) s op b = (h, Run op whole) \<Longrightarrow> owner \<sigma> s = Some c \<Longrightarrow>
     bridge_step known on \<sigma>
       (\<sigma>\<lparr>mem := m, hst := h, hpc := HIdle,
          jobq := jobq \<sigma> @ [\<lparr>jslot = s, jgen = g, jcall = c, jop = op, jbody = whole\<rparr>],
          taken := (taken \<sigma>)(c \<mapsto> (op, whole))\<rparr>)"
| job_drop:
    "hpc \<sigma> = HIdle \<Longrightarrow> j \<in> set (jobq \<sigma>) \<Longrightarrow> ld (mem \<sigma>) (jslot j) Gen \<noteq> jgen j \<Longrightarrow>
     bridge_step known on \<sigma> (\<sigma>\<lparr>jobq := remove1 j (jobq \<sigma>)\<rparr>)"
| job_done:
    "hpc \<sigma> = HIdle \<Longrightarrow> j \<in> set (jobq \<sigma>) \<Longrightarrow> ld (mem \<sigma>) (jslot j) Gen = jgen j \<Longrightarrow>
     x = STATUS_OK \<or> x = STATUS_ERR \<and> (\<exists>f msg. out = faultedBytes f msg) \<Longrightarrow>
     bridge_step known on \<sigma>
       (\<sigma>\<lparr>jobq := remove1 j (jobq \<sigma>), hpc := HReply (jslot j) x out (jgen j),
          answer := (answer \<sigma>)(jcall j \<mapsto> (x, out))\<rparr>)"
| reply_now:
    "hpc \<sigma> = HReply s x b g \<Longrightarrow> \<not> on \<Longrightarrow>
     bridge_step known on \<sigma> (\<sigma>\<lparr>hpc := HWrite s x b (ld (mem \<sigma>) s Gen)\<rparr>)"
| reply_queue:
    "hpc \<sigma> = HReply s x b g \<Longrightarrow> on \<Longrightarrow>
     bridge_step known on \<sigma>
       (\<sigma>\<lparr>readyq := readyq \<sigma> @ [\<lparr>rslot = s, rgen = ld (mem \<sigma>) s Gen, rstatus = x, rbody = b\<rparr>], hpc := HIdle\<rparr>)"
| deliver:
    "hpc \<sigma> = HIdle \<Longrightarrow> q \<in> set (readyq \<sigma>) \<Longrightarrow>
     bridge_step known on \<sigma>
       (\<sigma>\<lparr>readyq := remove1 q (readyq \<sigma>), hpc := HWrite (rslot q) (rstatus q) (rbody q) (rgen q)\<rparr>)"
| write_stale:
    "hpc \<sigma> = HWrite s x b g \<Longrightarrow> ld (mem \<sigma>) s Gen \<noteq> g \<Longrightarrow>
     bridge_step known on \<sigma> (\<sigma>\<lparr>hpc := HIdle\<rparr>)"
| write_fill:
    "hpc \<sigma> = HWrite s x b g \<Longrightarrow> ld (mem \<sigma>) s Gen = g \<Longrightarrow> write_fill (mem \<sigma>) (hst \<sigma>) s x b = (m, h) \<Longrightarrow>
     bridge_step known on \<sigma> (\<sigma>\<lparr>mem := m, hst := h, hpc := HFilled s\<rparr>)"
| write_publish:
    "hpc \<sigma> = HFilled s \<Longrightarrow> write_publish (mem \<sigma>) (hst \<sigma>) s = (m, h) \<Longrightarrow>
     bridge_step known on \<sigma> (\<sigma>\<lparr>mem := m, hst := h, hpc := HIdle\<rparr>)"
| abandon:
    "hpc \<sigma> = HIdle \<Longrightarrow> s < SLOTS \<Longrightarrow> ld (mem \<sigma>) s Status = ST_CANCELLED \<Longrightarrow>
     abandon (mem \<sigma>) (hst \<sigma>) s = (m, h) \<Longrightarrow>
     bridge_step known on \<sigma> (\<sigma>\<lparr>mem := m, hst := h\<rparr>)"

text \<open>
  Three races that the code does not close. The host copies a request between the two stores of
  a cancel; the answer of a cancelled call is handed to the scheduler under the generation of
  the slot's next call; a generation returns to its first value after \<open>2 ^ 32\<close> calls.
\<close>

definition raced :: "sys \<Rightarrow> sys \<Rightarrow> bool" where
  "raced \<sigma> \<sigma>' \<longleftrightarrow>
     (case (hpc \<sigma>, hpc \<sigma>') of
        (HSaw s, HTake _ _ _ _) \<Rightarrow> wpc \<sigma> = WCancel2 s
      | (HReply s x b g, HIdle) \<Rightarrow> ld (mem \<sigma>) s Gen \<noteq> g
      | _ \<Rightarrow> False)
     \<or> (\<exists>s. ld (mem \<sigma>) s Gen = -1 \<and> ld (mem \<sigma>') s Gen = 0)"

inductive calm_run :: "(i32 \<Rightarrow> bool) \<Rightarrow> bool \<Rightarrow> sys \<Rightarrow> bool" for known on where
  start: "calm_run known on init"
| more: "calm_run known on \<sigma> \<Longrightarrow> bridge_step known on \<sigma> \<sigma>' \<Longrightarrow> \<not> raced \<sigma> \<sigma>' \<Longrightarrow> calm_run known on \<sigma>'"

inductive any_run :: "(i32 \<Rightarrow> bool) \<Rightarrow> bool \<Rightarrow> sys \<Rightarrow> bool" for known on where
  start: "any_run known on init"
| more: "any_run known on \<sigma> \<Longrightarrow> bridge_step known on \<sigma> \<sigma>' \<Longrightarrow> any_run known on \<sigma>'"

end
