(* ===== verification/Bridge_Inv.thy ===== *)
theory Bridge_Inv
  imports Bridge_System
begin

text \<open>
  The invariant of the bridge: every slot is as \<open>slot_ok\<close> says, every held buffer belongs to
  one slot, and the worker still has the generation it loaded. Every step that is not one of
  the three races keeps it.
\<close>

section \<open>The view of a slot in a state\<close>

fun worker_on :: "wpc \<Rightarrow> nat \<Rightarrow> worker_at" where
  "worker_on WIdle s = WNone"
| "worker_on (WFill t g x r) s = (if t = s then Fill x r else WNone)"
| "worker_on (WAwait t g x r) s = (if t = s then Await x r else WNone)"
| "worker_on (WCollect t c ps) s = (if t = s then Collecting c ps else WNone)"
| "worker_on (WCancel1 t) s = (if t = s then Cancelling else WNone)"
| "worker_on (WCancel2 t) s = (if t = s then Bumped else WNone)"

fun host_on :: "hpc \<Rightarrow> nat \<Rightarrow> host_at" where
  "host_on HIdle s = HNone"
| "host_on (HSaw t) s = (if t = s then Seen else HNone)"
| "host_on (HTake t g x b) s = (if t = s then Took (unat g) x b else HNone)"
| "host_on (HReply t x b g) s = (if t = s then Replying x b (unat g) else HNone)"
| "host_on (HWrite t x b g) s = (if t = s then Writing x b (unat g) else HNone)"
| "host_on (HFilled t) s = (if t = s then Filled else HNone)"

definition job_view :: "job \<Rightarrow> nat \<times> nat \<times> i32 \<times> bytes" where
  "job_view j = (unat (jgen j), jcall j, jop j, jbody j)"

definition reply_view :: "reply \<Rightarrow> nat \<times> i32 \<times> bytes" where
  "reply_view q = (unat (rgen q), rstatus q, rbody q)"

definition jobs_of :: "job list \<Rightarrow> nat \<Rightarrow> (nat \<times> nat \<times> i32 \<times> bytes) list" where
  "jobs_of jl s = map job_view (filter (\<lambda>j. jslot j = s) jl)"

definition replies_of :: "reply list \<Rightarrow> nat \<Rightarrow> (nat \<times> i32 \<times> bytes) list" where
  "replies_of qs s = map reply_view (filter (\<lambda>q. rslot q = s) qs)"

definition tickets_of :: "(nat \<times> i32 \<times> nat) set \<Rightarrow> nat \<Rightarrow> (nat \<times> nat) set" where
  "tickets_of ts s = {(n, c). \<exists>g. (s, g, c) \<in> ts \<and> n = unat g}"

definition of_owner :: "nat option \<Rightarrow> (nat \<rightharpoonup> 'v) \<Rightarrow> 'v option" where
  "of_owner oc f = (case oc of None \<Rightarrow> None | Some c \<Rightarrow> f c)"

definition look :: "sys \<Rightarrow> nat \<Rightarrow> slot_view" where
  "look \<sigma> s =
     \<lparr>st = ld (mem \<sigma>) s Status, opc = ld (mem \<sigma>) s Op, gen = unat (ld (mem \<sigma>) s Gen),
      req_held = (0 \<le> attached (ctrl (mem \<sigma>)) s Req), req_view = request (mem \<sigma>) s,
      res_held = (0 \<le> attached (ctrl (mem \<sigma>)) s Res), res_view = response (mem \<sigma>) s,
      rst = ld (mem \<sigma>) s ResStatus, vtail = tail (hst \<sigma>) s, vfinal = finalStatus (hst \<sigma>) s,
      par = partial (hst \<sigma>) s, wat = worker_on (wpc \<sigma>) s, hat = host_on (hpc \<sigma>) s,
      vjobs = jobs_of (jobq \<sigma>) s, vready = replies_of (readyq \<sigma>) s, tks = tickets_of (tickets \<sigma>) s,
      own = owner \<sigma> s, vsent = of_owner (owner \<sigma> s) (sent \<sigma>), vtaken = of_owner (owner \<sigma> s) (taken \<sigma>),
      vanswer = of_owner (owner \<sigma> s) (answer \<sigma>)\<rparr>"

lemma unat_gen_eq [simp]: "unat (a :: i32) = unat b \<longleftrightarrow> a = b"
  by (rule word_unat_eq_iff [symmetric])

lemma look_frame:
  assumes "same_slot (mem \<sigma>) (mem \<sigma>') t"
    "tail (hst \<sigma>') t = tail (hst \<sigma>) t" "finalStatus (hst \<sigma>') t = finalStatus (hst \<sigma>) t"
    "partial (hst \<sigma>') t = partial (hst \<sigma>) t"
    "worker_on (wpc \<sigma>') t = worker_on (wpc \<sigma>) t" "host_on (hpc \<sigma>') t = host_on (hpc \<sigma>) t"
    "jobs_of (jobq \<sigma>') t = jobs_of (jobq \<sigma>) t" "replies_of (readyq \<sigma>') t = replies_of (readyq \<sigma>) t"
    "tickets_of (tickets \<sigma>') t = tickets_of (tickets \<sigma>) t" "owner \<sigma>' t = owner \<sigma> t"
    "of_owner (owner \<sigma> t) (sent \<sigma>') = of_owner (owner \<sigma> t) (sent \<sigma>)"
    "of_owner (owner \<sigma> t) (taken \<sigma>') = of_owner (owner \<sigma> t) (taken \<sigma>)"
    "of_owner (owner \<sigma> t) (answer \<sigma>') = of_owner (owner \<sigma> t) (answer \<sigma>)"
  shows "look \<sigma>' t = look \<sigma> t"
  using assms by (simp add: look_def same_slot_def attached_def)

lemma same_slot_refl [simp]: "same_slot m m t"
  by (simp add: same_slot_def)

lemma tickets_of_insert: "tickets_of (insert (s, g, c) ts) t = (if t = s then insert (unat g, c) (tickets_of ts t) else tickets_of ts t)"
  by (auto simp: tickets_of_def)

lemma map_filter_remove1:
  "P j \<Longrightarrow> \<forall>x\<in>set xs. P x \<and> f x = f j \<longrightarrow> x = j \<Longrightarrow>
   map f (filter P (remove1 j xs)) = remove1 (f j) (map f (filter P xs))"
  by (induction xs) auto

lemma jobs_of_remove1:
  "jobs_of (remove1 j jl) t = (if t = jslot j then remove1 (job_view j) (jobs_of jl t) else jobs_of jl t)"
proof (cases "t = jslot j")
  case True
  have "map job_view (filter (\<lambda>i. jslot i = t) (remove1 j jl)) = remove1 (job_view j) (map job_view (filter (\<lambda>i. jslot i = t) jl))"
    by (rule map_filter_remove1) (auto simp: True job_view_def intro: job.equality)
  with True show ?thesis by (simp add: jobs_of_def)
next
  case False
  then show ?thesis by (simp add: jobs_of_def filter_remove1_other)
qed

lemma replies_of_remove1:
  "replies_of (remove1 q qs) t = (if t = rslot q then remove1 (reply_view q) (replies_of qs t) else replies_of qs t)"
proof (cases "t = rslot q")
  case True
  have "map reply_view (filter (\<lambda>i. rslot i = t) (remove1 q qs)) = remove1 (reply_view q) (map reply_view (filter (\<lambda>i. rslot i = t) qs))"
    by (rule map_filter_remove1) (auto simp: True reply_view_def intro: reply.equality)
  with True show ?thesis by (simp add: replies_of_def)
next
  case False
  then show ?thesis by (simp add: replies_of_def filter_remove1_other)
qed

lemma jobs_of_append: "jobs_of (jl @ [j]) t = (if t = jslot j then jobs_of jl t @ [job_view j] else jobs_of jl t)"
  by (simp add: jobs_of_def)

lemma replies_of_append: "replies_of (qs @ [q]) t = (if t = rslot q then replies_of qs t @ [reply_view q] else replies_of qs t)"
  by (simp add: replies_of_def)

section \<open>The invariant\<close>

definition gen_ok :: "sys \<Rightarrow> bool" where
  "gen_ok \<sigma> \<longleftrightarrow>
     (case wpc \<sigma> of WFill s g x r \<Rightarrow> ld (mem \<sigma>) s Gen = g | WAwait s g x r \<Rightarrow> ld (mem \<sigma>) s Gen = g | _ \<Rightarrow> True)"

text \<open>Calls are numbered in the order of their claims and each has one slot.\<close>

definition fresh_ok :: "sys \<Rightarrow> bool" where
  "fresh_ok \<sigma> \<longleftrightarrow>
     (\<forall>s c. owner \<sigma> s = Some c \<longrightarrow> c < next_call \<sigma>)
   \<and> (\<forall>s t c. owner \<sigma> s = Some c \<longrightarrow> owner \<sigma> t = Some c \<longrightarrow> s = t)
   \<and> (\<forall>c\<ge>next_call \<sigma>. taken \<sigma> c = None \<and> answer \<sigma> c = None)"

definition inv :: "sys \<Rightarrow> bool" where
  "inv \<sigma> \<longleftrightarrow> pool_ok (mem \<sigma>) \<and> gen_ok \<sigma> \<and> fresh_ok \<sigma> \<and> (\<forall>s. slot_ok (look \<sigma> s))"

lemma inv_touch:
  assumes "inv \<sigma>" "\<And>t. t \<noteq> s \<Longrightarrow> look \<sigma>' t = look \<sigma> t" "slot_ok (look \<sigma>' s)"
    "pool_ok (mem \<sigma>')" "gen_ok \<sigma>'" "fresh_ok \<sigma>'"
  shows "inv \<sigma>'"
  unfolding inv_def
proof (intro conjI allI)
  fix t
  show "slot_ok (look \<sigma>' t)"
    using assms(1) assms(2) [of t] assms(3) by (cases "t = s") (simp_all add: inv_def)
qed (use assms in simp_all)

lemma inv_init: "inv init"
proof -
  have "slot_ok (look init s)" for s
    by (auto simp: look_def init_def slot_ok_def bounded_def ticketed_def unclaimed_def cur_jobs_def cur_ready_def
        jobs_of_def replies_of_def tickets_of_def new_shared_def attached_def new_host_def
        newBridge_def state_defs)
  then show ?thesis
    using pool_ok_new by (simp add: inv_def gen_ok_def fresh_ok_def init_def)
qed

lemma unat_bump: "(g :: i32) \<noteq> - 1 \<Longrightarrow> unat (g + 1) = Suc (unat g)"
  by (metis add.inverse_unique add_eq_0_iff unatSuc Suc_eq_plus1 add.commute)

lemma response_len: "response (put m (Slot s ResLen) v) s =
    slice0 (if attached (ctrl m) s Res < 0 then inlineBuf m s else resBuf m (nat (attached (ctrl m) s Res))) v"
  by (simp add: response_def Let_def)

lemma request_len: "request (put m (Slot s ReqLen) v) s =
    (if attached (ctrl m) s Req < 0 then [] else slice0 (reqBuf m (nat (attached (ctrl m) s Req))) v)"
  by (simp add: request_def Let_def)

lemma request_none: "attached (ctrl m) s Req < 0 \<Longrightarrow> request m s = []"
  by (simp add: request_def)

lemma fresh_update:
  assumes "fresh_ok \<sigma>" "owner \<sigma>' = owner \<sigma>" "next_call \<sigma>' = next_call \<sigma>"
    "\<And>c. next_call \<sigma> \<le> c \<Longrightarrow> taken \<sigma>' c = taken \<sigma> c" "\<And>c. next_call \<sigma> \<le> c \<Longrightarrow> answer \<sigma>' c = answer \<sigma> c"
  shows "fresh_ok \<sigma>'"
  using assms by (simp add: fresh_ok_def)

section \<open>The worker's steps\<close>

lemma inv_claim:
  assumes "inv \<sigma>" "wpc \<sigma> = WIdle" "user_op op" "compareExchange (ctrl (mem \<sigma>)) (Slot s Status) ST_FREE ST_CLAIMED = (c', ST_FREE)"
  shows "inv (\<sigma>\<lparr>mem := (mem \<sigma>)\<lparr>ctrl := c'\<rparr>, wpc := WFill s (c' (Slot s Gen)) op p,
          owner := (owner \<sigma>)(s := Some (next_call \<sigma>)), next_call := Suc (next_call \<sigma>),
          sent := (sent \<sigma>)(next_call \<sigma> \<mapsto> (op, p))\<rparr>)" (is "inv ?s")
proof (rule inv_touch [OF assms(1), of s])
  from assms(4) have free: "ld (mem \<sigma>) s Status = ST_FREE" and m: "(mem \<sigma>)\<lparr>ctrl := c'\<rparr> = put (mem \<sigma>) (Slot s Status) ST_CLAIMED"
    and c': "c' = (ctrl (mem \<sigma>))(Slot s Status := ST_CLAIMED)"
    by (auto simp: compareExchange_def put_def split: if_splits)
  have f: "fresh_ok \<sigma>" and p: "pool_ok (mem \<sigma>)" and l: "slot_ok (look \<sigma> s)" using assms(1) by (simp_all add: inv_def)
  show "look ?s t = look \<sigma> t" if "t \<noteq> s" for t
    by (rule look_frame) (use that f assms(2) in \<open>auto simp: m of_owner_def fresh_ok_def split: option.splits\<close>)
  have "look ?s s = (look \<sigma> s)\<lparr>st := ST_CLAIMED, wat := Fill op p, own := Some (next_call \<sigma>), vsent := Some (op, p),
      vtaken := None, vanswer := None\<rparr>"
    using f by (simp add: look_def m of_owner_def fresh_ok_def request_put response_put)
  with slot_claim [OF l, of op p "next_call \<sigma>"] assms(2,3) free show "slot_ok (look ?s s)" by (simp add: look_def)
  show "pool_ok (mem ?s)" using p by (simp add: m)
  show "gen_ok ?s" by (simp add: gen_ok_def)
  show "fresh_ok ?s" using f by (auto simp: fresh_ok_def less_Suc_eq)
qed

text \<open>A step that leaves the ghosts, the calls and the generations alone.\<close>

lemma inv_memory:
  assumes "inv \<sigma>" "slot_ok (look \<sigma>' s)" "pool_ok (mem \<sigma>')" "gen_ok \<sigma>'"
    "\<And>t. t \<noteq> s \<Longrightarrow> same_slot (mem \<sigma>) (mem \<sigma>') t"
    "\<And>t. t \<noteq> s \<Longrightarrow> tail (hst \<sigma>') t = tail (hst \<sigma>) t \<and> finalStatus (hst \<sigma>') t = finalStatus (hst \<sigma>) t
      \<and> partial (hst \<sigma>') t = partial (hst \<sigma>) t"
    "\<And>t. t \<noteq> s \<Longrightarrow> worker_on (wpc \<sigma>') t = worker_on (wpc \<sigma>) t \<and> host_on (hpc \<sigma>') t = host_on (hpc \<sigma>) t"
    "\<And>t. t \<noteq> s \<Longrightarrow> jobs_of (jobq \<sigma>') t = jobs_of (jobq \<sigma>) t \<and> replies_of (readyq \<sigma>') t = replies_of (readyq \<sigma>) t
      \<and> tickets_of (tickets \<sigma>') t = tickets_of (tickets \<sigma>) t"
    "owner \<sigma>' = owner \<sigma>" "next_call \<sigma>' = next_call \<sigma>" "sent \<sigma>' = sent \<sigma>" "taken \<sigma>' = taken \<sigma>" "answer \<sigma>' = answer \<sigma>"
  shows "inv \<sigma>'"
proof (rule inv_touch [OF assms(1) _ assms(2,3,4)])
  show "look \<sigma>' t = look \<sigma> t" if "t \<noteq> s" for t
    using assms(5-8) [OF that] assms(9-13) by (intro look_frame) simp_all
  show "fresh_ok \<sigma>'"
    using assms(1,9-13) by (simp add: inv_def fresh_ok_def)
qed

lemma attached_none: "pool_ok m \<Longrightarrow> \<not> 0 \<le> attached (ctrl m) s d \<Longrightarrow> attached (ctrl m) s d = -1"
proof -
  assume "pool_ok m" "\<not> 0 \<le> attached (ctrl m) s d"
  then have "-1 \<le> attached (ctrl m) s d" "\<not> 0 \<le> attached (ctrl m) s d" by (simp_all add: pool_ok_def)
  then show ?thesis by linarith
qed

text \<open>A request published in a slot that has no buffer.\<close>

lemma publish_effect:
  fixes op :: i32
  assumes "pool_ok m" "takeReqBuf_pass m = (m', Some bi)" "\<not> 0 \<le> attached (ctrl m) s Req" "length piece \<le> BUF_BYTES"
  defines "n \<equiv> publish m' s bi op piece"
  shows "pool_ok n" "t \<noteq> s \<Longrightarrow> same_slot m n t"
    "ld n s Status = ST_PENDING" "ld n s Op = op" "ld n s Gen = ld m s Gen" "0 \<le> attached (ctrl n) s Req"
    "request n s = piece" "attached (ctrl n) s Res = attached (ctrl m) s Res" "response n s = response m s"
    "ld n s ResStatus = ld m s ResStatus"
proof -
  note b = takeReqBuf_publish [OF assms(2)]
  have n: "n = put (put (put (put (load_buf m s Req bi piece) (Slot s Op) op) (Slot s ReqLen) (word_of_nat (length piece)))
         (Slot s Status) ST_PENDING) SubmitSeq (ctrl m SubmitSeq + 1)"
    unfolding n_def b(3) by (simp add: ping_def add1_put ctrl_load_buf attach_def)
  have "length piece < 2 ^ 31" using assms(4) by (simp add: BUF_BYTES_def)
  then show "pool_ok n" "ld n s Status = ST_PENDING" "ld n s Op = op" "ld n s Gen = ld m s Gen" "0 \<le> attached (ctrl n) s Req"
    "request n s = piece" "attached (ctrl n) s Res = attached (ctrl m) s Res"
    "ld n s ResStatus = ld m s ResStatus"
    using b(1,2) assms(1) attached_none [OF assms(1,3)]
    by (simp_all add: n pool_ok_load_buf request_put request_len slice0_fill)
  show "response n s = response m s" using b(1) by (simp add: n response_put) (simp add: response_def Let_def)
  show "same_slot m n t" if "t \<noteq> s"
    using that same_slot_load_buf [OF assms(1) b(1,2) that, of piece]
    by (auto simp: n intro!: same_slot_trans [OF _ same_slot_put])
qed

lemma inv_push:
  assumes "inv \<sigma>" "wpc \<sigma> = WFill s g op r" "BUF_BYTES < length r" "takeReqBuf_pass (mem \<sigma>) = (m, Some bi)"
  shows "inv (\<sigma>\<lparr>mem := publish m s bi OP_PUSH (take BUF_BYTES r), wpc := WAwait s g op (drop BUF_BYTES r)\<rparr>)" (is "inv ?s")
proof -
  have l: "slot_ok (look \<sigma> s)" and p: "pool_ok (mem \<sigma>)" and g: "gen_ok \<sigma>" using assms(1) by (simp_all add: inv_def)
  have w: "wat (look \<sigma> s) = Fill op (take BUF_BYTES r @ drop BUF_BYTES r)" using assms(2) by (simp add: look_def)
  from l w have nr: "\<not> 0 \<le> attached (ctrl (mem \<sigma>)) s Req" by (simp add: slot_ok_def) (simp add: look_def)
  note e = publish_effect [OF p assms(4) nr, where piece = "take BUF_BYTES r" and op = OP_PUSH, simplified]
  have "look ?s s = (look \<sigma> s)\<lparr>st := ST_PENDING, opc := OP_PUSH, req_held := True, req_view := take BUF_BYTES r, wat := Await op (drop BUF_BYTES r)\<rparr>"
    by (simp add: look_def e)
  with slot_push [OF l w] have ok: "slot_ok (look ?s s)" by simp
  show ?thesis
    by (rule inv_memory [where s = s, OF assms(1) ok]) (use e assms(2) g in \<open>simp_all add: gen_ok_def\<close>)
qed

lemma inv_push_last:
  assumes "inv \<sigma>" "wpc \<sigma> = WFill s g op r" "length r \<le> BUF_BYTES" "takeReqBuf_pass (mem \<sigma>) = (m, Some bi)" "owner \<sigma> s = Some c"
  shows "inv (\<sigma>\<lparr>mem := publish m s bi op r, wpc := WIdle, tickets := insert (s, g, c) (tickets \<sigma>)\<rparr>)" (is "inv ?s")
proof -
  have l: "slot_ok (look \<sigma> s)" and p: "pool_ok (mem \<sigma>)" and g: "gen_ok \<sigma>" using assms(1) by (simp_all add: inv_def)
  have w: "wat (look \<sigma> s) = Fill op r" using assms(2) by (simp add: look_def)
  from l w have nr: "\<not> 0 \<le> attached (ctrl (mem \<sigma>)) s Req" by (simp add: slot_ok_def) (simp add: look_def)
  note e = publish_effect [OF p assms(4) nr assms(3), where op = op]
  have "look ?s s = (look \<sigma> s)\<lparr>st := ST_PENDING, opc := op, req_held := True, req_view := r, wat := WNone,
      tks := insert (gen (look \<sigma> s), c) (tks (look \<sigma> s))\<rparr>"
    using g assms(2) by (simp add: look_def e tickets_of_insert gen_ok_def)
  with slot_last [OF l w, of c] assms(5) have ok: "slot_ok (look ?s s)" by (simp add: look_def)
  show ?thesis
    by (rule inv_memory [where s = s, OF assms(1) ok]) (use e assms(2) g in \<open>simp_all add: gen_ok_def tickets_of_insert\<close>)
qed

text \<open>An answer read out of its slot.\<close>

lemma readRes_effect:
  assumes "pool_ok m" "readRes m s = (n, out)"
  shows "out = response m s" "pool_ok n" "t \<noteq> s \<Longrightarrow> same_slot m n t" "\<And>f. f \<noteq> BufOf Res \<Longrightarrow> ld n s f = ld m s f"
    "attached (ctrl n) s Res = -1" "attached (ctrl n) s Req = attached (ctrl m) s Req" "request n s = request m s"
proof -
  have n: "n = put (drop_buf m s Res) SubmitSeq (ctrl (drop_buf m s Res) SubmitSeq + 1)" and o: "out = response m s"
    using assms(2) by (auto simp: readRes_eq ping_def add1_put)
  then show "out = response m s" by simp
  show "pool_ok n" "\<And>f. f \<noteq> BufOf Res \<Longrightarrow> ld n s f = ld m s f"
    "attached (ctrl n) s Res = -1" "attached (ctrl n) s Req = attached (ctrl m) s Req" "request n s = request m s"
    using assms(1) by (simp_all add: n request_put)
  show "same_slot m n t" if "t \<noteq> s"
    unfolding n using that by (intro same_slot_trans [OF same_slot_drop_buf same_slot_put]) auto
qed

lemma release_effect:
  assumes "pool_ok m"
  shows "pool_ok (release m s)" "t \<noteq> s \<Longrightarrow> same_slot m (release m s) t" "ld (release m s) s Status = ST_FREE"
    "ld (release m s) s Gen = ld m s Gen + 1" "\<And>f. f \<notin> {Status, Gen, BufOf Res} \<Longrightarrow> ld (release m s) s f = ld m s f"
    "attached (ctrl (release m s)) s Res = -1" "attached (ctrl (release m s)) s Req = attached (ctrl m) s Req"
    "request (release m s) s = request m s"
proof -
  have n: "release m s = put (put (put (drop_buf m s Res) (Slot s Gen) (ld m s Gen + 1)) (Slot s Status) ST_FREE) DoneSeq
      (ctrl (drop_buf m s Res) DoneSeq + 1)"
    by (simp add: release_def add1_put Let_def)
  show "pool_ok (release m s)" "ld (release m s) s Status = ST_FREE"
    "ld (release m s) s Gen = ld m s Gen + 1" "\<And>f. f \<notin> {Status, Gen, BufOf Res} \<Longrightarrow> ld (release m s) s f = ld m s f"
    "attached (ctrl (release m s)) s Res = -1" "attached (ctrl (release m s)) s Req = attached (ctrl m) s Req"
    "request (release m s) s = request m s"
    using assms by (simp_all add: n request_put)
  show "same_slot m (release m s) t" if "t \<noteq> s"
    unfolding n using that by (auto intro!: same_slot_trans [OF _ same_slot_put])
qed

lemma ask_more_effect:
  assumes "pool_ok m"
  shows "pool_ok (ask_more m s)" "t \<noteq> s \<Longrightarrow> same_slot m (ask_more m s) t" "ld (ask_more m s) s Status = ST_PENDING"
    "ld (ask_more m s) s Op = OP_CONTINUE" "ld (ask_more m s) s Gen = ld m s Gen"
    "ld (ask_more m s) s ResStatus = ld m s ResStatus"
    "attached (ctrl (ask_more m s)) s d = attached (ctrl m) s d"
    "\<not> 0 \<le> attached (ctrl m) s Req \<Longrightarrow> request (ask_more m s) s = request m s" "response (ask_more m s) s = response m s"
proof -
  have n: "ask_more m s = put (put (put (put m (Slot s Op) OP_CONTINUE) (Slot s ReqLen) 0) (Slot s Status) ST_PENDING) SubmitSeq
      (ctrl m SubmitSeq + 1)"
    by (simp add: ask_more_def ping_def add1_put Let_def)
  show "pool_ok (ask_more m s)" "ld (ask_more m s) s Status = ST_PENDING"
    "ld (ask_more m s) s Op = OP_CONTINUE" "ld (ask_more m s) s Gen = ld m s Gen" "ld (ask_more m s) s ResStatus = ld m s ResStatus"
    "attached (ctrl (ask_more m s)) s d = attached (ctrl m) s d" "response (ask_more m s) s = response m s"
    using assms by (simp_all add: n response_put)
  show "\<not> 0 \<le> attached (ctrl m) s Req \<Longrightarrow> request (ask_more m s) s = request m s"
    by (simp add: n request_put request_none)
  show "same_slot m (ask_more m s) t" if "t \<noteq> s"
    unfolding n using that by (auto intro!: same_slot_trans [OF _ same_slot_put])
qed

lemma inv_ack:
  assumes "inv \<sigma>" "wpc \<sigma> = WAwait s g op r" "ld (mem \<sigma>) s Status = ST_READY" "readRes (mem \<sigma>) s = (m, out)"
  shows "inv (\<sigma>\<lparr>mem := m, wpc := WFill s g op r\<rparr>)" (is "inv ?s") "ld m s ResStatus \<noteq> STATUS_ERR"
proof -
  have l: "slot_ok (look \<sigma> s)" and p: "pool_ok (mem \<sigma>)" and g: "gen_ok \<sigma>" using assms(1) by (simp_all add: inv_def)
  note e = readRes_effect [OF p assms(4)]
  have w: "wat (look \<sigma> s) = Await op r" "st (look \<sigma> s) = ST_READY" using assms(2,3) by (simp_all add: look_def)
  note a = slot_ack [OF l w]
  show "ld m s ResStatus \<noteq> STATUS_ERR" using a(1) by (simp add: e look_def)
  have "look ?s s = (look \<sigma> s)\<lparr>res_held := False, res_view := response m s, wat := Fill op r\<rparr>"
    by (simp add: look_def e)
  with a(2) have ok: "slot_ok (look ?s s)" by simp
  show "inv ?s"
    by (rule inv_memory [where s = s, OF assms(1) ok]) (use e assms(2) g in \<open>simp_all add: gen_ok_def\<close>)
qed

lemma current_ticket: "(s, ld (mem \<sigma>) s Gen, c) \<in> tickets \<sigma> \<Longrightarrow> (gen (look \<sigma> s), c) \<in> tks (look \<sigma> s)"
  by (auto simp: look_def tickets_of_def)

lemma inv_collect_begin:
  assumes "inv \<sigma>" "wpc \<sigma> = WIdle" "(s, g, c) \<in> tickets \<sigma>" "ld (mem \<sigma>) s Gen = g"
  shows "inv (\<sigma>\<lparr>wpc := WCollect s c []\<rparr>)" (is "inv ?s")
proof -
  have l: "slot_ok (look \<sigma> s)" using assms(1) by (simp add: inv_def)
  have "look ?s s = (look \<sigma> s)\<lparr>wat := Collecting c []\<rparr>" by (simp add: look_def)
  moreover have "wat (look \<sigma> s) = WNone" using assms(2) by (simp add: look_def)
  ultimately have ok: "slot_ok (look ?s s)"
    using slot_collect_begin [OF l, of c] current_ticket [of s \<sigma> c] assms(3,4) by simp
  show ?thesis
    by (rule inv_memory [where s = s, OF assms(1) ok]) (use assms(1,2) in \<open>simp_all add: gen_ok_def inv_def\<close>)
qed

lemma inv_collect_more:
  assumes "inv \<sigma>" "wpc \<sigma> = WCollect s c ps" "ld (mem \<sigma>) s Status = ST_READY" "ld (mem \<sigma>) s ResStatus = STATUS_MORE"
    "readRes (mem \<sigma>) s = (m, chunk)"
  shows "inv (\<sigma>\<lparr>mem := ask_more m s, wpc := WCollect s c (ps @ [chunk])\<rparr>)" (is "inv ?s")
proof -
  have l: "slot_ok (look \<sigma> s)" and p: "pool_ok (mem \<sigma>)" using assms(1) by (simp_all add: inv_def)
  note e = readRes_effect [OF p assms(5)]
  note f = ask_more_effect [OF e(2)]
  have w: "wat (look \<sigma> s) = Collecting c ps" "st (look \<sigma> s) = ST_READY" "rst (look \<sigma> s) = STATUS_MORE"
    using assms(2-4) by (simp_all add: look_def)
  then have "\<not> req_held (look \<sigma> s)" using l by (simp add: slot_ok_def call_ok_def)
  then have nr: "\<not> 0 \<le> attached (ctrl m) s Req" by (simp add: look_def e)
  have "look ?s s = (look \<sigma> s)\<lparr>res_held := False, res_view := response m s, opc := OP_CONTINUE, st := ST_PENDING,
      wat := Collecting c (ps @ [res_view (look \<sigma> s)])\<rparr>"
    using nr by (simp add: look_def e f)
  with slot_collect_more [OF l w] have ok: "slot_ok (look ?s s)" by simp
  show ?thesis
    by (rule inv_memory [where s = s, OF assms(1) ok])
      (use e f assms(2) in \<open>simp_all add: gen_ok_def same_slot_trans [OF e(3) f(2)]\<close>)
qed

text \<open>The slot given back, from whatever point the worker gives it back.\<close>

lemma inv_release:
  assumes "inv \<sigma>" "pool_ok m" "\<And>t. t \<noteq> s \<Longrightarrow> same_slot (mem \<sigma>) m t"
    "\<And>f. f \<noteq> BufOf Res \<Longrightarrow> ld m s f = ld (mem \<sigma>) s f" "request m s = request (mem \<sigma>) s"
    "ld (mem \<sigma>) s Status = ST_READY" "ticketed (look \<sigma> s)" "ld (mem \<sigma>) s Gen \<noteq> -1"
    "\<And>t. t \<noteq> s \<Longrightarrow> worker_on (wpc \<sigma>) t = WNone"
  shows "inv (\<sigma>\<lparr>mem := release m s, wpc := WIdle, got := q\<rparr>)" (is "inv ?s")
proof -
  have l: "slot_ok (look \<sigma> s)" using assms(1) by (simp add: inv_def)
  note f = release_effect [OF assms(2)]
  have a: "attached (ctrl m) s Req = attached (ctrl (mem \<sigma>)) s Req"
    using assms(4) [of "BufOf Req"] by (simp add: attached_def)
  have "look ?s s = (look \<sigma> s)\<lparr>res_held := False, res_view := response (release m s) s, gen := Suc (gen (look \<sigma> s)),
      st := ST_FREE, wat := WNone\<rparr>"
    using assms(4,5,8) by (simp add: look_def f a unat_bump)
  with slot_release [OF l assms(7)] assms(6) have ok: "slot_ok (look ?s s)" by (simp add: look_def)
  show ?thesis
    by (rule inv_memory [where s = s, OF assms(1) ok])
      (use f assms(9) in \<open>simp_all add: gen_ok_def same_slot_trans [OF assms(3) f(2)]\<close>)
qed

lemma inv_collect_done:
  assumes "inv \<sigma>" "wpc \<sigma> = WCollect s c ps" "ld (mem \<sigma>) s Status = ST_READY" "readRes (mem \<sigma>) s = (m, chunk)"
    "ld (mem \<sigma>) s Gen \<noteq> -1"
  shows "inv (\<sigma>\<lparr>mem := release m s, wpc := WIdle, got := q\<rparr>)"
proof -
  have l: "slot_ok (look \<sigma> s)" and p: "pool_ok (mem \<sigma>)" using assms(1) by (simp_all add: inv_def)
  have "wat (look \<sigma> s) = Collecting c ps" using assms(2) by (simp add: look_def)
  with l have "ticketed (look \<sigma> s)" by (simp add: slot_ok_def)
  with readRes_effect [OF p assms(4)] assms show ?thesis by (intro inv_release) simp_all
qed

lemma inv_cancel_ready:
  assumes "inv \<sigma>" "wpc \<sigma> = WIdle" "(s, g, c) \<in> tickets \<sigma>" "ld (mem \<sigma>) s Gen = g" "ld (mem \<sigma>) s Status = ST_READY" "g \<noteq> -1"
  shows "inv (\<sigma>\<lparr>mem := release (mem \<sigma>) s\<rparr>)"
proof -
  have p: "pool_ok (mem \<sigma>)" using assms(1) by (simp add: inv_def)
  have "ticketed (look \<sigma> s)" using current_ticket [of s \<sigma> c] assms(3,4) by (auto simp: ticketed_def)
  then have "inv (\<sigma>\<lparr>mem := release (mem \<sigma>) s, wpc := WIdle, got := got \<sigma>\<rparr>)"
    using p assms by (intro inv_release) simp_all
  moreover have "\<sigma>\<lparr>mem := release (mem \<sigma>) s, wpc := WIdle, got := got \<sigma>\<rparr> = \<sigma>\<lparr>mem := release (mem \<sigma>) s\<rparr>"
    using assms(2) by simp
  ultimately show ?thesis by metis
qed

lemma inv_cancel:
  assumes "inv \<sigma>" "wpc \<sigma> = WIdle" "(s, g, c) \<in> tickets \<sigma>" "ld (mem \<sigma>) s Gen = g"
  shows "inv (\<sigma>\<lparr>wpc := WCancel1 s\<rparr>)" (is "inv ?s")
proof -
  have l: "slot_ok (look \<sigma> s)" using assms(1) by (simp add: inv_def)
  have "look ?s s = (look \<sigma> s)\<lparr>wat := Cancelling\<rparr>" by (simp add: look_def)
  moreover have "wat (look \<sigma> s) = WNone" using assms(2) by (simp add: look_def)
  moreover have "ticketed (look \<sigma> s)" using current_ticket [of s \<sigma> c] assms(3,4) by (auto simp: ticketed_def)
  ultimately have ok: "slot_ok (look ?s s)" using slot_cancel1 [OF l] by simp
  show ?thesis
    by (rule inv_memory [where s = s, OF assms(1) ok]) (use assms(1,2) in \<open>simp_all add: gen_ok_def inv_def\<close>)
qed

lemma inv_cancel_bump:
  assumes "inv \<sigma>" "wpc \<sigma> = WCancel1 s" "ld (mem \<sigma>) s Gen \<noteq> -1"
  shows "inv (\<sigma>\<lparr>mem := add1 (mem \<sigma>) (Slot s Gen), wpc := WCancel2 s\<rparr>)" (is "inv ?s")
proof -
  have l: "slot_ok (look \<sigma> s)" and p: "pool_ok (mem \<sigma>)" using assms(1) by (simp_all add: inv_def)
  have "look ?s s = (look \<sigma> s)\<lparr>gen := Suc (gen (look \<sigma> s)), wat := Bumped\<rparr>"
    using assms(3) by (simp add: look_def add1_put unat_bump request_put response_put)
  moreover have "wat (look \<sigma> s) = Cancelling" using assms(2) by (simp add: look_def)
  ultimately have ok: "slot_ok (look ?s s)" using slot_cancel2 [OF l] by simp
  show ?thesis
    by (rule inv_memory [where s = s, OF assms(1) ok]) (use assms(2) p in \<open>simp_all add: gen_ok_def add1_put\<close>)
qed

lemma inv_cancel_store:
  assumes "inv \<sigma>" "wpc \<sigma> = WCancel2 s"
  shows "inv (\<sigma>\<lparr>mem := ping (put (mem \<sigma>) (Slot s Status) ST_CANCELLED), wpc := WIdle\<rparr>)" (is "inv ?s")
proof -
  have l: "slot_ok (look \<sigma> s)" and p: "pool_ok (mem \<sigma>)" using assms(1) by (simp_all add: inv_def)
  have "look ?s s = (look \<sigma> s)\<lparr>st := ST_CANCELLED, wat := WNone\<rparr>"
    by (simp add: look_def ping_def add1_put request_put response_put)
  moreover have "wat (look \<sigma> s) = Bumped" using assms(2) by (simp add: look_def)
  ultimately have ok: "slot_ok (look ?s s)" using slot_cancel3 [OF l] by simp
  show ?thesis
    by (rule inv_memory [where s = s, OF assms(1) ok])
      (use assms(2) p in \<open>auto simp: gen_ok_def ping_def add1_put intro!: same_slot_trans [OF _ same_slot_put]\<close>)
qed


section \<open>The host's steps\<close>

text \<open>The host's steps do not move a generation.\<close>

lemma gen_ok_host:
  assumes "gen_ok \<sigma>" "wpc \<sigma>' = wpc \<sigma>" "\<And>s. ld (mem \<sigma>') s Gen = ld (mem \<sigma>) s Gen"
  shows "gen_ok \<sigma>'"
  using assms by (simp add: gen_ok_def split: wpc.splits)

lemma gen_ok_hpc [simp]: "gen_ok (\<sigma>\<lparr>hpc := h\<rparr>) = gen_ok \<sigma>"
  by (auto elim: gen_ok_host)

lemma inv_saw:
  assumes "inv \<sigma>" "hpc \<sigma> = HIdle" "ld (mem \<sigma>) s Status = ST_PENDING"
  shows "inv (\<sigma>\<lparr>hpc := HSaw s\<rparr>)" (is "inv ?s")
proof -
  have l: "slot_ok (look \<sigma> s)" using assms(1) by (simp add: inv_def)
  have "look ?s s = (look \<sigma> s)\<lparr>hat := Seen\<rparr>" by (simp add: look_def)
  then have ok: "slot_ok (look ?s s)" using slot_saw [OF l] assms(2,3) by (simp add: look_def)
  show ?thesis
    by (rule inv_memory [where s = s, OF assms(1) ok]) (use assms(1,2) in \<open>simp_all add: inv_def\<close>)
qed

lemma inv_take_copy:
  assumes "inv \<sigma>" "hpc \<sigma> = HSaw s" "take_read (mem \<sigma>) s = (m, g, op, b)" "wpc \<sigma> \<noteq> WCancel2 s"
  shows "inv (\<sigma>\<lparr>mem := m, hpc := HTake s g op b\<rparr>)" (is "inv ?s")
proof -
  have l: "slot_ok (look \<sigma> s)" and p: "pool_ok (mem \<sigma>)" and go: "gen_ok \<sigma>" using assms(1) by (simp_all add: inv_def)
  let ?m = "drop_buf (mem \<sigma>) s Req"
  have m: "m = put ?m DoneSeq (ctrl ?m DoneSeq + 1)" and v: "g = ld (mem \<sigma>) s Gen" "op = ld (mem \<sigma>) s Op" "b = request (mem \<sigma>) s"
    using assms(3) by (auto simp: take_read_eq add1_put)
  have "look ?s s = (look \<sigma> s)\<lparr>req_held := False, req_view := [], hat := Took (gen (look \<sigma> s)) (opc (look \<sigma> s)) (req_view (look \<sigma> s))\<rparr>"
    by (simp add: look_def m v request_put response_put)
  moreover have "hat (look \<sigma> s) = Seen" "wat (look \<sigma> s) \<noteq> Bumped"
    using assms(2,4) by (simp_all add: look_def) (cases "wpc \<sigma>"; auto)
  ultimately have ok: "slot_ok (look ?s s)" using slot_take_read [OF l] by simp
  have g: "gen_ok ?s" by (rule gen_ok_host [OF go]) (simp_all add: m)
  show ?thesis
    by (rule inv_memory [where s = s, OF assms(1) ok _ g])
      (use assms(2) p in \<open>auto simp: m intro!: same_slot_trans [OF _ same_slot_put]\<close>)
qed

lemma take_cas_cases:
  "take_cas m s = (n, won) \<Longrightarrow>
   (won \<longleftrightarrow> ld m s Status = ST_PENDING) \<and> n = (if won then put m (Slot s Status) ST_RUNNING else m)"
  by (auto simp: take_cas_def compareExchange_def put_def)

lemma inv_take_lost:
  assumes "inv \<sigma>" "hpc \<sigma> = HTake s g op b" "take_cas (mem \<sigma>) s = (m, False)"
  shows "inv (\<sigma>\<lparr>mem := m, hpc := HIdle\<rparr>)" (is "inv ?s")
proof -
  have l: "slot_ok (look \<sigma> s)" and p: "pool_ok (mem \<sigma>)" and go: "gen_ok \<sigma>" using assms(1) by (simp_all add: inv_def)
  have c: "ld (mem \<sigma>) s Status \<noteq> ST_PENDING" "m = mem \<sigma>" using take_cas_cases [OF assms(3)] by simp_all
  have "look ?s s = (look \<sigma> s)\<lparr>hat := HNone\<rparr>" by (simp add: look_def c(2))
  then have ok: "slot_ok (look ?s s)" using slot_take_lost [OF l, of "unat g" op b] assms(2) c(1) by (simp add: look_def)
  show ?thesis
    by (rule inv_memory [where s = s, OF assms(1) ok]) (use assms(2) p go in \<open>simp_all add: c(2)\<close>)
qed

lemma of_owner_noting [simp]: "owner \<sigma> s = Some c \<Longrightarrow> of_owner (Some c) (noting \<sigma> s f v) = Some v"
  by (simp add: of_owner_def noting_def)

lemma of_owner_other:
  assumes "fresh_ok \<sigma>" "t \<noteq> s"
  shows "of_owner (owner \<sigma> t) (noting \<sigma> s f v) = of_owner (owner \<sigma> t) f"
  using assms by (auto simp: of_owner_def noting_def fresh_ok_def split: option.splits)

lemma noting_fresh: "fresh_ok \<sigma> \<Longrightarrow> next_call \<sigma> \<le> c \<Longrightarrow> noting \<sigma> s f v c = f c"
  unfolding noting_def fresh_ok_def by (cases "owner \<sigma> s") fastforce+

text \<open>A step that also notes something of the owner of the slot it is about.\<close>

lemma inv_noting:
  assumes "inv \<sigma>" "slot_ok (look \<sigma>' s)" "pool_ok (mem \<sigma>')" "gen_ok \<sigma>'"
    "\<And>t. t \<noteq> s \<Longrightarrow> same_slot (mem \<sigma>) (mem \<sigma>') t"
    "\<And>t. t \<noteq> s \<Longrightarrow> tail (hst \<sigma>') t = tail (hst \<sigma>) t \<and> finalStatus (hst \<sigma>') t = finalStatus (hst \<sigma>) t
      \<and> partial (hst \<sigma>') t = partial (hst \<sigma>) t"
    "\<And>t. t \<noteq> s \<Longrightarrow> worker_on (wpc \<sigma>') t = worker_on (wpc \<sigma>) t \<and> host_on (hpc \<sigma>') t = host_on (hpc \<sigma>) t"
    "\<And>t. t \<noteq> s \<Longrightarrow> jobs_of (jobq \<sigma>') t = jobs_of (jobq \<sigma>) t \<and> replies_of (readyq \<sigma>') t = replies_of (readyq \<sigma>) t
      \<and> tickets_of (tickets \<sigma>') t = tickets_of (tickets \<sigma>) t"
    "owner \<sigma>' = owner \<sigma>" "next_call \<sigma>' = next_call \<sigma>" "sent \<sigma>' = sent \<sigma>"
    "taken \<sigma>' = taken \<sigma> \<or> (\<exists>v. taken \<sigma>' = noting \<sigma> s (taken \<sigma>) v)"
    "answer \<sigma>' = answer \<sigma> \<or> (\<exists>v. answer \<sigma>' = noting \<sigma> s (answer \<sigma>) v)"
  shows "inv \<sigma>'"
proof (rule inv_touch [OF assms(1) _ assms(2,3,4)])
  have f: "fresh_ok \<sigma>" using assms(1) by (simp add: inv_def)
  show "look \<sigma>' t = look \<sigma> t" if "t \<noteq> s" for t
  proof -
    have "of_owner (owner \<sigma> t) (taken \<sigma>') = of_owner (owner \<sigma> t) (taken \<sigma>)"
      "of_owner (owner \<sigma> t) (answer \<sigma>') = of_owner (owner \<sigma> t) (answer \<sigma>)"
      using assms(12,13) of_owner_other [OF f that] by auto
    then show ?thesis using assms(5-8) [OF that] assms(9-11) by (intro look_frame) simp_all
  qed
  show "fresh_ok \<sigma>'"
    using f by (rule fresh_update) (use assms(9-13) noting_fresh [OF f] in auto)
qed

lemma running_put: "pool_ok m \<Longrightarrow> pool_ok (put m (Slot s Status) v)" "t \<noteq> s \<Longrightarrow> same_slot m (put m (Slot s Status) v) t"
  by simp_all

lemma inv_take_reply:
  assumes "inv \<sigma>" "hpc \<sigma> = HTake s g op b" "take_cas (mem \<sigma>) s = (m, True)"
    "take_dispatch known (hst \<sigma>) s op b = (h, Reply x body)"
  shows "inv (\<sigma>\<lparr>mem := m, hst := h, hpc := HReply s x body g,
          taken := (if user_op op then noting \<sigma> s (taken \<sigma>) (op, concat (partial (hst \<sigma>) s) @ b) else taken \<sigma>),
          answer := (if user_op op then noting \<sigma> s (answer \<sigma>) (x, body) else answer \<sigma>)\<rparr>)" (is "inv ?s")
proof -
  have l: "slot_ok (look \<sigma> s)" and p: "pool_ok (mem \<sigma>)" and go: "gen_ok \<sigma>" using assms(1) by (simp_all add: inv_def)
  have c: "ld (mem \<sigma>) s Status = ST_PENDING" "m = put (mem \<sigma>) (Slot s Status) ST_RUNNING" using take_cas_cases [OF assms(3)] by simp_all
  have t: "hat (look \<sigma> s) = Took (unat g) op b" "st (look \<sigma> s) = ST_PENDING" using assms(2) c(1) by (simp_all add: look_def)
  have go': "gen_ok ?s" by (rule gen_ok_host [OF go]) (simp_all add: c(2))
  consider (cont) "op = OP_CONTINUE" | (push) "op = OP_PUSH" | (user) "user_op op" by (auto simp: user_op_def)
  then have "slot_ok (look ?s s)"
  proof cases
    case cont
    with assms(4) have "look ?s s = (look \<sigma> s)\<lparr>st := ST_RUNNING, vtail := None,
        hat := Replying (vfinal (look \<sigma> s)) (case vtail (look \<sigma> s) of None \<Rightarrow> [] | Some t \<Rightarrow> t) (unat g)\<rparr>"
      by (auto simp: take_dispatch_def look_def c(2) request_put response_put)
    with slot_take_continue [OF l, of "unat g" b] t cont show ?thesis by simp
  next
    case push
    with assms(4) have "look ?s s = (look \<sigma> s)\<lparr>st := ST_RUNNING, par := par (look \<sigma> s) @ [b], hat := Replying STATUS_ACK [] (unat g)\<rparr>"
      by (auto simp: take_dispatch_def look_def c(2) request_put response_put)
    with slot_take_push [OF l, of "unat g" b] t push show ?thesis by simp
  next
    case user
    with assms(4) have d: "h = (hst \<sigma>)\<lparr>partial := (partial (hst \<sigma>))(s := [])\<rparr>" "x = STATUS_ERR"
      by (auto simp: take_dispatch_def user_op_def Let_def split: if_splits)
    show ?thesis
    proof (cases "owner \<sigma> s")
      case None
      have "look ?s s = (look \<sigma> s)\<lparr>st := ST_RUNNING, par := [], hat := Replying STATUS_ERR body (unat g)\<rparr>"
        using user None d by (simp add: look_def c(2) of_owner_def noting_def request_put response_put)
      moreover have "own (look \<sigma> s) = None" using None by (simp add: look_def)
      ultimately show ?thesis using slot_take_orphan [OF l t(1,2) user] by simp
    next
      case (Some q)
      have "look ?s s = (look \<sigma> s)\<lparr>st := ST_RUNNING, par := [], hat := Replying STATUS_ERR body (unat g),
          vtaken := Some (op, concat (par (look \<sigma> s)) @ b), vanswer := Some (STATUS_ERR, body)\<rparr>"
        using user Some d by (simp add: look_def c(2) request_put response_put)
      with slot_take_unknown [OF l t(1,2) user] show ?thesis by simp
    qed
  qed
  then show ?thesis
  proof (rule inv_noting [where s = s, OF assms(1)])
    show "tail (hst ?s) t = tail (hst \<sigma>) t \<and> finalStatus (hst ?s) t = finalStatus (hst \<sigma>) t \<and> partial (hst ?s) t = partial (hst \<sigma>) t"
      if "t \<noteq> s" for t
      using that assms(4) by (auto simp: take_dispatch_def Let_def split: if_splits)
  qed (use assms(2) p go' in \<open>auto simp: c(2)\<close>)
qed


lemma inv_take_run:
  assumes "inv \<sigma>" "hpc \<sigma> = HTake s g op b" "take_cas (mem \<sigma>) s = (m, True)"
    "take_dispatch known (hst \<sigma>) s op b = (h, Run op whole)" "owner \<sigma> s = Some c"
  shows "inv (\<sigma>\<lparr>mem := m, hst := h, hpc := HIdle,
          jobq := jobq \<sigma> @ [\<lparr>jslot = s, jgen = g, jcall = c, jop = op, jbody = whole\<rparr>],
          taken := (taken \<sigma>)(c \<mapsto> (op, whole))\<rparr>)" (is "inv ?s")
proof -
  have l: "slot_ok (look \<sigma> s)" and p: "pool_ok (mem \<sigma>)" and go: "gen_ok \<sigma>" using assms(1) by (simp_all add: inv_def)
  have k: "ld (mem \<sigma>) s Status = ST_PENDING" "m = put (mem \<sigma>) (Slot s Status) ST_RUNNING"
    using take_cas_cases [OF assms(3)] by simp_all
  have d: "user_op op" "h = (hst \<sigma>)\<lparr>partial := (partial (hst \<sigma>))(s := [])\<rparr>" "whole = concat (partial (hst \<sigma>) s) @ b"
    using assms(4) by (auto simp: take_dispatch_def user_op_def joined_def Let_def split: if_splits)
  have t: "hat (look \<sigma> s) = Took (unat g) op b" "st (look \<sigma> s) = ST_PENDING" "own (look \<sigma> s) = Some c"
    using assms(2,5) k(1) by (simp_all add: look_def)
  have "look ?s s = (look \<sigma> s)\<lparr>st := ST_RUNNING, par := [], hat := HNone,
      vjobs := vjobs (look \<sigma> s) @ [(unat g, c, op, concat (par (look \<sigma> s)) @ b)],
      vtaken := Some (op, concat (par (look \<sigma> s)) @ b)\<rparr>"
    using assms(5) d by (simp add: look_def k(2) request_put response_put jobs_of_append job_view_def of_owner_def)
  with slot_take_run [OF l t(1,2) d(1) t(3)] have ok: "slot_ok (look ?s s)" by simp
  have go': "gen_ok ?s" by (rule gen_ok_host [OF go]) (simp_all add: k(2))
  from ok show ?thesis
    by (rule inv_noting [where s = s, OF assms(1)])
      (use assms(2,5) p go' d in \<open>auto simp: k(2) jobs_of_append noting_def\<close>)
qed

lemma inv_job_drop:
  assumes "inv \<sigma>" "ld (mem \<sigma>) (jslot j) Gen \<noteq> jgen j"
  shows "inv (\<sigma>\<lparr>jobq := remove1 j (jobq \<sigma>)\<rparr>)" (is "inv ?s")
proof -
  have l: "slot_ok (look \<sigma> (jslot j))" and p: "pool_ok (mem \<sigma>)" and go: "gen_ok \<sigma>" using assms(1) by (simp_all add: inv_def)
  have "look ?s (jslot j) = (look \<sigma> (jslot j))\<lparr>vjobs := remove1 (job_view j) (vjobs (look \<sigma> (jslot j)))\<rparr>"
    by (simp add: look_def jobs_of_remove1)
  with slot_job_drop [OF l, of "job_view j"] assms(2) have ok: "slot_ok (look ?s (jslot j))"
    by (simp add: job_view_def) (simp add: look_def)
  have go': "gen_ok ?s" by (rule gen_ok_host [OF go]) simp_all
  from ok show ?thesis
    by (rule inv_memory [where s = "jslot j", OF assms(1)]) (use p go' in \<open>simp_all add: jobs_of_remove1\<close>)
qed

lemma job_current:
  assumes "j \<in> set (jobq \<sigma>)" "ld (mem \<sigma>) (jslot j) Gen = jgen j"
  shows "(gen (look \<sigma> (jslot j)), jcall j, jop j, jbody j) \<in> set (vjobs (look \<sigma> (jslot j)))"
    "job_view j = (gen (look \<sigma> (jslot j)), jcall j, jop j, jbody j)"
  using assms by (force simp: look_def jobs_of_def job_view_def)+

lemma inv_job_done:
  assumes "inv \<sigma>" "hpc \<sigma> = HIdle" "j \<in> set (jobq \<sigma>)" "ld (mem \<sigma>) (jslot j) Gen = jgen j" "final_status x"
  shows "inv (\<sigma>\<lparr>jobq := remove1 j (jobq \<sigma>), hpc := HReply (jslot j) x out (jgen j),
          answer := (answer \<sigma>)(jcall j \<mapsto> (x, out))\<rparr>)" (is "inv ?s")
proof -
  let ?l = "look \<sigma> (jslot j)"
  have l: "slot_ok ?l" and p: "pool_ok (mem \<sigma>)" and go: "gen_ok \<sigma>" using assms(1) by (simp_all add: inv_def)
  note j = job_current [OF assms(3,4)]
  have own: "owner \<sigma> (jslot j) = Some (jcall j)" using slot_job_current(1) [OF l j(1)] by (simp add: look_def)
  have "look ?s (jslot j) = ?l\<lparr>vjobs := remove1 (job_view j) (vjobs ?l), hat := Replying x out (gen ?l), vanswer := Some (x, out)\<rparr>"
    using assms(4) own by (simp add: look_def jobs_of_remove1 of_owner_def)
  with slot_job_done [OF l j(1) _ assms(5), of out] assms(2) have ok: "slot_ok (look ?s (jslot j))"
    by (simp add: j(2)) (simp add: look_def)
  have go': "gen_ok ?s" by (rule gen_ok_host [OF go]) simp_all
  from ok show ?thesis
    by (rule inv_noting [where s = "jslot j", OF assms(1)])
      (use assms(2) p go' own in \<open>auto simp: jobs_of_remove1 noting_def\<close>)
qed

lemma inv_reply_now:
  assumes "inv \<sigma>" "hpc \<sigma> = HReply s x b g"
  shows "inv (\<sigma>\<lparr>hpc := HWrite s x b (ld (mem \<sigma>) s Gen)\<rparr>)" (is "inv ?s")
proof -
  have l: "slot_ok (look \<sigma> s)" and p: "pool_ok (mem \<sigma>)" and go: "gen_ok \<sigma>" using assms(1) by (simp_all add: inv_def)
  have "look ?s s = (look \<sigma> s)\<lparr>hat := Writing x b (gen (look \<sigma> s))\<rparr>" by (simp add: look_def)
  with slot_reply_now [OF l, of x b "unat g"] assms(2) have ok: "slot_ok (look ?s s)" by (simp add: look_def)
  from ok show ?thesis
    by (rule inv_memory [where s = s, OF assms(1)]) (use assms(2) p go in simp_all)
qed

lemma inv_reply_queue:
  assumes "inv \<sigma>" "hpc \<sigma> = HReply s x b g" "ld (mem \<sigma>) s Gen = g"
  shows "inv (\<sigma>\<lparr>readyq := readyq \<sigma> @ [\<lparr>rslot = s, rgen = ld (mem \<sigma>) s Gen, rstatus = x, rbody = b\<rparr>], hpc := HIdle\<rparr>)" (is "inv ?s")
proof -
  have l: "slot_ok (look \<sigma> s)" and p: "pool_ok (mem \<sigma>)" and go: "gen_ok \<sigma>" using assms(1) by (simp_all add: inv_def)
  have "look ?s s = (look \<sigma> s)\<lparr>vready := vready (look \<sigma> s) @ [(gen (look \<sigma> s), x, b)], hat := HNone\<rparr>"
    by (simp add: look_def replies_of_append reply_view_def)
  with slot_reply_queue [OF l, of x b] assms(2,3) have ok: "slot_ok (look ?s s)" by (simp add: look_def)
  have go': "gen_ok ?s" by (rule gen_ok_host [OF go]) simp_all
  from ok show ?thesis
    by (rule inv_memory [where s = s, OF assms(1)]) (use assms(2) p go' in \<open>simp_all add: replies_of_append\<close>)
qed

lemma inv_deliver:
  assumes "inv \<sigma>" "hpc \<sigma> = HIdle" "q \<in> set (readyq \<sigma>)"
  shows "inv (\<sigma>\<lparr>readyq := remove1 q (readyq \<sigma>), hpc := HWrite (rslot q) (rstatus q) (rbody q) (rgen q)\<rparr>)" (is "inv ?s")
proof -
  let ?l = "look \<sigma> (rslot q)"
  have l: "slot_ok ?l" and p: "pool_ok (mem \<sigma>)" and go: "gen_ok \<sigma>" using assms(1) by (simp_all add: inv_def)
  have "look ?s (rslot q) = ?l\<lparr>vready := remove1 (unat (rgen q), rstatus q, rbody q) (vready ?l), hat := Writing (rstatus q) (rbody q) (unat (rgen q))\<rparr>"
    by (simp add: look_def replies_of_remove1 reply_view_def)
  moreover have "(unat (rgen q), rstatus q, rbody q) \<in> set (vready ?l)"
    using assms(3) by (force simp: look_def replies_of_def reply_view_def)
  moreover have "hat ?l = HNone" using assms(2) by (simp add: look_def)
  ultimately have ok: "slot_ok (look ?s (rslot q))" using slot_deliver [OF l] by simp
  have go': "gen_ok ?s" by (rule gen_ok_host [OF go]) simp_all
  from ok show ?thesis
    by (rule inv_memory [where s = "rslot q", OF assms(1)]) (use assms(2) p go' in \<open>simp_all add: replies_of_remove1\<close>)
qed

lemma inv_write_stale:
  assumes "inv \<sigma>" "hpc \<sigma> = HWrite s x b g" "ld (mem \<sigma>) s Gen \<noteq> g"
  shows "inv (\<sigma>\<lparr>hpc := HIdle\<rparr>)" (is "inv ?s")
proof -
  have l: "slot_ok (look \<sigma> s)" and p: "pool_ok (mem \<sigma>)" and go: "gen_ok \<sigma>" using assms(1) by (simp_all add: inv_def)
  have "look ?s s = (look \<sigma> s)\<lparr>hat := HNone\<rparr>" by (simp add: look_def)
  with slot_write_stale [OF l, of x b "unat g"] assms(2,3) have ok: "slot_ok (look ?s s)" by (simp add: look_def)
  from ok show ?thesis
    by (rule inv_memory [where s = s, OF assms(1)]) (use assms(2) p go in simp_all)
qed


text \<open>An answer placed in a slot that has no answer buffer, and the two ways its publication ends.\<close>

lemma placed_effect:
  assumes "pool_ok m" "attached (ctrl m) s Res = -1"
    "bi = -1 \<and> k \<le> INLINE_BYTES \<or> (\<exists>j. bi = int j \<and> j < BUFS \<and> ctrl m (FreeFlag Res j) = 0 \<and> k \<le> BUF_BYTES)"
    "k \<le> length body"
  defines "n \<equiv> put (placed m s body k bi) (Slot s ResLen) (word_of_nat k)"
  shows "pool_ok n" "t \<noteq> s \<Longrightarrow> same_slot m n t" "response n s = take k body" "request n s = request m s"
    "attached (ctrl n) s Req = attached (ctrl m) s Req"
    "\<And>f. f \<notin> {ResLen, BufOf Res} \<Longrightarrow> ld n u f = ld m u f"
proof -
  have k: "length (take k body) < 2 ^ 31" "length (take k body) = k"
    using assms(3,4) by (auto simp: INLINE_BYTES_def BUF_BYTES_def)
  have all: "pool_ok n \<and> (\<forall>t. t \<noteq> s \<longrightarrow> same_slot m n t) \<and> response n s = take k body \<and> request n s = request m s
    \<and> attached (ctrl n) s Req = attached (ctrl m) s Req \<and> (\<forall>u f. f \<notin> {ResLen, BufOf Res} \<longrightarrow> ld n u f = ld m u f)"
  proof (cases "0 \<le> bi")
    case True
    then obtain j where j: "bi = int j" "j < BUFS" "ctrl m (FreeFlag Res j) = 0" using assms(3) by auto
    then have n: "n = put (load_buf m s Res j (take k body)) (Slot s ResLen) (word_of_nat k)"
      by (simp add: n_def placed_def)
    have "same_slot m n t" if "t \<noteq> s" for t
      unfolding n using that same_slot_load_buf [OF assms(1) j(2,3) that]
      by (intro same_slot_trans [OF _ same_slot_put]) auto
    moreover have "request n s = request m s" using j(2) by (simp add: n request_put) (simp add: request_def Let_def)
    moreover have "response n s = take k body"
      using j(2) slice0_fill [OF k(1)] k(2) by (simp add: n response_len)
    ultimately show ?thesis
      using pool_ok_load_buf [OF assms(1) j(2,3) assms(2)] j(2) by (simp add: n)
  next
    case False
    let ?i = "m\<lparr>inlineBuf := (inlineBuf m)(s := fill (inlineBuf m s) (take k body)), ctrl := attach (ctrl m) s Res (-1)\<rparr>"
    have n: "n = put ?i (Slot s ResLen) (word_of_nat k)" using False by (simp add: n_def placed_def)
    have a: "attached (attach (ctrl m) s Res (-1)) t d = attached (ctrl m) t d" for t d
      using assms(2) by (cases "t = s \<and> d = Res") (auto simp: attached_def attach_def)
    have l: "(attach (ctrl m) s Res (-1)) (Slot t f) = ld m t f" if "f \<noteq> BufOf Res \<or> t \<noteq> s" for t f
      using that by (auto simp: attach_def)
    have fl: "(attach (ctrl m) s Res (-1)) (FreeFlag d i) = ctrl m (FreeFlag d i)" for d i
      by (simp add: attach_def)
    have "pool_ok ?i" using assms(1) by (simp add: pool_ok_def a fl)
    moreover have "same_slot m n t" if "t \<noteq> s" for t
    proof -
      have "same_slot m ?i t" using that by (simp add: same_slot_def request_def response_def a l Let_def)
      then show ?thesis unfolding n using that by (intro same_slot_trans [OF _ same_slot_put]) auto
    qed
    moreover have "response n s = take k body"
      using slice0_fill [OF k(1)] k(2) assms(2) by (simp add: n response_len a)
    moreover have "request n s = request m s" by (simp add: n request_put) (simp add: request_def a l Let_def)
    ultimately show ?thesis by (simp add: n a l)
  qed
  then show "pool_ok n" "response n s = take k body" "request n s = request m s"
    "attached (ctrl n) s Req = attached (ctrl m) s Req" by simp_all
  show "t \<noteq> s \<Longrightarrow> same_slot m n t" "\<And>f. f \<notin> {ResLen, BufOf Res} \<Longrightarrow> ld n u f = ld m u f"
    using all by simp_all
qed

lemma inv_write_fill:
  assumes "inv \<sigma>" "hpc \<sigma> = HWrite s x b g" "ld (mem \<sigma>) s Gen = g" "write_fill (mem \<sigma>) (hst \<sigma>) s x b = (m, h)"
  shows "inv (\<sigma>\<lparr>mem := m, hst := h, hpc := HFilled s\<rparr>)" (is "inv ?s")
proof -
  have l: "slot_ok (look \<sigma> s)" and p: "pool_ok (mem \<sigma>)" and go: "gen_ok \<sigma>" using assms(1) by (simp_all add: inv_def)
  have w: "hat (look \<sigma> s) = Writing x b (gen (look \<sigma> s))" using assms(2,3) by (simp add: look_def)
  have "\<not> res_held (look \<sigma> s)" using l w by (cases rule: slot_writing_cases)
  then have a: "attached (ctrl (mem \<sigma>)) s Res = -1" using attached_none [OF p] by (simp add: look_def)
  obtain bi k where k: "bi = -1 \<and> k \<le> INLINE_BYTES \<or> (\<exists>j. bi = int j \<and> j < BUFS \<and> ctrl (mem \<sigma>) (FreeFlag Res j) = 0 \<and> k \<le> BUF_BYTES)"
      "k \<le> length b"
    and f: "write_fill (mem \<sigma>) (hst \<sigma>) s x b =
      (put (put (placed (mem \<sigma>) s b k bi) (Slot s ResLen) (word_of_nat k))
         (Slot s ResStatus) (if drop k b \<noteq> [] then STATUS_MORE else x),
       if drop k b \<noteq> [] then (hst \<sigma>)\<lparr>tail := (tail (hst \<sigma>))(s := Some (drop k b)), finalStatus := (finalStatus (hst \<sigma>))(s := x)\<rparr>
       else hst \<sigma>)"
    by (rule write_fill_cases)
  note e = placed_effect [OF p a k]
  let ?n = "put (placed (mem \<sigma>) s b k bi) (Slot s ResLen) (word_of_nat k)"
  have m: "m = put ?n (Slot s ResStatus) (if drop k b \<noteq> [] then STATUS_MORE else x)"
    and h: "h = (if drop k b \<noteq> [] then (hst \<sigma>)\<lparr>tail := (tail (hst \<sigma>))(s := Some (drop k b)), finalStatus := (finalStatus (hst \<sigma>))(s := x)\<rparr>
       else hst \<sigma>)"
    using f assms(4) by simp_all
  have "look ?s s = (look \<sigma> s)\<lparr>res_held := (0 \<le> attached (ctrl m) s Res), res_view := take k b,
      rst := (if drop k b \<noteq> [] then STATUS_MORE else x),
      vtail := (if drop k b \<noteq> [] then Some (drop k b) else vtail (look \<sigma> s)),
      vfinal := (if drop k b \<noteq> [] then x else vfinal (look \<sigma> s)), hat := Filled\<rparr>"
    using e(3-6) by (simp add: look_def m h request_put response_put del: put_simps(1)) (simp add: put_simps(1))
  with slot_write_fill [OF l w] have ok: "slot_ok (look ?s s)" by simp
  have go': "gen_ok ?s" by (rule gen_ok_host [OF go]) (use e(6) in \<open>simp_all add: m\<close>)
  have same: "same_slot (mem \<sigma>) m t" if "t \<noteq> s" for t
    unfolding m using that by (intro same_slot_trans [OF e(2) same_slot_put]) auto
  from ok show ?thesis
    by (rule inv_memory [where s = s, OF assms(1)]) (use assms(2) e(1) go' same in \<open>simp_all add: h\<close>, simp add: m)
qed

lemma inv_write_publish:
  assumes "inv \<sigma>" "hpc \<sigma> = HFilled s" "write_publish (mem \<sigma>) (hst \<sigma>) s = (m, h)"
  shows "inv (\<sigma>\<lparr>mem := m, hst := h, hpc := HIdle\<rparr>)" (is "inv ?s")
proof -
  have l: "slot_ok (look \<sigma> s)" and p: "pool_ok (mem \<sigma>)" and go: "gen_ok \<sigma>" using assms(1) by (simp_all add: inv_def)
  have w: "hat (look \<sigma> s) = Filled" using assms(2) by (simp add: look_def)
  show ?thesis
  proof (cases "ld (mem \<sigma>) s Status = ST_RUNNING")
    case True
    then have m: "m = put (put (mem \<sigma>) (Slot s Status) ST_READY) DoneSeq (ctrl (mem \<sigma>) DoneSeq + 1)" and h: "h = hst \<sigma>"
      using assms(3) by (auto simp: write_publish_def compareExchange_def add1_put put_def)
    have "look ?s s = (look \<sigma> s)\<lparr>st := ST_READY, hat := HNone\<rparr>"
      by (simp add: look_def m h request_put response_put)
    with slot_publish_ok [OF l w] True have ok: "slot_ok (look ?s s)" by (simp add: look_def)
    have go': "gen_ok ?s" by (rule gen_ok_host [OF go]) (simp_all add: m)
    from ok show ?thesis
      by (rule inv_memory [where s = s, OF assms(1)])
        (use assms(2) p go' in \<open>auto simp: m h intro!: same_slot_trans [OF _ same_slot_put]\<close>)
  next
    case False
    then have m: "m = drop_buf (mem \<sigma>) s Res" and h: "h = (hst \<sigma>)\<lparr>tail := (tail (hst \<sigma>))(s := None)\<rparr>"
      using assms(3) by (auto simp: write_publish_def compareExchange_def)
    have "look ?s s = (look \<sigma> s)\<lparr>res_held := False, res_view := response m s, vtail := None, hat := HNone\<rparr>"
      by (simp add: look_def m h)
    with slot_publish_lost [OF l w] False have ok: "slot_ok (look ?s s)" by (simp add: look_def)
    have go': "gen_ok ?s" by (rule gen_ok_host [OF go]) (simp_all add: m)
    from ok show ?thesis
      by (rule inv_memory [where s = s, OF assms(1)]) (use assms(2) p go' in \<open>simp_all add: m h\<close>)
  qed
qed

lemma inv_abandon:
  assumes "inv \<sigma>" "hpc \<sigma> = HIdle" "ld (mem \<sigma>) s Status = ST_CANCELLED" "abandon (mem \<sigma>) (hst \<sigma>) s = (m, h)"
  shows "inv (\<sigma>\<lparr>mem := m, hst := h\<rparr>)" (is "inv ?s")
proof -
  have l: "slot_ok (look \<sigma> s)" and p: "pool_ok (mem \<sigma>)" and go: "gen_ok \<sigma>" using assms(1) by (simp_all add: inv_def)
  let ?d = "drop_buf (drop_buf (mem \<sigma>) s Req) s Res"
  have m: "m = put (put ?d (Slot s Status) ST_FREE) DoneSeq (ctrl ?d DoneSeq + 1)"
    and h: "h = (hst \<sigma>)\<lparr>tail := (tail (hst \<sigma>))(s := None), partial := (partial (hst \<sigma>))(s := [])\<rparr>"
    using assms(4) by (auto simp: abandon_def Let_def add1_put)
  have "look ?s s = (look \<sigma> s)\<lparr>req_held := False, req_view := [], res_held := False, res_view := response m s,
      st := ST_FREE, vtail := None, par := []\<rparr>"
    by (simp add: look_def m h request_put)
  with slot_abandon [OF l] assms(2,3) have ok: "slot_ok (look ?s s)" by (simp add: look_def)
  have go': "gen_ok ?s" by (rule gen_ok_host [OF go]) (simp_all add: m)
  from ok show ?thesis
  proof (rule inv_memory [where s = s, OF assms(1)])
    show "same_slot (mem \<sigma>) (mem ?s) t" if "t \<noteq> s" for t
      using that by (auto simp: m intro!: same_slot_trans [OF _ same_slot_put] same_slot_trans [OF same_slot_drop_buf same_slot_drop_buf])
  qed (use p go' in \<open>simp_all add: m h\<close>)
qed

section \<open>Every calm step\<close>

lemma no_wrap:
  assumes "\<not> raced \<sigma> \<sigma>'" "ld (mem \<sigma>') s Gen = ld (mem \<sigma>) s Gen + 1"
  shows "ld (mem \<sigma>) s Gen \<noteq> -1"
  using assms by (auto simp: raced_def)

lemma release_gen: "ld (release m s) s Gen = ld m s Gen + 1"
  by (simp add: release_def add1_put Let_def)

lemma readRes_gen: "readRes m s = (n, out) \<Longrightarrow> ld n s Gen = ld m s Gen"
  by (auto simp: readRes_eq ping_def add1_put)

lemma inv_step:
  assumes "bridge_step known on \<sigma> \<sigma>'" "inv \<sigma>" "\<not> raced \<sigma> \<sigma>'"
  shows "inv \<sigma>'"
  using assms(1)
proof cases
  case claim
  with assms(2) show ?thesis by (auto intro: inv_claim)
next
  case push
  with assms(2) show ?thesis by (auto intro: inv_push)
next
  case push_last
  with assms(2) show ?thesis by (auto intro: inv_push_last)
next
  case ack
  with assms(2) show ?thesis by (auto intro: inv_ack)
next
  case ack_err
  with assms(2) show ?thesis by (auto dest: inv_ack(2))
next
  case collect_begin
  with assms(2) show ?thesis by (auto intro: inv_collect_begin)
next
  case collect_more
  with assms(2) show ?thesis by (auto intro: inv_collect_more)
next
  case (collect_ok s c ps x m chunk)
  then have "ld (mem \<sigma>) s Gen \<noteq> -1"
    by (intro no_wrap [OF assms(3)]) (simp add: release_gen readRes_gen)
  with collect_ok assms(2) show ?thesis by (auto intro: inv_collect_done)
next
  case (collect_err s c ps m chunk)
  then have "ld (mem \<sigma>) s Gen \<noteq> -1"
    by (intro no_wrap [OF assms(3)]) (simp add: release_gen readRes_gen)
  with collect_err assms(2) show ?thesis by (auto intro: inv_collect_done)
next
  case (cancel_ready s g c)
  then have "ld (mem \<sigma>) s Gen \<noteq> -1"
    by (intro no_wrap [OF assms(3)]) (simp add: release_gen)
  with cancel_ready assms(2) show ?thesis by (auto intro: inv_cancel_ready)
next
  case cancel
  with assms(2) show ?thesis by (auto intro: inv_cancel)
next
  case (cancel_bump s)
  then have "ld (mem \<sigma>) s Gen \<noteq> -1"
    by (intro no_wrap [OF assms(3)]) (simp add: add1_put)
  with cancel_bump assms(2) show ?thesis by (auto intro: inv_cancel_bump)
next
  case cancel_store
  with assms(2) show ?thesis by (auto intro: inv_cancel_store)
next
  case saw
  with assms(2) show ?thesis by (auto intro: inv_saw)
next
  case (take_copy s m g op b)
  with assms(3) have "wpc \<sigma> \<noteq> WCancel2 s" by (auto simp: raced_def)
  with take_copy assms(2) show ?thesis by (auto intro: inv_take_copy)
next
  case take_lost
  with assms(2) show ?thesis by (auto intro: inv_take_lost)
next
  case take_reply
  with inv_take_reply [OF assms(2)] show ?thesis by blast
next
  case take_run
  with inv_take_run [OF assms(2)] show ?thesis by blast
next
  case job_drop
  with assms(2) show ?thesis by (auto intro: inv_job_drop)
next
  case job_done
  with assms(2) show ?thesis by (auto intro: inv_job_done simp: final_status_def)
next
  case reply_now
  with assms(2) show ?thesis by (auto intro: inv_reply_now)
next
  case (reply_queue s x b g)
  with assms(3) have "ld (mem \<sigma>) s Gen = g" by (auto simp: raced_def)
  with reply_queue inv_reply_queue [OF assms(2)] show ?thesis by blast
next
  case deliver
  with assms(2) show ?thesis by (auto intro: inv_deliver)
next
  case write_stale
  with assms(2) show ?thesis by (auto intro: inv_write_stale)
next
  case write_fill
  with assms(2) show ?thesis by (auto intro: inv_write_fill)
next
  case write_publish
  with assms(2) show ?thesis by (auto intro: inv_write_publish)
next
  case abandon
  with assms(2) show ?thesis by (auto intro: inv_abandon)
qed

lemma calm_run_inv: "calm_run known on \<sigma> \<Longrightarrow> inv \<sigma>"
  by (induction rule: calm_run.induct) (auto intro: inv_init inv_step)

end
