(* ===== verification/Bridge_Props.thy ===== *)
theory Bridge_Props
  imports Bridge_Inv "HOL-Library.Sublist"
begin

text \<open>
  What the bridge promises its callers: every answer collected is the answer the host gave to
  that very request, no buffer and no slot is ever lost, and a host that stops leaves no call
  waiting.
\<close>

section \<open>Collected answers\<close>

definition answer_ok :: "sys \<Rightarrow> nat \<Rightarrow> i32 \<Rightarrow> bytes \<Rightarrow> bool" where
  "answer_ok \<sigma> c x r \<longleftrightarrow>
     sent \<sigma> c \<noteq> None \<and> taken \<sigma> c = sent \<sigma> c
   \<and> (x = STATUS_OK \<and> answer \<sigma> c = Some (STATUS_OK, r)
    \<or> x = STATUS_ERR \<and> (\<exists>full. answer \<sigma> c = Some (STATUS_ERR, full) \<and> suffix r full))"

definition got_ok :: "sys \<Rightarrow> bool" where
  "got_ok \<sigma> \<longleftrightarrow>
     (\<forall>(c, x, r) \<in> set (got \<sigma>). c < next_call \<sigma> \<and> answer_ok \<sigma> c x r
        \<and> (\<forall>s. owner \<sigma> s = Some c \<longrightarrow> ld (mem \<sigma>) s Status = ST_FREE))"

lemma look_sel [simp]:
  "st (look \<sigma> s) = ld (mem \<sigma>) s Status" "own (look \<sigma> s) = owner \<sigma> s" "wat (look \<sigma> s) = worker_on (wpc \<sigma>) s"
  "hat (look \<sigma> s) = host_on (hpc \<sigma>) s" "gen (look \<sigma> s) = unat (ld (mem \<sigma>) s Gen)"
  "rst (look \<sigma> s) = ld (mem \<sigma>) s ResStatus" "res_view (look \<sigma> s) = response (mem \<sigma>) s"
  "vsent (look \<sigma> s) = of_owner (owner \<sigma> s) (sent \<sigma>)" "vtaken (look \<sigma> s) = of_owner (owner \<sigma> s) (taken \<sigma>)"
  "vanswer (look \<sigma> s) = of_owner (owner \<sigma> s) (answer \<sigma>)"
  by (simp_all add: look_def)

lemma step_sent: "bridge_step known on \<sigma> \<sigma>' \<Longrightarrow> c < next_call \<sigma> \<Longrightarrow> sent \<sigma>' c = sent \<sigma> c \<and> c < next_call \<sigma>'"
  by (erule bridge_step.cases) auto

text \<open>What is noted of a call is noted while its slot is in use.\<close>

lemma step_noted:
  assumes "bridge_step known on \<sigma> \<sigma>'" "inv \<sigma>" "taken \<sigma>' c \<noteq> taken \<sigma> c \<or> answer \<sigma>' c \<noteq> answer \<sigma> c"
  shows "\<exists>s. owner \<sigma> s = Some c \<and> ld (mem \<sigma>) s Status \<noteq> ST_FREE"
  using assms(1)
proof cases
  case (take_reply s g op b m h x body)
  from take_cas_cases [OF take_reply(3)] have "ld (mem \<sigma>) s Status = ST_PENDING" by simp
  moreover have "owner \<sigma> s = Some c"
    using assms(3) unfolding take_reply(1) by (auto simp: noting_def split: if_splits option.splits)
  ultimately show ?thesis by auto
next
  case (take_run s g op b m h whole d)
  from take_cas_cases [OF take_run(3)] have "ld (mem \<sigma>) s Status = ST_PENDING" by simp
  with take_run assms(3) show ?thesis by (auto split: if_splits)
next
  case (job_done j x out)
  have l: "slot_ok (look \<sigma> (jslot j))" using assms(2) by (simp add: inv_def)
  note f = slot_job_current [OF l job_current(1) [OF job_done(3,4)]]
  from assms(3) have "jcall j = c" unfolding job_done(1) by (auto split: if_splits)
  with f(1,4) show ?thesis by auto
qed (use assms(3) in auto)

lemma slot_of_inv: "inv \<sigma> \<Longrightarrow> slot_ok (look \<sigma> s)"
  by (simp add: inv_def)

lemma fill_not_free:
  assumes "inv \<sigma>" "wpc \<sigma> = WFill s g op r"
  shows "ld (mem \<sigma>) s Status \<noteq> ST_FREE"
  using slot_of_inv [OF assms(1), of s] assms(2) by (auto simp: slot_ok_def)

lemma bumped_not_free:
  assumes "inv \<sigma>" "wpc \<sigma> = WCancel2 s"
  shows "ld (mem \<sigma>) s Status \<noteq> ST_FREE"
  using slot_of_inv [OF assms(1), of s] assms(2) by (auto simp: slot_ok_def)

lemma publish_other: "takeReqBuf_pass m = (m', Some bi) \<Longrightarrow> t \<noteq> s \<Longrightarrow> ld (publish m' s bi op piece) t f = ld m t f"
  by (simp add: takeReqBuf_publish(3) ping_def add1_put)

lemma write_fill_status: "write_fill m h s x b = (m', h') \<Longrightarrow> ld m' t Status = ld m t Status"
  by (rule write_fill_cases [of m b h s x]) (auto simp: placed_def attach_def split: if_splits)

lemma write_publish_status:
  "write_publish m h s = (m', h') \<Longrightarrow> ld m t Status = ST_FREE \<Longrightarrow> ld m' t Status = ST_FREE"
  by (auto simp: write_publish_def compareExchange_def add1_put split: if_splits)

text \<open>A free slot stays free under its last owner.\<close>

lemma step_owner:
  assumes "bridge_step known on \<sigma> \<sigma>'" "inv \<sigma>" "owner \<sigma>' s = Some c" "c < next_call \<sigma>" "ld (mem \<sigma>) s Status = ST_FREE"
  shows "ld (mem \<sigma>') s Status = ST_FREE"
  using assms(1)
proof cases
  case (claim op t c' p)
  with assms(3,4) have "t \<noteq> s" by auto
  with claim assms(5) show ?thesis by (auto simp: compareExchange_def split: if_splits)
next
  case (push t g op r m bi)
  with fill_not_free [OF assms(2)] assms(5) have "t \<noteq> s" by auto
  with push assms(5) show ?thesis by (simp add: publish_other)
next
  case (push_last t g op r m bi d)
  with fill_not_free [OF assms(2)] assms(5) have "t \<noteq> s" by auto
  with push_last assms(5) show ?thesis by (simp add: publish_other)
next
  case (cancel_store t)
  with bumped_not_free [OF assms(2)] assms(5) have "t \<noteq> s" by auto
  with cancel_store assms(5) show ?thesis by (simp add: ping_def add1_put)
next
  case (take_lost t g op b m)
  with take_cas_cases [OF take_lost(3)] assms(5) show ?thesis by simp
next
  case (take_reply t g op b m h x body)
  with take_cas_cases [OF take_reply(3)] assms(5) show ?thesis by auto
next
  case (take_run t g op b m h whole d)
  with take_cas_cases [OF take_run(3)] assms(5) show ?thesis by auto
next
  case write_fill
  with assms(5) show ?thesis by (auto simp: write_fill_status)
next
  case write_publish
  with assms(5) show ?thesis by (auto simp: write_publish_status)
next
  case collect_more
  with assms(5) show ?thesis by (auto simp: ask_more_def readRes_eq ping_def add1_put Let_def)
qed (use assms(5) in \<open>auto simp: readRes_eq take_read_eq release_def abandon_def ping_def add1_put Let_def\<close>)

lemma answer_ok_keep:
  assumes "answer_ok \<sigma> c x r" "sent \<sigma>' c = sent \<sigma> c" "taken \<sigma>' c = taken \<sigma> c" "answer \<sigma>' c = answer \<sigma> c"
  shows "answer_ok \<sigma>' c x r"
  using assms by (simp add: answer_ok_def)

lemma got_ok_keep:
  assumes "bridge_step known on \<sigma> \<sigma>'" "inv \<sigma>" "got_ok \<sigma>" "(c, x, r) \<in> set (got \<sigma>)"
  shows "c < next_call \<sigma>' \<and> answer_ok \<sigma>' c x r \<and> (\<forall>s. owner \<sigma>' s = Some c \<longrightarrow> ld (mem \<sigma>') s Status = ST_FREE)"
proof -
  from assms(3,4) have c: "c < next_call \<sigma>" "answer_ok \<sigma> c x r" and f: "\<And>s. owner \<sigma> s = Some c \<Longrightarrow> ld (mem \<sigma>) s Status = ST_FREE"
    by (auto simp: got_ok_def)
  have "answer_ok \<sigma>' c x r"
    using step_noted [OF assms(1,2), of c] f step_sent [OF assms(1) c(1)] by (intro answer_ok_keep [OF c(2)]) auto
  moreover have "ld (mem \<sigma>') s Status = ST_FREE" if "owner \<sigma>' s = Some c" for s
  proof -
    from assms(1) that c(1) have "owner \<sigma> s = Some c" by cases (auto split: if_splits)
    with f show ?thesis using step_owner [OF assms(1,2) that c(1)] by blast
  qed
  ultimately show ?thesis using step_sent [OF assms(1) c(1)] by blast
qed

lemma collected_ok:
  assumes "inv \<sigma>" "wpc \<sigma> = WCollect s c ps" "ld (mem \<sigma>) s Status = ST_READY" "ld (mem \<sigma>) s ResStatus = x"
    "x \<noteq> STATUS_MORE"
  shows "owner \<sigma> s = Some c" "c < next_call \<sigma>" "final_status x" "taken \<sigma> c = sent \<sigma> c" "sent \<sigma> c \<noteq> None"
    "answer \<sigma> c = Some (x, concat ps @ response (mem \<sigma>) s)"
proof -
  have l: "slot_ok (look \<sigma> s)" "wat (look \<sigma> s) = Collecting c ps" "st (look \<sigma> s) = ST_READY" "rst (look \<sigma> s) \<noteq> STATUS_MORE"
    using assms slot_of_inv by simp_all
  note d = slot_collect_done [OF l]
  show o: "owner \<sigma> s = Some c" using d(1) by simp
  with d assms(4) show "final_status x" "taken \<sigma> c = sent \<sigma> c" "answer \<sigma> c = Some (x, concat ps @ response (mem \<sigma>) s)"
    by (simp_all add: of_owner_def)
  from l have "vsent (look \<sigma> s) \<noteq> None" by (simp add: slot_ok_def call_ok_def del: look_sel)
  with o show "sent \<sigma> c \<noteq> None" by (simp add: of_owner_def)
  show "c < next_call \<sigma>" using assms(1) o by (auto simp: inv_def fresh_ok_def)
qed

lemma release_status: "ld (release m s) s Status = ST_FREE"
  by (simp add: release_def add1_put Let_def)

lemma got_ok_step:
  assumes "bridge_step known on \<sigma> \<sigma>'" "inv \<sigma>" "got_ok \<sigma>"
  shows "got_ok \<sigma>'"
proof -
  note keep = got_ok_keep [OF assms]
  have one: "owner \<sigma> t = Some c \<Longrightarrow> t = s" if "owner \<sigma> s = Some c" for s t c
    using assms(2) that by (auto simp: inv_def fresh_ok_def)
  have "c < next_call \<sigma>' \<and> answer_ok \<sigma>' c x r \<and> (\<forall>s. owner \<sigma>' s = Some c \<longrightarrow> ld (mem \<sigma>') s Status = ST_FREE)"
    if "(c, x, r) \<in> set (got \<sigma>')" for c x r
  proof (cases "(c, x, r) \<in> set (got \<sigma>)")
    case True
    then show ?thesis by (rule keep)
  next
    case False
    from assms(1) show ?thesis
    proof cases
      case (collect_ok s d ps y m chunk)
      note d = collected_ok [OF assms(2) collect_ok(2,3,4,5)]
      from False that collect_ok(1) have e: "c = d" "x = y" "r = concat (ps @ [chunk])" by auto
      have "chunk = response (mem \<sigma>) s" using collect_ok(7) by (simp add: readRes_eq)
      moreover have "y = STATUS_OK" using d(3) collect_ok(6) by (simp add: final_status_def)
      ultimately have "answer_ok \<sigma>' c x r" using d e by (simp add: collect_ok(1) answer_ok_def)
      moreover have "ld (mem \<sigma>') t Status = ST_FREE" if "owner \<sigma>' t = Some c" for t
      proof -
        have "t = s" using that one [OF d(1)] e(1) by (simp add: collect_ok(1))
        then show ?thesis by (simp add: collect_ok(1) release_status)
      qed
      ultimately show ?thesis using d(2) e(1) by (simp add: collect_ok(1))
    next
      case (collect_err s d ps m chunk)
      note d = collected_ok [OF assms(2) collect_err(2,3,4)]
      from False that collect_err(1) have e: "c = d" "x = STATUS_ERR" "r = chunk" by auto
      have "chunk = response (mem \<sigma>) s" using collect_err(5) by (simp add: readRes_eq)
      then have "answer_ok \<sigma>' c x r" using d e by (simp add: collect_err(1) answer_ok_def suffix_def)
      moreover have "ld (mem \<sigma>') t Status = ST_FREE" if "owner \<sigma>' t = Some c" for t
      proof -
        have "t = s" using that one [OF d(1)] e(1) by (simp add: collect_err(1))
        then show ?thesis by (simp add: collect_err(1) release_status)
      qed
      ultimately show ?thesis using d(2) e(1) by (simp add: collect_err(1))
    qed (use False that in auto)
  qed
  then show ?thesis by (auto simp: got_ok_def)
qed

lemma calm_run_got: "calm_run known on \<sigma> \<Longrightarrow> got_ok \<sigma>"
proof (induction rule: calm_run.induct)
  case start
  show ?case by (simp add: got_ok_def init_def)
next
  case (more \<sigma> \<sigma>')
  then show ?case using got_ok_step calm_run_inv by blast
qed


section \<open>A call runs to its end\<close>

definition still :: "shared \<Rightarrow> shared \<Rightarrow> bool" where
  "still m m' \<longleftrightarrow> (\<forall>t. ld m' t Gen = ld m t Gen)"

lemma still_refl [simp]: "still m m"
  by (simp add: still_def)

lemma calm_more:
  assumes "calm_run known on \<sigma>" "bridge_step known on \<sigma> \<sigma>'" "still (mem \<sigma>) (mem \<sigma>')" "wpc \<sigma> = WIdle \<or> hpc \<sigma>' = hpc \<sigma>"
    "\<And>s x b g. hpc \<sigma> = HReply s x b g \<Longrightarrow> hpc \<sigma>' \<noteq> HIdle"
  shows "calm_run known on \<sigma>'"
proof (rule calm_run.more [OF assms(1,2)])
  show "\<not> raced \<sigma> \<sigma>'"
    using assms(3-5) by (auto simp: raced_def still_def split: hpc.splits)
qed

lemma takeReqBuf_some:
  assumes "i < BUFS" "ctrl m (FreeFlag Req i) = 0"
  obtains m' bi where "takeReqBuf_pass m = (m', Some bi)"
proof (cases rule: acquireBuf_cases [where m = "ctrl m" and d = Req])
  case none
  with assms show thesis by (auto simp: busy_bufs_def)
next
  case (some j)
  then show thesis by (intro that) (simp add: takeReqBuf_pass_def)
qed

lemma publish_still: "takeReqBuf_pass m = (m', Some bi) \<Longrightarrow> still m (publish m' s bi op piece)"
  by (simp add: still_def takeReqBuf_publish(3) ping_def add1_put)

text \<open>The worker submits: a free slot and a free request buffer are enough.\<close>

lemma submit_runs:
  assumes "calm_run known on \<sigma>" "wpc \<sigma> = WIdle" "hpc \<sigma> = HIdle" "s < SLOTS" "ld (mem \<sigma>) s Status = ST_FREE"
    "i < BUFS" "ctrl (mem \<sigma>) (FreeFlag Req i) = 0" "user_op op" "length p \<le> BUF_BYTES"
  obtains \<sigma>' where "calm_run known on \<sigma>'" "wpc \<sigma>' = WIdle" "hpc \<sigma>' = HIdle" "ld (mem \<sigma>') s Status = ST_PENDING"
    "ld (mem \<sigma>') s Op = op" "still (mem \<sigma>) (mem \<sigma>')" "(s, ld (mem \<sigma>) s Gen, next_call \<sigma>) \<in> tickets \<sigma>'"
    "owner \<sigma>' s = Some (next_call \<sigma>)" "sent \<sigma>' (next_call \<sigma>) = Some (op, p)" "got \<sigma>' = got \<sigma>"
    "next_call \<sigma> < next_call \<sigma>'" "\<forall>k. ctrl (mem \<sigma>') (FreeFlag Res k) = ctrl (mem \<sigma>) (FreeFlag Res k)"
proof -
  let ?c = "(ctrl (mem \<sigma>))(Slot s Status := ST_CLAIMED)"
  let ?\<sigma>1 = "\<sigma>\<lparr>mem := (mem \<sigma>)\<lparr>ctrl := ?c\<rparr>, wpc := WFill s (?c (Slot s Gen)) op p,
      owner := (owner \<sigma>)(s := Some (next_call \<sigma>)), next_call := Suc (next_call \<sigma>),
      sent := (sent \<sigma>)(next_call \<sigma> \<mapsto> (op, p))\<rparr>"
  have "bridge_step known on \<sigma> ?\<sigma>1"
    using assms by (intro bridge_step.claim) (simp_all add: compareExchange_def fun_upd_def)
  from calm_more [OF assms(1) this] have r1: "calm_run known on ?\<sigma>1" using assms(2,3) by (simp add: still_def)
  obtain m bi where t: "takeReqBuf_pass (mem ?\<sigma>1) = (m, Some bi)"
    by (rule takeReqBuf_some [of i "mem ?\<sigma>1"]) (use assms(6,7) in simp_all)
  let ?\<sigma>2 = "?\<sigma>1\<lparr>mem := publish m s bi op p, wpc := WIdle, tickets := insert (s, ld (mem \<sigma>) s Gen, next_call \<sigma>) (tickets \<sigma>)\<rparr>"
  have "bridge_step known on ?\<sigma>1 ?\<sigma>2"
    using bridge_step.push_last [OF _ assms(9) t, of s "ld (mem \<sigma>) s Gen" op "next_call \<sigma>"] by simp
  from calm_more [OF r1 this] have r2: "calm_run known on ?\<sigma>2"
    using publish_still [OF t, of s op p] by (simp add: assms(3))
  show thesis
  proof (rule that [OF r2])
    show "still (mem \<sigma>) (mem ?\<sigma>2)" using publish_still [OF t, of s op p] by (simp add: still_def)
  qed (use assms(3) in \<open>simp_all add: takeReqBuf_publish(3) [OF t] ping_def add1_put load_buf_def attach_def\<close>)
qed

text \<open>The host takes it, and the handler runs.\<close>

lemma take_runs:
  assumes "calm_run known on \<sigma>" "wpc \<sigma> = WIdle" "hpc \<sigma> = HIdle" "s < SLOTS" "ld (mem \<sigma>) s Status = ST_PENDING"
    "user_op (ld (mem \<sigma>) s Op)" "known (ld (mem \<sigma>) s Op)" "owner \<sigma> s = Some c"
  obtains \<sigma>' j where "calm_run known on \<sigma>'" "wpc \<sigma>' = WIdle" "hpc \<sigma>' = HIdle" "ld (mem \<sigma>') s Status = ST_RUNNING"
    "still (mem \<sigma>) (mem \<sigma>')" "j \<in> set (jobq \<sigma>')" "jslot j = s" "jgen j = ld (mem \<sigma>) s Gen" "jcall j = c"
    "tickets \<sigma>' = tickets \<sigma>" "got \<sigma>' = got \<sigma>" "sent \<sigma>' = sent \<sigma>"
    "owner \<sigma>' = owner \<sigma>" "\<forall>k. ctrl (mem \<sigma>') (FreeFlag Res k) = ctrl (mem \<sigma>) (FreeFlag Res k)"
proof -
  let ?m = "mem \<sigma>" and ?op = "ld (mem \<sigma>) s Op" and ?g = "ld (mem \<sigma>) s Gen"
  let ?m1 = "add1 (drop_buf ?m s Req) DoneSeq"
  let ?\<sigma>1 = "\<sigma>\<lparr>hpc := HSaw s\<rparr>"
  let ?\<sigma>2 = "?\<sigma>1\<lparr>mem := ?m1, hpc := HTake s ?g ?op (request ?m s)\<rparr>"
  let ?h = "(hst \<sigma>)\<lparr>partial := (partial (hst \<sigma>))(s := [])\<rparr>"
  let ?w = "if partial (hst \<sigma>) s \<noteq> [] then joined (partial (hst \<sigma>) s) (request ?m s) else request ?m s"
  let ?j = "\<lparr>jslot = s, jgen = ?g, jcall = c, jop = ?op, jbody = ?w\<rparr>"
  let ?\<sigma>3 = "?\<sigma>2\<lparr>mem := put ?m1 (Slot s Status) ST_RUNNING, hst := ?h, hpc := HIdle, jobq := jobq \<sigma> @ [?j],
      taken := (taken \<sigma>)(c \<mapsto> (?op, ?w))\<rparr>"
  have "bridge_step known on \<sigma> ?\<sigma>1" using assms by (intro bridge_step.saw) simp_all
  from calm_more [OF assms(1) this] have r1: "calm_run known on ?\<sigma>1" using assms(2,3) by simp
  have "bridge_step known on ?\<sigma>1 ?\<sigma>2"
    using bridge_step.take_copy [of ?\<sigma>1 s ?m1 ?g ?op "request ?m s"] by (simp add: take_read_eq)
  from calm_more [OF r1 this] have r2: "calm_run known on ?\<sigma>2" using assms(2) by (simp add: still_def add1_put)
  have "take_dispatch known (hst \<sigma>) s ?op (request ?m s) = (?h, Run ?op ?w)"
    using assms(6,7) by (auto simp: take_dispatch_def user_op_def Let_def)
  moreover have "take_cas ?m1 s = (put ?m1 (Slot s Status) ST_RUNNING, True)"
    using assms(5) by (simp add: take_cas_def compareExchange_def put_def add1_put)
  ultimately have "bridge_step known on ?\<sigma>2 ?\<sigma>3"
    using bridge_step.take_run [of ?\<sigma>2 s ?g ?op "request ?m s" "put ?m1 (Slot s Status) ST_RUNNING" known ?h ?w c] assms(8) by simp
  from calm_more [OF r2 this] have r3: "calm_run known on ?\<sigma>3" using assms(2) by (simp add: still_def)
  show thesis
    by (rule that [OF r3, of ?j]) (use assms(2) in \<open>simp_all add: still_def add1_put ctrl_drop_buf releaseBuf_def\<close>)
qed

text \<open>The handler answers, without a scheduler in between, and the answer is published.\<close>

lemma answer_runs:
  assumes "calm_run known False \<sigma>" "wpc \<sigma> = WIdle" "hpc \<sigma> = HIdle" "ld (mem \<sigma>) s Status = ST_RUNNING"
    "j \<in> set (jobq \<sigma>)" "jslot j = s" "jgen j = ld (mem \<sigma>) s Gen" "length out \<le> INLINE_BYTES"
  obtains \<sigma>' where "calm_run known False \<sigma>'" "wpc \<sigma>' = WIdle" "hpc \<sigma>' = HIdle" "ld (mem \<sigma>') s Status = ST_READY"
    "ld (mem \<sigma>') s ResStatus = STATUS_OK" "still (mem \<sigma>) (mem \<sigma>')" "answer \<sigma>' (jcall j) = Some (STATUS_OK, out)"
    "tickets \<sigma>' = tickets \<sigma>" "got \<sigma>' = got \<sigma>" "sent \<sigma>' = sent \<sigma>"
proof -
  let ?g = "ld (mem \<sigma>) s Gen"
  let ?\<sigma>1 = "\<sigma>\<lparr>jobq := remove1 j (jobq \<sigma>), hpc := HReply (jslot j) STATUS_OK out (jgen j),
          answer := (answer \<sigma>)(jcall j \<mapsto> (STATUS_OK, out))\<rparr>"
  let ?\<sigma>2 = "?\<sigma>1\<lparr>hpc := HWrite s STATUS_OK out ?g\<rparr>"
  have "bridge_step known False \<sigma> ?\<sigma>1" using assms by (intro bridge_step.job_done) simp_all
  from calm_more [OF assms(1) this] have r1: "calm_run known False ?\<sigma>1" using assms(2,3) by simp
  have "bridge_step known False ?\<sigma>1 ?\<sigma>2"
    using bridge_step.reply_now [of ?\<sigma>1 s STATUS_OK out "jgen j" False known] assms(6) by simp
  from calm_more [OF r1 this] have r2: "calm_run known False ?\<sigma>2" using assms(2) by simp
  obtain m h where w: "write_fill (mem \<sigma>) (hst \<sigma>) s STATUS_OK out = (m, h)" by fastforce
  then have m: "ld m s ResStatus = STATUS_OK" "\<And>t. ld m t Gen = ld (mem \<sigma>) t Gen" "ld m s Status = ST_RUNNING"
    using assms(4,8) by (auto simp: write_fill_def Let_def attach_def)
  let ?\<sigma>3 = "?\<sigma>2\<lparr>mem := m, hst := h, hpc := HFilled s\<rparr>"
  have "bridge_step known False ?\<sigma>2 ?\<sigma>3" using w by (intro bridge_step.write_fill) simp_all
  from calm_more [OF r2 this] have r3: "calm_run known False ?\<sigma>3" using assms(2) m by (simp add: still_def)
  let ?m = "put (put m (Slot s Status) ST_READY) DoneSeq (ctrl m DoneSeq + 1)"
  let ?\<sigma>4 = "?\<sigma>3\<lparr>mem := ?m, hst := h, hpc := HIdle\<rparr>"
  have "write_publish m h s = (?m, h)"
    using m(3) by (simp add: write_publish_def compareExchange_def add1_put put_def)
  then have "bridge_step known False ?\<sigma>3 ?\<sigma>4" by (intro bridge_step.write_publish) simp_all
  from calm_more [OF r3 this] have r4: "calm_run known False ?\<sigma>4" using assms(2) by (simp add: still_def)
  show thesis
    by (rule that [OF r4]) (use assms(2) m in \<open>simp_all add: still_def\<close>)
qed

text \<open>The worker collects it.\<close>

lemma collect_runs:
  assumes "calm_run known on \<sigma>" "wpc \<sigma> = WIdle" "hpc \<sigma> = HIdle" "ld (mem \<sigma>) s Status = ST_READY"
    "ld (mem \<sigma>) s ResStatus = STATUS_OK" "(s, ld (mem \<sigma>) s Gen, c) \<in> tickets \<sigma>" "ld (mem \<sigma>) s Gen \<noteq> -1"
    "answer \<sigma> c = Some (STATUS_OK, out)"
  obtains \<sigma>' where "calm_run known on \<sigma>'" "got \<sigma>' = got \<sigma> @ [(c, STATUS_OK, out)]" "sent \<sigma>' = sent \<sigma>"
proof -
  let ?\<sigma>1 = "\<sigma>\<lparr>wpc := WCollect s c []\<rparr>"
  let ?m = "ping (drop_buf (mem \<sigma>) s Res)"
  let ?\<sigma>2 = "?\<sigma>1\<lparr>mem := release ?m s, wpc := WIdle, got := got \<sigma> @ [(c, STATUS_OK, concat ([] @ [response (mem \<sigma>) s]))]\<rparr>"
  have "bridge_step known on \<sigma> ?\<sigma>1" using bridge_step.collect_begin [OF assms(2,6)] by simp
  from calm_more [OF assms(1) this] have r1: "calm_run known on ?\<sigma>1" using assms(2,3) by simp
  have step: "bridge_step known on ?\<sigma>1 ?\<sigma>2"
    using bridge_step.collect_ok [of ?\<sigma>1 s c "[]" STATUS_OK ?m "response (mem \<sigma>) s"] assms(4,5)
    by (simp add: readRes_eq)
  have "\<not> raced ?\<sigma>1 ?\<sigma>2"
  proof -
    have "ld (release ?m s) t Gen = (if t = s then ld (mem \<sigma>) s Gen + 1 else ld (mem \<sigma>) t Gen)" for t
      by (simp add: release_def ping_def add1_put Let_def)
    with assms(3,7) show ?thesis by (auto simp: raced_def)
  qed
  with r1 step have r2: "calm_run known on ?\<sigma>2" by (rule calm_run.more)
  have "answer_ok ?\<sigma>2 c STATUS_OK (response (mem \<sigma>) s)"
    using calm_run_got [OF r2] by (auto simp: got_ok_def)
  with assms(8) have "response (mem \<sigma>) s = out" by (simp add: answer_ok_def)
  then show thesis by (intro that [OF r2]) simp_all
qed

lemma call_runs:
  assumes "calm_run known False \<sigma>" "wpc \<sigma> = WIdle" "hpc \<sigma> = HIdle" "s < SLOTS" "ld (mem \<sigma>) s Status = ST_FREE"
    "ld (mem \<sigma>) s Gen \<noteq> -1" "i < BUFS" "ctrl (mem \<sigma>) (FreeFlag Req i) = 0" "user_op op" "known op"
    "length p \<le> BUF_BYTES" "length out \<le> INLINE_BYTES"
  shows "\<exists>\<sigma>'. calm_run known False \<sigma>' \<and> sent \<sigma>' (next_call \<sigma>) = Some (op, p)
    \<and> taken \<sigma>' (next_call \<sigma>) = Some (op, p) \<and> got \<sigma>' = got \<sigma> @ [(next_call \<sigma>, STATUS_OK, out)]"
proof -
  obtain \<sigma>1 where a: "calm_run known False \<sigma>1" "wpc \<sigma>1 = WIdle" "hpc \<sigma>1 = HIdle" "ld (mem \<sigma>1) s Status = ST_PENDING"
    "ld (mem \<sigma>1) s Op = op" "still (mem \<sigma>) (mem \<sigma>1)" "(s, ld (mem \<sigma>) s Gen, next_call \<sigma>) \<in> tickets \<sigma>1"
    "owner \<sigma>1 s = Some (next_call \<sigma>)" "sent \<sigma>1 (next_call \<sigma>) = Some (op, p)" "got \<sigma>1 = got \<sigma>"
    "next_call \<sigma> < next_call \<sigma>1" "\<forall>k. ctrl (mem \<sigma>1) (FreeFlag Res k) = ctrl (mem \<sigma>) (FreeFlag Res k)"
    by (rule submit_runs [OF assms(1-5,7-9,11)])
  obtain \<sigma>2 j where b: "calm_run known False \<sigma>2" "wpc \<sigma>2 = WIdle" "hpc \<sigma>2 = HIdle" "ld (mem \<sigma>2) s Status = ST_RUNNING"
    "still (mem \<sigma>1) (mem \<sigma>2)" "j \<in> set (jobq \<sigma>2)" "jslot j = s" "jgen j = ld (mem \<sigma>1) s Gen" "jcall j = next_call \<sigma>"
    "tickets \<sigma>2 = tickets \<sigma>1" "got \<sigma>2 = got \<sigma>1" "sent \<sigma>2 = sent \<sigma>1"
    "owner \<sigma>2 = owner \<sigma>1" "\<forall>k. ctrl (mem \<sigma>2) (FreeFlag Res k) = ctrl (mem \<sigma>1) (FreeFlag Res k)"
    by (rule take_runs [OF a(1-3) assms(4) a(4)]) (use a assms(9,10) in simp_all)
  have "jgen j = ld (mem \<sigma>2) s Gen" using b(5,8) by (simp add: still_def)
  then obtain \<sigma>3 where d: "calm_run known False \<sigma>3" "wpc \<sigma>3 = WIdle" "hpc \<sigma>3 = HIdle" "ld (mem \<sigma>3) s Status = ST_READY"
    "ld (mem \<sigma>3) s ResStatus = STATUS_OK" "still (mem \<sigma>2) (mem \<sigma>3)" "answer \<sigma>3 (next_call \<sigma>) = Some (STATUS_OK, out)"
    "tickets \<sigma>3 = tickets \<sigma>2" "got \<sigma>3 = got \<sigma>2" "sent \<sigma>3 = sent \<sigma>2"
    using b(9) by (elim answer_runs [OF b(1-4,6,7) _ assms(12)]) simp_all
  have g: "ld (mem \<sigma>3) s Gen = ld (mem \<sigma>) s Gen" using a(6) b(5) d(6) by (simp add: still_def)
  obtain \<sigma>4 where e: "calm_run known False \<sigma>4" "got \<sigma>4 = got \<sigma>3 @ [(next_call \<sigma>, STATUS_OK, out)]" "sent \<sigma>4 = sent \<sigma>3"
    by (rule collect_runs [OF d(1-5) _ _ d(7)]) (use a(7) b(10) d(8) g assms(6) in simp_all)
  have "answer_ok \<sigma>4 (next_call \<sigma>) STATUS_OK out" using calm_run_got [OF e(1)] e(2) by (auto simp: got_ok_def)
  then show ?thesis using e a(9,10) b(11,12) d(9,10) by (intro exI [of _ \<sigma>4]) (simp add: answer_ok_def)
qed

text \<open>A first call on a fresh bridge.\<close>

lemma first_call:
  "\<exists>\<sigma>'. calm_run (\<lambda>op. op = 7) False \<sigma>' \<and> got \<sigma>' = [(0, STATUS_OK, [104, 105])]"
proof -
  have i: "calm_run (\<lambda>op. op = 7) False init" by (rule calm_run.start)
  show ?thesis
    using call_runs [OF i, of 5 2 7 "[1, 2, 3]" "[104, 105]"]
    by (auto simp: init_def new_shared_def newBridge_def SLOTS_def BUFS_def ST_FREE_def user_op_def OP_PUSH_def
        OP_CONTINUE_def BUF_BYTES_def INLINE_BYTES_def)
qed

section \<open>Nothing is lost\<close>

lemma free_holds_nothing:
  assumes "slot_ok l" "st l = ST_FREE"
  shows "\<not> req_held l" "\<not> res_held l"
  using assms by (cases "wat l"; auto simp: slot_ok_def call_ok_def piece_ok_def split: if_splits)+

lemma used_slot_has_someone:
  assumes "slot_ok l" "st l \<noteq> ST_FREE"
  shows "wat l \<noteq> WNone \<or> ticketed l \<or> st l = ST_CANCELLED"
  using assms by (cases "wat l") (auto simp: slot_ok_def split: if_splits)

lemma running_has_answerer:
  assumes "slot_ok l" "st l = ST_RUNNING"
  shows "cur_jobs l \<noteq> [] \<or> cur_ready l \<noteq> [] \<or> hat l \<noteq> HNone \<or> wat l = Bumped"
  using assms by (cases "wat l") (auto simp: slot_ok_def call_ok_def answering_def piece_ok_def acking_def split: if_splits)

section \<open>Properties\<close>

text \<open>
  C1. Every answer a program collects is its own: in a run without one of the three races of
  \<open>raced\<close>, whatever the worker and the host interleave, what \<open>collect\<close> hands over for a call
  is the answer the host gave to that call, and the host ran the call on the very opcode and
  payload that were submitted, whole, however many pieces either went in. A refusal is the
  end of what the host said (all of it, when it came in one piece).
\<close>

theorem answers_are_own:
  assumes "calm_run known on \<sigma>" "(c, x, r) \<in> set (got \<sigma>)"
  shows "sent \<sigma> c \<noteq> None \<and> taken \<sigma> c = sent \<sigma> c
    \<and> (x = STATUS_OK \<and> answer \<sigma> c = Some (STATUS_OK, r)
     \<or> x = STATUS_ERR \<and> (\<exists>full. answer \<sigma> c = Some (STATUS_ERR, full) \<and> suffix r full))"
  using calm_run_got [OF assms(1)] assms(2) by (auto simp: got_ok_def answer_ok_def)

theorem answers_are_own_witness:
  "\<exists>\<sigma>. calm_run (\<lambda>op. op = 7) False \<sigma> \<and> taken \<sigma> 0 = sent \<sigma> 0 \<and> answer \<sigma> 0 = Some (STATUS_OK, [104, 105])"
proof -
  obtain \<sigma> where s: "calm_run (\<lambda>op. op = 7) False \<sigma>" "got \<sigma> = [(0, STATUS_OK, [104, 105])]"
    using first_call by blast
  with answers_are_own [OF s(1), of 0 STATUS_OK "[104, 105]"] show ?thesis by auto
qed

text \<open>
  C2. A call can complete. Take a state of a race-free run without a scheduler, both sides between two
  operations, with a free slot whose generation is not the last one before it wraps, and a free request
  buffer. Then for an opcode with a handler, a request that fits one piece and an answer that fits the
  inline area, there is a schedule, race-free too, on which the call is submitted, taken whole, answered
  and collected with the handler's bytes as its result. (That there is one, not that every one is: the
  two sides may do other things first. Longer requests and answers are the pieces of C1.)
\<close>

theorem call_completes:
  assumes "calm_run known False \<sigma>" "wpc \<sigma> = WIdle" "hpc \<sigma> = HIdle" "s < SLOTS" "ld (mem \<sigma>) s Status = ST_FREE"
    "ld (mem \<sigma>) s Gen \<noteq> -1" "i < BUFS" "ctrl (mem \<sigma>) (FreeFlag Req i) = 0" "user_op op" "known op"
    "length p \<le> BUF_BYTES" "length out \<le> INLINE_BYTES"
  shows "\<exists>\<sigma>'. calm_run known False \<sigma>' \<and> sent \<sigma>' (next_call \<sigma>) = Some (op, p)
    \<and> taken \<sigma>' (next_call \<sigma>) = Some (op, p) \<and> got \<sigma>' = got \<sigma> @ [(next_call \<sigma>, STATUS_OK, out)]"
  using call_runs [OF assms] .

theorem call_completes_witness:
  "\<exists>\<sigma>'. calm_run (\<lambda>op. op = 7) False \<sigma>' \<and> got \<sigma>' = [(0, STATUS_OK, [104, 105])] \<and> taken \<sigma>' 0 = Some (7, [1, 2, 3])"
proof -
  have i: "calm_run (\<lambda>op. op = 7) False init" by (rule calm_run.start)
  show ?thesis
    using call_completes [OF i, of 5 2 7 "[1, 2, 3]" "[104, 105]"]
    by (auto simp: init_def new_shared_def newBridge_def SLOTS_def BUFS_def ST_FREE_def user_op_def OP_PUSH_def
        OP_CONTINUE_def BUF_BYTES_def INLINE_BYTES_def)
qed


text \<open>
  C5. No buffer is lost, in a run without one of the three races of \<open>raced\<close>: a pooled buffer is held
  exactly when it is attached to a slot that is in use, and to one slot only; so once every slot is free
  both pools are whole. (With a race it need not be: a stale answer written into a slot that is ready
  overwrites the handle of the buffer that is there, which nobody returns.)
\<close>

theorem no_buffer_lost:
  assumes "calm_run known on \<sigma>"
  shows "(i \<in> busy_bufs d (ctrl (mem \<sigma>)) \<longleftrightarrow>
      (\<exists>!s. attached (ctrl (mem \<sigma>)) s d = int i) \<and> (\<exists>s. attached (ctrl (mem \<sigma>)) s d = int i \<and> ld (mem \<sigma>) s Status \<noteq> ST_FREE))
    \<and> ((\<forall>s. ld (mem \<sigma>) s Status = ST_FREE) \<longrightarrow> busy_bufs d (ctrl (mem \<sigma>)) = {})"
proof -
  have i: "inv \<sigma>" using calm_run_inv [OF assms] .
  then have p: "pool_ok (mem \<sigma>)" by (simp add: inv_def)
  have n: "ld (mem \<sigma>) s Status \<noteq> ST_FREE" if "attached (ctrl (mem \<sigma>)) s d = int j" for s j
  proof
    assume "ld (mem \<sigma>) s Status = ST_FREE"
    with free_holds_nothing [OF slot_of_inv [OF i, of s]] that show False
      by (cases d) (simp_all add: look_def)
  qed
  have b: "j \<in> busy_bufs d (ctrl (mem \<sigma>)) \<longleftrightarrow> (\<exists>s. attached (ctrl (mem \<sigma>)) s d = int j)" for j
  proof
    show "j \<in> busy_bufs d (ctrl (mem \<sigma>)) \<Longrightarrow> \<exists>s. attached (ctrl (mem \<sigma>)) s d = int j"
      using p by (auto simp: busy_bufs_def pool_ok_def)
    assume "\<exists>s. attached (ctrl (mem \<sigma>)) s d = int j"
    then obtain s where s: "attached (ctrl (mem \<sigma>)) s d = int j" by blast
    from p have "attached (ctrl (mem \<sigma>)) s d < int BUFS"
      "0 \<le> attached (ctrl (mem \<sigma>)) s d \<longrightarrow> ctrl (mem \<sigma>) (FreeFlag d (nat (attached (ctrl (mem \<sigma>)) s d))) \<noteq> 0"
      by (simp_all add: pool_ok_def)
    with s show "j \<in> busy_bufs d (ctrl (mem \<sigma>))" by (simp add: busy_bufs_def)
  qed
  have u: "s = t" if "attached (ctrl (mem \<sigma>)) s d = int j" "attached (ctrl (mem \<sigma>)) t d = int j" for s t j
  proof -
    have "attached (ctrl (mem \<sigma>)) s d = attached (ctrl (mem \<sigma>)) t d" "0 \<le> attached (ctrl (mem \<sigma>)) s d"
      using that by simp_all
    with p show ?thesis unfolding pool_ok_def by blast
  qed
  show ?thesis using b n u by blast
qed

theorem no_buffer_lost_witness:
  "\<exists>\<sigma>. calm_run (\<lambda>op. op = 7) False \<sigma> \<and> got \<sigma> \<noteq> [] \<and> ((\<forall>s. ld (mem \<sigma>) s Status = ST_FREE) \<longrightarrow> busy_bufs Res (ctrl (mem \<sigma>)) = {})"
proof -
  obtain \<sigma> where s: "calm_run (\<lambda>op. op = 7) False \<sigma>" "got \<sigma> = [(0, STATUS_OK, [104, 105])]"
    using first_call by blast
  with no_buffer_lost [OF s(1)] show ?thesis by auto
qed

text \<open>
  C4. No slot is stranded, in a run without one of the three races of \<open>raced\<close>: a slot that is not free
  is being worked on by the worker, or belongs to a ticket that is still live (to be collected or
  cancelled), or is cancelled, which the next sweep hands back. And a call the host has taken is in the
  hands of someone who will answer it (a handler, the scheduler or the host itself), except while the
  worker is between the two stores that cancel it, when its generation has moved and nobody is to.
\<close>

theorem no_slot_stranded:
  assumes "calm_run known on \<sigma>" "ld (mem \<sigma>) s Status \<noteq> ST_FREE"
  shows "(worker_on (wpc \<sigma>) s \<noteq> WNone \<or> (\<exists>c. (s, ld (mem \<sigma>) s Gen, c) \<in> tickets \<sigma>) \<or> ld (mem \<sigma>) s Status = ST_CANCELLED)
    \<and> (ld (mem \<sigma>) s Status = ST_RUNNING \<and> wpc \<sigma> \<noteq> WCancel2 s \<longrightarrow>
        (\<exists>j\<in>set (jobq \<sigma>). jslot j = s \<and> jgen j = ld (mem \<sigma>) s Gen)
      \<or> (\<exists>q\<in>set (readyq \<sigma>). rslot q = s \<and> rgen q = ld (mem \<sigma>) s Gen)
      \<or> host_on (hpc \<sigma>) s \<noteq> HNone)"
proof -
  have l: "slot_ok (look \<sigma> s)" using slot_of_inv [OF calm_run_inv [OF assms(1)]] .
  have t: "ticketed (look \<sigma> s) \<Longrightarrow> \<exists>c. (s, ld (mem \<sigma>) s Gen, c) \<in> tickets \<sigma>"
    by (auto simp: ticketed_def look_def tickets_of_def)
  have j: "cur_jobs (look \<sigma> s) \<noteq> [] \<Longrightarrow> \<exists>j\<in>set (jobq \<sigma>). jslot j = s \<and> jgen j = ld (mem \<sigma>) s Gen"
    by (auto simp: cur_jobs_def look_def jobs_of_def job_view_def filter_empty_conv)
  have r: "cur_ready (look \<sigma> s) \<noteq> [] \<Longrightarrow> \<exists>q\<in>set (readyq \<sigma>). rslot q = s \<and> rgen q = ld (mem \<sigma>) s Gen"
    by (auto simp: cur_ready_def look_def replies_of_def reply_view_def filter_empty_conv)
  have w: "worker_on (wpc \<sigma>) s = Bumped \<Longrightarrow> wpc \<sigma> = WCancel2 s"
    by (cases "wpc \<sigma>") (auto split: if_splits)
  show ?thesis
    using used_slot_has_someone [OF l] running_has_answerer [OF l] assms(2) t j r w by auto
qed

theorem no_slot_stranded_witness:
  "\<exists>\<sigma>. calm_run (\<lambda>op. op = 7) False \<sigma> \<and> ld (mem \<sigma>) 5 Status = ST_PENDING
    \<and> (worker_on (wpc \<sigma>) 5 \<noteq> WNone \<or> (\<exists>c. (5, ld (mem \<sigma>) 5 Gen, c) \<in> tickets \<sigma>) \<or> ld (mem \<sigma>) 5 Status = ST_CANCELLED)"
proof -
  obtain \<sigma> where s: "calm_run (\<lambda>op. op = 7) False \<sigma>" "ld (mem \<sigma>) 5 Status = ST_PENDING"
    by (rule submit_runs [OF calm_run.start, of 5 2 7 "[1]" "\<lambda>op. op = 7" False])
      (simp_all add: init_def new_shared_def newBridge_def SLOTS_def BUFS_def ST_FREE_def user_op_def OP_PUSH_def
        OP_CONTINUE_def BUF_BYTES_def)
  with no_slot_stranded [OF s(1), of 5] show ?thesis by auto
qed

end
