(* ===== verification/Bridge_Race.thy ===== *)
theory Bridge_Race
  imports Bridge_Props
begin

text \<open>
  What the races do that the other theories exclude. A run is followed in which the host copies a
  request between the two stores of \<open>cancel\<close> (\<open>call.ts\<close>): the answer of the cancelled call is
  delivered to the next call that uses the slot.
\<close>

abbreviation steps :: "(i32 \<Rightarrow> bool) \<Rightarrow> sys \<Rightarrow> sys \<Rightarrow> bool" where
  "steps known \<equiv> (bridge_step known False)\<^sup>*\<^sup>*"

section \<open>Pieces of a run\<close>

text \<open>\<open>submit\<close> of a request that fits one buffer.\<close>

lemma submit_steps:
  assumes "wpc \<sigma> = WIdle" "s < SLOTS" "ld (mem \<sigma>) s Status = ST_FREE" "i < BUFS" "ctrl (mem \<sigma>) (FreeFlag Req i) = 0"
    "user_op op" "length p \<le> BUF_BYTES"
  obtains \<sigma>' bi where "steps known \<sigma> \<sigma>'" "wpc \<sigma>' = WIdle" "hpc \<sigma>' = hpc \<sigma>" "ld (mem \<sigma>') s Status = ST_PENDING"
    "ld (mem \<sigma>') s Op = op" "ld (mem \<sigma>') s Gen = ld (mem \<sigma>) s Gen" "request (mem \<sigma>') s = p"
    "bi < BUFS" "attached (ctrl (mem \<sigma>')) s Req = int bi"
    "tickets \<sigma>' = insert (s, ld (mem \<sigma>) s Gen, next_call \<sigma>) (tickets \<sigma>)" "owner \<sigma>' s = Some (next_call \<sigma>)"
    "next_call \<sigma>' = Suc (next_call \<sigma>)" "jobq \<sigma>' = jobq \<sigma>" "got \<sigma>' = got \<sigma>" "hst \<sigma>' = hst \<sigma>" "answer \<sigma>' = answer \<sigma>"
proof -
  let ?c = "(ctrl (mem \<sigma>))(Slot s Status := ST_CLAIMED)"
  let ?\<sigma>1 = "\<sigma>\<lparr>mem := (mem \<sigma>)\<lparr>ctrl := ?c\<rparr>, wpc := WFill s (?c (Slot s Gen)) op p,
      owner := (owner \<sigma>)(s := Some (next_call \<sigma>)), next_call := Suc (next_call \<sigma>),
      sent := (sent \<sigma>)(next_call \<sigma> \<mapsto> (op, p))\<rparr>"
  have 1: "bridge_step known False \<sigma> ?\<sigma>1"
    using assms by (intro bridge_step.claim) (simp_all add: compareExchange_def fun_upd_def)
  obtain m bi where t: "takeReqBuf_pass (mem ?\<sigma>1) = (m, Some bi)"
    by (rule takeReqBuf_some [of i "mem ?\<sigma>1"]) (use assms(4,5) in simp_all)
  let ?\<sigma>2 = "?\<sigma>1\<lparr>mem := publish m s bi op p, wpc := WIdle, tickets := insert (s, ld (mem \<sigma>) s Gen, next_call \<sigma>) (tickets \<sigma>)\<rparr>"
  have 2: "bridge_step known False ?\<sigma>1 ?\<sigma>2"
    using bridge_step.push_last [OF _ assms(7) t, of s "ld (mem \<sigma>) s Gen" op "next_call \<sigma>"] by simp
  note P1 = takeReqBuf_publish(1) [OF t] and P3 = takeReqBuf_publish(3) [OF t, of s op p]
  have "length p < 2 ^ 31" using assms(7) by (simp add: BUF_BYTES_def)
  moreover have at: "attached (ctrl (publish m s bi op p)) s Req = int bi"
    using P1 by (simp add: P3 ping_def add1_put)
  ultimately have "request (publish m s bi op p) s = p"
    using slice0_fill unfolding request_def Let_def at by (simp add: P3 ping_def add1_put load_buf_def)
  with at show thesis
    using 1 2 P1
    by (intro that [of ?\<sigma>2 bi]) (auto simp: P3 ping_def add1_put intro: converse_rtranclp_into_rtranclp)
qed

text \<open>\<open>take\<close> from the point at which the host has seen the slot pending, whatever the worker is at.\<close>

lemma take_steps:
  assumes "hpc \<sigma> = HSaw s" "ld (mem \<sigma>) s Status = ST_PENDING" "user_op (ld (mem \<sigma>) s Op)" "known (ld (mem \<sigma>) s Op)"
    "owner \<sigma> s = Some c" "partial (hst \<sigma>) s = []"
  obtains \<sigma>' where "steps known \<sigma> \<sigma>'" "hpc \<sigma>' = HIdle" "wpc \<sigma>' = wpc \<sigma>" "ld (mem \<sigma>') s Status = ST_RUNNING"
    "ld (mem \<sigma>') s Gen = ld (mem \<sigma>) s Gen" "partial (hst \<sigma>') s = []"
    "jobq \<sigma>' = jobq \<sigma> @ [\<lparr>jslot = s, jgen = ld (mem \<sigma>) s Gen, jcall = c, jop = ld (mem \<sigma>) s Op, jbody = request (mem \<sigma>) s\<rparr>]"
    "taken \<sigma>' c = Some (ld (mem \<sigma>) s Op, request (mem \<sigma>) s)"
    "\<And>bi. attached (ctrl (mem \<sigma>)) s Req = int bi \<Longrightarrow> ctrl (mem \<sigma>') (FreeFlag Req bi) = 0"
    "tickets \<sigma>' = tickets \<sigma>" "got \<sigma>' = got \<sigma>" "next_call \<sigma>' = next_call \<sigma>" "answer \<sigma>' = answer \<sigma>"
proof -
  let ?m = "mem \<sigma>" and ?op = "ld (mem \<sigma>) s Op" and ?g = "ld (mem \<sigma>) s Gen"
  let ?m1 = "add1 (drop_buf ?m s Req) DoneSeq"
  let ?\<sigma>1 = "\<sigma>\<lparr>mem := ?m1, hpc := HTake s ?g ?op (request ?m s)\<rparr>"
  let ?h = "(hst \<sigma>)\<lparr>partial := (partial (hst \<sigma>))(s := [])\<rparr>"
  let ?j = "\<lparr>jslot = s, jgen = ?g, jcall = c, jop = ?op, jbody = request ?m s\<rparr>"
  let ?\<sigma>2 = "?\<sigma>1\<lparr>mem := put ?m1 (Slot s Status) ST_RUNNING, hst := ?h, hpc := HIdle, jobq := jobq \<sigma> @ [?j],
      taken := (taken \<sigma>)(c \<mapsto> (?op, request ?m s))\<rparr>"
  have 1: "bridge_step known False \<sigma> ?\<sigma>1"
    using bridge_step.take_copy [OF assms(1), of ?m1 ?g ?op "request ?m s"] by (simp add: take_read_eq)
  have "take_dispatch known (hst \<sigma>) s ?op (request ?m s) = (?h, Run ?op (request ?m s))"
    using assms(3,4,6) by (auto simp: take_dispatch_def user_op_def Let_def)
  moreover have "take_cas ?m1 s = (put ?m1 (Slot s Status) ST_RUNNING, True)"
    using assms(2) by (simp add: take_cas_def compareExchange_def put_def add1_put)
  ultimately have 2: "bridge_step known False ?\<sigma>1 ?\<sigma>2"
    using bridge_step.take_run [of ?\<sigma>1 s ?g ?op "request ?m s" "put ?m1 (Slot s Status) ST_RUNNING" known ?h "request ?m s" c] assms(5)
    by simp
  show thesis
    by (rule that [of ?\<sigma>2])
      (use 1 2 in \<open>auto simp: add1_put ctrl_drop_buf releaseBuf_def intro: converse_rtranclp_into_rtranclp\<close>)
qed

text \<open>An answer that fits the inline area, written and published.\<close>

lemma write_answer_small:
  fixes h :: host and x :: i32
  assumes "ld m s Status = ST_RUNNING" "length b \<le> INLINE_BYTES"
  defines "n \<equiv> fst (write_answer m h s x b (ld m s Gen))"
  shows "ld n s Status = ST_READY" "ld n s ResStatus = x" "response n s = b"
proof -
  let ?i = "m\<lparr>inlineBuf := (inlineBuf m)(s := fill (inlineBuf m s) b), ctrl := attach (ctrl m) s Res (-1)\<rparr>"
  let ?p = "put (put ?i (Slot s ResLen) (word_of_nat (length b))) (Slot s ResStatus) x"
  have w: "write_fill m h s x b = (?p, h)"
    using assms(2) by (simp add: write_fill_def Let_def)
  have r: "ld ?p s Status = ST_RUNNING" using assms(1) by (simp add: attach_def)
  have n: "n = put (put ?p (Slot s Status) ST_READY) DoneSeq (ctrl ?p DoneSeq + 1)"
    unfolding n_def write_answer_def w
    using r by (simp add: write_publish_def compareExchange_def add1_put del: put_simps) (simp add: put_def)
  have a: "attached (attach (ctrl m) s Res (-1)) s Res = -1" by (simp add: attached_def attach_def)
  have "length b < 2 ^ 31" using assms(2) by (simp add: INLINE_BYTES_def)
  from slice0_fill [OF this] show "response n s = b" by (simp add: n response_put response_len a)
  show "ld n s Status = ST_READY" "ld n s ResStatus = x" by (simp_all add: n attach_def)
qed

text \<open>A handler that ends and its answer, written whole into the inline area.\<close>

lemma answer_steps:
  assumes "hpc \<sigma> = HIdle" "j \<in> set (jobq \<sigma>)" "jslot j = s" "jgen j = ld (mem \<sigma>) s Gen" "ld (mem \<sigma>) s Status = ST_RUNNING"
    "length out \<le> INLINE_BYTES"
  obtains \<sigma>' where "steps known \<sigma> \<sigma>'" "wpc \<sigma>' = wpc \<sigma>" "ld (mem \<sigma>') s Status = ST_READY"
    "ld (mem \<sigma>') s ResStatus = STATUS_OK" "ld (mem \<sigma>') s Gen = ld (mem \<sigma>) s Gen" "response (mem \<sigma>') s = out"
    "answer \<sigma>' = (answer \<sigma>)(jcall j \<mapsto> (STATUS_OK, out))" "tickets \<sigma>' = tickets \<sigma>" "got \<sigma>' = got \<sigma>" "taken \<sigma>' = taken \<sigma>"
proof -
  let ?g = "ld (mem \<sigma>) s Gen"
  let ?\<sigma>1 = "\<sigma>\<lparr>jobq := remove1 j (jobq \<sigma>), hpc := HReply (jslot j) STATUS_OK out (jgen j),
          answer := (answer \<sigma>)(jcall j \<mapsto> (STATUS_OK, out))\<rparr>"
  let ?\<sigma>2 = "?\<sigma>1\<lparr>hpc := HWrite s STATUS_OK out ?g\<rparr>"
  have 1: "bridge_step known False \<sigma> ?\<sigma>1" using assms by (intro bridge_step.job_done) simp_all
  have 2: "bridge_step known False ?\<sigma>1 ?\<sigma>2"
    using bridge_step.reply_now [of ?\<sigma>1 s STATUS_OK out "jgen j" False known] assms(3) by simp
  obtain m h where w: "write_fill (mem \<sigma>) (hst \<sigma>) s STATUS_OK out = (m, h)" by fastforce
  let ?\<sigma>3 = "?\<sigma>2\<lparr>mem := m, hst := h, hpc := HFilled s\<rparr>"
  have 3: "bridge_step known False ?\<sigma>2 ?\<sigma>3" using w by (intro bridge_step.write_fill) simp_all
  obtain n k where p: "write_publish m h s = (n, k)" by fastforce
  let ?\<sigma>4 = "?\<sigma>3\<lparr>mem := n, hst := k, hpc := HIdle\<rparr>"
  have 4: "bridge_step known False ?\<sigma>3 ?\<sigma>4" using p by (intro bridge_step.write_publish) simp_all
  have n: "n = fst (write_answer (mem \<sigma>) (hst \<sigma>) s STATUS_OK out ?g)" by (simp add: write_answer_def w p)
  note W = write_answer_small [OF assms(5,6), where h = "hst \<sigma>" and x = STATUS_OK, folded n]
  have "ld n s Gen = ?g"
    using w p assms(5,6)
    by (auto simp: write_fill_def write_publish_def compareExchange_def Let_def attach_def add1_put split: if_splits)
  with 1 2 3 4 W show thesis
    by (intro that [of ?\<sigma>4]) (auto intro: converse_rtranclp_into_rtranclp)
qed

lemma collect_steps:
  assumes "wpc \<sigma> = WIdle" "(s, ld (mem \<sigma>) s Gen, c) \<in> tickets \<sigma>" "ld (mem \<sigma>) s Status = ST_READY" "ld (mem \<sigma>) s ResStatus = STATUS_OK"
  obtains \<sigma>' where "steps known \<sigma> \<sigma>'" "got \<sigma>' = got \<sigma> @ [(c, STATUS_OK, response (mem \<sigma>) s)]"
    "answer \<sigma>' = answer \<sigma>" "taken \<sigma>' = taken \<sigma>"
proof -
  let ?\<sigma>1 = "\<sigma>\<lparr>wpc := WCollect s c []\<rparr>"
  let ?m = "ping (drop_buf (mem \<sigma>) s Res)"
  let ?\<sigma>2 = "?\<sigma>1\<lparr>mem := release ?m s, wpc := WIdle, got := got \<sigma> @ [(c, STATUS_OK, concat ([] @ [response (mem \<sigma>) s]))]\<rparr>"
  have 1: "bridge_step known False \<sigma> ?\<sigma>1" using bridge_step.collect_begin [OF assms(1,2)] by simp
  have 2: "bridge_step known False ?\<sigma>1 ?\<sigma>2"
    using bridge_step.collect_ok [of ?\<sigma>1 s c "[]" STATUS_OK ?m "response (mem \<sigma>) s"] assms(3,4)
    by (simp add: readRes_eq)
  from 1 2 show thesis by (intro that [of ?\<sigma>2]) (auto intro: converse_rtranclp_into_rtranclp)
qed

section \<open>The race\<close>

text \<open>The first call, cancelled while it is taken: its job is left with the generation of the free slot.\<close>

lemma cancel_while_taken:
  fixes p :: bytes
  assumes "user_op op" "known op" "length p \<le> BUF_BYTES"
  obtains \<sigma> bi where "steps known init \<sigma>" "wpc \<sigma> = WIdle" "hpc \<sigma> = HIdle" "ld (mem \<sigma>) 0 Status = ST_FREE" "ld (mem \<sigma>) 0 Gen = 1"
    "partial (hst \<sigma>) 0 = []" "bi < BUFS" "ctrl (mem \<sigma>) (FreeFlag Req bi) = 0"
    "jobq \<sigma> = [\<lparr>jslot = 0, jgen = 1, jcall = 0, jop = op, jbody = p\<rparr>]" "next_call \<sigma> = 1" "got \<sigma> = []" "answer \<sigma> = Map.empty"
proof -
  have free: "ld (mem init) 0 Status = ST_FREE" "ctrl (mem init) (FreeFlag Req 0) = 0" "ld (mem init) 0 Gen = 0"
    and small: "0 < SLOTS" "0 < BUFS"
    by (simp_all add: init_def new_shared_def newBridge_def ST_FREE_def SLOTS_def BUFS_def)
  obtain a bi where a: "steps known init a" "wpc a = WIdle" "hpc a = hpc init" "ld (mem a) 0 Status = ST_PENDING"
    "ld (mem a) 0 Op = op" "ld (mem a) 0 Gen = ld (mem init) 0 Gen" "request (mem a) 0 = p"
    "bi < BUFS" "attached (ctrl (mem a)) 0 Req = int bi"
    "tickets a = insert (0, ld (mem init) 0 Gen, next_call init) (tickets init)" "owner a 0 = Some (next_call init)"
    "next_call a = Suc (next_call init)" "jobq a = jobq init" "got a = got init" "hst a = hst init" "answer a = answer init"
    by (rule submit_steps [of init 0 0 op p known]) (use assms free small in \<open>simp_all add: init_def\<close>)
  let ?b = "a\<lparr>hpc := HSaw 0\<rparr>" let ?c = "?b\<lparr>wpc := WCancel1 0\<rparr>"
  let ?d = "?c\<lparr>mem := add1 (mem ?c) (Slot 0 Gen), wpc := WCancel2 0\<rparr>"
  have b: "bridge_step known False a ?b" by (rule bridge_step.saw) (use a small in \<open>simp_all add: init_def\<close>)
  have c: "bridge_step known False ?b ?c"
    by (rule bridge_step.cancel [where g = "ld (mem a) 0 Gen" and c = "next_call init"]) (use a in \<open>simp_all add: ST_PENDING_def ST_READY_def\<close>)
  have d: "bridge_step known False ?c ?d" by (rule bridge_step.cancel_bump) simp
  have req: "request (add1 (mem a) (Slot 0 Gen)) 0 = p" using a(7) by (simp add: add1_put request_put)
  obtain e where e: "steps known ?d e" "hpc e = HIdle" "wpc e = wpc ?d" "ld (mem e) 0 Status = ST_RUNNING"
    "ld (mem e) 0 Gen = ld (mem ?d) 0 Gen" "partial (hst e) 0 = []"
    "jobq e = jobq ?d @ [\<lparr>jslot = 0, jgen = ld (mem ?d) 0 Gen, jcall = 0, jop = ld (mem ?d) 0 Op, jbody = request (mem ?d) 0\<rparr>]"
    "taken e 0 = Some (ld (mem ?d) 0 Op, request (mem ?d) 0)"
    "\<And>bi. attached (ctrl (mem ?d)) 0 Req = int bi \<Longrightarrow> ctrl (mem e) (FreeFlag Req bi) = 0"
    "tickets e = tickets ?d" "got e = got ?d" "next_call e = next_call ?d" "answer e = answer ?d"
    by (rule take_steps [of ?d 0 known 0]) (use a assms(1,2) in \<open>simp_all add: add1_put init_def new_host_def\<close>)
  let ?f = "e\<lparr>mem := ping (put (mem e) (Slot 0 Status) ST_CANCELLED), wpc := WIdle\<rparr>"
  have f: "bridge_step known False e ?f" by (rule bridge_step.cancel_store) (use e(3) in simp)
  obtain m h where ab: "abandon (mem ?f) (hst ?f) 0 = (m, h)" by fastforce
  let ?g = "?f\<lparr>mem := m, hst := h\<rparr>"
  have g: "bridge_step known False ?f ?g"
    by (rule bridge_step.abandon) (use e(2) small ab in \<open>simp_all add: ping_def add1_put\<close>)
  have m: "ld m 0 Status = ST_FREE" "ld m 0 Gen = 1" "partial h 0 = []" "ctrl m (FreeFlag Req bi) = 0"
    using ab e(5,6) e(9) [of bi] a(6,9) free(3)
    by (auto simp: abandon_def ping_def add1_put Let_def ctrl_drop_buf releaseBuf_def)
  have job: "jobq e = [\<lparr>jslot = 0, jgen = 1, jcall = 0, jop = op, jbody = p\<rparr>]"
    using e(7) a(5,6,13) free(3) req by (simp add: add1_put init_def)
  have "steps known init ?g"
    using a(1) b c d e(1) f g by (meson converse_rtranclp_into_rtranclp rtranclp_trans rtranclp.rtrancl_refl)
  then show thesis
    by (rule that [of ?g bi]) (use m job a e in \<open>simp_all add: init_def\<close>)
qed

text \<open>
  C7. Between the two stores of \<open>cancel\<close> an answer can be given to the wrong call: there is a run in
  which a call is cancelled while the host takes it, the slot is used again, and the second call
  collects what the handler answered to the first, though its own handler has not ended.
\<close>

theorem cancelled_answer_misdelivered:
  fixes p p' out :: bytes
  assumes "user_op op" "known op" "length p \<le> BUF_BYTES" "length p' \<le> BUF_BYTES" "length out \<le> INLINE_BYTES"
  shows "\<exists>\<sigma>. any_run known False \<sigma> \<and> got \<sigma> = [(1, STATUS_OK, out)] \<and> taken \<sigma> 1 = Some (op, p')
    \<and> answer \<sigma> 0 = Some (STATUS_OK, out) \<and> answer \<sigma> 1 = None"
proof -
  obtain g bi where g: "steps known init g" "wpc g = WIdle" "hpc g = HIdle" "ld (mem g) 0 Status = ST_FREE" "ld (mem g) 0 Gen = 1"
    "partial (hst g) 0 = []" "bi < BUFS" "ctrl (mem g) (FreeFlag Req bi) = 0"
    "jobq g = [\<lparr>jslot = 0, jgen = 1, jcall = 0, jop = op, jbody = p\<rparr>]" "next_call g = 1" "got g = []" "answer g = Map.empty"
    by (rule cancel_while_taken [of op known p]) (use assms in simp_all)
  have small: "0 < SLOTS" by (simp add: SLOTS_def)
  obtain i bi' where i: "steps known g i" "wpc i = WIdle" "hpc i = hpc g" "ld (mem i) 0 Status = ST_PENDING"
    "ld (mem i) 0 Op = op" "ld (mem i) 0 Gen = ld (mem g) 0 Gen" "request (mem i) 0 = p'"
    "bi' < BUFS" "attached (ctrl (mem i)) 0 Req = int bi'"
    "tickets i = insert (0, ld (mem g) 0 Gen, next_call g) (tickets g)" "owner i 0 = Some (next_call g)"
    "next_call i = Suc (next_call g)" "jobq i = jobq g" "got i = got g" "hst i = hst g" "answer i = answer g"
    by (rule submit_steps [of g 0 bi op p' known]) (use assms g small in simp_all)
  let ?j = "i\<lparr>hpc := HSaw 0\<rparr>"
  have j: "bridge_step known False i ?j" by (rule bridge_step.saw) (use i g(3) small in simp_all)
  obtain k where k: "steps known ?j k" "hpc k = HIdle" "wpc k = wpc ?j" "ld (mem k) 0 Status = ST_RUNNING"
    "ld (mem k) 0 Gen = ld (mem ?j) 0 Gen" "partial (hst k) 0 = []"
    "jobq k = jobq ?j @ [\<lparr>jslot = 0, jgen = ld (mem ?j) 0 Gen, jcall = 1, jop = ld (mem ?j) 0 Op, jbody = request (mem ?j) 0\<rparr>]"
    "taken k 1 = Some (ld (mem ?j) 0 Op, request (mem ?j) 0)"
    "\<And>bi. attached (ctrl (mem ?j)) 0 Req = int bi \<Longrightarrow> ctrl (mem k) (FreeFlag Req bi) = 0"
    "tickets k = tickets ?j" "got k = got ?j" "next_call k = next_call ?j" "answer k = answer ?j"
    by (rule take_steps [of ?j 0 known 1]) (use i g assms(1,2) in simp_all)
  obtain l where l: "steps known k l" "wpc l = wpc k" "ld (mem l) 0 Status = ST_READY"
    "ld (mem l) 0 ResStatus = STATUS_OK" "ld (mem l) 0 Gen = ld (mem k) 0 Gen" "response (mem l) 0 = out"
    "answer l = (answer k)(jcall \<lparr>jslot = 0, jgen = 1, jcall = 0, jop = op, jbody = p\<rparr> \<mapsto> (STATUS_OK, out))"
    "tickets l = tickets k" "got l = got k" "taken l = taken k"
    by (rule answer_steps [of k "\<lparr>jslot = 0, jgen = 1, jcall = 0, jop = op, jbody = p\<rparr>" 0 out known])
      (use k i g assms(5) in simp_all)
  obtain q where q: "steps known l q" "got q = got l @ [(1, STATUS_OK, response (mem l) 0)]" "answer q = answer l" "taken q = taken l"
    by (rule collect_steps [of l 0 1 known]) (use l k i g in simp_all)
  have "steps known init q"
    using g(1) i(1) j k(1) l(1) q(1) by (meson converse_rtranclp_into_rtranclp rtranclp_trans)
  then have "any_run known False q"
    by (induction rule: rtranclp_induct) (auto intro: any_run.intros)
  moreover have "got q = [(1, STATUS_OK, out)]" using q(2) l(6,9) k(11) i(14) g(11) by simp
  moreover have "answer q 0 = Some (STATUS_OK, out)" "answer q 1 = None"
    using q(3) l(7) k(13) i(16) g(12) by simp_all
  moreover have "taken q 1 = Some (op, p')" using q(4) l(10) k(8) i(5,7) by simp
  ultimately show ?thesis by blast
qed

theorem cancelled_answer_misdelivered_witness:
  "\<exists>\<sigma>. any_run (\<lambda>op. op = 7) False \<sigma> \<and> got \<sigma> = [(1, STATUS_OK, [104, 105])] \<and> answer \<sigma> 1 = None"
  using cancelled_answer_misdelivered [of 7 "\<lambda>op. op = 7" "[1]" "[2]" "[104, 105]"]
  by (auto simp: user_op_def OP_PUSH_def OP_CONTINUE_def BUF_BYTES_def INLINE_BYTES_def)

end
