(* ===== verification/Bridge_Stop.thy ===== *)
theory Bridge_Stop
  imports Bridge_Props
begin

text \<open>
  A host that stops: \<open>failPending\<close> and \<open>stop\<close> of \<open>respond.ts\<close>, one slot and one atomic access at a
  time, while the worker goes on with whatever it is doing. \<open>stop\<close> runs to its end on the host's
  thread, so no handler and no delivery of the scheduler comes in between; the worker's steps do,
  and so do the two stretches of \<open>write\<close> that an answer takes.
\<close>

section \<open>The sweep\<close>

text \<open>Before \<open>stop\<close>, with slots left to look at, before the exchange on a pending slot, and after.\<close>

datatype stopping = Serving | Sweeping "nat list" | Exchanging nat "nat list" | Stopped

definition refusal :: bytes where
  "refusal = faultedBytes FAULT_OTHER STOPPED_WHY"

inductive stop_step :: "(i32 \<Rightarrow> bool) \<Rightarrow> bool \<Rightarrow> sys \<times> stopping \<Rightarrow> sys \<times> stopping \<Rightarrow> bool" for known on where
  raise:
    "hpc \<sigma> = HIdle \<Longrightarrow>
     stop_step known on (\<sigma>, Serving) (\<sigma>\<lparr>mem := fail_flag (mem \<sigma>)\<rparr>, Sweeping [0..<SLOTS])"
| see_pending:
    "hpc \<sigma> = HIdle \<Longrightarrow> fail_look (mem \<sigma>) s = TakeIt \<Longrightarrow>
     stop_step known on (\<sigma>, Sweeping (s # ss)) (\<sigma>, Exchanging s ss)"
| see_running:
    "hpc \<sigma> = HIdle \<Longrightarrow> fail_look (mem \<sigma>) s = AnswerIt \<Longrightarrow>
     stop_step known on (\<sigma>, Sweeping (s # ss)) (\<sigma>\<lparr>hpc := HReply s STATUS_ERR refusal (ld (mem \<sigma>) s Gen)\<rparr>, Sweeping ss)"
| see_other:
    "hpc \<sigma> = HIdle \<Longrightarrow> fail_look (mem \<sigma>) s = PassBy \<Longrightarrow>
     stop_step known on (\<sigma>, Sweeping (s # ss)) (\<sigma>, Sweeping ss)"
| exchange_won:
    "hpc \<sigma> = HIdle \<Longrightarrow> fail_exchange (mem \<sigma>) s = (m, True) \<Longrightarrow>
     stop_step known on (\<sigma>, Exchanging s ss) (\<sigma>\<lparr>mem := m, hpc := HReply s STATUS_ERR refusal (ld m s Gen)\<rparr>, Sweeping ss)"
| exchange_lost:
    "hpc \<sigma> = HIdle \<Longrightarrow> fail_exchange (mem \<sigma>) s = (m, False) \<Longrightarrow>
     stop_step known on (\<sigma>, Exchanging s ss) (\<sigma>\<lparr>mem := m\<rparr>, Sweeping ss)"
| finish:
    "hpc \<sigma> = HIdle \<Longrightarrow>
     stop_step known on (\<sigma>, Sweeping []) (\<sigma>\<lparr>mem := stop_wake (fail_wake (mem \<sigma>))\<rparr>, Stopped)"
| meanwhile:
    "bridge_step known on \<sigma> \<sigma>' \<Longrightarrow> hpc \<sigma> \<noteq> HIdle \<or> hpc \<sigma>' = HIdle \<Longrightarrow>
     stop_step known on (\<sigma>, w) (\<sigma>', w)"

section \<open>Specification\<close>

definition waiting :: "shared \<Rightarrow> nat \<Rightarrow> bool" where
  "waiting m s \<longleftrightarrow> ld m s Status = ST_PENDING \<or> ld m s Status = ST_RUNNING"

text \<open>The slot holds the refusal as its answer.\<close>

definition refused :: "shared \<Rightarrow> nat \<Rightarrow> bool" where
  "refused m s \<longleftrightarrow> ld m s Status = ST_READY \<and> ld m s ResStatus = STATUS_ERR \<and> response m s = refusal"

text \<open>The scheduler holds the refusal, under the slot's generation.\<close>

definition refusal_queued :: "sys \<Rightarrow> nat \<Rightarrow> bool" where
  "refusal_queued \<sigma> s \<longleftrightarrow>
     (\<exists>q\<in>set (readyq \<sigma>). rslot q = s \<and> rgen q = ld (mem \<sigma>) s Gen \<and> rstatus q = STATUS_ERR \<and> rbody q = refusal)"

text \<open>
  The worker is done with call \<open>c\<close> in slot \<open>s\<close>: the slot is free or another call's, or the call is
  cancelled, of which the store of the status may still be to come.
\<close>

definition given_up :: "sys \<Rightarrow> nat \<Rightarrow> nat \<Rightarrow> bool" where
  "given_up \<sigma> s c \<longleftrightarrow>
     owner \<sigma> s \<noteq> Some c \<or> ld (mem \<sigma>) s Status = ST_FREE \<or> ld (mem \<sigma>) s Status = ST_CANCELLED \<or> wpc \<sigma> = WCancel2 s"

section \<open>The invariant of the sweep, for one call\<close>

text \<open>The refusal in the inline area of a slot, whether published or not.\<close>

definition holds_refusal :: "shared \<Rightarrow> nat \<Rightarrow> bool" where
  "holds_refusal m s \<longleftrightarrow>
     ld m s ResStatus = STATUS_ERR \<and> ld m s (BufOf Res) = 0 \<and> slice0 (inlineBuf m s) (ld m s ResLen) = refusal"

fun coming :: "stopping \<Rightarrow> shared \<Rightarrow> nat \<Rightarrow> bool" where
  "coming Serving m s = True"
| "coming (Sweeping ss) m s = (s \<in> set ss)"
| "coming (Exchanging t ss) m s = (if t = s then ld m s Status = ST_PENDING else s \<in> set ss)"
| "coming Stopped m s = False"

definition accounted :: "bool \<Rightarrow> nat \<Rightarrow> sys \<Rightarrow> stopping \<Rightarrow> bool" where
  "accounted on s \<sigma> w \<longleftrightarrow>
     (let st = ld (mem \<sigma>) s Status in
        st = ST_FREE \<or> st = ST_CANCELLED \<or> wpc \<sigma> = WCancel2 s
      \<or> waiting (mem \<sigma>) s \<and> host_on (hpc \<sigma>) s = HNone \<and> coming w (mem \<sigma>) s
      \<or> st = ST_RUNNING \<and> (\<exists>g. hpc \<sigma> = HReply s STATUS_ERR refusal g)
      \<or> st = ST_RUNNING \<and> hpc \<sigma> = HWrite s STATUS_ERR refusal (ld (mem \<sigma>) s Gen)
      \<or> st = ST_RUNNING \<and> hpc \<sigma> = HFilled s \<and> holds_refusal (mem \<sigma>) s
      \<or> st = ST_RUNNING \<and> host_on (hpc \<sigma>) s = HNone \<and> on \<and> refusal_queued \<sigma> s
      \<or> st = ST_READY \<and> host_on (hpc \<sigma>) s = HNone \<and> holds_refusal (mem \<sigma>) s)"

definition not_taking :: "hpc \<Rightarrow> bool" where
  "not_taking h \<longleftrightarrow> (\<forall>s. h \<noteq> HSaw s) \<and> (\<forall>s g op b. h \<noteq> HTake s g op b)"

definition sweep_ok :: "bool \<Rightarrow> nat \<Rightarrow> nat \<Rightarrow> sys \<Rightarrow> stopping \<Rightarrow> bool" where
  "sweep_ok on s c \<sigma> w \<longleftrightarrow>
     c < next_call \<sigma> \<and> not_taking (hpc \<sigma>) \<and> (w \<noteq> Serving \<longrightarrow> ctrl (mem \<sigma>) HostGone = 1)
   \<and> (w = Stopped \<longrightarrow> hpc \<sigma> = HIdle) \<and> (owner \<sigma> s = Some c \<longrightarrow> (\<forall>g op r. wpc \<sigma> \<noteq> WFill s g op r) \<and> accounted on s \<sigma> w)"

lemma holds_response: "holds_refusal m s \<Longrightarrow> response m s = refusal"
  by (simp add: holds_refusal_def response_def attached_def Let_def)

lemma refusal_small: "length refusal \<le> INLINE_BYTES" "length refusal < 2 ^ 31"
proof -
  show "length refusal \<le> INLINE_BYTES"
    using length_encode_le [of STOPPED_WHY]
    by (simp add: refusal_def faultedBytes_def changeBytes_def STOPPED_WHY_def js_def INLINE_BYTES_def)
  then show "length refusal < 2 ^ 31" by (simp add: INLINE_BYTES_def)
qed

lemma holds_refused: "holds_refusal m s \<Longrightarrow> ld m s Status = ST_READY \<Longrightarrow> refused m s"
  using holds_response [of m s] by (simp add: refused_def) (simp add: holds_refusal_def)

lemma calm_any: "calm_run known on \<sigma> \<Longrightarrow> any_run known on \<sigma>"
  by (induction rule: calm_run.induct) (auto intro: any_run.intros)

section \<open>What the steps leave alone\<close>

definition keeps :: "shared \<Rightarrow> shared \<Rightarrow> nat \<Rightarrow> bool" where
  "keeps m m' s \<longleftrightarrow> (\<forall>f. ld m' s f = ld m s f) \<and> inlineBuf m' s = inlineBuf m s"

lemma keeps_refl [simp]: "keeps m m s"
  by (simp add: keeps_def)

lemma keeps_cell: "(\<forall>f. x \<noteq> Slot s f) \<Longrightarrow> keeps m (put m x v) s"
  by (auto simp: keeps_def)

lemma keeps_publish: "takeReqBuf_pass m = (m', Some bi) \<Longrightarrow> t \<noteq> s \<Longrightarrow> keeps m (publish m' t bi op p) s"
  by (simp add: keeps_def takeReqBuf_publish(3) ping_def add1_put)

lemma keeps_op:
  "t \<noteq> s \<Longrightarrow> keeps m (fst (readRes m t)) s" "t \<noteq> s \<Longrightarrow> keeps m (release (fst (readRes m t)) t) s"
  "t \<noteq> s \<Longrightarrow> keeps m (ask_more (fst (readRes m t)) t) s" "t \<noteq> s \<Longrightarrow> keeps m (release m t) s"
  "t \<noteq> s \<Longrightarrow> keeps m (fst (abandon m h t)) s"
  by (auto simp: keeps_def op_eqs)

lemma keeps_write_fill: "write_fill m h t x b = (m', h') \<Longrightarrow> t \<noteq> s \<Longrightarrow> keeps m m' s"
  by (rule write_fill_cases [of m b h t x]) (auto simp: keeps_def placed_def attach_def)

lemma keeps_write_publish: "write_publish m h t = (m', h') \<Longrightarrow> t \<noteq> s \<Longrightarrow> keeps m m' s"
  by (auto simp: keeps_def write_publish_def compareExchange_def add1_put split: if_splits)

lemma gone_kept:
  assumes "bridge_step known on \<sigma> \<sigma>'"
  shows "ctrl (mem \<sigma>') HostGone = ctrl (mem \<sigma>) HostGone"
proof -
  have p: "ctrl (publish m' s bi op p) HostGone = ctrl m HostGone" if "takeReqBuf_pass m = (m', Some bi)" for m m' s bi op p
    using that by (simp add: takeReqBuf_publish(3) ping_def add1_put ctrl_load_buf attach_def)
  have f: "ctrl m' HostGone = ctrl m HostGone" if "write_fill m h s x b = (m', h')" for m h s x b m' h'
    using that by (rule_tac write_fill_cases [of m b h s x]) (auto simp: placed_def attach_def ctrl_load_buf)
  have d: "ctrl (drop_buf m s d) HostGone = ctrl m HostGone" for m s d by (simp add: ctrl_drop_buf releaseBuf_def)
  have q: "ctrl m' HostGone = ctrl m HostGone" if "write_publish m h s = (m', h')" for m h s m' h'
    using that by (auto simp: write_publish_def compareExchange_def add1_put d split: if_splits)
  have t: "ctrl m' HostGone = ctrl m HostGone" if "take_cas m s = (m', b)" for m s m' b
    using that by (auto simp: take_cas_def compareExchange_def)
  from assms show ?thesis
    by cases (auto simp: p f q t d op_eqs compareExchange_def split: if_splits)
qed

section \<open>The invariant is kept\<close>

lemma waiting_keeps: "keeps m m' s \<Longrightarrow> waiting m' s = waiting m s"
  by (simp add: waiting_def keeps_def)

lemma holds_keeps: "keeps m m' s \<Longrightarrow> holds_refusal m' s = holds_refusal m s"
  by (simp add: holds_refusal_def keeps_def)

lemma coming_keeps: "keeps m m' s \<Longrightarrow> coming w m' s = coming w m s"
  by (cases w) (simp_all add: keeps_def)

lemma queued_keeps:
  assumes "keeps (mem \<sigma>) (mem \<sigma>') s" "set (readyq \<sigma>) \<subseteq> set (readyq \<sigma>')" "refusal_queued \<sigma> s"
  shows "refusal_queued \<sigma>' s"
  using assms by (auto simp: refusal_queued_def keeps_def)

text \<open>A step of the worker that leaves the slot alone.\<close>

lemma accounted_keeps:
  assumes "accounted on s \<sigma> w" "keeps (mem \<sigma>) (mem \<sigma>') s" "hpc \<sigma>' = hpc \<sigma>" "set (readyq \<sigma>) \<subseteq> set (readyq \<sigma>')"
    "wpc \<sigma> = WCancel2 s \<Longrightarrow> wpc \<sigma>' = WCancel2 s"
  shows "accounted on s \<sigma>' w"
proof -
  have l: "ld (mem \<sigma>') s f = ld (mem \<sigma>) s f" for f using assms(2) by (simp add: keeps_def)
  show ?thesis
    using assms(1,5) queued_keeps [OF assms(2,4)]
    unfolding accounted_def Let_def waiting_keeps [OF assms(2)] holds_keeps [OF assms(2)] coming_keeps [OF assms(2)] assms(3) l
    by blast
qed

text \<open>A step of the host about another slot.\<close>

lemma accounted_keeps_host:
  assumes "accounted on s \<sigma> w" "keeps (mem \<sigma>) (mem \<sigma>') s" "host_on (hpc \<sigma>) s = HNone" "host_on (hpc \<sigma>') s = HNone"
    "set (readyq \<sigma>) \<subseteq> set (readyq \<sigma>')" "wpc \<sigma>' = wpc \<sigma>"
  shows "accounted on s \<sigma>' w"
proof -
  have l: "ld (mem \<sigma>') s f = ld (mem \<sigma>) s f" for f using assms(2) by (simp add: keeps_def)
  have n: "hpc \<sigma> \<noteq> HReply s x b g" "hpc \<sigma> \<noteq> HWrite s x b g" "hpc \<sigma> \<noteq> HFilled s" for x b g using assms(3) by auto
  show ?thesis
    using assms(1,3,4) n queued_keeps [OF assms(2,5)]
    unfolding accounted_def Let_def waiting_keeps [OF assms(2)] holds_keeps [OF assms(2)] coming_keeps [OF assms(2)] assms(6) l
    by auto
qed

lemma accounted_ready:
  assumes "accounted on s \<sigma> w" "ld (mem \<sigma>) s Status = ST_READY" "wpc \<sigma> \<noteq> WCancel2 s"
  shows "holds_refusal (mem \<sigma>) s"
  using assms by (auto simp: accounted_def waiting_def)

lemma accounted_gone:
  "ld (mem \<sigma>) s Status = ST_FREE \<or> ld (mem \<sigma>) s Status = ST_CANCELLED \<or> wpc \<sigma> = WCancel2 s \<Longrightarrow> accounted on s \<sigma> w"
  by (auto simp: accounted_def)

text \<open>The host writes the refusal into the slot, and publishes it.\<close>

lemma write_fill_refusal:
  assumes "write_fill m h s STATUS_ERR refusal = (m', h')"
  shows "holds_refusal m' s" "ld m' s Status = ld m s Status"
proof -
  let ?i = "m\<lparr>inlineBuf := (inlineBuf m)(s := fill (inlineBuf m s) refusal), ctrl := attach (ctrl m) s Res (-1)\<rparr>"
  have m': "m' = put (put ?i (Slot s ResLen) (word_of_nat (length refusal))) (Slot s ResStatus) STATUS_ERR"
    using assms refusal_small(1) by (simp add: write_fill_def Let_def)
  show "holds_refusal m' s" "ld m' s Status = ld m s Status"
    by (simp_all add: m' holds_refusal_def attach_def slice0_fill [OF refusal_small(2)])
qed

lemma write_publish_refusal:
  assumes "write_publish m h s = (m', h')" "ld m s Status = ST_RUNNING" "holds_refusal m s"
  shows "holds_refusal m' s" "ld m' s Status = ST_READY"
  using assms by (auto simp: write_publish_def compareExchange_def add1_put holds_refusal_def split: if_splits)

lemma write_publish_other:
  assumes "write_publish m h s = (m', h')" "ld m s Status = ST_FREE \<or> ld m s Status = ST_CANCELLED"
  shows "ld m' s Status = ld m s Status"
  using assms by (auto simp: write_publish_def compareExchange_def add1_put split: if_splits)

text \<open>The steps of the host that may come in the sweep.\<close>

lemma accounted_host:
  assumes "bridge_step known on \<sigma> \<sigma>'" "hpc \<sigma> \<noteq> HIdle" "hpc \<sigma>' \<noteq> hpc \<sigma>" "not_taking (hpc \<sigma>)" "accounted on s \<sigma> w"
  shows "accounted on s \<sigma>' w \<and> not_taking (hpc \<sigma>') \<and> wpc \<sigma>' = wpc \<sigma> \<and> owner \<sigma>' = owner \<sigma> \<and> next_call \<sigma>' = next_call \<sigma>"
  using assms(1)
proof cases
  case (reply_now t x b g)
  have "accounted on s \<sigma>' w"
  proof (cases "t = s")
    case False
    with assms(5) reply_now show ?thesis by (intro accounted_keeps_host [OF assms(5)]) auto
  next
    case True
    with assms(5) reply_now show ?thesis by (auto simp: accounted_def waiting_def Let_def)
  qed
  with reply_now show ?thesis by (simp add: not_taking_def)
next
  case (reply_queue t x b g)
  have "accounted on s \<sigma>' w"
  proof (cases "t = s")
    case False
    with assms(5) reply_queue show ?thesis by (intro accounted_keeps_host [OF assms(5)]) auto
  next
    case True
    with assms(5) reply_queue show ?thesis by (auto simp: accounted_def waiting_def Let_def refusal_queued_def)
  qed
  with reply_queue show ?thesis by (simp add: not_taking_def)
next
  case (write_stale t x b g)
  have "accounted on s \<sigma>' w"
  proof (cases "t = s")
    case False
    with assms(5) write_stale show ?thesis by (intro accounted_keeps_host [OF assms(5)]) auto
  next
    case True
    with assms(5) write_stale show ?thesis by (auto simp: accounted_def waiting_def Let_def)
  qed
  with write_stale show ?thesis by (simp add: not_taking_def)
next
  case (write_fill t x b g m h)
  have "accounted on s \<sigma>' w"
  proof (cases "t = s")
    case False
    with keeps_write_fill [OF write_fill(4)] write_fill show ?thesis by (intro accounted_keeps_host [OF assms(5)]) auto
  next
    case True
    have st: "ld m s Status = ld (mem \<sigma>) s Status" using write_fill_status [OF write_fill(4)] .
    have r: "holds_refusal m s" if "x = STATUS_ERR" "b = refusal"
      using write_fill_refusal(1) write_fill(4) that True by blast
    from assms(5) write_fill(2) True have "ld (mem \<sigma>) s Status = ST_FREE \<or> ld (mem \<sigma>) s Status = ST_CANCELLED \<or> wpc \<sigma> = WCancel2 s
      \<or> ld (mem \<sigma>) s Status = ST_RUNNING \<and> x = STATUS_ERR \<and> b = refusal"
      by (auto simp: accounted_def)
    with st r True write_fill(1) show ?thesis by (auto simp: accounted_def)
  qed
  with write_fill show ?thesis by (simp add: not_taking_def)
next
  case (write_publish t m h)
  have "accounted on s \<sigma>' w"
  proof (cases "t = s")
    case False
    with keeps_write_publish [OF write_publish(3)] write_publish show ?thesis by (intro accounted_keeps_host [OF assms(5)]) auto
  next
    case True
    from assms(5) write_publish(2) True consider (o) "ld (mem \<sigma>) s Status = ST_FREE \<or> ld (mem \<sigma>) s Status = ST_CANCELLED" | (c) "wpc \<sigma> = WCancel2 s"
      | (r) "ld (mem \<sigma>) s Status = ST_RUNNING" "holds_refusal (mem \<sigma>) s"
      by (auto simp: accounted_def Let_def)
    then show ?thesis
    proof cases
      case o
      with write_publish_other [OF write_publish(3)] True write_publish(1) show ?thesis by (auto simp: accounted_def)
    next
      case c
      with write_publish(1) show ?thesis by (auto simp: accounted_def)
    next
      case r
      with write_publish_refusal [OF write_publish(3)] True write_publish(1) show ?thesis by (auto simp: accounted_def)
    qed
  qed
  with write_publish show ?thesis by (simp add: not_taking_def)
qed (use assms(2-4) in \<open>auto simp: not_taking_def\<close>)

text \<open>The steps of the worker, and the two of the host that are not in the sweep's way.\<close>

lemma accounted_worker:
  assumes "bridge_step known on \<sigma> \<sigma>'" "hpc \<sigma>' = hpc \<sigma>" "accounted on s \<sigma> w" "owner \<sigma> s = Some c" "c < next_call \<sigma>"
    "\<And>g op r. wpc \<sigma> \<noteq> WFill s g op r"
  shows "c < next_call \<sigma>' \<and> (owner \<sigma>' s = Some c \<longrightarrow> (\<forall>g op r. wpc \<sigma>' \<noteq> WFill s g op r) \<and> accounted on s \<sigma>' w)"
proof -
  note keep = accounted_keeps [OF assms(3)]
  note ready = accounted_ready [OF assms(3)]
  have err: "ld (mem \<sigma>) s ResStatus = STATUS_ERR" if "ld (mem \<sigma>) s Status = ST_READY" "wpc \<sigma> \<noteq> WCancel2 s"
    using ready [OF that] by (simp add: holds_refusal_def)
  have K: ?thesis if "keeps (mem \<sigma>) (mem \<sigma>') s" "readyq \<sigma>' = readyq \<sigma>" "next_call \<sigma> \<le> next_call \<sigma>'"
    "wpc \<sigma> = WCancel2 s \<Longrightarrow> wpc \<sigma>' = WCancel2 s" "\<And>g op r. wpc \<sigma>' \<noteq> WFill s g op r"
    using that assms(5) keep [OF that(1) assms(2) _ that(4)] by simp
  have G: ?thesis if "ld (mem \<sigma>') s Status = ST_FREE \<or> ld (mem \<sigma>') s Status = ST_CANCELLED \<or> wpc \<sigma>' = WCancel2 s"
    "next_call \<sigma> \<le> next_call \<sigma>'" "\<And>g op r. wpc \<sigma>' \<noteq> WFill s g op r"
    using that assms(5) accounted_gone [OF that(1)] by simp
  from assms(1) show ?thesis
  proof cases
    case (claim op t c' p)
    show ?thesis
    proof (cases "t = s")
      case True
      with claim assms(5) show ?thesis by auto
    next
      case False
      with claim have k: "keeps (mem \<sigma>) (mem \<sigma>') s" by (auto simp: keeps_def compareExchange_def split: if_splits)
      show ?thesis by (rule K) (use False claim k in \<open>simp_all\<close>)
    qed
  next
    case (push t g op r m bi)
    with assms(6) have n: "t \<noteq> s" by auto
    show ?thesis by (rule K) (use n keeps_publish [OF push(4)] push in \<open>auto\<close>)
  next
    case (push_last t g op r m bi d)
    with assms(6) have n: "t \<noteq> s" by auto
    show ?thesis by (rule K) (use n keeps_publish [OF push_last(4)] push_last in \<open>auto\<close>)
  next
    case (ack t g op r m out)
    have m: "m = fst (readRes (mem \<sigma>) t)" using ack(4) by simp
    have n: "t \<noteq> s"
    proof
      assume "t = s"
      with err ack(2,3) have "ld (mem \<sigma>) s ResStatus = STATUS_ERR" by simp
      with ack(5) \<open>t = s\<close> show False by (simp add: m op_eqs)
    qed
    have k: "keeps (mem \<sigma>) (mem \<sigma>') s" using keeps_op(1) [of t s "mem \<sigma>"] n by (simp add: ack(1) m)
    show ?thesis by (rule K) (use k n ack assms(6) in \<open>simp_all\<close>)
  next
    case (ack_err t g op r m out)
    have m: "m = fst (readRes (mem \<sigma>) t)" using ack_err(4) by simp
    show ?thesis
    proof (cases "t = s")
      case True
      show ?thesis by (rule G) (use True ack_err in \<open>auto simp: op_eqs\<close>)
    next
      case False
      have k: "keeps (mem \<sigma>) (mem \<sigma>') s" using keeps_op(2) [of t s "mem \<sigma>"] False by (simp add: ack_err(1) m)
      show ?thesis by (rule K) (use k ack_err assms(6) in \<open>simp_all\<close>)
    qed
  next
    case (collect_begin t g d)
    show ?thesis by (rule K) (use collect_begin in \<open>auto\<close>)
  next
    case (collect_more t d ps m chunk)
    have m: "m = fst (readRes (mem \<sigma>) t)" using collect_more(5) by simp
    have n: "t \<noteq> s" using err collect_more(2-4) by auto
    have k: "keeps (mem \<sigma>) (mem \<sigma>') s" using keeps_op(3) [of t s "mem \<sigma>"] n by (simp add: collect_more(1) m)
    show ?thesis by (rule K) (use k collect_more assms(6) in \<open>simp_all\<close>)
  next
    case (collect_ok t d ps x m chunk)
    have m: "m = fst (readRes (mem \<sigma>) t)" using collect_ok(7) by simp
    have n: "t \<noteq> s" using err collect_ok(2-6) by auto
    have k: "keeps (mem \<sigma>) (mem \<sigma>') s" using keeps_op(2) [of t s "mem \<sigma>"] n by (simp add: collect_ok(1) m)
    show ?thesis by (rule K) (use k collect_ok assms(6) in \<open>simp_all\<close>)
  next
    case (collect_err t d ps m chunk)
    have m: "m = fst (readRes (mem \<sigma>) t)" using collect_err(5) by simp
    show ?thesis
    proof (cases "t = s")
      case True
      show ?thesis by (rule G) (use True collect_err in \<open>auto simp: op_eqs\<close>)
    next
      case False
      have k: "keeps (mem \<sigma>) (mem \<sigma>') s" using keeps_op(2) [of t s "mem \<sigma>"] False by (simp add: collect_err(1) m)
      show ?thesis by (rule K) (use k collect_err assms(6) in \<open>simp_all\<close>)
    qed
  next
    case (cancel_ready t g d)
    show ?thesis
    proof (cases "t = s")
      case True
      show ?thesis by (rule G) (use True cancel_ready in \<open>auto simp: op_eqs\<close>)
    next
      case False
      have k: "keeps (mem \<sigma>) (mem \<sigma>') s" using keeps_op(4) [of t s "mem \<sigma>"] False by (simp add: cancel_ready(1))
      show ?thesis by (rule K) (use k cancel_ready assms(6) in \<open>simp_all\<close>)
    qed
  next
    case (cancel t g d)
    show ?thesis by (rule K) (use cancel in \<open>auto\<close>)
  next
    case (cancel_bump t)
    show ?thesis
    proof (cases "t = s")
      case True
      show ?thesis by (rule G) (use True cancel_bump in \<open>auto\<close>)
    next
      case False
      show ?thesis by (rule K) (use False cancel_bump in \<open>auto simp: add1_put keeps_cell\<close>)
    qed
  next
    case (cancel_store t)
    show ?thesis
    proof (cases "t = s")
      case True
      show ?thesis by (rule G) (use True cancel_store in \<open>auto simp: op_eqs\<close>)
    next
      case False
      then have k: "keeps (mem \<sigma>) (mem \<sigma>') s" by (simp add: cancel_store(1) keeps_def op_eqs)
      show ?thesis by (rule K) (use False cancel_store k in \<open>simp_all\<close>)
    qed
  next
    case (job_drop j)
    show ?thesis by (rule K) (use job_drop assms(6) in \<open>auto\<close>)
  next
    case (abandon t m h)
    have m: "m = fst (abandon (mem \<sigma>) (hst \<sigma>) t)" using abandon(5) by simp
    show ?thesis
    proof (cases "t = s")
      case True
      have f: "ld m t Status = ST_FREE" by (simp add: m op_eqs)
      show ?thesis by (rule G) (use True abandon(1) f assms(6) in \<open>simp_all\<close>)
    next
      case False
      have k: "keeps (mem \<sigma>) (mem \<sigma>') s" using keeps_op(5) [of t s "mem \<sigma>" "hst \<sigma>"] False by (simp add: abandon(1) m)
      show ?thesis by (rule K) (use k abandon assms(6) in \<open>simp_all\<close>)
    qed
  qed (use assms(2) in auto)
qed

lemma owner_kept:
  assumes "bridge_step known on \<sigma> \<sigma>'" "c < next_call \<sigma>"
  shows "c < next_call \<sigma>' \<and> (owner \<sigma>' s = Some c \<longrightarrow> owner \<sigma> s = Some c)"
  using assms by cases auto

lemma sweep_ok_meanwhile:
  assumes "sweep_ok on s c \<sigma> w" "bridge_step known on \<sigma> \<sigma>'" "hpc \<sigma> \<noteq> HIdle \<or> hpc \<sigma>' = HIdle"
  shows "sweep_ok on s c \<sigma>' w"
proof -
  have i: "c < next_call \<sigma>" "not_taking (hpc \<sigma>)" "w \<noteq> Serving \<longrightarrow> ctrl (mem \<sigma>) HostGone = 1"
    and a: "owner \<sigma> s = Some c \<Longrightarrow> accounted on s \<sigma> w" "\<And>g op r. owner \<sigma> s = Some c \<Longrightarrow> wpc \<sigma> \<noteq> WFill s g op r"
    using assms(1) by (simp_all add: sweep_ok_def)
  note o = owner_kept [OF assms(2) i(1), of s]
  have d: "w = Stopped \<longrightarrow> hpc \<sigma>' = HIdle" using assms(1,3) by (auto simp: sweep_ok_def)
  have g: "w \<noteq> Serving \<longrightarrow> ctrl (mem \<sigma>') HostGone = 1" using i(3) gone_kept [OF assms(2)] by simp
  show ?thesis
  proof (cases "hpc \<sigma>' = hpc \<sigma>")
    case True
    then have t: "not_taking (hpc \<sigma>')" using i(2) by simp
    have "(\<forall>x op r. wpc \<sigma>' \<noteq> WFill s x op r) \<and> accounted on s \<sigma>' w" if "owner \<sigma>' s = Some c"
    proof -
      have "owner \<sigma> s = Some c" using o that by blast
      from accounted_worker [OF assms(2) True a(1) [OF this] this i(1) a(2) [OF this]] that show ?thesis by blast
    qed
    with o g t d show ?thesis unfolding sweep_ok_def by blast
  next
    case False
    then have n: "hpc \<sigma> \<noteq> HIdle" using assms(3) by auto
    have t: "not_taking (hpc \<sigma>')"
      using assms(2) n False i(2) by cases (simp_all add: not_taking_def)
    have "(\<forall>x op r. wpc \<sigma>' \<noteq> WFill s x op r) \<and> accounted on s \<sigma>' w" if "owner \<sigma>' s = Some c"
    proof -
      have "owner \<sigma> s = Some c" using o that by blast
      from accounted_host [OF assms(2) n False i(2) a(1) [OF this]] a(2) [OF this] show ?thesis by simp
    qed
    with o g t d show ?thesis unfolding sweep_ok_def by blast
  qed
qed

text \<open>The sweep's own accesses.\<close>

lemma look_cases:
  "fail_look m s = TakeIt \<longleftrightarrow> ld m s Status = ST_PENDING"
  "fail_look m s = AnswerIt \<longleftrightarrow> ld m s Status = ST_RUNNING"
  "fail_look m s = PassBy \<longleftrightarrow> \<not> waiting m s"
  by (auto simp: fail_look_def waiting_def Let_def ST_PENDING_def ST_RUNNING_def)

lemma exchange_won_effect:
  assumes "fail_exchange m s = (m', True)"
  shows "ld m s Status = ST_PENDING" "ld m' s Status = ST_RUNNING" "t \<noteq> s \<Longrightarrow> keeps m m' t"
    "ctrl m' HostGone = ctrl m HostGone"
  using assms by (auto simp: fail_exchange_def compareExchange_def keeps_def ctrl_drop_buf releaseBuf_def split: if_splits)

lemma exchange_lost_effect: "fail_exchange m s = (m', False) \<longleftrightarrow> m' = m \<and> ld m s Status \<noteq> ST_PENDING"
  by (auto simp: fail_exchange_def compareExchange_def split: if_splits)

lemma accounted_sweep:
  assumes "accounted on s \<sigma> w" "hpc \<sigma> = HIdle" "coming w (mem \<sigma>) s \<Longrightarrow> waiting (mem \<sigma>) s \<Longrightarrow> coming w' (mem \<sigma>) s"
  shows "accounted on s \<sigma> w'"
  using assms by (auto simp: accounted_def Let_def)

text \<open>A step of the sweep that takes another slot in hand.\<close>

lemma accounted_take:
  assumes "accounted on s \<sigma> w" "hpc \<sigma> = HIdle" "t \<noteq> s" "keeps (mem \<sigma>) m s"
    "coming w (mem \<sigma>) s \<Longrightarrow> coming w' (mem \<sigma>) s"
  shows "accounted on s (\<sigma>\<lparr>mem := m, hpc := HReply t x b g\<rparr>) w'"
proof -
  have "accounted on s \<sigma> w'" using accounted_sweep [OF assms(1,2) assms(5)] .
  then show ?thesis by (rule accounted_keeps_host) (use assms(2-4) in simp_all)
qed

lemma accounted_answer:
  assumes "ld m s Status = ST_RUNNING"
  shows "accounted on s (\<sigma>\<lparr>mem := m, hpc := HReply s STATUS_ERR refusal g\<rparr>) w"
  using assms by (simp add: accounted_def)

lemma accounted_memory:
  assumes "accounted on s \<sigma> w" "keeps (mem \<sigma>) m s"
  shows "accounted on s (\<sigma>\<lparr>mem := m\<rparr>) w"
  by (rule accounted_keeps [OF assms(1)]) (use assms(2) in simp_all)

lemma sweep_ok_step:
  assumes "stop_step known on (\<sigma>, w) (\<sigma>', w')" "sweep_ok on s c \<sigma> w" "s < SLOTS"
  shows "sweep_ok on s c \<sigma>' w'"
proof -
  have i: "c < next_call \<sigma>" "not_taking (hpc \<sigma>)" "w \<noteq> Serving \<longrightarrow> ctrl (mem \<sigma>) HostGone = 1"
    and a: "owner \<sigma> s = Some c \<Longrightarrow> accounted on s \<sigma> w" "\<And>g op r. owner \<sigma> s = Some c \<Longrightarrow> wpc \<sigma> \<noteq> WFill s g op r"
    using assms(2) by (simp_all add: sweep_ok_def)
  have gone: "ctrl (mem \<sigma>) HostGone = 1" if "w \<noteq> Serving" using i(3) that by blast
  have idle: "not_taking HIdle" "not_taking (HReply t x b g)" for t x b g by (simp_all add: not_taking_def)
  have J: "sweep_ok on s c \<sigma>' w'" if "owner \<sigma>' = owner \<sigma>" "next_call \<sigma>' = next_call \<sigma>" "wpc \<sigma>' = wpc \<sigma>" "not_taking (hpc \<sigma>')"
    "ctrl (mem \<sigma>') HostGone = 1" "w' = Stopped \<longrightarrow> hpc \<sigma>' = HIdle" "owner \<sigma> s = Some c \<Longrightarrow> accounted on s \<sigma>' w'"
    using that i(1) a(2) by (simp add: sweep_ok_def)
  from assms(1) show ?thesis
  proof cases
    case raise
    have "keeps (mem \<sigma>) (fail_flag (mem \<sigma>)) s" unfolding fail_flag_def by (rule keeps_cell) simp
    from accounted_memory [OF a(1) this] have "accounted on s \<sigma>' w" if "owner \<sigma> s = Some c" using that raise(2) by simp
    then have "accounted on s \<sigma>' w'" if "owner \<sigma> s = Some c"
      by (rule accounted_sweep) (use that raise assms(3) in simp_all)
    then show ?thesis by (intro J) (use raise idle in \<open>simp_all add: fail_flag_def\<close>)
  next
    case (see_pending t ss)
    then have "coming w (mem \<sigma>) s \<Longrightarrow> coming w' (mem \<sigma>) s" by (auto simp: look_cases)
    then have "accounted on s \<sigma>' w'" if "owner \<sigma> s = Some c"
      using accounted_sweep [OF a(1) [OF that] see_pending(4)] see_pending(2) by simp
    then show ?thesis by (intro J) (use see_pending idle gone in simp_all)
  next
    case (see_running t ss)
    have e: "\<sigma>' = \<sigma>\<lparr>mem := mem \<sigma>, hpc := HReply t STATUS_ERR refusal (ld (mem \<sigma>) t Gen)\<rparr>" using see_running(2) by simp
    have "accounted on s \<sigma>' w'" if "owner \<sigma> s = Some c"
    proof (cases "t = s")
      case True
      with see_running(5) show ?thesis using accounted_answer [where \<sigma> = \<sigma> and m = "mem \<sigma>" and s = s] unfolding e by (simp add: look_cases)
    next
      case False
      show ?thesis unfolding e by (rule accounted_take [OF a(1) [OF that] see_running(4)]) (use False see_running in auto)
    qed
    then show ?thesis by (intro J) (use see_running idle gone in simp_all)
  next
    case (see_other t ss)
    then have "coming w (mem \<sigma>) s \<Longrightarrow> waiting (mem \<sigma>) s \<Longrightarrow> coming w' (mem \<sigma>) s" by (auto simp: look_cases)
    then have "accounted on s \<sigma>' w'" if "owner \<sigma> s = Some c"
      using accounted_sweep [OF a(1) [OF that] see_other(4)] see_other(2) by simp
    then show ?thesis by (intro J) (use see_other idle gone in simp_all)
  next
    case (exchange_won t m ss)
    note x = exchange_won_effect [OF exchange_won(5)]
    have "accounted on s \<sigma>' w'" if "owner \<sigma> s = Some c"
    proof (cases "t = s")
      case True
      with x(2) show ?thesis unfolding exchange_won(2) by (simp add: accounted_answer)
    next
      case False
      show ?thesis unfolding exchange_won(2)
        by (rule accounted_take [OF a(1) [OF that] exchange_won(4)]) (use False x(3) [of s] exchange_won in auto)
    qed
    then show ?thesis by (intro J) (use exchange_won x(4) idle gone in simp_all)
  next
    case (exchange_lost t m ss)
    then have m: "m = mem \<sigma>" "ld (mem \<sigma>) t Status \<noteq> ST_PENDING" by (simp_all add: exchange_lost_effect)
    then have e: "\<sigma>' = \<sigma>" using exchange_lost(2) by simp
    have "accounted on s \<sigma>' w'" if "owner \<sigma> s = Some c"
      unfolding e by (rule accounted_sweep [OF a(1) [OF that] exchange_lost(4)]) (use m exchange_lost in \<open>auto split: if_splits\<close>)
    then show ?thesis by (intro J) (use exchange_lost e idle gone in simp_all)
  next
    case finish
    have "keeps (mem \<sigma>) (stop_wake (fail_wake (mem \<sigma>))) s" by (simp add: keeps_def stop_wake_def fail_wake_def add1_put)
    from accounted_memory [OF a(1) this] have "accounted on s \<sigma>' w" if "owner \<sigma> s = Some c" using that finish(2) by simp
    then have "accounted on s \<sigma>' w'" if "owner \<sigma> s = Some c"
      by (rule accounted_sweep) (use that finish in simp_all)
    then show ?thesis
      by (intro J) (use finish idle gone in \<open>simp_all add: stop_wake_def fail_wake_def add1_put\<close>)
  next
    case meanwhile
    with sweep_ok_meanwhile [OF assms(2)] show ?thesis by simp
  qed
qed

text \<open>What holds where \<open>stop\<close> begins, races or not.\<close>

definition fill_ok :: "sys \<Rightarrow> bool" where
  "fill_ok \<sigma> \<longleftrightarrow>
     (\<forall>s c. owner \<sigma> s = Some c \<longrightarrow> c < next_call \<sigma>)
   \<and> (\<forall>s g op r. wpc \<sigma> = WFill s g op r \<longrightarrow> ld (mem \<sigma>) s Status = ST_CLAIMED \<or> ld (mem \<sigma>) s Status = ST_READY)"

lemma host_keeps_filling:
  assumes "bridge_step known on \<sigma> \<sigma>'" "wpc \<sigma>' = wpc \<sigma>" "wpc \<sigma> = WFill s g op r"
    "ld (mem \<sigma>) s Status = ST_CLAIMED \<or> ld (mem \<sigma>) s Status = ST_READY"
  shows "ld (mem \<sigma>') s Status = ld (mem \<sigma>) s Status"
  using assms(1)
proof cases
  case (take_lost t x o b m)
  with assms(4) show ?thesis by (auto simp: take_cas_def compareExchange_def)
next
  case (take_reply t x o b m h y body)
  with take_cas_cases [OF take_reply(3)] assms(4) show ?thesis by auto
next
  case (take_run t x o b m h whole d)
  with take_cas_cases [OF take_run(3)] assms(4) show ?thesis by auto
next
  case (take_copy t m x o b)
  then show ?thesis by (auto simp: op_eqs)
next
  case (write_fill t x b y m h)
  then show ?thesis by (simp add: write_fill_status)
next
  case (write_publish t m h)
  then show ?thesis using assms(4) by (auto simp: write_publish_def compareExchange_def add1_put split: if_splits)
next
  case (abandon t m h)
  with assms(4) have "t \<noteq> s" by auto
  with abandon show ?thesis by (auto simp: op_eqs)
qed (use assms(2,3) in auto)

lemma fill_ok_step:
  assumes "bridge_step known on \<sigma> \<sigma>'" "fill_ok \<sigma>"
  shows "fill_ok \<sigma>'"
proof -
  have "c < next_call \<sigma>'" if "owner \<sigma>' s = Some c" for s c
    using assms that unfolding fill_ok_def by cases (auto split: if_splits intro: less_SucI)
  moreover have "ld (mem \<sigma>') s Status = ST_CLAIMED \<or> ld (mem \<sigma>') s Status = ST_READY" if w: "wpc \<sigma>' = WFill s g op r" for s g op r
  proof (cases "wpc \<sigma>' = wpc \<sigma>")
    case True
    then have "wpc \<sigma> = WFill s g op r" using w by simp
    then show ?thesis using host_keeps_filling [OF assms(1) True] assms(2) by (simp add: fill_ok_def)
  next
    case False
    from assms(1) show ?thesis
    proof cases
      case (claim o t c' p)
      with w show ?thesis by (auto simp: compareExchange_def split: if_splits)
    next
      case (ack t x o y m out)
      with w show ?thesis by (auto simp: op_eqs)
    qed (use w False in auto)
  qed
  ultimately show ?thesis by (simp add: fill_ok_def)
qed

lemma any_run_fill: "any_run known on \<sigma> \<Longrightarrow> fill_ok \<sigma>"
proof (induction rule: any_run.induct)
  case start
  show ?case by (simp add: fill_ok_def init_def)
next
  case (more \<sigma> \<sigma>')
  then show ?case using fill_ok_step by blast
qed

abbreviation stop_run :: "(i32 \<Rightarrow> bool) \<Rightarrow> bool \<Rightarrow> sys \<times> stopping \<Rightarrow> sys \<times> stopping \<Rightarrow> bool" where
  "stop_run known on \<equiv> (stop_step known on)\<^sup>*\<^sup>*"

lemma sweep_ok_run:
  assumes "stop_run known on (\<sigma>, w) (\<sigma>', w')" "sweep_ok on s c \<sigma> w" "s < SLOTS"
  shows "sweep_ok on s c \<sigma>' w'"
  using assms(1,2)
proof (induction rule: rtranclp_induct2)
  case (step \<sigma>1 w1 \<sigma>2 w2)
  then show ?case using sweep_ok_step assms(3) by blast
qed simp

lemma sweep_ok_start:
  assumes "any_run known on \<sigma>" "hpc \<sigma> = HIdle" "waiting (mem \<sigma>) s" "owner \<sigma> s = Some c"
  shows "sweep_ok on s c \<sigma> Serving"
  using any_run_fill [OF assms(1)] assms(2-4)
  by (auto simp: sweep_ok_def fill_ok_def not_taking_def accounted_def waiting_def)

section \<open>The sweep ends\<close>

text \<open>What a sweep that the worker does not disturb leaves alone.\<close>

definition same_memory :: "shared \<Rightarrow> shared \<Rightarrow> bool" where
  "same_memory m m' \<longleftrightarrow> (\<forall>k. ctrl m' (FreeFlag Res k) = ctrl m (FreeFlag Res k)) \<and> (\<forall>t. ld m' t Gen = ld m t Gen)
     \<and> (\<forall>t. ld m' t Status \<in> {ST_FREE, ST_CANCELLED} \<longleftrightarrow> ld m t Status \<in> {ST_FREE, ST_CANCELLED})"

definition undisturbed :: "sys \<Rightarrow> sys \<Rightarrow> bool" where
  "undisturbed \<sigma> \<sigma>' \<longleftrightarrow> wpc \<sigma>' = wpc \<sigma> \<and> jobq \<sigma>' = jobq \<sigma> \<and> tickets \<sigma>' = tickets \<sigma> \<and> owner \<sigma>' = owner \<sigma>
     \<and> got \<sigma>' = got \<sigma> \<and> same_memory (mem \<sigma>) (mem \<sigma>')"

lemma undisturbed_refl [simp]: "undisturbed \<sigma> \<sigma>"
  by (simp add: undisturbed_def same_memory_def)

lemma undisturbed_trans: "undisturbed a b \<Longrightarrow> undisturbed b c \<Longrightarrow> undisturbed a c"
  by (simp add: undisturbed_def same_memory_def)

lemma small_answer_memory:
  assumes "write_fill m h s x b = (m1, h1)" "write_publish m1 h1 s = (m2, h2)" "length b \<le> INLINE_BYTES"
  shows "same_memory m m2"
  using assms
  by (auto simp: same_memory_def write_fill_def write_publish_def compareExchange_def Let_def attach_def add1_put
      ctrl_drop_buf releaseBuf_def attached_def ST_FREE_def ST_CANCELLED_def ST_RUNNING_def ST_READY_def split: if_splits)

lemma exchange_memory: "fail_exchange m s = (m', won) \<Longrightarrow> same_memory m m'"
  by (auto simp: same_memory_def fail_exchange_def compareExchange_def ctrl_drop_buf releaseBuf_def
      ST_FREE_def ST_CANCELLED_def ST_RUNNING_def ST_PENDING_def split: if_splits)

lemma answers_end:
  assumes "hpc \<sigma> = HReply s x b g" "length b \<le> INLINE_BYTES"
  shows "\<exists>\<sigma>'. stop_run known on (\<sigma>, w) (\<sigma>', w) \<and> hpc \<sigma>' = HIdle \<and> undisturbed \<sigma> \<sigma>'"
proof (cases on)
  case True
  let ?q = "\<sigma>\<lparr>readyq := readyq \<sigma> @ [\<lparr>rslot = s, rgen = ld (mem \<sigma>) s Gen, rstatus = x, rbody = b\<rparr>], hpc := HIdle\<rparr>"
  have "stop_step known on (\<sigma>, w) (?q, w)" by (rule meanwhile) (use True assms in \<open>auto intro: bridge_step.reply_queue\<close>)
  then show ?thesis by (intro exI [of _ ?q]) (auto simp: undisturbed_def same_memory_def)
next
  case False
  let ?a = "\<sigma>\<lparr>hpc := HWrite s x b (ld (mem \<sigma>) s Gen)\<rparr>"
  obtain m h where f: "write_fill (mem \<sigma>) (hst \<sigma>) s x b = (m, h)" by fastforce
  let ?b = "?a\<lparr>mem := m, hst := h, hpc := HFilled s\<rparr>"
  obtain m' h' where p: "write_publish m h s = (m', h')" by fastforce
  let ?c = "?b\<lparr>mem := m', hst := h', hpc := HIdle\<rparr>"
  have "stop_step known on (\<sigma>, w) (?a, w)" by (rule meanwhile) (use False assms in \<open>auto intro: bridge_step.reply_now\<close>)
  moreover have "stop_step known on (?a, w) (?b, w)"
    by (rule meanwhile [OF bridge_step.write_fill [of ?a s x b "ld (mem \<sigma>) s Gen"]]) (use f in simp_all)
  moreover have "stop_step known on (?b, w) (?c, w)"
    by (rule meanwhile [OF bridge_step.write_publish [of ?b s]]) (use p in simp_all)
  ultimately have "stop_run known on (\<sigma>, w) (?c, w)" by (auto intro: converse_rtranclp_into_rtranclp)
  then show ?thesis using small_answer_memory [OF f p assms(2)] by (intro exI [of _ ?c]) (simp add: undisturbed_def)
qed

lemma one_slot_ends:
  assumes "hpc \<sigma> = HIdle"
  shows "\<exists>\<sigma>'. stop_run known on (\<sigma>, Sweeping (s # ss)) (\<sigma>', Sweeping ss) \<and> hpc \<sigma>' = HIdle \<and> undisturbed \<sigma> \<sigma>'"
proof -
  have answer: ?thesis if "stop_run known on (\<sigma>, Sweeping (s # ss)) (\<sigma>1, Sweeping ss)" "hpc \<sigma>1 = HReply s x refusal g"
    "undisturbed \<sigma> \<sigma>1" for \<sigma>1 x g
    using answers_end [OF that(2) refusal_small(1), of known on "Sweeping ss"] that(1,3) undisturbed_trans
    by (metis rtranclp_trans)
  show ?thesis
  proof (cases "fail_look (mem \<sigma>) s")
    case TakeIt
    note a = see_pending [OF assms TakeIt, of known on ss]
    obtain m won where e: "fail_exchange (mem \<sigma>) s = (m, won)" by fastforce
    note em = exchange_memory [OF e]
    show ?thesis
    proof (cases won)
      case True
      with e have "fail_exchange (mem \<sigma>) s = (m, True)" by simp
      from exchange_won [OF assms this, of known on ss] a em show ?thesis
        by (intro answer [of "\<sigma>\<lparr>mem := m, hpc := HReply s STATUS_ERR refusal (ld m s Gen)\<rparr>"])
          (auto simp: undisturbed_def intro: converse_rtranclp_into_rtranclp)
    next
      case False
      with e have "fail_exchange (mem \<sigma>) s = (m, False)" by simp
      from exchange_lost [OF assms this, of known on ss] a assms em show ?thesis
        by (intro exI [of _ "\<sigma>\<lparr>mem := m\<rparr>"]) (auto simp: undisturbed_def intro: converse_rtranclp_into_rtranclp)
    qed
  next
    case AnswerIt
    from see_running [OF assms AnswerIt, of known on ss] show ?thesis
      by (intro answer [of "\<sigma>\<lparr>hpc := HReply s STATUS_ERR refusal (ld (mem \<sigma>) s Gen)\<rparr>"])
        (auto simp: undisturbed_def same_memory_def)
  next
    case PassBy
    from see_other [OF assms PassBy, of known on ss] assms undisturbed_refl show ?thesis by blast
  qed
qed

lemma slots_end:
  assumes "hpc \<sigma> = HIdle"
  shows "\<exists>\<sigma>'. stop_run known on (\<sigma>, Sweeping ss) (\<sigma>', Sweeping []) \<and> hpc \<sigma>' = HIdle \<and> undisturbed \<sigma> \<sigma>'"
  using assms
proof (induction ss arbitrary: \<sigma>)
  case Nil
  then show ?case using undisturbed_refl by blast
next
  case (Cons s ss)
  from one_slot_ends [OF Cons.prems, of known on s ss]
  obtain \<sigma>1 where "stop_run known on (\<sigma>, Sweeping (s # ss)) (\<sigma>1, Sweeping ss)" "hpc \<sigma>1 = HIdle" "undisturbed \<sigma> \<sigma>1" by blast
  with Cons.IH [of \<sigma>1] undisturbed_trans show ?case by (metis rtranclp_trans)
qed

lemma stop_ends:
  assumes "hpc \<sigma> = HIdle"
  shows "\<exists>\<sigma>'. stop_run known on (\<sigma>, Serving) (\<sigma>', Stopped) \<and> hpc \<sigma>' = HIdle \<and> undisturbed \<sigma> \<sigma>'"
proof -
  let ?\<sigma> = "\<sigma>\<lparr>mem := fail_flag (mem \<sigma>)\<rparr>"
  obtain \<sigma>1 where s: "stop_run known on (?\<sigma>, Sweeping [0..<SLOTS]) (\<sigma>1, Sweeping [])" "hpc \<sigma>1 = HIdle" "undisturbed ?\<sigma> \<sigma>1"
    using slots_end [of ?\<sigma> known on "[0..<SLOTS]"] assms by auto
  have "stop_run known on (\<sigma>, Serving) (\<sigma>1, Sweeping [])"
    using raise [OF assms] s(1) by (rule converse_rtranclp_into_rtranclp)
  with finish [OF s(2)] have "stop_run known on (\<sigma>, Serving) (\<sigma>1\<lparr>mem := stop_wake (fail_wake (mem \<sigma>1))\<rparr>, Stopped)"
    by (blast intro: rtranclp.rtrancl_into_rtrancl)
  moreover have "undisturbed \<sigma> (\<sigma>1\<lparr>mem := stop_wake (fail_wake (mem \<sigma>1))\<rparr>)"
    using s(3) by (simp add: undisturbed_def same_memory_def fail_flag_def stop_wake_def fail_wake_def add1_put)
  ultimately show ?thesis using s(2) by (intro exI [of _ "\<sigma>1\<lparr>mem := stop_wake (fail_wake (mem \<sigma>1))\<rparr>"]) simp
qed

text \<open>A call that was waiting, at the end of the sweep.\<close>

lemma stopped_call:
  assumes "any_run known on \<sigma>" "hpc \<sigma> = HIdle" "stop_run known on (\<sigma>, Serving) (\<sigma>', Stopped)"
    "s < SLOTS" "waiting (mem \<sigma>) s" "owner \<sigma> s = Some c"
  shows "gone (mem \<sigma>') \<noteq> None \<and> (ld (mem \<sigma>') s Status = ST_READY \<and> holds_refusal (mem \<sigma>') s
    \<or> on \<and> ld (mem \<sigma>') s Status = ST_RUNNING \<and> refusal_queued \<sigma>' s \<or> given_up \<sigma>' s c)"
proof -
  have ok: "sweep_ok on s c \<sigma>' Stopped"
    using sweep_ok_run [OF assms(3) sweep_ok_start [OF assms(1,2,5,6)] assms(4)] .
  show ?thesis
  proof (cases "owner \<sigma>' s = Some c")
    case True
    then have "accounted on s \<sigma>' Stopped" "hpc \<sigma>' = HIdle" using ok by (simp_all add: sweep_ok_def)
    then show ?thesis
      using ok unfolding accounted_def Let_def given_up_def by (auto simp: sweep_ok_def gone_def)
  qed (use ok in \<open>simp add: given_up_def sweep_ok_def gone_def\<close>)
qed

text \<open>An answer written over a refusal that is ready.\<close>

lemma late_fill:
  assumes "holds_refusal m s" "ld m s Status = ST_READY" "INLINE_BYTES < length body" "length body \<le> BUF_BYTES"
    "i < BUFS" "ctrl m (FreeFlag Res i) = 0"
    "write_fill m h s STATUS_OK body = (m1, h1)" "write_publish m1 h1 s = (m2, h2)"
  shows "ld m2 s Status = ST_READY \<and> ld m2 s ResStatus = STATUS_OK \<and> ld m2 s Gen = ld m s Gen \<and> prefix refusal (response m2 s)"
proof -
  obtain j where j: "acquireBuf (ctrl m) Res = ((ctrl m)(FreeFlag Res j := 1), int j)" "j < BUFS"
    using acquireBuf_cases [where m = "ctrl m" and d = Res] assms(5,6) by (auto simp: busy_bufs_def)
  define p where "p = put (put (load_buf m s Res j body) (Slot s ResLen) (word_of_nat (length body))) (Slot s ResStatus) STATUS_OK"
  have w: "write_fill m h s STATUS_OK body = (p, h)"
    using j assms(3,4) by (simp add: write_fill_def Let_def load_buf_def p_def)
  have st: "ld p s Status = ST_READY" "ld p s ResStatus = STATUS_OK" "ld p s ResLen = word_of_nat (length body)"
    "ld p s Gen = ld m s Gen" "inlineBuf p = inlineBuf m"
    using assms(2) by (simp_all add: p_def)
  have n: "m2 = drop_buf p s Res"
    using assms(7,8) st(1) by (auto simp: w write_publish_def compareExchange_def)
  have len: "sint (word_of_nat (length body) :: i32) = int (length body)"
    using sint_word_of_int_i32 [of "int (length body)"] assms(4) by (simp add: BUF_BYTES_def)
  have "rel_index (length (inlineBuf m s)) 0 = 0" using rel_index_nat [of "length (inlineBuf m s)" 0] by simp
  then have "refusal = take (rel_index (length (inlineBuf m s)) (sint (ld m s ResLen))) (inlineBuf m s)"
    using assms(1) by (simp add: holds_refusal_def slice0_def subarray_def)
  then obtain k where k: "refusal = take k (inlineBuf m s)" by blast
  have "slice0 (inlineBuf m s) (word_of_nat (length body)) = take (length body) (inlineBuf m s)"
    using subarray_nat [of "inlineBuf m s" 0 "length body"] by (simp add: slice0_def len)
  moreover have "prefix refusal (take (length body) (inlineBuf m s))"
  proof (rule prefix_length_prefix)
    show k': "prefix refusal (inlineBuf m s)" unfolding k by (rule take_is_prefix)
    show "prefix (take (length body) (inlineBuf m s)) (inlineBuf m s)" by (rule take_is_prefix)
    show "length refusal \<le> length (take (length body) (inlineBuf m s))"
      using refusal_small(1) assms(3) prefix_length_le [OF k'] by simp
  qed
  ultimately show ?thesis
    using st by (simp add: n response_def Let_def)
qed

section \<open>Properties\<close>



text \<open>
  C17. A refusal can still be spoiled. There is a run without a race in which the host stops while a
  handler is at work: the sweep answers the call with the refusal, the handler ends, finds the generation
  of the slot unmoved and writes its answer over the refusal that the worker has not collected yet. The
  exchange that would publish it fails, and the pooled buffer it went into is taken back, but the slot is
  left ready with the status of a success and the length of the answer, over the inline area. So the
  worker collects a success whose bytes begin with the refusal. (For any answer that is too large for the
  inline area and fits a pooled buffer, without the scheduler.)
\<close>

theorem late_answer_spoils_refusal:
  fixes p out :: bytes
  assumes "user_op op" "known op" "length p \<le> BUF_BYTES" "INLINE_BYTES < length out" "length out \<le> BUF_BYTES"
  shows "\<exists>\<sigma> \<sigma>' \<sigma>'' r. calm_run known False \<sigma> \<and> stop_run known False (\<sigma>, Serving) (\<sigma>', Stopped) \<and> refused (mem \<sigma>') 0
    \<and> (bridge_step known False)\<^sup>*\<^sup>* \<sigma>' \<sigma>'' \<and> answer \<sigma>'' 0 = Some (STATUS_OK, out)
    \<and> got \<sigma>'' = [(0, STATUS_OK, r)] \<and> prefix refusal r"
proof -
  obtain a where a: "calm_run known False a" "wpc a = WIdle" "hpc a = HIdle" "ld (mem a) 0 Status = ST_PENDING" "ld (mem a) 0 Op = op"
    "still (mem init) (mem a)" "(0, ld (mem init) 0 Gen, next_call init) \<in> tickets a" "owner a 0 = Some (next_call init)"
    "sent a (next_call init) = Some (op, p)" "got a = got init" "next_call init < next_call a"
    "\<forall>k. ctrl (mem a) (FreeFlag Res k) = ctrl (mem init) (FreeFlag Res k)"
    by (rule submit_runs [OF calm_run.start, of 0 0 op p known False])
      (use assms in \<open>simp_all add: init_def new_shared_def newBridge_def SLOTS_def BUFS_def ST_FREE_def\<close>)
  have c0: "next_call init = 0" "got init = []" "ctrl (mem init) (FreeFlag Res k) = 0" "ld (mem init) 0 Gen = 0" for k
    by (simp_all add: init_def new_shared_def newBridge_def)
  obtain b j where b: "calm_run known False b" "wpc b = WIdle" "hpc b = HIdle" "ld (mem b) 0 Status = ST_RUNNING" "still (mem a) (mem b)"
    "j \<in> set (jobq b)" "jslot j = 0" "jgen j = ld (mem a) 0 Gen" "jcall j = 0" "tickets b = tickets a" "got b = got a" "sent b = sent a"
    "owner b = owner a" "\<forall>k. ctrl (mem b) (FreeFlag Res k) = ctrl (mem a) (FreeFlag Res k)"
    by (rule take_runs [OF a(1-3) _ a(4), of 0]) (use a assms c0 in \<open>simp_all add: SLOTS_def\<close>)
  obtain d where d: "stop_run known False (b, Serving) (d, Stopped)" "hpc d = HIdle" "undisturbed b d"
    using stop_ends [OF b(3)] by blast
  have g: "ld (mem d) 0 Gen = 0" using a(6) b(5) d(3) c0 by (simp add: undisturbed_def same_memory_def still_def)
  have fr: "ctrl (mem d) (FreeFlag Res 0) = 0" using a(12) b(14) d(3) c0 by (simp add: undisturbed_def same_memory_def)
  have w: "waiting (mem b) 0" "owner b 0 = Some 0" "0 < SLOTS" using a(8) b(4,13) c0 by (simp_all add: waiting_def SLOTS_def)
  have "\<not> given_up d 0 0"
    using d(3) b(2,4) w(2) by (auto simp: given_up_def undisturbed_def same_memory_def ST_RUNNING_def ST_FREE_def ST_CANCELLED_def)
  then have r: "ld (mem d) 0 Status = ST_READY" "holds_refusal (mem d) 0"
    using stopped_call [OF calm_any [OF b(1)] b(3) d(1) w(3,1,2)] by simp_all
  obtain m1 h1 where f: "write_fill (mem d) (hst d) 0 STATUS_OK out = (m1, h1)" by fastforce
  obtain m2 h2 where q: "write_publish m1 h1 0 = (m2, h2)" by fastforce
  from late_fill [OF r(2,1) assms(4,5) _ fr f q]
  have e: "ld m2 0 Status = ST_READY" "ld m2 0 ResStatus = STATUS_OK" "ld m2 0 Gen = 0" "prefix refusal (response m2 0)"
    using g by (simp_all add: BUFS_def)
  let ?x = "d\<lparr>jobq := remove1 j (jobq d), hpc := HReply 0 STATUS_OK out 0, answer := (answer d)(0 \<mapsto> (STATUS_OK, out))\<rparr>"
  let ?y = "?x\<lparr>hpc := HWrite 0 STATUS_OK out 0\<rparr>" let ?z = "?y\<lparr>mem := m1, hst := h1, hpc := HFilled 0\<rparr>"
  let ?u = "?z\<lparr>mem := m2, hst := h2, hpc := HIdle\<rparr>" let ?v = "?u\<lparr>wpc := WCollect 0 0 []\<rparr>"
  let ?w = "?v\<lparr>mem := release (ping (drop_buf m2 0 Res)) 0, wpc := WIdle, got := got d @ [(0, STATUS_OK, concat ([] @ [response m2 0]))]\<rparr>"
  have t: "(0, 0, 0) \<in> tickets d" "wpc d = WIdle" "j \<in> set (jobq d)" "jgen j = 0" "got d = []"
    using a b d(3) c0 by (simp_all add: undisturbed_def still_def)
  have s1: "bridge_step known False d ?x"
    using bridge_step.job_done [OF d(2) t(3), of STATUS_OK out known False] t(4) g b(7,9) by simp
  have s2: "bridge_step known False ?x ?y" using bridge_step.reply_now [of ?x 0 STATUS_OK out 0 False known] g by simp
  have s3: "bridge_step known False ?y ?z" using f g by (intro bridge_step.write_fill) simp_all
  have s4: "bridge_step known False ?z ?u" using q by (intro bridge_step.write_publish) simp_all
  have s5: "bridge_step known False ?u ?v" by (rule bridge_step.collect_begin [of _ 0 0]) (use t e in simp_all)
  have s6: "bridge_step known False ?v ?w"
    using bridge_step.collect_ok [of ?v 0 0 "[]" STATUS_OK "ping (drop_buf m2 0 Res)" "response m2 0"] e by (simp add: readRes_eq)
  have "(bridge_step known False)\<^sup>*\<^sup>* d ?w"
    using s1 s2 s3 s4 s5 s6 by (meson converse_rtranclp_into_rtranclp rtranclp.rtrancl_refl)
  moreover have "answer ?w 0 = Some (STATUS_OK, out)" "got ?w = [(0, STATUS_OK, response m2 0)]" using t(5) by simp_all
  ultimately show ?thesis using b(1) d(1) holds_refused [OF r(2,1)] e(4) by blast
qed

theorem late_answer_spoils_refusal_witness:
  "\<exists>\<sigma> \<sigma>' \<sigma>'' r. calm_run (\<lambda>op. op = 7) False \<sigma> \<and> stop_run (\<lambda>op. op = 7) False (\<sigma>, Serving) (\<sigma>', Stopped)
    \<and> (bridge_step (\<lambda>op. op = 7) False)\<^sup>*\<^sup>* \<sigma>' \<sigma>'' \<and> got \<sigma>'' = [(0, STATUS_OK, r)] \<and> r \<noteq> replicate 40000 1"
proof -
  have r: "refusal \<noteq> []" "hd refusal \<noteq> 1"
    by (simp_all add: refusal_def faultedBytes_def changeBytes_def FAULT_OTHER_def)
  have "hd refusal = 1" if "prefix refusal (replicate 40000 1)"
    using r(1) hd_in_set [of refusal] set_mono_prefix [OF that] by (metis empty_iff in_set_replicate subsetD)
  then have "\<not> prefix refusal (replicate 40000 1)" using r(2) by blast
  then show ?thesis
    using late_answer_spoils_refusal [of 7 "\<lambda>op. op = 7" "[1]" "replicate 40000 1"]
    by (auto simp: user_op_def OP_PUSH_def OP_CONTINUE_def BUF_BYTES_def INLINE_BYTES_def)
qed

end
