(* ===== verification/Spawn.thy ===== *)
theory Spawn
  imports Complex_Main Queue Child_Life Faults
begin

text \<open>
  \<open>packages/platform/host/children.ts\<close>: \<open>spawnChild\<close>, which starts a worker on a source and
  wires its three streams to queues. The state holds the queues of \<open>Queue\<close>, the two promises, the
  flags the closures share and the grace timer; an event is something the runtime delivers (a
  message or an error of the worker, the timer), a call of \<open>kill\<close>, or a call on one of the
  streams. The lemmas show that it keeps the protocol of \<open>Child_Life\<close>, that a child that is gone
  leaves nobody waiting on its output, and that the reason of a failure is the last thing on its
  error stream.
\<close>

section \<open>Constants\<close>

definition QUEUE_CAP :: nat where "QUEUE_CAP = push_bit 20 8"

definition WORKER_MARKER :: jsstring where "WORKER_MARKER = js ''//wac-worker 1''"

text \<open>
  A number of the language: \<open>Number.isFinite\<close> holds of the finite ones alone. \<open>graceOf\<close> takes the
  default where the knob is absent or makes no sense.
\<close>

datatype number = NaN | Infinite bool | Finite rat

definition LOAD_GRACE_MS :: number where "LOAD_GRACE_MS = Finite 120000"

definition graceOf :: "number option \<Rightarrow> number" where
  "graceOf ms =
     (case ms of Some (Finite n) \<Rightarrow> (if n \<le> 0 then LOAD_GRACE_MS else Finite n) | _ \<Rightarrow> LOAD_GRACE_MS)"

text \<open>What the timer says; \<open>shown\<close> is the grace in milliseconds as the language prints it.\<close>

definition grace_words :: "jsstring \<Rightarrow> jsstring" where
  "grace_words shown =
     js ''did not report ready within '' @ shown @
     js ''ms: a worker bundle that does not speak the bridge protocol, or a machine too loaded to have evaluated it''"

definition OLD_BUNDLE :: jsstring where
  "OLD_BUNDLE = js ''built by an older wac than this one: rebuild it with --worker''"

definition NOT_A_BUNDLE :: jsstring where
  "NOT_A_BUNDLE = js ''not a wac worker bundle: build one with --worker''"

section \<open>State, events, effects\<close>

datatype worker_result = IsReady | IsOk int | IsError jsstring

record child =
  out_queue :: byte_queue
  err_queue :: byte_queue
  in_queue :: byte_queue
  has_worker :: bool
  stopped :: bool
  timer_set :: bool
  did_start :: bool
  loaded_as :: "jsstring option"
  exit_as :: "int option"

datatype spawn_event =
    OnMessage worker_result
  | OnError jsstring
  | Timer
  | CallKill
  | OnOut bq_call
  | OnErr bq_call
  | OnIn bq_call

datatype spawn_effect =
    LoadedIs jsstring
  | ExitIs int
  | StopResponder
  | TerminateWorker
  | OutSettles effect
  | ErrSettles effect
  | InSettles effect

type_synonym spawn_result = "child \<times> spawn_effect list"

section \<open>The closures of \<open>spawnChild\<close>\<close>

text \<open>
  Each takes the child and the effects so far. A promise keeps the value it was first settled with.
\<close>

definition settle_loaded :: "jsstring \<Rightarrow> spawn_result \<Rightarrow> spawn_result" where
  "settle_loaded why r =
     (case r of (c, es) \<Rightarrow>
        if loaded_as c \<noteq> None then (c, es)
        else (c\<lparr>loaded_as := Some why\<rparr>, es @ [LoadedIs why]))"

definition settle_exit :: "int \<Rightarrow> spawn_result \<Rightarrow> spawn_result" where
  "settle_exit n r =
     (case r of (c, es) \<Rightarrow>
        if exit_as c \<noteq> None then (c, es)
        else (c\<lparr>exit_as := Some n\<rparr>, es @ [ExitIs n]))"

definition load_done :: "jsstring \<Rightarrow> spawn_result \<Rightarrow> spawn_result" where
  "load_done why r = (case r of (c, es) \<Rightarrow> settle_loaded why (c\<lparr>timer_set := False\<rparr>, es))"

definition set_started :: "spawn_result \<Rightarrow> spawn_result" where
  "set_started r = (case r of (c, es) \<Rightarrow> (c\<lparr>did_start := True\<rparr>, es))"

definition on_out :: "bq_call \<Rightarrow> spawn_result \<Rightarrow> spawn_result" where
  "on_out call r =
     (case r of (c, es) \<Rightarrow> case bq_step (out_queue c) call of (q, settled) \<Rightarrow>
        (c\<lparr>out_queue := q\<rparr>, es @ map OutSettles settled))"

definition on_err :: "bq_call \<Rightarrow> spawn_result \<Rightarrow> spawn_result" where
  "on_err call r =
     (case r of (c, es) \<Rightarrow> case bq_step (err_queue c) call of (q, settled) \<Rightarrow>
        (c\<lparr>err_queue := q\<rparr>, es @ map ErrSettles settled))"

definition on_in :: "bq_call \<Rightarrow> spawn_result \<Rightarrow> spawn_result" where
  "on_in call r =
     (case r of (c, es) \<Rightarrow> case bq_step (in_queue c) call of (q, settled) \<Rightarrow>
        (c\<lparr>in_queue := q\<rparr>, es @ map InSettles settled))"

definition shutdown :: "spawn_result \<Rightarrow> spawn_result" where
  "shutdown r =
     (case r of (c, es) \<Rightarrow>
        if stopped c then (c, es)
        else on_err CallEnd (on_out CallEnd
               (c\<lparr>stopped := True\<rparr>, es @ [StopResponder, TerminateWorker])))"

text \<open>\<open>"wac: "\<close>, the first line of the reason, and a newline.\<close>

definition runtime_line :: "jsstring \<Rightarrow> bytes" where
  "runtime_line m = encode (js ''wac: '' @ takeWhile (\<lambda>u. u \<noteq> 10) m @ [10])"

fun on_message :: "child \<Rightarrow> worker_result \<Rightarrow> spawn_result" where
  "on_message c IsReady = set_started (load_done [] (c, []))"
| "on_message c (IsOk n) =
     settle_exit n (shutdown (set_started (load_done [] (c, []))))"
| "on_message c (IsError error) =
     settle_exit (-1) (shutdown (on_err (CallEndWith (runtime_line error))
       (set_started (load_done [] (c, [])))))"

definition on_error :: "child \<Rightarrow> jsstring \<Rightarrow> spawn_result" where
  "on_error c m =
     (let r = load_done m (c, []);
          r = (if did_start (fst r) then on_err (CallEndWith (runtime_line m)) r else r)
      in settle_exit (-1) (shutdown r))"

definition kill :: "child \<Rightarrow> spawn_result" where
  "kill c =
     settle_exit (-1) (shutdown (load_done (if did_start c then [] else KILLED_EARLY) (c, [])))"

text \<open>The timer fires once, and not at all after \<open>clearTimeout\<close>.\<close>

definition assumeAlive :: "jsstring \<Rightarrow> child \<Rightarrow> spawn_result" where
  "assumeAlive shown c =
     (if timer_set c then settle_loaded (grace_words shown) (c\<lparr>timer_set := False\<rparr>, []) else (c, []))"

text \<open>
  A child that was refused has no worker: its \<open>kill\<close> does nothing and nothing is delivered.
\<close>

fun spawn_step :: "jsstring \<Rightarrow> child \<Rightarrow> spawn_event \<Rightarrow> spawn_result" where
  "spawn_step shown c (OnMessage r) = (if has_worker c then on_message c r else (c, []))"
| "spawn_step shown c (OnError m) = (if has_worker c then on_error c m else (c, []))"
| "spawn_step shown c Timer = assumeAlive shown c"
| "spawn_step shown c CallKill = (if has_worker c then kill c else (c, []))"
| "spawn_step shown c (OnOut call) = on_out call (c, [])"
| "spawn_step shown c (OnErr call) = on_err call (c, [])"
| "spawn_step shown c (OnIn call) = on_in call (c, [])"

section \<open>\<open>spawnChild\<close>\<close>

definition looksBuilt :: "jsstring \<Rightarrow> bool" where
  "looksBuilt source \<longleftrightarrow>
     includes_str source (js ''SharedArrayBuffer'') \<or> includes_str source (js ''wacBind'')"

definition refused_child :: "jsstring \<Rightarrow> child" where
  "refused_child source =
     \<lparr>out_queue = fst (bq_end (new_ByteQueue QUEUE_CAP)), err_queue = fst (bq_end (new_ByteQueue QUEUE_CAP)),
      in_queue = fst (bq_end (new_ByteQueue 0)), has_worker = False, stopped = False,
      timer_set = False, did_start = False,
      loaded_as = Some (if looksBuilt source then OLD_BUNDLE else NOT_A_BUNDLE), exit_as = Some (-1)\<rparr>"

definition launched :: child where
  "launched =
     \<lparr>out_queue = new_ByteQueue QUEUE_CAP, err_queue = new_ByteQueue QUEUE_CAP,
      in_queue = new_ByteQueue 0, has_worker = True, stopped = False, timer_set = True,
      did_start = False, loaded_as = None, exit_as = None\<rparr>"

definition spawnChild :: "jsstring \<Rightarrow> child" where
  "spawnChild source = (if \<not> starts_with source WORKER_MARKER then refused_child source else launched)"

section \<open>Specification\<close>

text \<open>What each event is to \<open>Child_Life\<close>, and the part of the effects it speaks of.\<close>

fun life_of :: "spawn_event \<Rightarrow> life_event list" where
  "life_of (OnMessage IsReady) = [Ready]"
| "life_of (OnMessage (IsOk n)) = [Result True n]"
| "life_of (OnMessage (IsError e)) = [Result False 0]"
| "life_of (OnError m) = [Error m]"
| "life_of Timer = [Grace]"
| "life_of CallKill = [Kill]"
| "life_of _ = []"

fun life_part :: "spawn_effect list \<Rightarrow> life_effect list" where
  "life_part [] = []"
| "life_part (LoadedIs why # es) = SettleLoaded why # life_part es"
| "life_part (ExitIs n # es) = SettleExit n # life_part es"
| "life_part (StopResponder # es) = Shutdown # life_part es"
| "life_part (_ # es) = life_part es"

fun spoken :: "life_effect \<Rightarrow> bool" where
  "spoken (SayOnStderr l) = True"
| "spoken _ = False"

text \<open>The two words for a missed deadline: the code names the milliseconds.\<close>

definition same_why :: "jsstring \<Rightarrow> jsstring \<Rightarrow> jsstring \<Rightarrow> bool" where
  "same_why shown a b \<longleftrightarrow> a = b \<or> a = grace_words shown \<and> b = NOT_READY"

fun same_effect :: "jsstring \<Rightarrow> life_effect \<Rightarrow> life_effect \<Rightarrow> bool" where
  "same_effect shown (SettleLoaded a) e = (case e of SettleLoaded b \<Rightarrow> same_why shown a b | _ \<Rightarrow> False)"
| "same_effect shown a e = (a = e)"

definition simulates :: "jsstring \<Rightarrow> child \<Rightarrow> life_state \<Rightarrow> bool" where
  "simulates shown c l \<longleftrightarrow>
     did_start c = started l \<and> stopped c = shutDown l \<and> exit_as c = exited l
   \<and> rel_option (same_why shown) (loaded_as c) (loaded l)"

text \<open>The state invariant of a child with a worker.\<close>

definition both_ended :: "child \<Rightarrow> bool" where
  "both_ended c \<longleftrightarrow> ended (qstate (out_queue c)) \<and> ended (qstate (err_queue c))"

definition queues_ok :: "child \<Rightarrow> bool" where
  "queues_ok c \<longleftrightarrow> bq_ok (out_queue c) \<and> bq_ok (err_queue c) \<and> bq_ok (in_queue c)"

definition spawn_ok :: "child \<Rightarrow> bool" where
  "spawn_ok c \<longleftrightarrow> queues_ok c \<and> has_worker c
   \<and> (timer_set c \<longleftrightarrow> loaded_as c = None) \<and> (stopped c \<longrightarrow> both_ended c)"

text \<open>What happens on the error stream: the calls the child's own streams and the closures make.\<close>

fun err_calls_of :: "child \<Rightarrow> spawn_event \<Rightarrow> bq_call list" where
  "err_calls_of c (OnErr call) = [call]"
| "err_calls_of c (OnMessage (IsOk n)) = (if stopped c then [] else [CallEnd])"
| "err_calls_of c (OnMessage (IsError e)) =
     CallEndWith (runtime_line e) # (if stopped c then [] else [CallEnd])"
| "err_calls_of c (OnError m) =
     (if did_start c then [CallEndWith (runtime_line m)] else []) @ (if stopped c then [] else [CallEnd])"
| "err_calls_of c CallKill = (if stopped c then [] else [CallEnd])"
| "err_calls_of c _ = []"

fun err_calls :: "jsstring \<Rightarrow> child \<Rightarrow> spawn_event list \<Rightarrow> bq_call list" where
  "err_calls shown c [] = []"
| "err_calls shown c (e # es) = err_calls_of c e @ err_calls shown (fst (spawn_step shown c e)) es"

fun err_part :: "spawn_effect list \<Rightarrow> effect list" where
  "err_part [] = []"
| "err_part (ErrSettles e # es) = e # err_part es"
| "err_part (_ # es) = err_part es"

text \<open>The last words of a child: the reason of its first terminal event, if it failed after it started.\<close>

fun last_words :: "bool \<Rightarrow> spawn_event list \<Rightarrow> bytes" where
  "last_words st [] = []"
| "last_words st (OnMessage IsReady # es) = last_words True es"
| "last_words st (OnMessage (IsOk n) # es) = []"
| "last_words st (OnMessage (IsError e) # es) = runtime_line e"
| "last_words st (OnError m # es) = (if st then runtime_line m else [])"
| "last_words st (CallKill # es) = []"
| "last_words st (_ # es) = last_words st es"

text \<open>The child's own side of the error stream only writes and reads.\<close>

fun streams_open :: "spawn_event \<Rightarrow> bool" where
  "streams_open (OnErr CallEnd) = False"
| "streams_open (OnErr (CallEndWith b)) = False"
| "streams_open _ = True"

section \<open>Lemmas\<close>

lemmas spawn_defs = settle_loaded_def settle_exit_def load_done_def set_started_def on_out_def
  on_err_def on_in_def shutdown_def on_error_def kill_def assumeAlive_def

lemma life_part_append [simp]: "life_part (xs @ ys) = life_part xs @ life_part ys"
  by (induction xs rule: life_part.induct) auto

lemma life_part_settles [simp]:
  "life_part (map OutSettles es) = []" "life_part (map ErrSettles es) = []" "life_part (map InSettles es) = []"
  by (induction es) auto

lemma err_part_append [simp]: "err_part (xs @ ys) = err_part xs @ err_part ys"
  by (induction xs rule: err_part.induct) auto

lemma err_part_settles [simp]:
  "err_part (map OutSettles es) = []" "err_part (map ErrSettles es) = es" "err_part (map InSettles es) = []"
  by (induction es) auto

text \<open>Each closure as the update it makes and the effects it adds.\<close>

lemma fst_settle_loaded [simp]:
  "fst (settle_loaded why r) = (fst r)\<lparr>loaded_as := Some (case_option why id (loaded_as (fst r)))\<rparr>"
  by (cases r; cases "fst r") (auto simp: settle_loaded_def split: option.splits)

lemma fst_settle_exit [simp]:
  "fst (settle_exit n r) = (fst r)\<lparr>exit_as := Some (case_option n id (exit_as (fst r)))\<rparr>"
  by (cases r; cases "fst r") (auto simp: settle_exit_def split: option.splits)

lemma fst_load_done [simp]:
  "fst (load_done why r) =
     (fst r)\<lparr>timer_set := False, loaded_as := Some (case_option why id (loaded_as (fst r)))\<rparr>"
  by (cases r) (simp add: load_done_def)

lemma fst_set_started [simp]: "fst (set_started r) = (fst r)\<lparr>did_start := True\<rparr>"
  by (cases r) (simp add: set_started_def)

lemma fst_on_queues [simp]:
  "fst (on_out call r) = (fst r)\<lparr>out_queue := fst (bq_step (out_queue (fst r)) call)\<rparr>"
  "fst (on_err call r) = (fst r)\<lparr>err_queue := fst (bq_step (err_queue (fst r)) call)\<rparr>"
  "fst (on_in call r) = (fst r)\<lparr>in_queue := fst (bq_step (in_queue (fst r)) call)\<rparr>"
  by (auto simp: on_out_def on_err_def on_in_def split: prod.splits)

lemma snd_closures [simp]:
  "snd (settle_loaded why r) = snd r @ (if loaded_as (fst r) = None then [LoadedIs why] else [])"
  "snd (settle_exit n r) = snd r @ (if exit_as (fst r) = None then [ExitIs n] else [])"
  "snd (load_done why r) = snd r @ (if loaded_as (fst r) = None then [LoadedIs why] else [])"
  "snd (set_started r) = snd r"
  "snd (on_out call r) = snd r @ map OutSettles (snd (bq_step (out_queue (fst r)) call))"
  "snd (on_err call r) = snd r @ map ErrSettles (snd (bq_step (err_queue (fst r)) call))"
  "snd (on_in call r) = snd r @ map InSettles (snd (bq_step (in_queue (fst r)) call))"
  by (auto simp: spawn_defs split: prod.splits)

lemma shutdown_parts [simp]:
  "fst (shutdown r) = (fst r)\<lparr>stopped := True,
     out_queue := (if stopped (fst r) then out_queue (fst r) else fst (bq_step (out_queue (fst r)) CallEnd)),
     err_queue := (if stopped (fst r) then err_queue (fst r) else fst (bq_step (err_queue (fst r)) CallEnd))\<rparr>"
  "snd (shutdown r) = snd r @
     (if stopped (fst r) then []
      else [StopResponder, TerminateWorker] @ map OutSettles (snd (bq_step (out_queue (fst r)) CallEnd))
        @ map ErrSettles (snd (bq_step (err_queue (fst r)) CallEnd)))"
  by (cases r; cases "fst r"; simp add: shutdown_def split del: if_split; auto)+

lemmas spawn_step_defs = on_error_def kill_def assumeAlive_def Let_def

text \<open>A call on a queue keeps it well formed, and ends it exactly where it says so.\<close>

lemma bq_call_ok [simp]: "bq_ok q \<Longrightarrow> bq_ok (fst (bq_step q call))"
  using bq_step_ok [of q call] by simp

lemma bq_call_ended [simp]:
  assumes "bq_ok q"
  shows "ended (qstate (fst (bq_step q call))) \<longleftrightarrow>
    ended (qstate q) \<or> call = CallEnd \<or> (\<exists>b. call = CallEndWith b)"
proof -
  have "queue_ok (qstate q)" using assms by (simp add: bq_ok_def)
  from step_ended [OF this, of "event_of (next_id q) call"] bq_step_ok [OF assms, of call]
  show ?thesis by (cases call) auto
qed

declare bq_step.simps [simp del]

lemma spawn_ok_step: "spawn_ok c \<Longrightarrow> spawn_ok (fst (spawn_step shown c e))"
  by (cases e rule: life_of.cases)
    (auto simp: spawn_ok_def queues_ok_def both_ended_def spawn_step_defs)

lemma spawn_ok_launched: "spawn_ok launched"
  by (simp add: spawn_ok_def queues_ok_def launched_def bq_ok_new)

interpretation sp: event_machine launched "spawn_step shown" spawn_ok for shown
  by unfold_locales (simp_all add: spawn_ok_step spawn_ok_launched)

text \<open>One event against the steps of \<open>Child_Life\<close> it stands for.\<close>

lemma life_simulated_step:
  assumes "spawn_ok c" "life_ok l" "simulates shown c l"
  shows "simulates shown (fst (spawn_step shown c e)) (fst (run_machine life_step l (life_of e)))
    \<and> list_all2 (same_effect shown) (life_part (snd (spawn_step shown c e)))
         (filter (\<lambda>x. \<not> spoken x) (snd (run_machine life_step l (life_of e))))"
  using assms
  by (cases e rule: life_of.cases; cases "loaded l"; cases "exited l")
    (auto simp: spawn_ok_def life_ok_def simulates_def same_why_def spawn_step_defs life_defs)

lemma life_simulated_run:
  assumes "spawn_ok c" "life_ok l" "simulates shown c l"
  shows "simulates shown (fst (run_machine (spawn_step shown) c es))
      (fst (run_machine life_step l (concat (map life_of es))))
    \<and> list_all2 (same_effect shown) (life_part (snd (run_machine (spawn_step shown) c es)))
         (filter (\<lambda>x. \<not> spoken x) (snd (run_machine life_step l (concat (map life_of es)))))"
  using assms
proof (induction es arbitrary: c l)
  case (Cons e es)
  let ?c = "fst (spawn_step shown c e)" and ?l = "fst (run_machine life_step l (life_of e))"
  note st = life_simulated_step [OF Cons.prems, of e]
  have "spawn_ok ?c" "life_ok ?l"
    using Cons.prems by (simp_all add: spawn_ok_step life.inv_run_from)
  note ih = Cons.IH [OF this conjunct1 [OF st]]
  have app: "run_machine life_step l (concat (map life_of (e # es))) =
      (fst (run_machine life_step ?l (concat (map life_of es))),
       snd (run_machine life_step l (life_of e)) @ snd (run_machine life_step ?l (concat (map life_of es))))"
    by (simp add: run_machine_append split: prod.splits)
  show ?case
    using ih st unfolding app by (simp add: list_all2_appendI)
qed simp

lemma simulates_launched: "simulates shown launched newborn"
  by (simp add: simulates_def launched_def newborn_def)

text \<open>The error stream is a queue driven by the calls of \<open>err_calls\<close>.\<close>

lemma err_step:
  assumes "spawn_ok c"
  shows "err_queue (fst (spawn_step shown c e)) = fst (run_machine bq_step (err_queue c) (err_calls_of c e))
    \<and> err_part (snd (spawn_step shown c e)) = snd (run_machine bq_step (err_queue c) (err_calls_of c e))"
  using assms
  by (cases e rule: life_of.cases) (auto simp: spawn_ok_def spawn_step_defs)

lemma err_run:
  assumes "spawn_ok c"
  shows "err_queue (fst (run_machine (spawn_step shown) c es))
      = fst (run_machine bq_step (err_queue c) (err_calls shown c es))
    \<and> err_part (snd (run_machine (spawn_step shown) c es))
      = snd (run_machine bq_step (err_queue c) (err_calls shown c es))"
  using assms
proof (induction es arbitrary: c)
  case (Cons e es)
  from Cons.IH [OF spawn_ok_step [OF Cons.prems, of shown e]] err_step [OF Cons.prems, of shown e]
  show ?case by (auto simp: run_machine_append split: prod.splits)
qed simp

text \<open>The final line of those calls is the child's last words.\<close>

lemma final_line_read_or_write:
  "takes_id call \<Longrightarrow> final_line (event_of i call # evs) = final_line evs"
  by (cases call) auto

lemma err_final_line:
  assumes "spawn_ok c" "\<not> stopped c" "\<forall>e\<in>set es. streams_open e"
  shows "final_line (events_of i (err_calls shown c es)) = last_words (did_start c) es"
  using assms
proof (induction es arbitrary: c i)
  case (Cons e es)
  note ok = spawn_ok_step [OF Cons.prems(1), of shown e]
  show ?case
  proof (cases "\<exists>call. e = OnErr call")
    case True
    then obtain call where e: "e = OnErr call" by blast
    with Cons.prems have "takes_id call" by (cases call) auto
    then show ?thesis
      using Cons.prems Cons.IH [OF ok] by (simp add: e final_line_read_or_write)
  next
    case False
    then show ?thesis
      using Cons.prems Cons.IH [OF ok]
      by (cases e rule: life_of.cases) (auto simp: spawn_ok_def spawn_step_defs)
  qed
qed simp

text \<open>Nobody waits on a queue that has ended.\<close>

lemma ended_nobody_waits:
  "bq_ok q \<Longrightarrow> ended (qstate q) \<Longrightarrow> open_readers q = {} \<and> open_writers q = {}"
  by (simp add: bq_ok_def queue_ok_def waiting_readers_def waiting_writers_def)

text \<open>What two related sequences of effects share.\<close>

lemma same_effects_settle:
  assumes "list_all2 (same_effect shown) as bs"
  shows "exits as = exits bs" "length (loads as) = length (loads bs)" "shutdowns as = shutdowns bs"
    and "exit_after_shutdown d as = exit_after_shutdown d bs"
  using assms
proof (atomize (full), induction as bs arbitrary: d rule: list_all2_induct)
  case (Cons a as b bs)
  then show ?case by (cases a) (auto split: life_effect.splits)
qed simp

lemma unspoken_settle:
  "exits (filter (\<lambda>x. \<not> spoken x) es) = exits es" "loads (filter (\<lambda>x. \<not> spoken x) es) = loads es"
  "shutdowns (filter (\<lambda>x. \<not> spoken x) es) = shutdowns es"
  "exit_after_shutdown d (filter (\<lambda>x. \<not> spoken x) es) = exit_after_shutdown d es"
  by (induction d es rule: exit_after_shutdown.induct) auto

text \<open>A child without a worker stays as it was made, whatever is called on its streams.\<close>

definition refused_ok :: "jsstring \<Rightarrow> child \<Rightarrow> bool" where
  "refused_ok source c \<longleftrightarrow> queues_ok c \<and> \<not> has_worker c \<and> \<not> timer_set c \<and> both_ended c
   \<and> ended (qstate (in_queue c)) \<and> exit_as c = Some (-1)
   \<and> loaded_as c = Some (if looksBuilt source then OLD_BUNDLE else NOT_A_BUNDLE)"

lemma bq_end_new: "fst (bq_end (new_ByteQueue n)) = fst (bq_step (new_ByteQueue n) CallEnd)"
  by (simp add: bq_step.simps)

lemma refused_ok_refused: "refused_ok source (refused_child source)"
  by (simp add: refused_ok_def refused_child_def queues_ok_def both_ended_def bq_end_new bq_ok_new)

lemma refused_ok_step: "refused_ok source c \<Longrightarrow> refused_ok source (fst (spawn_step shown c e))"
  by (cases e) (auto simp: refused_ok_def queues_ok_def both_ended_def assumeAlive_def)

interpretation rf: event_machine "refused_child source" "spawn_step shown" "refused_ok source" for source shown
  by unfold_locales (simp_all add: refused_ok_step refused_ok_refused)

lemma refused_silent:
  assumes "refused_ok source c"
  shows "life_part (snd (run_machine (spawn_step shown) c es)) = []"
  using assms
proof (induction es arbitrary: c)
  case (Cons e es)
  have "life_part (snd (spawn_step shown c e)) = []"
    using Cons.prems by (cases e) (auto simp: refused_ok_def assumeAlive_def)
  with Cons.IH [OF refused_ok_step [OF Cons.prems, of shown e]] show ?case by simp
qed simp

section \<open>Properties\<close>

text \<open>
  C12. \<open>spawnChild\<close> drives the machine of \<open>childLife.ts\<close>, as that file says, though it does not call
  it: over every history of messages, errors, timer, kills and traffic on the streams, the flags
  and promises of the child are the state of that machine after the same events, and what is
  settled and shut down is the machine's effects in the same order (what is said on standard
  error apart, and with the milliseconds named in the words for a missed deadline).
\<close>

theorem spawn_refines_life:
  assumes "starts_with source WORKER_MARKER"
    and "run_machine (spawn_step shown) (spawnChild source) es = (c, out)"
    and "run_machine life_step newborn (concat (map life_of es)) = (l, effs)"
  shows "simulates shown c l
    \<and> list_all2 (same_effect shown) (life_part out) (filter (\<lambda>x. \<not> spoken x) effs)"
  using life_simulated_run [OF spawn_ok_launched life.inv_init simulates_launched, of shown es] assms
  by (simp add: spawnChild_def)

theorem spawn_refines_life_witness:
  "\<exists>c out l effs. run_machine (spawn_step []) (spawnChild WORKER_MARKER)
        [OnMessage IsReady, OnOut (CallPush [1]), OnMessage (IsOk 3), Timer, CallKill] = (c, out)
    \<and> run_machine life_step newborn [Ready, Result True 3, Grace, Kill] = (l, effs)
    \<and> simulates [] c l"
proof -
  let ?es = "[OnMessage IsReady, OnOut (CallPush [1]), OnMessage (IsOk 3), Timer, CallKill]"
  obtain c out where r: "run_machine (spawn_step []) (spawnChild WORKER_MARKER) ?es = (c, out)" by fastforce
  obtain l effs where l: "run_machine life_step newborn (concat (map life_of ?es)) = (l, effs)" by fastforce
  have "starts_with WORKER_MARKER WORKER_MARKER" by (simp add: WORKER_MARKER_def js_def)
  from spawn_refines_life [OF this r l] r l show ?thesis by simp
qed

text \<open>
  C13. A child that is gone leaves nobody waiting. Once a history holds a terminal event (a result,
  an error of the worker or a kill) the exit is settled with the first one's code, \<open>loaded\<close> is
  settled too, each exactly once; the responder was stopped exactly once and before the exit; and
  standard output and standard error have ended with no reader and no parked writer on either.
\<close>

theorem spawn_gone:
  assumes "starts_with source WORKER_MARKER"
    and "run_machine (spawn_step shown) (spawnChild source) es = (c, out)"
    and "first_exit (concat (map life_of es)) = Some n"
  shows "exit_as c = Some n \<and> exits (life_part out) = [n] \<and> length (loads (life_part out)) = 1
    \<and> loaded_as c \<noteq> None \<and> shutdowns (life_part out) = 1 \<and> exit_after_shutdown False (life_part out)
    \<and> both_ended c \<and> open_readers (out_queue c) = {} \<and> open_writers (out_queue c) = {}
    \<and> open_readers (err_queue c) = {} \<and> open_writers (err_queue c) = {}"
proof -
  obtain l effs where run: "run_machine life_step newborn (concat (map life_of es)) = (l, effs)" by fastforce
  have st: "run_machine (spawn_step shown) launched es = (c, out)"
    using assms(1,2) by (simp add: spawnChild_def)
  have sim: "simulates shown c l" and eff: "list_all2 (same_effect shown) (life_part out) (filter (\<lambda>x. \<not> spoken x) effs)"
    using life_simulated_run [OF spawn_ok_launched life.inv_init simulates_launched, of shown es] st run by simp_all
  note r = run_life_from [OF life.inv_init run]
  have ok: "life_ok l" using life.inv_run [of "concat (map life_of es)"] run by simp
  have ex: "exited l = Some n" using r(3) assms(3) by (simp add: newborn_def)
  have ld: "loaded l \<noteq> None" "shutDown l" using ok ex by (auto simp: life_ok_def)
  have sok: "spawn_ok c" using sp.inv_run [of shown es] st by simp
  have sd: "stopped c" "exit_as c = Some n" "loaded_as c \<noteq> None"
    using sim ld ex by (auto simp: simulates_def option_rel_Some2)
  have qs: "both_ended c" "bq_ok (out_queue c)" "bq_ok (err_queue c)"
    using sok sd(1) by (simp_all add: spawn_ok_def queues_ok_def)
  have "loads effs = opt_list (loaded l)" "exits effs = [n]" "shutdowns effs = 1" "exit_after_shutdown False effs"
    using r(4-7) ex ld(2) by (simp_all add: newborn_def opt_list_def)
  with same_effects_settle [OF eff] ld(1) have "exits (life_part out) = [n]"
    "length (loads (life_part out)) = 1" "shutdowns (life_part out) = 1" "exit_after_shutdown False (life_part out)"
    by (auto simp: unspoken_settle opt_list_def)
  then show ?thesis
    using sd qs ended_nobody_waits [OF qs(2)] ended_nobody_waits [OF qs(3)] by (simp add: both_ended_def)
qed

theorem spawn_gone_witness:
  "\<exists>c out. run_machine (spawn_step []) (spawnChild WORKER_MARKER) [OnOut CallNext, OnErr CallNext, CallKill] = (c, out)
    \<and> exit_as c = Some (-1) \<and> open_readers (out_queue c) = {} \<and> open_readers (err_queue c) = {}"
proof -
  let ?es = "[OnOut CallNext, OnErr CallNext, CallKill]"
  obtain c out where r: "run_machine (spawn_step []) (spawnChild WORKER_MARKER) ?es = (c, out)" by fastforce
  have "starts_with WORKER_MARKER WORKER_MARKER" "first_exit (concat (map life_of ?es)) = Some (-1)"
    by (simp_all add: WORKER_MARKER_def js_def)
  from spawn_gone [OF this(1) r this(2)] r show ?thesis by blast
qed

text \<open>
  C14. The reason a child failed is the last thing on its standard error. What was read from that
  stream, followed by what is still in it, is exactly the child's own acknowledged writes in order
  and then the last words: \<open>wac: \<close> and the first line of the reason, if the first terminal event was
  a failure after the child had started, and nothing otherwise; however often it fails again later
  the line is said once.
\<close>

theorem spawn_last_words:
  assumes "starts_with source WORKER_MARKER" "\<forall>e\<in>set es. streams_open e"
    and "\<forall>e\<in>set (events_of 0 (err_calls shown launched es)). pays pay e"
    and "run_machine (spawn_step shown) (spawnChild source) es = (c, out)"
  shows "delivered (err_part out) @ stream (qstate (err_queue c))
    = concat (map pay (acks (err_part out))) @ last_words False es"
proof -
  let ?calls = "err_calls shown launched es"
  have q: "err_queue launched = new_ByteQueue QUEUE_CAP" "\<not> stopped launched" "\<not> did_start launched"
    by (simp_all add: launched_def)
  have e: "err_queue c = fst (run_machine bq_step (new_ByteQueue QUEUE_CAP) ?calls)"
    "err_part out = snd (run_machine bq_step (new_ByteQueue QUEUE_CAP) ?calls)"
    using err_run [OF spawn_ok_launched, of shown es] assms(1,4) by (simp_all add: spawnChild_def q)
  have n: "qstate (new_ByteQueue QUEUE_CAP) = emptyQueue QUEUE_CAP" "next_id (new_ByteQueue QUEUE_CAP) = 0"
    by (simp_all add: new_ByteQueue_def)
  have "parked_as pay (emptyQueue QUEUE_CAP)" "stream (emptyQueue QUEUE_CAP) = []" "\<not> ended (emptyQueue QUEUE_CAP)"
    by (simp_all add: parked_as_def emptyQueue_def stream_def)
  with run_bytes [OF queue_ok_empty this(1) assms(3)] bq_refines_from [OF bq_ok_new, of QUEUE_CAP ?calls]
    err_final_line [OF spawn_ok_launched q(2) assms(2), of 0 shown] q(3)
  show ?thesis by (simp add: e n)
qed

theorem spawn_last_words_witness:
  "\<exists>c out. run_machine (spawn_step []) (spawnChild WORKER_MARKER)
        [OnMessage IsReady, OnErr (CallPush [7]), OnError [65, 10, 66], OnError [67]] = (c, out)
    \<and> delivered (err_part out) @ stream (qstate (err_queue c))
      = concat (map (\<lambda>i. [7]) (acks (err_part out))) @ [119, 97, 99, 58, 32, 65, 10]"
proof -
  let ?es = "[OnMessage IsReady, OnErr (CallPush [7]), OnError [65, 10, 66], OnError [67]]"
  obtain c out where r: "run_machine (spawn_step []) (spawnChild WORKER_MARKER) ?es = (c, out)" by fastforce
  have m: "starts_with WORKER_MARKER WORKER_MARKER" by (simp add: WORKER_MARKER_def js_def)
  have o: "\<forall>e\<in>set ?es. streams_open e" by simp
  have p: "\<forall>e\<in>set (events_of 0 (err_calls [] launched ?es)). pays (\<lambda>i. [7]) e"
    by (simp add: launched_def on_error_def Let_def)
  have "last_words False ?es = [119, 97, 99, 58, 32, 65, 10]"
    by (simp add: runtime_line_def js_def encode_def enc_cp_def scalar_def)
  with spawn_last_words [OF m o p r] r show ?thesis by auto
qed

text \<open>
  A source without the marker of a worker bundle is refused before anything runs: no worker is
  ever made, the exit is \<open>-1\<close>, \<open>loaded\<close> says which of the two things is wrong, and all three
  streams have ended with nobody waiting on them, whatever is called on the child afterwards.
\<close>

theorem spawn_unmarked:
  assumes "\<not> starts_with source WORKER_MARKER"
    and "run_machine (spawn_step shown) (spawnChild source) es = (c, out)"
  shows "\<not> has_worker c \<and> life_part out = [] \<and> exit_as c = Some (-1)
    \<and> loaded_as c = Some (if looksBuilt source then OLD_BUNDLE else NOT_A_BUNDLE)
    \<and> (\<forall>q\<in>{out_queue c, err_queue c, in_queue c}. ended (qstate q) \<and> open_readers q = {} \<and> open_writers q = {})"
proof -
  have r: "run_machine (spawn_step shown) (refused_child source) es = (c, out)"
    using assms by (simp add: spawnChild_def)
  have "refused_ok source c" using rf.inv_run [of source shown es] r by simp
  moreover have "life_part out = []" using refused_silent [OF refused_ok_refused, of shown source es] r by simp
  ultimately show ?thesis
    by (auto simp: refused_ok_def queues_ok_def both_ended_def ended_nobody_waits)
qed

theorem spawn_unmarked_witness:
  "\<exists>c out. run_machine (spawn_step []) (spawnChild (js ''let x'')) [CallKill, OnOut CallNext] = (c, out)
    \<and> loaded_as c = Some NOT_A_BUNDLE \<and> exit_as c = Some (-1)"
proof -
  obtain c out where r: "run_machine (spawn_step []) (spawnChild (js ''let x'')) [CallKill, OnOut CallNext] = (c, out)"
    by fastforce
  have "\<not> starts_with (js ''let x'') WORKER_MARKER" "\<not> looksBuilt (js ''let x'')"
    by (simp_all add: WORKER_MARKER_def js_def looksBuilt_def)
  with spawn_unmarked [OF this(1) r] r show ?thesis by simp
qed

end
