(* ===== verification/World.thy ===== *)
theory World
  imports Spawn Wire Child_Stack
begin

text \<open>
  What the worlds of \<open>deno.ts\<close>, \<open>node.ts\<close> and \<open>browser.ts\<close> have in common: the operation codes of \<open>ops.ts\<close>, the
  runtime they call, the state their handlers close over, and how handlers run. A handler is code
  between two points where it calls the runtime: what the runtime can be asked is an \<open>os_call\<close>, what
  it can answer an \<open>os_reply\<close>, and nothing is assumed of the answers but that they have the right
  type. Several handlers of a world may be waiting at once, and their stretches interleave. Where a
  waiting handler stands is a value of a type each host has its own of (\<open>'p\<close> below).
\<close>

unbundle bit_operations_syntax

section \<open>Operations and grants: ops.ts\<close>

text \<open>Those from 31 to 40 are a page's: the worlds of Deno and Node have no handlers for them.\<close>

datatype (plugins only: size code) op =
    NOW_MILLIS | MONOTONIC_NANOS | RANDOM_BYTES | LOG | WARN | ARG_COUNT | ARG | ENV | READ_FILE
  | WRITE_FILE | READ_STDIN | WRITE_STDOUT | STAT | READ_DIR | MKDIR | REMOVE | RENAME | OPEN_INPUT
  | READ_CHUNK | OPEN_OUTPUT | CONNECT | LISTEN | ACCEPT | RECV | SEND | CLOSE_SOCKET | SPAWN
  | EXIT_CODE | CLOSE_FEED | SLEEP_MILLIS | RENDER | SET_TEXT | SET_VALUE | GET_VALUE | ON | NEXT_EVENT
  | TITLE | DRAW_PIXELS | NEXT_FILE | OFFER_DOWNLOAD | CWD | PUSH_CHILD | POP_CHILD | OUTPUT_ERROR | LINK_STAT
  | WRITE_STDERR | SPAWN_SELF

primrec op_number :: "op \<Rightarrow> int" where
  "op_number NOW_MILLIS = 1"
| "op_number MONOTONIC_NANOS = 2"
| "op_number RANDOM_BYTES = 3"
| "op_number LOG = 4"
| "op_number WARN = 5"
| "op_number ARG_COUNT = 6"
| "op_number ARG = 7"
| "op_number ENV = 8"
| "op_number READ_FILE = 9"
| "op_number WRITE_FILE = 10"
| "op_number READ_STDIN = 11"
| "op_number WRITE_STDOUT = 12"
| "op_number STAT = 13"
| "op_number READ_DIR = 14"
| "op_number MKDIR = 15"
| "op_number REMOVE = 16"
| "op_number RENAME = 17"
| "op_number OPEN_INPUT = 18"
| "op_number READ_CHUNK = 19"
| "op_number OPEN_OUTPUT = 20"
| "op_number CONNECT = 21"
| "op_number LISTEN = 22"
| "op_number ACCEPT = 23"
| "op_number RECV = 24"
| "op_number SEND = 25"
| "op_number CLOSE_SOCKET = 26"
| "op_number SPAWN = 27"
| "op_number EXIT_CODE = 28"
| "op_number CLOSE_FEED = 29"
| "op_number SLEEP_MILLIS = 30"
| "op_number RENDER = 31"
| "op_number SET_TEXT = 32"
| "op_number SET_VALUE = 33"
| "op_number GET_VALUE = 34"
| "op_number ON = 35"
| "op_number NEXT_EVENT = 36"
| "op_number TITLE = 37"
| "op_number DRAW_PIXELS = 38"
| "op_number NEXT_FILE = 39"
| "op_number OFFER_DOWNLOAD = 40"
| "op_number CWD = 41"
| "op_number PUSH_CHILD = 42"
| "op_number POP_CHILD = 43"
| "op_number OUTPUT_ERROR = 45"
| "op_number LINK_STAT = 47"
| "op_number WRITE_STDERR = 48"
| "op_number SPAWN_SELF = 49"

text \<open>The number in a slot names its handler: \<open>handlers[op]\<close>.\<close>

definition op_of :: "int \<Rightarrow> op option" where
  "op_of n = List.find (\<lambda>a. op_number a = n)
   [NOW_MILLIS, MONOTONIC_NANOS, RANDOM_BYTES, LOG, WARN, ARG_COUNT, ARG, ENV, READ_FILE,
    WRITE_FILE, READ_STDIN, WRITE_STDOUT, STAT, READ_DIR, MKDIR, REMOVE, RENAME, OPEN_INPUT,
    READ_CHUNK, OPEN_OUTPUT, CONNECT, LISTEN, ACCEPT, RECV, SEND, CLOSE_SOCKET, SPAWN,
    EXIT_CODE, CLOSE_FEED, SLEEP_MILLIS, RENDER, SET_TEXT, SET_VALUE, GET_VALUE, ON, NEXT_EVENT,
    TITLE, DRAW_PIXELS, NEXT_FILE, OFFER_DOWNLOAD, CWD, PUSH_CHILD, POP_CHILD, OUTPUT_ERROR, LINK_STAT,
    WRITE_STDERR, SPAWN_SELF]"

lemma op_of_number: "op_of (op_number a) = Some a"
  by (cases a) (simp_all add: op_of_def)

definition GRANT_READ :: int where "GRANT_READ = 1"
definition GRANT_WRITE :: int where "GRANT_WRITE = 2"
definition GRANT_NET :: int where "GRANT_NET = 4"
definition GRANT_ENV :: int where "GRANT_ENV = 8"

section \<open>The runtime\<close>

text \<open>
  Streams and children are named by the handles that lead to them from the first world: a child a
  world starts under handle \<open>h\<close> has the world's name and \<open>h\<close>.
\<close>

type_synonym name = "int list"

text \<open>The options of a world, \<open>DenoWorldOptions\<close>, \<open>NodeWorldOptions\<close> with what Node keeps in \<open>io\<close>, and
  \<open>BrowserWorldOptions\<close>: a missing \<open>fs\<close> is one with neither permission, and so is a missing \<open>root\<close> of
  a page, whose \<open>writable\<close> is \<open>fs_write\<close>; \<open>worker_opt\<close> is Node's \<open>makeWorker\<close>, \<open>linkStat_opt\<close> its
  \<open>io.linkStat\<close>, and \<open>dom_opt\<close> a page's \<open>dom\<close>.\<close>

record options =
  args_opt :: "(jsstring + bytes) list"
  fs_read :: bool
  fs_write :: bool
  net_opt :: bool
  env_opt :: bool
  cwd_opt :: "jsstring option"
  self_opt :: "jsstring option"
  write_opt :: bool
  writeErr_opt :: bool
  worker_opt :: bool
  linkStat_opt :: bool
  dom_opt :: bool
  stdin_opt :: "name option"
  chunk_opt :: "name option"

text \<open>
  Of a page: its file system, whose handles are numbers, 0 the one of the root the page was given, and
  the document.
\<close>

datatype (plugins only: size code) opfs_call =
    GetDirectory nat jsstring bool | GetFileHandle nat jsstring bool | GetFile nat
  | ArrayBuffer nat | SliceBuffer nat nat nat
  | CreateWritable nat | WriteInto nat bytes | CloseWritable nat
  | RemoveEntry nat jsstring bool | DirKeys nat

datatype (plugins only: size code) dom_call =
    DomRender jsstring | DomSetText jsstring jsstring | DomSetValue jsstring jsstring | DomValue jsstring
  | DomOn jsstring jsstring | DomTitle jsstring | DomNext
  | DomDraw jsstring int int bytes | DomNextFile | DomOffer jsstring bytes

datatype (plugins only: size code) os_call =
    DateNow | PerformanceNow | ProcessCwd | SetTimeout int | RandomValues nat
  | LogLine jsstring | WarnLine jsstring | GetEnv jsstring
  | ReadFile jsstring | WriteFile jsstring bytes | Stat jsstring | Lstat jsstring | ReadDir jsstring
  | Mkdir jsstring bool | Remove jsstring bool | Rename jsstring jsstring
  | OpenRead jsstring | OpenWrite jsstring | FileRead nat | FileWrite nat bytes | FileClose nat
  | PipedAll name | PipedChunk name | StdinRead | StdoutWrite bytes | StderrWrite bytes
  | PipedWrite bytes | PipedWriteErr bytes
  | Yield | IoStdin "name option" | IoChunk "name option" | IoWrite bytes | IoWriteErr bytes
  | FileNext nat | FileWriteAll nat bytes | ConnNext nat | ConnSend nat bytes
  | ConnectTo jsstring int | ListenOn "jsstring option" int | AcceptFrom nat
  | ConnRead nat | ConnWrite nat bytes | ConnClose nat | ListenerClose nat
  | StartChild name jsstring "bytes list" options
  | ChildLoaded name | ChildKill name | ChildOut name | ChildErr name
  | ChildIn name bytes | ChildInEnd name | ChildExit name
  | ConsoleLog jsstring | Opfs opfs_call | Dom dom_call

datatype (plugins only: size code) os_reply =
    Done | IntR int | BytesR bytes | NullR | TextR jsstring | NamesR "jsstring list"
  | StatR file_stat | OpenedR nat | WroteR nat | SocketR nat jsstring int | ListenerR nat int
  | BlobR nat nat int | EventR "jsstring list" | PickedR bool jsstring bytes jsstring
  | Raised thrown

text \<open>Which reply a call can have: a value of its type, or an exception.\<close>

primrec replies :: "os_call \<Rightarrow> os_reply \<Rightarrow> bool" where
  "replies c (Raised e) = True"
| "replies c (IntR n) = (case c of DateNow \<Rightarrow> True | PerformanceNow \<Rightarrow> True | SetTimeout ms \<Rightarrow> True
     | ChildExit nm \<Rightarrow> True | _ \<Rightarrow> False)"
| "replies c (BytesR b) = (case c of RandomValues n \<Rightarrow> length b = n | ReadFile p \<Rightarrow> True | FileRead f \<Rightarrow> length b \<le> CHUNK
     | PipedAll s \<Rightarrow> True | PipedChunk s \<Rightarrow> True | StdinRead \<Rightarrow> length b \<le> CHUNK | ConnRead k \<Rightarrow> length b \<le> CHUNK
     | IoStdin s \<Rightarrow> True | IoChunk s \<Rightarrow> True | FileNext f \<Rightarrow> True | ConnNext k \<Rightarrow> True
     | ChildOut n \<Rightarrow> True | ChildErr n \<Rightarrow> True
     | Opfs o1 \<Rightarrow> (case o1 of ArrayBuffer k \<Rightarrow> True | SliceBuffer k a z \<Rightarrow> length b = z - a | _ \<Rightarrow> False) | _ \<Rightarrow> False)"
| "replies c NullR = (case c of FileRead f \<Rightarrow> True | StdinRead \<Rightarrow> True | ConnRead k \<Rightarrow> True | GetEnv n \<Rightarrow> True | _ \<Rightarrow> False)"
| "replies c (TextR s) = (case c of ProcessCwd \<Rightarrow> True | GetEnv n \<Rightarrow> True | ChildLoaded n \<Rightarrow> True
     | Dom d \<Rightarrow> (case d of DomValue i \<Rightarrow> True | _ \<Rightarrow> False) | _ \<Rightarrow> False)"
| "replies c (NamesR ns) = (case c of ReadDir p \<Rightarrow> True | Opfs o1 \<Rightarrow> (case o1 of DirKeys d \<Rightarrow> True | _ \<Rightarrow> False) | _ \<Rightarrow> False)"
| "replies c (StatR st) = (case c of Stat p \<Rightarrow> True | Lstat p \<Rightarrow> True | _ \<Rightarrow> False)"
| "replies c (OpenedR f) = (case c of OpenRead p \<Rightarrow> True | OpenWrite p \<Rightarrow> True
     | Opfs o1 \<Rightarrow> (case o1 of GetDirectory d n m \<Rightarrow> True | GetFileHandle d n m \<Rightarrow> True | CreateWritable h \<Rightarrow> True | _ \<Rightarrow> False)
     | _ \<Rightarrow> False)"
| "replies c (WroteR n) = (case c of FileWrite f b \<Rightarrow> n \<le> length b | StdoutWrite b \<Rightarrow> n \<le> length b
     | StderrWrite b \<Rightarrow> n \<le> length b | ConnWrite k b \<Rightarrow> n \<le> length b | _ \<Rightarrow> False)"
| "replies c (SocketR k peer port) = (case c of ConnectTo h p \<Rightarrow> True | AcceptFrom l \<Rightarrow> True | _ \<Rightarrow> False)"
| "replies c (ListenerR l port) = (case c of ListenOn h p \<Rightarrow> True | _ \<Rightarrow> False)"
| "replies c (BlobR k n t) = (case c of Opfs o1 \<Rightarrow> (case o1 of GetFile h \<Rightarrow> True | _ \<Rightarrow> False) | _ \<Rightarrow> False)"
| "replies c (EventR fs) = (case c of Dom d \<Rightarrow> (case d of DomNext \<Rightarrow> length fs = 5 | _ \<Rightarrow> False) | _ \<Rightarrow> False)"
| "replies c (PickedR ok n b e) = (case c of Dom d \<Rightarrow> (case d of DomNextFile \<Rightarrow> True | _ \<Rightarrow> False) | _ \<Rightarrow> False)"
| "replies c Done = (case c of LogLine l \<Rightarrow> True | WarnLine l \<Rightarrow> True | WriteFile p b \<Rightarrow> True | Mkdir p r \<Rightarrow> True
     | Remove p r \<Rightarrow> True | Rename p q \<Rightarrow> True | FileClose f \<Rightarrow> True | PipedWrite b \<Rightarrow> True | PipedWriteErr b \<Rightarrow> True
     | Yield \<Rightarrow> True | IoWrite b \<Rightarrow> True | IoWriteErr b \<Rightarrow> True | FileWriteAll f b \<Rightarrow> True | ConnSend k b \<Rightarrow> True
     | ConnClose k \<Rightarrow> True | ListenerClose l \<Rightarrow> True | StartChild n s a os \<Rightarrow> True | ChildKill n \<Rightarrow> True
     | ChildIn n b \<Rightarrow> True | ChildInEnd n \<Rightarrow> True | ConsoleLog l \<Rightarrow> True
     | Opfs o1 \<Rightarrow> (case o1 of WriteInto k b \<Rightarrow> True | CloseWritable k \<Rightarrow> True | RemoveEntry d n m \<Rightarrow> True | _ \<Rightarrow> False)
     | Dom d \<Rightarrow> (case d of DomValue i \<Rightarrow> False | DomNext \<Rightarrow> False | DomNextFile \<Rightarrow> False | _ \<Rightarrow> True)
     | _ \<Rightarrow> False)"

section \<open>The world's state\<close>

text \<open>A page's input is a blob it opened, with its size and the position reached.\<close>

record world =
  source_file :: "nat option"
  source_blob :: "(nat \<times> nat \<times> nat) option"
  sink_file :: "nat option"
  sockets :: "int \<rightharpoonup> nat"
  listeners :: "int \<rightharpoonup> nat"
  children :: "int \<rightharpoonup> name"
  errStreams :: "int \<rightharpoonup> name"
  nextHandle :: int
  kids :: stack
  outputFailure :: jsstring

definition new_world :: world where
  "new_world = \<lparr>source_file = None, source_blob = None, sink_file = None, sockets = Map.empty, listeners = Map.empty,
     children = Map.empty, errStreams = Map.empty, nextHandle = 1, kids = [], outputFailure = []\<rparr>"

text \<open>How a stretch of a handler ends: answered, thrown, or in a call of the runtime, which the
  handler either awaits or makes synchronously.\<close>

datatype 'p ending = Finish bytes | Fail thrown | Await os_call 'p | Do os_call 'p

type_synonym 'p stretch = "world \<times> 'p ending"

section \<open>Shared pieces\<close>

text \<open>What the language throws when a \<open>DataView\<close> is read out of range or a property of nothing is.\<close>

definition plain_error :: "string \<Rightarrow> jsstring \<Rightarrow> thrown" where
  "plain_error cls txt =
     Object \<lparr>is_NotFound = False, is_PermissionDenied = False, is_AlreadyExists = False, code = None,
       ename = Some (js cls), etext = txt\<rparr>"

definition OUT_OF_RANGE :: thrown where
  "OUT_OF_RANGE = plain_error ''RangeError'' (js ''Offset is outside the bounds of the DataView'')"

definition null_error :: "jsstring \<Rightarrow> string \<Rightarrow> thrown" where
  "null_error v prop =
     plain_error ''TypeError'' (js ''Cannot read properties of '' @ v @ js '' (reading '' @ [39] @ js prop @ [39, 41])"

definition deny :: "string \<Rightarrow> 'p ending" where
  "deny what = Fail (Faulted FAULT_NOT_GRANTED (js what @ js '' not granted to this application''))"

definition denied_change :: "string \<Rightarrow> 'p ending" where
  "denied_change what = Finish (changeBytes FAULT_NOT_GRANTED (js what @ js '' not granted to this application''))"

definition P :: "options \<Rightarrow> world \<Rightarrow> jsstring \<Rightarrow> jsstring" where
  "P opts w path = joinPath (case cwd_opt opts of None \<Rightarrow> [] | Some d \<Rightarrow> d) (path_of (kids w) path)"

definition tagged :: "bytes \<Rightarrow> bytes" where
  "tagged b = (if b = [] then END_READ else data b)"

definition with_i32 :: "world \<Rightarrow> bytes \<Rightarrow> (int \<Rightarrow> 'p stretch) \<Rightarrow> 'p stretch" where
  "with_i32 w p f = (case readI32le p of None \<Rightarrow> (w, Fail OUT_OF_RANGE) | Some n \<Rightarrow> f n)"

definition own_args :: "options \<Rightarrow> world \<Rightarrow> (jsstring + bytes) list" where
  "own_args opts w = (case args_of (kids w) of Some l \<Rightarrow> map Inl l | None \<Rightarrow> args_opt opts)"

text \<open>No call has a reply of another type (\<open>replies\<close>), so the last resort is never reached.\<close>

definition unexpected :: "world \<Rightarrow> 'p stretch" where
  "unexpected w = (w, Fail (plain_error ''TypeError'' []))"

text \<open>What \<open>respond.ts\<close> answers for an operation the table has nothing for.\<close>

definition no_handler :: "world \<Rightarrow> op \<Rightarrow> 'p stretch" where
  "no_handler w oper = (w, Fail (Faulted FAULT_OTHER (js ''no handler for capability '' @ dec_int (op_number oper))))"

text \<open>\<open>readChunkIn\<close>: the chunk reader of the options, else their whole reader.\<close>

definition readChunkIn :: "options \<Rightarrow> os_call option" where
  "readChunkIn opts =
     (case chunk_opt opts of Some s \<Rightarrow> Some (PipedChunk s) | None \<Rightarrow> map_option PipedAll (stdin_opt opts))"

text \<open>\<open>sort\<close> of the language compares the UTF-16 code units.\<close>

definition utf16 :: "jsstring \<Rightarrow> nat list" where
  "utf16 s = concat (map (\<lambda>c. if c < 65536 then [c]
     else [55296 + (c - 65536) div 1024, 56320 + (c - 65536) mod 1024]) s)"

fun units_le :: "nat list \<Rightarrow> nat list \<Rightarrow> bool" where
  "units_le [] ys = True"
| "units_le (x # xs) [] = False"
| "units_le (x # xs) (y # ys) = (x < y \<or> x = y \<and> units_le xs ys)"

fun insert_name :: "jsstring \<Rightarrow> jsstring list \<Rightarrow> jsstring list" where
  "insert_name n [] = [n]"
| "insert_name n (m # ms) = (if units_le (utf16 n) (utf16 m) then n # m # ms else m # insert_name n ms)"

definition sort_names :: "jsstring list \<Rightarrow> jsstring list" where
  "sort_names names = foldr insert_name names []"

definition add_handle :: "world \<Rightarrow> int \<times> world" where
  "add_handle w = (nextHandle w, w\<lparr>nextHandle := nextHandle w + 1\<rparr>)"

section \<open>The options of a child\<close>

definition give :: "options \<Rightarrow> int \<Rightarrow> options \<Rightarrow> options" where
  "give opts wanted o1 =
     o1\<lparr>fs_read := wanted AND GRANT_READ \<noteq> 0 \<and> fs_read opts,
        fs_write := wanted AND GRANT_WRITE \<noteq> 0 \<and> fs_write opts,
        net_opt := wanted AND GRANT_NET \<noteq> 0 \<and> net_opt opts,
        env_opt := wanted AND GRANT_ENV \<noteq> 0 \<and> env_opt opts\<rparr>"

text \<open>
  The options of the child's world. Its output goes to its parent's queues; it reads its own input
  queue, which has its name, unless it inherits its parent's.
\<close>

definition child_options :: "options \<Rightarrow> name \<Rightarrow> bytes list \<Rightarrow> int \<Rightarrow> jsstring \<Rightarrow> bool \<Rightarrow> options" where
  "child_options opts child childArgs wanted childCwd inherit =
     give opts wanted
       \<lparr>args_opt = map Inr childArgs, fs_read = False, fs_write = False, net_opt = False, env_opt = False,
        cwd_opt = (if childCwd = [] then cwd_opt opts else Some childCwd), self_opt = self_opt opts,
        write_opt = True, writeErr_opt = True, worker_opt = worker_opt opts, linkStat_opt = linkStat_opt opts,
        dom_opt = False, stdin_opt = (if inherit then stdin_opt opts else Some child),
        chunk_opt = (if inherit then chunk_opt opts else Some child)\<rparr>"

section \<open>Starting a child\<close>

text \<open>
  \<open>startChild\<close> up to the worker it starts; \<open>at_start\<close> is where a host's handler stands then, and \<open>mk\<close>
  makes the options of the child's world. The handle is taken from the counter before anything is
  awaited.
\<close>

definition start_worker ::
  "(name \<Rightarrow> int \<Rightarrow> 'p) \<Rightarrow> (name \<Rightarrow> options) \<Rightarrow> name \<Rightarrow> world \<Rightarrow> jsstring \<Rightarrow> bytes list \<Rightarrow> 'p stretch"
where
  "start_worker at_start mk self w src childArgs =
     (let h = nextHandle w; child = self @ [h]
      in (w\<lparr>nextHandle := h + 1\<rparr>, Do (StartChild child src childArgs (mk child)) (at_start child h)))"

text \<open>Under Deno and Node.\<close>

definition startChild ::
  "(name \<Rightarrow> int \<Rightarrow> 'p) \<Rightarrow> name \<Rightarrow> options \<Rightarrow> world \<Rightarrow> jsstring \<Rightarrow> bytes list \<Rightarrow> int \<Rightarrow> jsstring \<Rightarrow> bool \<Rightarrow> 'p stretch"
where
  "startChild at_start self opts w src childArgs wanted childCwd inherit =
     start_worker at_start (\<lambda>child. child_options opts child childArgs wanted childCwd inherit) self w src childArgs"

text \<open>The child has loaded: its two handles are registered.\<close>

definition register_child :: "world \<Rightarrow> name \<Rightarrow> int \<Rightarrow> 'p stretch" where
  "register_child w c h =
     (case add_handle w of (eh, w) \<Rightarrow>
        (w\<lparr>children := (children w)(h \<mapsto> c), errStreams := (errStreams w)(eh \<mapsto> c)\<rparr>, Finish (twoHandles h eh [])))"

section \<open>Closing a handle\<close>

text \<open>
  The stretches of \<open>CLOSE_SOCKET\<close>, the last one first, and where a host's handler stands between
  them. The two hosts have the same code.
\<close>

record 'p closers =
  after_conn :: "int \<Rightarrow> 'p"
  after_listener :: "int \<Rightarrow> 'p"
  after_in :: "int \<Rightarrow> 'p"
  after_kill :: "int \<Rightarrow> 'p"

definition close_forget :: "world \<Rightarrow> int \<Rightarrow> 'p stretch" where
  "close_forget w h =
     (w\<lparr>sockets := (sockets w)(h := None), listeners := (listeners w)(h := None),
        children := (children w)(h := None), errStreams := (errStreams w)(h := None)\<rparr>, Finish [])"

definition close_kill :: "'p closers \<Rightarrow> world \<Rightarrow> int \<Rightarrow> 'p stretch" where
  "close_kill K w h =
     (case children w h of None \<Rightarrow> close_forget w h | Some c \<Rightarrow> (w, Do (ChildKill c) (after_kill K h)))"

definition close_child :: "'p closers \<Rightarrow> world \<Rightarrow> int \<Rightarrow> 'p stretch" where
  "close_child K w h =
     (case children w h of None \<Rightarrow> close_kill K w h | Some c \<Rightarrow> (w, Do (ChildInEnd c) (after_in K h)))"

definition close_listener :: "'p closers \<Rightarrow> world \<Rightarrow> int \<Rightarrow> 'p stretch" where
  "close_listener K w h =
     (case listeners w h of None \<Rightarrow> close_child K w h | Some l \<Rightarrow> (w, Do (ListenerClose l) (after_listener K h)))"

definition close_socket :: "'p closers \<Rightarrow> world \<Rightarrow> int \<Rightarrow> 'p stretch" where
  "close_socket K w h =
     (case sockets w h of None \<Rightarrow> close_listener K w h | Some c \<Rightarrow> (w, Do (ConnClose c) (after_conn K h)))"

definition close_after_in :: "'p closers \<Rightarrow> world \<Rightarrow> int \<Rightarrow> os_reply \<Rightarrow> 'p stretch" where
  "close_after_in K w h r = (case r of Raised e \<Rightarrow> close_forget w h | _ \<Rightarrow> close_kill K w h)"

section \<open>A world at work\<close>

text \<open>
  The handlers of a host: a handler up to its first call of the runtime, and from a reply on.
\<close>

type_synonym 'p on_request = "name \<Rightarrow> options \<Rightarrow> world \<Rightarrow> op \<Rightarrow> bytes \<Rightarrow> 'p stretch"
type_synonym 'p on_reply = "options \<Rightarrow> world \<Rightarrow> 'p \<Rightarrow> os_reply \<Rightarrow> 'p stretch"

text \<open>
  The calls that are waiting, by the request they belong to, and the one that is in the middle of a
  synchronous call, during which nothing else of this world runs. What happens is a new request or
  a reply of the runtime; what it does is a call it makes and an answer it gives.
\<close>

record 'p world_host =
  hworld :: world
  pending :: "nat \<rightharpoonup> os_call \<times> 'p"
  inside :: "nat option"

definition idle_host :: "'p world_host" where
  "idle_host = \<lparr>hworld = new_world, pending = Map.empty, inside = None\<rparr>"

datatype host_event = Request nat op bytes | Reply nat os_reply

datatype host_effect = Calls nat os_call | Answers nat bytes | Throws nat thrown

definition settle :: "nat \<Rightarrow> 'p world_host \<Rightarrow> 'p stretch \<Rightarrow> 'p world_host \<times> host_effect list" where
  "settle i s st =
     (case st of (w, out1) \<Rightarrow>
        (case out1 of
           Finish b \<Rightarrow> (s\<lparr>hworld := w, pending := (pending s)(i := None), inside := None\<rparr>, [Answers i b])
         | Fail e \<Rightarrow> (s\<lparr>hworld := w, pending := (pending s)(i := None), inside := None\<rparr>, [Throws i e])
         | Await c q \<Rightarrow> (s\<lparr>hworld := w, pending := (pending s)(i \<mapsto> (c, q)), inside := None\<rparr>, [Calls i c])
         | Do c q \<Rightarrow> (s\<lparr>hworld := w, pending := (pending s)(i \<mapsto> (c, q)), inside := Some i\<rparr>, [Calls i c])))"

definition may_run :: "'p world_host \<Rightarrow> nat \<Rightarrow> bool" where
  "may_run s i \<longleftrightarrow> inside s = None \<or> inside s = Some i"

fun host_step ::
  "'p on_request \<Rightarrow> 'p on_reply \<Rightarrow> name \<Rightarrow> options \<Rightarrow> 'p world_host \<Rightarrow> host_event \<Rightarrow> 'p world_host \<times> host_effect list"
where
  "host_step B R self opts s (Request i oper p) =
     (if inside s = None \<and> pending s i = None then settle i s (B self opts (hworld s) oper p) else (s, []))"
| "host_step B R self opts s (Reply i r) =
     (case pending s i of
        None \<Rightarrow> (s, [])
      | Some (c, q) \<Rightarrow>
          if may_run s i \<and> replies c r then settle i s (R opts (hworld s) q r) else (s, []))"

end
