(* ===== verification/World_Authority.thy ===== *)
theory World_Authority
  imports World
begin

text \<open>
  What a world may do. \<open>needs\<close> says which grant a call of the runtime uses. The locale \<open>confined\<close> is the
  contract of a host's handlers: each stretch calls only what the options grant, given that what
  the world holds open was granted too. From it: every call a world makes, in every interleaving of
  its handlers, is covered by its options.
\<close>

section \<open>Specification\<close>

datatype capability = FsRead | FsWrite | NetAccess | EnvAccess | PageAccess

definition grants :: "options \<Rightarrow> capability set" where
  "grants opts = {c. case c of FsRead \<Rightarrow> fs_read opts | FsWrite \<Rightarrow> fs_write opts
     | NetAccess \<Rightarrow> net_opt opts | EnvAccess \<Rightarrow> env_opt opts | PageAccess \<Rightarrow> dom_opt opts}"

text \<open>Of a page's file system: what makes a directory or a file, or writes or removes one, writes.\<close>

fun opfs_needs :: "opfs_call \<Rightarrow> capability set" where
  "opfs_needs (GetDirectory d n create) = (if create then {FsWrite} else {FsRead})"
| "opfs_needs (GetFileHandle d n create) = (if create then {FsWrite} else {FsRead})"
| "opfs_needs (GetFile h) = {FsRead}"
| "opfs_needs (ArrayBuffer k) = {FsRead}"
| "opfs_needs (SliceBuffer k a b) = {FsRead}"
| "opfs_needs (CreateWritable h) = {FsWrite}"
| "opfs_needs (WriteInto h b) = {FsWrite}"
| "opfs_needs (CloseWritable h) = {FsWrite}"
| "opfs_needs (RemoveEntry d n r) = {FsWrite}"
| "opfs_needs (DirKeys d) = {FsRead}"

text \<open>What a call of the runtime uses; starting a child uses what the child is given.\<close>

fun needs :: "os_call \<Rightarrow> capability set" where
  "needs (ReadFile p) = {FsRead}"
| "needs (Stat p) = {FsRead}"
| "needs (Lstat p) = {FsRead}"
| "needs (ReadDir p) = {FsRead}"
| "needs (OpenRead p) = {FsRead}"
| "needs (FileRead f) = {FsRead}"
| "needs (FileNext f) = {FsRead}"
| "needs (WriteFile p b) = {FsWrite}"
| "needs (Mkdir p r) = {FsWrite}"
| "needs (Remove p r) = {FsWrite}"
| "needs (Rename p q) = {FsWrite}"
| "needs (OpenWrite p) = {FsWrite}"
| "needs (FileWrite f b) = {FsWrite}"
| "needs (FileWriteAll f b) = {FsWrite}"
| "needs (ConnectTo a n) = {NetAccess}"
| "needs (ListenOn a n) = {NetAccess}"
| "needs (AcceptFrom l) = {NetAccess}"
| "needs (ConnRead c) = {NetAccess}"
| "needs (ConnWrite c b) = {NetAccess}"
| "needs (ConnNext c) = {NetAccess}"
| "needs (ConnSend c b) = {NetAccess}"
| "needs (GetEnv n) = {EnvAccess}"
| "needs (StartChild n src as os) = grants os"
| "needs (Opfs c) = opfs_needs c"
| "needs (Dom c) = {PageAccess}"
| "needs _ = {}"

definition world_ok :: "options \<Rightarrow> world \<Rightarrow> bool" where
  "world_ok opts w \<longleftrightarrow> (source_file w \<noteq> None \<longrightarrow> fs_read opts) \<and> (source_blob w \<noteq> None \<longrightarrow> fs_read opts) \<and> (sink_file w \<noteq> None \<longrightarrow> fs_write opts)
   \<and> (\<forall>h c. sockets w h = Some c \<longrightarrow> net_opt opts) \<and> (\<forall>h l. listeners w h = Some l \<longrightarrow> net_opt opts)"

text \<open>\<open>n\<close> says what a handler that is waiting may still use.\<close>

fun ending_ok :: "('p \<Rightarrow> capability set) \<Rightarrow> options \<Rightarrow> 'p ending \<Rightarrow> bool" where
  "ending_ok n opts (Await c q) = (needs c \<union> n q \<subseteq> grants opts)"
| "ending_ok n opts (Do c q) = (needs c \<union> n q \<subseteq> grants opts)"
| "ending_ok n opts _ = True"

definition stretch_ok :: "('p \<Rightarrow> capability set) \<Rightarrow> options \<Rightarrow> 'p stretch \<Rightarrow> bool" where
  "stretch_ok n opts st \<longleftrightarrow> world_ok opts (fst st) \<and> ending_ok n opts (snd st)"

definition host_ok :: "('p \<Rightarrow> capability set) \<Rightarrow> options \<Rightarrow> 'p world_host \<Rightarrow> bool" where
  "host_ok n opts s \<longleftrightarrow> world_ok opts (hworld s)
   \<and> (\<forall>i c q. pending s i = Some (c, q) \<longrightarrow> needs c \<union> n q \<subseteq> grants opts)"

section \<open>Lemmas\<close>

lemma in_grants [simp]:
  "FsRead \<in> grants opts \<longleftrightarrow> fs_read opts" "FsWrite \<in> grants opts \<longleftrightarrow> fs_write opts"
  "NetAccess \<in> grants opts \<longleftrightarrow> net_opt opts" "EnvAccess \<in> grants opts \<longleftrightarrow> env_opt opts"
  "PageAccess \<in> grants opts \<longleftrightarrow> dom_opt opts"
  by (simp_all add: grants_def)

lemma give_narrows:
  assumes "\<not> dom_opt o1"
  shows "grants (give opts wanted o1) \<subseteq> grants opts"
proof
  fix c
  assume "c \<in> grants (give opts wanted o1)"
  then show "c \<in> grants opts" using assms by (cases c) (simp_all add: give_def)
qed

lemma child_narrows: "grants (child_options opts n as wanted d inh) \<subseteq> grants opts"
  unfolding child_options_def by (rule give_narrows) simp

text \<open>Updates that keep what is open within the grants.\<close>

lemma world_ok_update [simp]:
  "world_ok opts w \<Longrightarrow> world_ok opts (w\<lparr>kids := k\<rparr>)"
  "world_ok opts w \<Longrightarrow> world_ok opts (w\<lparr>outputFailure := why\<rparr>)"
  "world_ok opts w \<Longrightarrow> world_ok opts (w\<lparr>nextHandle := n\<rparr>)"
  "world_ok opts w \<Longrightarrow> world_ok opts (w\<lparr>children := cs\<rparr>)"
  "world_ok opts w \<Longrightarrow> world_ok opts (w\<lparr>errStreams := cs\<rparr>)"
  "world_ok opts w \<Longrightarrow> world_ok opts (w\<lparr>source_file := None\<rparr>)"
  "world_ok opts w \<Longrightarrow> world_ok opts (w\<lparr>source_blob := None\<rparr>)"
  "world_ok opts w \<Longrightarrow> world_ok opts (w\<lparr>sink_file := None\<rparr>)"
  "world_ok opts w \<Longrightarrow> fs_read opts \<Longrightarrow> world_ok opts (w\<lparr>source_file := f\<rparr>)"
  "world_ok opts w \<Longrightarrow> fs_read opts \<Longrightarrow> world_ok opts (w\<lparr>source_blob := b\<rparr>)"
  "world_ok opts w \<Longrightarrow> fs_write opts \<Longrightarrow> world_ok opts (w\<lparr>sink_file := f\<rparr>)"
  "world_ok opts w \<Longrightarrow> net_opt opts \<Longrightarrow> world_ok opts (w\<lparr>sockets := ss\<rparr>)"
  "world_ok opts w \<Longrightarrow> net_opt opts \<Longrightarrow> world_ok opts (w\<lparr>listeners := ls\<rparr>)"
  "world_ok opts w \<Longrightarrow> world_ok opts (w\<lparr>sockets := (sockets w)(h := None)\<rparr>)"
  "world_ok opts w \<Longrightarrow> world_ok opts (w\<lparr>listeners := (listeners w)(h := None)\<rparr>)"
  by (auto simp: world_ok_def)

lemma world_ok_forget [simp]:
  "world_ok opts w \<Longrightarrow> world_ok opts (w\<lparr>sockets := (sockets w)(h := None), listeners := (listeners w)(h := None),
     children := cs, errStreams := es\<rparr>)"
  by (auto simp: world_ok_def)

text \<open>What is open was granted.\<close>

lemma world_ok_open:
  "world_ok opts w \<Longrightarrow> source_file w = Some f \<Longrightarrow> fs_read opts"
  "world_ok opts w \<Longrightarrow> source_blob w = Some b \<Longrightarrow> fs_read opts"
  "world_ok opts w \<Longrightarrow> sink_file w = Some f \<Longrightarrow> fs_write opts"
  "world_ok opts w \<Longrightarrow> sockets w h = Some c \<Longrightarrow> net_opt opts"
  "world_ok opts w \<Longrightarrow> listeners w h = Some l \<Longrightarrow> net_opt opts"
  by (auto simp: world_ok_def)

lemma host_ok_idle: "host_ok n opts idle_host"
  by (simp add: host_ok_def idle_host_def world_ok_def new_world_def)

lemma settle_ok:
  assumes "host_ok n opts s" "stretch_ok n opts st"
  shows "host_ok n opts (fst (settle i s st))
    \<and> (\<forall>j c. Calls j c \<in> set (snd (settle i s st)) \<longrightarrow> needs c \<subseteq> grants opts)"
  using assms by (cases st; cases "snd st") (auto simp: settle_def host_ok_def stretch_ok_def split: if_splits)

section \<open>The contract\<close>

locale confined =
  fixes B :: "'p on_request" and R :: "'p on_reply" and will_need :: "'p \<Rightarrow> capability set"
  assumes request_ok: "world_ok opts w \<Longrightarrow> stretch_ok will_need opts (B self opts w oper p)"
    and reply_ok: "world_ok opts w \<Longrightarrow> will_need q \<subseteq> grants opts \<Longrightarrow> stretch_ok will_need opts (R opts w q r)"
begin

lemma host_step_ok:
  assumes "host_ok will_need opts s"
  shows "host_ok will_need opts (fst (host_step B R self opts s e))
    \<and> (\<forall>j c. Calls j c \<in> set (snd (host_step B R self opts s e)) \<longrightarrow> needs c \<subseteq> grants opts)"
proof (cases e)
  case (Request i oper p)
  have "world_ok opts (hworld s)" using assms by (simp add: host_ok_def)
  from settle_ok [OF assms request_ok [OF this]] assms show ?thesis by (simp add: Request)
next
  case (Reply i r)
  show ?thesis
  proof (cases "pending s i")
    case None
    then show ?thesis using assms by (simp add: Reply)
  next
    case (Some cq)
    moreover obtain c q where "cq = (c, q)" by fastforce
    ultimately have pd: "pending s i = Some (c, q)" by simp
    then have "world_ok opts (hworld s)" "will_need q \<subseteq> grants opts"
      using assms by (auto simp: host_ok_def)
    from settle_ok [OF assms reply_ok [OF this]] pd assms show ?thesis by (simp add: Reply)
  qed
qed

end

end
