(* ===== verification/World_Handles.thy ===== *)
theory World_Handles
  imports World_Authority
begin

text \<open>
  The handles of a world. Sockets, listeners, children and error streams share one space of numbers
  that are counted up and never used again: a number means at most one thing, it goes on meaning it
  until it is closed, and once closed it means nothing for ever. The locales \<open>handle_space\<close>
  and \<open>handle_closing\<close> are what a host's handlers have to keep for that.
\<close>

section \<open>Specification\<close>

text \<open>
  What a handle can be, or be set aside for by a child that is still loading. A waiting handler
  says what it has set aside (\<open>res\<close>) and, in \<open>handle_closing\<close>, what it is closing (\<open>clo\<close>).
\<close>

datatype role = SocketRole | ListenerRole | ChildRole | ErrRole | LoadingRole nat

fun table_role :: "world \<Rightarrow> role \<Rightarrow> int \<Rightarrow> bool" where
  "table_role w SocketRole h = (sockets w h \<noteq> None)"
| "table_role w ListenerRole h = (listeners w h \<noteq> None)"
| "table_role w ChildRole h = (children w h \<noteq> None)"
| "table_role w ErrRole h = (errStreams w h \<noteq> None)"
| "table_role w (LoadingRole i) h = False"

definition set_aside :: "('p \<Rightarrow> int option) \<Rightarrow> 'p world_host \<Rightarrow> nat \<Rightarrow> int option" where
  "set_aside res s i = (case pending s i of None \<Rightarrow> None | Some (c, q) \<Rightarrow> res q)"

definition has_role :: "('p \<Rightarrow> int option) \<Rightarrow> 'p world_host \<Rightarrow> role \<Rightarrow> int \<Rightarrow> bool" where
  "has_role res s r h \<longleftrightarrow> table_role (hworld s) r h \<or> (\<exists>j. r = LoadingRole j \<and> set_aside res s j = Some h)"

definition handles_ok :: "('p \<Rightarrow> int option) \<Rightarrow> 'p world_host \<Rightarrow> bool" where
  "handles_ok res s \<longleftrightarrow> 1 \<le> nextHandle (hworld s)
   \<and> (\<forall>r h. has_role res s r h \<longrightarrow> 1 \<le> h \<and> h < nextHandle (hworld s))
   \<and> (\<forall>r r' h. has_role res s r h \<longrightarrow> has_role res s r' h \<longrightarrow> r = r')"

definition unused :: "('p \<Rightarrow> int option) \<Rightarrow> 'p world_host \<Rightarrow> int \<Rightarrow> bool" where
  "unused res s h \<longleftrightarrow> (\<forall>r. \<not> has_role res s r h)"

text \<open>
  What a stretch of a handler does to the handles: it had set aside \<open>a\<close>, and has set aside \<open>b\<close> at its
  end. Old handles only lose roles, except that the one set aside may become the child it was for;
  a new handle is above the counter and has one role.
\<close>

fun aside_of :: "('p \<Rightarrow> int option) \<Rightarrow> 'p ending \<Rightarrow> int option" where
  "aside_of res (Await c q) = res q"
| "aside_of res (Do c q) = res q"
| "aside_of res _ = None"

definition counted_up :: "world \<Rightarrow> int option \<Rightarrow> world \<Rightarrow> int option \<Rightarrow> bool" where
  "counted_up w a w' b \<longleftrightarrow> nextHandle w \<le> nextHandle w'
   \<and> (\<forall>r h. h < nextHandle w \<longrightarrow> table_role w' r h \<longrightarrow> table_role w r h \<or> (r = ChildRole \<and> a = Some h \<and> b = None))
   \<and> (\<forall>h. b = Some h \<longrightarrow> a = Some h \<or> nextHandle w \<le> h \<and> h < nextHandle w' \<and> (\<forall>r. \<not> table_role w' r h))
   \<and> (\<forall>r r' h. nextHandle w \<le> h \<longrightarrow> table_role w' r h \<longrightarrow> h < nextHandle w' \<and> (table_role w' r' h \<longrightarrow> r = r'))"

text \<open>A stretch from a handler that had set aside \<open>a\<close>.\<close>

definition stretch_counts :: "('p \<Rightarrow> int option) \<Rightarrow> world \<Rightarrow> int option \<Rightarrow> 'p stretch \<Rightarrow> bool" where
  "stretch_counts res w a st \<longleftrightarrow> counted_up w a (fst st) (aside_of res (snd st))"

text \<open>A handler in the middle of closing a handle is in a synchronous call, and the handle still has a role.\<close>

fun close_ending :: "('p \<Rightarrow> int option) \<Rightarrow> world \<Rightarrow> 'p ending \<Rightarrow> bool" where
  "close_ending clo w (Await c q) = (clo q = None)"
| "close_ending clo w (Do c q) = (\<forall>h. clo q = Some h \<longrightarrow> (\<exists>r. table_role w r h))"
| "close_ending clo w _ = True"

definition stretch_closes :: "('p \<Rightarrow> int option) \<Rightarrow> 'p stretch \<Rightarrow> bool" where
  "stretch_closes clo st \<longleftrightarrow> close_ending clo (fst st) (snd st)"

text \<open>
  A stretch of a handler that closes \<open>h\<close>: it answers when \<open>h\<close> is in none of the tables, or goes on closing
  \<open>h\<close> after a synchronous call.
\<close>

fun close_goes :: "('p \<Rightarrow> int option) \<Rightarrow> int \<Rightarrow> world \<Rightarrow> 'p ending \<Rightarrow> bool" where
  "close_goes clo h w (Finish b) = (\<forall>r. \<not> table_role w r h)"
| "close_goes clo h w (Do c q) = (clo q = Some h)"
| "close_goes clo h w _ = False"

definition stretch_goes :: "('p \<Rightarrow> int option) \<Rightarrow> int \<Rightarrow> 'p stretch \<Rightarrow> bool" where
  "stretch_goes clo h st \<longleftrightarrow> close_goes clo h (fst st) (snd st)"

definition closing_ok :: "('p \<Rightarrow> int option) \<Rightarrow> ('p \<Rightarrow> int option) \<Rightarrow> 'p world_host \<Rightarrow> bool" where
  "closing_ok res clo s \<longleftrightarrow> handles_ok res s \<and> (\<forall>i c q h. pending s i = Some (c, q) \<longrightarrow> clo q = Some h \<longrightarrow>
     inside s = Some i \<and> (\<exists>r. table_role (hworld s) r h))"

definition below :: "world \<Rightarrow> bool" where
  "below w \<longleftrightarrow> (\<forall>r h. table_role w r h \<longrightarrow> h < nextHandle w)"

definition same_tables :: "world \<Rightarrow> world \<Rightarrow> bool" where
  "same_tables w w' \<longleftrightarrow> sockets w' = sockets w \<and> listeners w' = listeners w \<and> children w' = children w
     \<and> errStreams w' = errStreams w \<and> nextHandle w' = nextHandle w"

text \<open>Where a handler stands between the stretches of a close, and that it has set nothing aside.\<close>

definition closers_ok :: "('p \<Rightarrow> int option) \<Rightarrow> ('p \<Rightarrow> int option) \<Rightarrow> 'p closers \<Rightarrow> bool" where
  "closers_ok res clo K \<longleftrightarrow> (\<forall>h. \<forall>q\<in>{after_conn K h, after_listener K h, after_in K h, after_kill K h}.
     res q = None \<and> clo q = Some h)"

section \<open>Lemmas: stretches\<close>

lemma counted_same:
  assumes "below w" "\<And>r h. table_role w' r h \<Longrightarrow> table_role w r h" "nextHandle w' = nextHandle w" "b = None \<or> b = a"
  shows "counted_up w a w' b"
proof -
  have "\<not> table_role w' r h" if "nextHandle w \<le> h" for r h
    using that assms(1,2) [unfolded below_def] by fastforce
  then show ?thesis
    using assms(2-4) by (auto simp: counted_up_def)
qed

lemma counted_tables:
  assumes "below w" "same_tables w w'" "b = None \<or> b = a"
  shows "counted_up w a w' b"
proof (rule counted_same [OF assms(1) _ _ assms(3)])
  show "table_role w' r h \<Longrightarrow> table_role w r h" for r h
    using assms(2) by (cases r) (simp_all add: same_tables_def)
qed (use assms(2) in \<open>simp add: same_tables_def\<close>)

lemma counts_tables:
  assumes "below w" "same_tables w (fst st)" "aside_of res (snd st) = None \<or> aside_of res (snd st) = a"
  shows "stretch_counts res w a st"
  unfolding stretch_counts_def by (rule counted_tables [OF assms])

lemma forget_role: "table_role (fst (close_forget w k)) r h \<Longrightarrow> table_role w r h"
  by (cases r) (auto simp: close_forget_def split: if_splits)

lemma counts_forget: "below w \<Longrightarrow> stretch_counts res w a (close_forget w k)"
  unfolding stretch_counts_def
  by (rule counted_same) (auto simp: forget_role, simp_all add: close_forget_def)

lemma counts_close:
  assumes "below w" "closers_ok res clo K"
  shows "stretch_counts res w a (close_kill K w h)" "stretch_counts res w a (close_child K w h)"
    "stretch_counts res w a (close_listener K w h)" "stretch_counts res w a (close_socket K w h)"
    "stretch_counts res w a (close_after_in K w h r)"
proof -
  have same: "counted_up w a w None" by (rule counted_tables [OF assms(1)]) (simp_all add: same_tables_def)
  note K = assms(2) [unfolded closers_ok_def]
  show k: "stretch_counts res w a (close_kill K w h)"
    using counts_forget [OF assms(1), of res a h] same K
    by (auto simp: close_kill_def stretch_counts_def split: option.splits)
  show c: "stretch_counts res w a (close_child K w h)"
    using k same K by (auto simp: close_child_def stretch_counts_def split: option.splits)
  show l: "stretch_counts res w a (close_listener K w h)"
    using c same K by (auto simp: close_listener_def stretch_counts_def split: option.splits)
  show "stretch_counts res w a (close_socket K w h)"
    using l same K by (auto simp: close_socket_def stretch_counts_def split: option.splits)
  show "stretch_counts res w a (close_after_in K w h r)"
    using k counts_forget [OF assms(1), of res a h] by (simp add: close_after_in_def split: os_reply.split)
qed

lemma closes_close:
  assumes "closers_ok res clo K"
  shows "stretch_closes clo (close_forget w h)" "stretch_closes clo (close_kill K w h)"
    "stretch_closes clo (close_child K w h)" "stretch_closes clo (close_listener K w h)"
    "stretch_closes clo (close_socket K w h)" "stretch_closes clo (close_after_in K w h r)"
proof -
  have role: "\<exists>r. table_role w r h" if "sockets w h \<noteq> None \<or> listeners w h \<noteq> None \<or> children w h \<noteq> None"
    using that table_role.simps(1-3) by metis
  note K = assms [unfolded closers_ok_def]
  show f: "stretch_closes clo (close_forget w h)" by (simp add: stretch_closes_def close_forget_def)
  show k: "stretch_closes clo (close_kill K w h)"
    using f role K by (auto simp: close_kill_def stretch_closes_def split: option.split)
  show c: "stretch_closes clo (close_child K w h)"
    using k role K by (auto simp: close_child_def stretch_closes_def split: option.split)
  show l: "stretch_closes clo (close_listener K w h)"
    using c role K by (auto simp: close_listener_def stretch_closes_def split: option.split)
  show "stretch_closes clo (close_socket K w h)"
    using l role K by (auto simp: close_socket_def stretch_closes_def split: option.split)
  show "stretch_closes clo (close_after_in K w h r)"
    using k f by (simp add: close_after_in_def split: os_reply.split)
qed

text \<open>The answer to a close comes when the handle is forgotten.\<close>

lemma forget_clears: "\<not> table_role (fst (close_forget w h)) r h"
  by (cases r) (simp_all add: close_forget_def)

lemma goes_close:
  assumes "closers_ok res clo K"
  shows "stretch_goes clo h (close_forget w h)" "stretch_goes clo h (close_kill K w h)"
    "stretch_goes clo h (close_child K w h)" "stretch_goes clo h (close_listener K w h)"
    "stretch_goes clo h (close_socket K w h)" "stretch_goes clo h (close_after_in K w h r)"
proof -
  note K = assms [unfolded closers_ok_def]
  show f: "stretch_goes clo h (close_forget w h)"
    using forget_clears [of w h] by (simp add: stretch_goes_def) (simp add: close_forget_def)
  show k: "stretch_goes clo h (close_kill K w h)"
    using f K by (auto simp: close_kill_def stretch_goes_def split: option.split)
  show c: "stretch_goes clo h (close_child K w h)"
    using k K by (auto simp: close_child_def stretch_goes_def split: option.split)
  show l: "stretch_goes clo h (close_listener K w h)"
    using c K by (auto simp: close_listener_def stretch_goes_def split: option.split)
  show "stretch_goes clo h (close_socket K w h)"
    using l K by (auto simp: close_socket_def stretch_goes_def split: option.split)
  show "stretch_goes clo h (close_after_in K w h r)"
    using k f by (simp add: close_after_in_def split: os_reply.split)
qed

text \<open>Stretches that add a handle.\<close>

lemma counts_start:
  assumes "below w" "\<And>c h. res (at_start c h) = Some h"
  shows "stretch_counts res w None (start_worker at_start mk self w src as)"
proof -
  have eq: "table_role (w\<lparr>nextHandle := nextHandle w + 1\<rparr>) r h = table_role w r h" for r h
    by (cases r) simp_all
  have "\<not> table_role w r h" if "nextHandle w \<le> h" for r h using that assms(1) by (fastforce simp: below_def)
  then show ?thesis
    by (auto simp: stretch_counts_def counted_up_def start_worker_def Let_def eq assms(2))
qed

lemma counted_added:
  assumes "below w" "r0 \<noteq> LoadingRole i"
    and "\<And>r h. table_role w' r h \<longleftrightarrow> table_role w r h \<or> (r = r0 \<and> h = nextHandle w)"
    and "nextHandle w' = nextHandle w + 1"
  shows "counted_up w a w' None"
proof -
  have "\<not> table_role w r h" if "nextHandle w \<le> h" for r h using that assms(1) by (fastforce simp: below_def)
  then show ?thesis
    using assms(3,4) by (auto simp: counted_up_def)
qed

lemma added_role:
  "table_role (w\<lparr>nextHandle := m, sockets := (sockets w)(k \<mapsto> x)\<rparr>) r h \<longleftrightarrow> table_role w r h \<or> (r = SocketRole \<and> h = k)"
  "table_role (w\<lparr>nextHandle := m, listeners := (listeners w)(k \<mapsto> x)\<rparr>) r h \<longleftrightarrow> table_role w r h \<or> (r = ListenerRole \<and> h = k)"
  by (cases r; auto)+

lemma counts_added:
  assumes "below w"
  shows "stretch_counts res w a (w\<lparr>nextHandle := nextHandle w + 1, sockets := (sockets w)(nextHandle w \<mapsto> x)\<rparr>, Finish b)"
    and "stretch_counts res w a (w\<lparr>nextHandle := nextHandle w + 1, listeners := (listeners w)(nextHandle w \<mapsto> x)\<rparr>, Finish b)"
proof -
  show "stretch_counts res w a (w\<lparr>nextHandle := nextHandle w + 1, sockets := (sockets w)(nextHandle w \<mapsto> x)\<rparr>, Finish b)"
    unfolding stretch_counts_def fst_conv snd_conv aside_of.simps
    by (rule counted_added [OF assms, of SocketRole 0]) (simp_all add: added_role)
  show "stretch_counts res w a (w\<lparr>nextHandle := nextHandle w + 1, listeners := (listeners w)(nextHandle w \<mapsto> x)\<rparr>, Finish b)"
    unfolding stretch_counts_def fst_conv snd_conv aside_of.simps
    by (rule counted_added [OF assms, of ListenerRole 0]) (simp_all add: added_role)
qed

lemma counted_child:
  assumes "below w" "h < nextHandle w"
  shows "counted_up w (Some h) (w\<lparr>nextHandle := nextHandle w + 1, children := (children w)(h \<mapsto> c),
     errStreams := (errStreams w)(nextHandle w \<mapsto> c)\<rparr>) None"
proof -
  have "\<not> table_role w r k" if "nextHandle w \<le> k" for r k using that assms(1) by (fastforce simp: below_def)
  moreover have "table_role (w\<lparr>nextHandle := nextHandle w + 1, children := (children w)(h \<mapsto> c),
     errStreams := (errStreams w)(nextHandle w \<mapsto> c)\<rparr>) r k \<longleftrightarrow>
       table_role w r k \<or> (r = ChildRole \<and> k = h) \<or> (r = ErrRole \<and> k = nextHandle w)" for r k
    by (cases r) auto
  ultimately show ?thesis
    using assms(2) by (auto simp: counted_up_def)
qed

lemma counts_register:
  assumes "below w" "h < nextHandle w"
  shows "stretch_counts res w (Some h) (register_child w c h)"
  using counted_child [OF assms, of c] by (simp add: stretch_counts_def register_child_def add_handle_def)

section \<open>Lemmas: a world at work\<close>

lemma settle_parts:
  "set_aside res (fst (settle i s st)) j = (if j = i then aside_of res (snd st) else set_aside res s j)"
  "hworld (fst (settle i s st)) = fst st"
  by (cases st; cases "snd st"; simp add: settle_def set_aside_def)+

definition only_counts :: "('p \<Rightarrow> int option) \<Rightarrow> 'p world_host \<Rightarrow> 'p world_host \<Rightarrow> bool" where
  "only_counts res s s' \<longleftrightarrow> nextHandle (hworld s) \<le> nextHandle (hworld s')
   \<and> (\<forall>r h. has_role res s' r h \<longrightarrow> h < nextHandle (hworld s) \<longrightarrow> (\<exists>r'. has_role res s r' h))"

lemma only_counts_refl: "only_counts res s s"
  by (auto simp: only_counts_def)

lemma only_counts_trans: "only_counts res a b \<Longrightarrow> only_counts res b c \<Longrightarrow> only_counts res a c"
  unfolding only_counts_def by (meson less_le_trans order_trans)

text \<open>The invariant, and that handles are only ever counted up, across one stretch.\<close>

lemma settle_handles:
  assumes ok: "handles_ok res s" and st: "stretch_counts res (hworld s) (set_aside res s i) st"
  shows "handles_ok res (fst (settle i s st)) \<and> only_counts res s (fst (settle i s st))"
proof -
  let ?s = "fst (settle i s st)" and ?n = "nextHandle (hworld s)" and ?m = "nextHandle (fst st)"
  note ss = settle_parts(1) [of res i s st] settle_parts(2) [of i s st]
  note cu = st [unfolded stretch_counts_def counted_up_def]
  have mono: "?n \<le> ?m" using cu by simp
  have role: "has_role res ?s r h \<longleftrightarrow> table_role (fst st) r h
      \<or> (\<exists>j. r = LoadingRole j \<and> (if j = i then aside_of res (snd st) else set_aside res s j) = Some h)" for r h
    by (simp add: has_role_def ss)
  have old: "has_role res s r h \<or> (r = ChildRole \<and> has_role res s (LoadingRole i) h \<and> aside_of res (snd st) = None)"
    if "has_role res ?s r h" "h < ?n" for r h
    using that cu unfolding role by (auto simp: has_role_def split: if_splits)
  have above: "\<not> has_role res s r h" if "\<not> h < ?n" for r h
    using that ok by (auto simp: handles_ok_def)
  have new: "h < ?m \<and> r = r'"
    if "has_role res ?s r h" "has_role res ?s r' h" "\<not> h < ?n" for r r' h
    using that cu above [of h] unfolding role
    by (auto simp: has_role_def not_less split: if_splits)
  have low: "r = r'" if a: "has_role res ?s r h" "has_role res ?s r' h" and lt: "h < ?n" for r r' h
  proof -
    have u: "r1 = r2" if "has_role res s r1 h" "has_role res s r2 h" for r1 r2
      using that ok by (auto simp: handles_ok_def)
    have "\<not> has_role res ?s (LoadingRole i) h" if "aside_of res (snd st) = None"
      using that by (simp add: role)
    with old [OF a(1) lt] old [OF a(2) lt] u a show ?thesis
      by metis
  qed
  have one: "r = r'" if "has_role res ?s r h" "has_role res ?s r' h" for r r' h
    using low [OF that] new [OF that] by (cases "h < ?n") blast+
  have bounds: "1 \<le> h \<and> h < ?m" if "has_role res ?s r h" for r h
    using old [OF that] new [OF that that] ok mono by (cases "h < ?n") (auto simp: handles_ok_def)
  have "1 \<le> ?m" using ok mono by (simp add: handles_ok_def)
  then have "handles_ok res ?s"
    using one bounds unfolding handles_ok_def ss by blast
  then show ?thesis
    using mono old by (auto simp: only_counts_def ss)
qed

lemma handles_below: "handles_ok res s \<Longrightarrow> below (hworld s)"
  by (auto simp: handles_ok_def below_def has_role_def)

lemma idle_tables: "\<not> table_role new_world r h"
  by (cases r) (simp_all add: new_world_def)

lemma handles_ok_idle: "handles_ok res idle_host"
  by (simp add: handles_ok_def has_role_def idle_host_def set_aside_def idle_tables)
    (simp add: new_world_def)

lemma idle_pending [simp]: "pending idle_host i = None"
  by (simp add: idle_host_def)

lemma closing_ok_idle: "closing_ok res clo idle_host"
  by (simp add: closing_ok_def handles_ok_idle)

lemma settle_closing:
  assumes "closing_ok res clo s" "may_run s i" "stretch_closes clo st" "handles_ok res (fst (settle i s st))"
  shows "closing_ok res clo (fst (settle i s st))"
proof -
  have others: "clo q = None" if "pending s j = Some (c, q)" "j \<noteq> i" for j c q
    using that assms(1,2) by (cases "clo q") (auto simp: closing_ok_def may_run_def)
  obtain w out1 where st: "st = (w, out1)" by fastforce
  show ?thesis
    using assms(3,4) others unfolding st
    by (cases out1) (auto simp: closing_ok_def settle_def stretch_closes_def split: if_splits)
qed

lemma unused_tables:
  "unused res s h \<Longrightarrow> sockets (hworld s) h = None \<and> listeners (hworld s) h = None
     \<and> children (hworld s) h = None \<and> errStreams (hworld s) h = None"
  unfolding unused_def has_role_def by (metis table_role.simps(1-4))

lemma run_machine_ConsD:
  "run_machine f s (e # es) = (t, effs) \<Longrightarrow> f s e = (s', eff) \<Longrightarrow>
     \<exists>effs'. run_machine f s' es = (t, effs') \<and> effs = eff @ effs'"
  by (auto simp: run_machine.simps(2) split: prod.splits)

section \<open>The contract\<close>

locale handle_space =
  fixes B :: "'p on_request" and R :: "'p on_reply" and res :: "'p \<Rightarrow> int option"
  assumes request_counts: "below w \<Longrightarrow> stretch_counts res w None (B self opts w oper p)"
    and reply_counts: "below w \<Longrightarrow> (\<And>h. res q = Some h \<Longrightarrow> h < nextHandle w) \<Longrightarrow>
      stretch_counts res w (res q) (R opts w q r)"
begin

lemma host_step_handles:
  assumes "handles_ok res s"
  shows "handles_ok res (fst (host_step B R self opts s e)) \<and> only_counts res s (fst (host_step B R self opts s e))"
proof (cases e)
  case (Request i oper p)
  have "set_aside res s i = None" if "pending s i = None" using that by (simp add: set_aside_def)
  with settle_handles [OF assms, of i] request_counts [OF handles_below [OF assms]]
  show ?thesis using assms by (auto simp: Request only_counts_refl)
next
  case (Reply i r)
  show ?thesis
  proof (cases "pending s i")
    case None
    then show ?thesis using assms by (simp add: Reply only_counts_refl)
  next
    case (Some cq)
    moreover obtain c q where "cq = (c, q)" by fastforce
    ultimately have pd: "pending s i = Some (c, q)" and aside: "set_aside res s i = res q"
      by (simp_all add: set_aside_def)
    have "h < nextHandle (hworld s)" if "res q = Some h" for h
      using that aside assms unfolding handles_ok_def has_role_def by metis
    from settle_handles [OF assms, of i "R opts (hworld s) q r"]
      reply_counts [of "hworld s" q opts r, OF handles_below [OF assms] this] aside
    show ?thesis using assms pd by (simp add: Reply only_counts_refl)
  qed
qed

sublocale hd: event_machine idle_host "host_step B R self opts" "handles_ok res" for self opts
  by unfold_locales (simp_all add: host_step_handles handles_ok_idle)

text \<open>A handle that has been given out and means nothing means nothing for ever.\<close>

lemma unused_stays:
  assumes "handles_ok res s" "unused res s h" "h < nextHandle (hworld s)"
  shows "unused res (fst (run_machine (host_step B R self opts) s es)) h"
proof -
  have "only_counts res s (fst (run_machine (host_step B R self opts) s es))"
    by (rule hd.mono_run [where R = "only_counts res"])
      (auto simp: only_counts_refl assms(1) host_step_handles intro: only_counts_trans)
  with assms(2,3) show ?thesis unfolding only_counts_def unused_def by blast
qed

end

text \<open>A host in which closing a handle forgets it, whatever it was.\<close>

locale handle_closing = handle_space B R res
  for B :: "'p on_request" and R :: "'p on_reply" and res :: "'p \<Rightarrow> int option" +
  fixes clo :: "'p \<Rightarrow> int option"
  assumes request_closes: "stretch_closes clo (B self opts w oper p)"
    and reply_closes: "stretch_closes clo (R opts w q r)"
    and request_goes: "i32_ok h \<Longrightarrow> stretch_goes clo h (B self opts w CLOSE_SOCKET (i32le h))"
    and reply_goes: "clo q = Some h \<Longrightarrow> stretch_goes clo h (R opts w q r)"
begin

lemma closing_ok_step:
  assumes "closing_ok res clo s"
  shows "closing_ok res clo (fst (host_step B R self opts s e))"
proof -
  have ok: "handles_ok res s" using assms by (simp add: closing_ok_def)
  note h = conjunct1 [OF host_step_handles [OF ok, of self opts e]]
  show ?thesis
  proof (cases e)
    case (Request i oper p)
    then show ?thesis
      using h settle_closing [OF assms, of i "B self opts (hworld s) oper p"] request_closes assms
      by (auto simp: may_run_def)
  next
    case (Reply i r)
    then show ?thesis
      using h settle_closing [OF assms, of i "R opts (hworld s) q r" for q] reply_closes assms
      by (auto split: option.splits)
  qed
qed

sublocale cl: event_machine idle_host "host_step B R self opts" "closing_ok res clo" for self opts
  by unfold_locales (simp_all add: closing_ok_idle closing_ok_step)

text \<open>Request \<open>i\<close> is in the middle of closing \<open>h\<close>, or is done and \<open>h\<close> has been given out and means nothing.\<close>

definition being_closed :: "'p world_host \<Rightarrow> nat \<Rightarrow> int \<Rightarrow> bool" where
  "being_closed s i h \<longleftrightarrow> inside s = Some i \<and> (\<exists>c q. pending s i = Some (c, q) \<and> clo q = Some h)"

definition dead :: "'p world_host \<Rightarrow> int \<Rightarrow> bool" where
  "dead s h \<longleftrightarrow> unused res s h \<and> h < nextHandle (hworld s)"

lemma settle_goes:
  assumes ok: "handles_ok res s" and go: "stretch_goes clo h st" and k: "table_role (hworld s) k h"
    and st: "settle i s st = (s1, effs)" and mono: "nextHandle (hworld s) \<le> nextHandle (hworld s1)"
  shows "being_closed s1 i h \<and> (\<forall>b. Answers i b \<notin> set effs) \<or> dead s1 h"
proof (cases "snd st")
  case (Finish b)
  have kr: "has_role res s k h" using k by (simp add: has_role_def)
  have "set_aside res s j \<noteq> Some h" for j
    using kr k ok unfolding handles_ok_def has_role_def by (metis table_role.simps(5))
  moreover have "hworld s1 = fst st" "set_aside res s1 j = (if j = i then None else set_aside res s j)" for j
    using settle_parts(1) [of res i s st] settle_parts(2) [of i s st] st Finish by simp_all
  ultimately have "unused res s1 h"
    using go Finish by (auto simp: stretch_goes_def unused_def has_role_def split: if_splits)
  moreover have "h < nextHandle (hworld s)" using kr ok unfolding handles_ok_def by blast
  ultimately show ?thesis using mono by (simp add: dead_def)
next
  case (Do c q)
  with go st show ?thesis by (auto simp: stretch_goes_def settle_def being_closed_def split: prod.splits)
qed (use go in \<open>simp_all add: stretch_goes_def\<close>)

lemma mono_step:
  assumes "closing_ok res clo s" "host_step B R self opts s e = (s1, effs)"
  shows "nextHandle (hworld s) \<le> nextHandle (hworld s1)"
  using host_step_handles [of s self opts e] assms by (simp add: closing_ok_def only_counts_def)

lemma being_closed_step:
  assumes "closing_ok res clo s" "being_closed s i h" "host_step B R self opts s e = (s1, effs)"
  shows "being_closed s1 i h \<and> (\<forall>b. Answers i b \<notin> set effs) \<or> dead s1 h"
proof -
  obtain c q where p: "inside s = Some i" "pending s i = Some (c, q)" "clo q = Some h"
    using assms(2) by (auto simp: being_closed_def)
  obtain k where k: "table_role (hworld s) k h" using assms(1) p(2,3) unfolding closing_ok_def by blast
  have same: ?thesis if "s1 = s" "effs = []" using assms(2) that by simp
  show ?thesis
  proof (cases e)
    case (Request j oper p')
    then show ?thesis using p(1) assms(3) same by simp
  next
    case (Reply j r)
    show ?thesis
    proof (cases "j = i \<and> replies c r")
      case True
      then have "settle i s (R opts (hworld s) q r) = (s1, effs)"
        using p assms(3) Reply by (simp add: may_run_def)
      from settle_goes [OF _ reply_goes [OF p(3)] k this mono_step [OF assms(1,3)]] assms(1)
      show ?thesis by (simp add: closing_ok_def)
    next
      case False
      then show ?thesis using p assms(3) Reply same by (auto simp: may_run_def split: option.splits if_splits)
    qed
  qed
qed

lemma dead_run:
  assumes "closing_ok res clo s" "dead s h" "run_machine (host_step B R self opts) s es = (s1, effs)"
  shows "unused res s1 h"
  using unused_stays [of s h self opts es] assms by (simp add: dead_def closing_ok_def)

lemma being_closed_run:
  assumes "closing_ok res clo s" "being_closed s i h" "run_machine (host_step B R self opts) s es = (s1, effs)"
    "Answers i b \<in> set effs"
  shows "unused res s1 h"
  using assms
proof (induction es arbitrary: s effs)
  case (Cons e es)
  obtain s' eff where s': "host_step B R self opts s e = (s', eff)" by fastforce
  obtain effs' where r: "run_machine (host_step B R self opts) s' es = (s1, effs')" "effs = eff @ effs'"
    using run_machine_ConsD [OF Cons.prems(3) s'] by blast
  have ok: "closing_ok res clo s'" using closing_ok_step [OF Cons.prems(1), of self opts e] s' by simp
  from being_closed_step [OF Cons.prems(1,2) s'] consider (on) "being_closed s' i h" "Answers i b \<in> set effs'" | (gone) "dead s' h"
    using Cons.prems(4) r(2) by auto
  then show ?case
  proof cases
    case on
    from Cons.IH [OF ok on(1) r(1) on(2)] show ?thesis .
  next
    case gone
    from dead_run [OF ok gone r(1)] show ?thesis .
  qed
qed simp

text \<open>Whatever an open handle is, once a request to close it has been answered it means nothing for ever.\<close>

lemma closed_stays_closed:
  assumes "run_machine (host_step B R self opts) idle_host es = (s, effs)"
    and "inside s = None" "pending s i = None" "table_role (hworld s) k h" "i32_ok h"
    and "run_machine (host_step B R self opts) s (Request i CLOSE_SOCKET (i32le h) # es1) = (s1, effs1)"
    and "Answers i b \<in> set effs1"
  shows "unused res s1 h \<and> 1 \<le> h"
proof -
  have ok: "closing_ok res clo s" using cl.inv_run [of self opts es] assms(1) by simp
  have "has_role res s k h" using assms(4) by (simp add: has_role_def)
  then have pos: "1 \<le> h" using ok unfolding closing_ok_def handles_ok_def by blast
  let ?e = "Request i CLOSE_SOCKET (i32le h)"
  obtain s' eff where s': "host_step B R self opts s ?e = (s', eff)" by fastforce
  obtain effs' where r: "run_machine (host_step B R self opts) s' es1 = (s1, effs')" "effs1 = eff @ effs'"
    using run_machine_ConsD [OF assms(6) s'] by blast
  have ok': "closing_ok res clo s'" using closing_ok_step [OF ok, of self opts ?e] s' by simp
  have "settle i s (B self opts (hworld s) CLOSE_SOCKET (i32le h)) = (s', eff)" using s' assms(2,3) by simp
  from settle_goes [OF _ request_goes [OF assms(5)] assms(4) this mono_step [OF ok s']] ok
  consider (on) "being_closed s' i h" "Answers i b \<in> set effs'" | (gone) "dead s' h"
    using assms(7) r(2) by (auto simp: closing_ok_def)
  then show ?thesis
    using being_closed_run [OF ok' _ r(1), of i h b] dead_run [OF ok' _ r(1), of h] pos by cases simp_all
qed

end

end
