(* ===== verification/World_Tree.thy ===== *)
theory World_Tree
  imports World_Handles
begin

text \<open>
  Worlds that start worlds. A child's world is made from options its parent's world computed, and
  gets a name no world had before; so every world keeps its own options for ever, and nothing in a
  tree of programs reaches further than the first one was allowed to. The locale \<open>world_family\<close> joins
  the two contracts of a host's handlers and adds how children are named.
\<close>

section \<open>A tree of worlds\<close>

text \<open>
  Every world that was started, with its options: \<open>spawnChild\<close> starts one, with the options its
  parent made for it, unless the source has no marker. An event happens to one of them.
\<close>

type_synonym 'p tree = "name \<rightharpoonup> options \<times> 'p world_host"

fun birth :: "host_effect \<Rightarrow> 'p tree \<Rightarrow> 'p tree" where
  "birth (Calls i (StartChild n src as os)) t =
     (if starts_with src WORKER_MARKER then t(n \<mapsto> (os, idle_host)) else t)"
| "birth _ t = t"

definition tree_step ::
  "'p on_request \<Rightarrow> 'p on_reply \<Rightarrow> 'p tree \<Rightarrow> name \<times> host_event \<Rightarrow> 'p tree \<times> (name \<times> host_effect) list"
where
  "tree_step B R t ev =
     (case ev of (n, e) \<Rightarrow>
        (case t n of
           None \<Rightarrow> (t, [])
         | Some (opts, s) \<Rightarrow>
             (case host_step B R n opts s e of (s', es) \<Rightarrow>
                (fold birth es (t(n \<mapsto> (opts, s'))), map (Pair n) es))))"

definition root_tree :: "options \<Rightarrow> 'p tree" where
  "root_tree opts = [[] \<mapsto> (opts, idle_host)]"

text \<open>
  Every world has grants its first ancestor has, is in order itself, and has counted out the last
  number of each child's name.
\<close>

definition family_ok :: "('p \<Rightarrow> capability set) \<Rightarrow> ('p \<Rightarrow> int option) \<Rightarrow> options \<Rightarrow> 'p tree \<Rightarrow> bool" where
  "family_ok n res first t \<longleftrightarrow>
     (\<forall>m opts s. t m = Some (opts, s) \<longrightarrow> grants opts \<subseteq> grants first \<and> host_ok n opts s \<and> handles_ok res s)
   \<and> (\<forall>m h. t (m @ [h]) \<noteq> None \<longrightarrow> (\<exists>opts s. t m = Some (opts, s) \<and> h < nextHandle (hworld s)))"

definition keeps_options :: "'p tree \<Rightarrow> 'p tree \<Rightarrow> bool" where
  "keeps_options t t' \<longleftrightarrow> (\<forall>n opts s. t n = Some (opts, s) \<longrightarrow> (\<exists>s'. t' n = Some (opts, s')))"

text \<open>Which stretch starts a child, and under which name.\<close>

fun started_by :: "os_call \<Rightarrow> name option" where
  "started_by (StartChild m src as os) = Some m"
| "started_by _ = None"

primrec child_started :: "'p ending \<Rightarrow> name option" where
  "child_started (Finish b) = None"
| "child_started (Fail e) = None"
| "child_started (Await c q) = started_by c"
| "child_started (Do c q) = started_by c"

section \<open>Lemmas\<close>

lemma settle_starts:
  "Calls j (StartChild m src as os) \<in> set (snd (settle i s st)) \<Longrightarrow> child_started (snd st) = Some m"
  by (cases st; cases "snd st") (auto simp: settle_def)

text \<open>One event makes at most one effect, so at most one child.\<close>

lemma host_step_effects: "length (snd (host_step B R self opts s e)) \<le> 1"
  by (cases e) (auto simp: settle_def split: prod.split ending.split option.split)

lemma birth_cases:
  obtains i m src as os where "e = Calls i (StartChild m src as os)" "starts_with src WORKER_MARKER"
    "birth e t = t(m \<mapsto> (os, idle_host))"
  | "birth e t = t"
proof (cases "(e, t)" rule: birth.cases)
  case (1 i m src as os t')
  then show ?thesis using that by (cases "starts_with src WORKER_MARKER") auto
qed (use that in auto)

lemma family_own:
  assumes "family_ok n res first t" "t m = Some (opts, s)" "host_ok n opts s'" "handles_ok res s'"
    "nextHandle (hworld s) \<le> nextHandle (hworld s')"
  shows "family_ok n res first (t(m \<mapsto> (opts, s')))"
  using assms unfolding family_ok_def by (auto; fastforce)

lemma family_child:
  assumes ok: "family_ok n res first t" and tm: "t m = Some (opts, s)" and new: "t (m @ [h]) = None"
    and h: "h < nextHandle (hworld s)" and g: "grants os \<subseteq> grants first"
  shows "family_ok n res first (t(m @ [h] \<mapsto> (os, idle_host)))"
proof -
  have "t (m @ [h] @ [k]) = None" for k
    using ok new unfolding family_ok_def by (metis append_assoc option.distinct(1))
  with assms show ?thesis
    by (auto simp: family_ok_def host_ok_idle handles_ok_idle)
qed

lemma family_root: "family_ok n res first (root_tree first)"
  by (simp add: family_ok_def root_tree_def host_ok_idle handles_ok_idle)

section \<open>The contract\<close>

locale world_family = confined B R will_need + handle_space B R res
  for B :: "'p on_request" and R :: "'p on_reply" and will_need :: "'p \<Rightarrow> capability set"
    and res :: "'p \<Rightarrow> int option" +
  assumes request_child: "child_started (snd (B self opts w oper p)) = Some m \<Longrightarrow>
      m = self @ [nextHandle w] \<and> nextHandle (fst (B self opts w oper p)) = nextHandle w + 1"
    and reply_child: "child_started (snd (R opts w q r)) = None"
begin

lemma host_starts:
  assumes "Calls j (StartChild m src as os) \<in> set (snd (host_step B R self opts s e))"
  shows "m = self @ [nextHandle (hworld s)]
    \<and> nextHandle (hworld (fst (host_step B R self opts s e))) = nextHandle (hworld s) + 1"
proof (cases e)
  case (Request i oper p)
  then show ?thesis
    using assms settle_starts [of j m src as os i s "B self opts (hworld s) oper p"]
      request_child [of self opts "hworld s" oper p m]
    by (auto simp: settle_parts split: if_splits)
next
  case (Reply i r)
  have "Calls j (StartChild m src as os) \<notin> set (snd (settle i s (R opts (hworld s) q r)))" for q
    using settle_starts [of j m src as os i s "R opts (hworld s) q r"] reply_child by force
  then show ?thesis
    using assms Reply by (auto split: option.splits if_splits)
qed

lemma tree_event:
  assumes ok: "family_ok will_need res first t" and tn: "t n = Some (opts, s)"
    and st: "host_step B R n opts s e = (s', es)"
  shows "family_ok will_need res first (fold birth es (t(n \<mapsto> (opts, s'))))
    \<and> keeps_options t (fold birth es (t(n \<mapsto> (opts, s'))))
    \<and> (\<forall>i c. Calls i c \<in> set es \<longrightarrow> needs c \<subseteq> grants opts)"
proof -
  have own: "grants opts \<subseteq> grants first" "host_ok will_need opts s" "handles_ok res s"
    using ok tn by (auto simp: family_ok_def)
  have s': "host_ok will_need opts s'" "handles_ok res s'" "nextHandle (hworld s) \<le> nextHandle (hworld s')"
    and calls: "\<forall>i c. Calls i c \<in> set es \<longrightarrow> needs c \<subseteq> grants opts"
    using host_step_ok [OF own(2), of n e] host_step_handles [OF own(3), of n opts e] st
    by (auto simp: only_counts_def)
  define t1 where "t1 = t(n \<mapsto> (opts, s'))"
  have t1: "family_ok will_need res first t1" unfolding t1_def by (rule family_own [OF ok tn s'])
  have keep: "keeps_options t t1" using tn by (auto simp: t1_def keeps_options_def)
  have "es = [] \<or> (\<exists>x. es = [x])"
    using host_step_effects [of B R n opts s e] st by (cases es) (auto simp: le_Suc_eq)
  then show ?thesis
  proof
    assume "es = []"
    then show ?thesis using t1 keep calls by (simp add: t1_def)
  next
    assume "\<exists>x. es = [x]"
    then obtain x where es: "es = [x]" by blast
    show ?thesis
    proof (cases rule: birth_cases [of x t1])
      case (1 i m src as os)
      have m: "m = n @ [nextHandle (hworld s)]" "nextHandle (hworld s') = nextHandle (hworld s) + 1"
        using host_starts [of i m src as os n opts s e] st es 1(1) by simp_all
      have none: "t m = None" using ok tn unfolding m(1) family_ok_def
        by (metis option.inject order_less_irrefl prod.inject)
      then have none1: "t1 (n @ [nextHandle (hworld s)]) = None" by (simp add: t1_def m(1))
      have "needs (StartChild m src as os) \<subseteq> grants opts" using calls es 1(1) by (metis list.set_intros(1))
      then have "grants os \<subseteq> grants first" using own(1) by simp
      moreover have "t1 n = Some (opts, s')" "nextHandle (hworld s) < nextHandle (hworld s')"
        using m(2) by (simp_all add: t1_def)
      ultimately have "family_ok will_need res first (birth x t1)"
        using family_child [OF t1 _ none1] unfolding 1(3) m(1) by blast
      moreover have "keeps_options t (birth x t1)"
        using keep none unfolding 1(3) keeps_options_def by (metis fun_upd_other option.distinct(1))
      ultimately show ?thesis using calls by (auto simp: es t1_def)
    next
      case 2
      then show ?thesis using t1 keep calls by (auto simp: es t1_def)
    qed
  qed
qed

lemma tree_step_ok:
  assumes "family_ok will_need res first t"
  shows "family_ok will_need res first (fst (tree_step B R t ev)) \<and> keeps_options t (fst (tree_step B R t ev))
    \<and> (\<forall>n i c. (n, Calls i c) \<in> set (snd (tree_step B R t ev)) \<longrightarrow>
         (\<exists>opts s. t n = Some (opts, s) \<and> needs c \<subseteq> grants opts))"
proof (cases "t (fst ev)")
  case None
  then show ?thesis using assms by (auto simp: tree_step_def keeps_options_def split: prod.splits)
next
  case (Some os)
  obtain n e opts s where ev: "ev = (n, e)" and os: "os = (opts, s)" by fastforce
  obtain s' es where st: "host_step B R n opts s e = (s', es)" by fastforce
  have tn: "t n = Some (opts, s)" using Some ev os by simp
  from tree_event [OF assms tn st] show ?thesis
    using tn by (auto simp: tree_step_def ev st)
qed

sublocale tr: event_machine "root_tree first" "tree_step B R" "family_ok will_need res first" for first
  by unfold_locales (simp_all add: tree_step_ok family_root)

lemma tree_run:
  assumes "family_ok will_need res first t" "run_machine (tree_step B R) t es = (t', effs)"
  shows "keeps_options t t' \<and> (\<forall>n i c. (n, Calls i c) \<in> set effs \<longrightarrow>
    (\<exists>opts s. t' n = Some (opts, s) \<and> needs c \<subseteq> grants opts))"
  using assms
proof (induction es arbitrary: t effs)
  case Nil
  then show ?case by (auto simp: keeps_options_def)
next
  case (Cons e es)
  obtain t1 e1 where s1: "tree_step B R t e = (t1, e1)" by fastforce
  obtain e2 where r: "run_machine (tree_step B R) t1 es = (t', e2)" and effs: "effs = e1 @ e2"
    using Cons.prems(2) s1 by (auto simp: run_machine.simps split: prod.splits)
  note st = tree_step_ok [OF Cons.prems(1), of e, unfolded s1, simplified]
  from Cons.IH [OF _ r] st have ih: "keeps_options t1 t'"
    "\<forall>n i c. (n, Calls i c) \<in> set e2 \<longrightarrow> (\<exists>opts s. t' n = Some (opts, s) \<and> needs c \<subseteq> grants opts)" by simp_all
  have "keeps_options t t'" using st ih(1) unfolding keeps_options_def by metis
  moreover have "\<exists>opts s. t' n = Some (opts, s) \<and> needs c \<subseteq> grants opts" if "(n, Calls i c) \<in> set e1" for n i c
    using st that \<open>keeps_options t t'\<close> unfolding keeps_options_def by metis
  ultimately show ?case using ih(2) by (auto simp: effs)
qed

lemma authority:
  assumes "run_machine (tree_step B R) (root_tree first) es = (t, effs)"
  shows "(\<forall>n i c. (n, Calls i c) \<in> set effs \<longrightarrow> (\<exists>opts s. t n = Some (opts, s) \<and> needs c \<subseteq> grants opts))
    \<and> (\<forall>n opts s. t n = Some (opts, s) \<longrightarrow> grants opts \<subseteq> grants first)"
  using tree_run [OF family_root assms] tr.inv_run [of first es] assms
  by (auto simp: family_ok_def)

lemma options_kept:
  assumes "run_machine (tree_step B R) (root_tree first) es = (t, effs)" "t n = Some (opts, s)"
    and "run_machine (tree_step B R) t es' = (t', effs')"
  shows "\<exists>s'. t' n = Some (opts, s')"
proof -
  have "family_ok will_need res first t" using tr.inv_run [of first es] assms(1) by simp
  from tree_run [OF this assms(3)] assms(2) show ?thesis by (auto simp: keeps_options_def)
qed

end

section \<open>What every child is given\<close>

text \<open>A promise about the options of every world but the first: those a child is started with.\<close>

fun given_by :: "os_call \<Rightarrow> options option" where
  "given_by (StartChild m src as os) = Some os"
| "given_by _ = None"

primrec child_given :: "'p ending \<Rightarrow> options option" where
  "child_given (Finish b) = None"
| "child_given (Fail e) = None"
| "child_given (Await c q) = given_by c"
| "child_given (Do c q) = given_by c"

definition kin_ok :: "(options \<Rightarrow> bool) \<Rightarrow> 'p tree \<Rightarrow> bool" where
  "kin_ok Q t \<longleftrightarrow> (\<forall>m opts s. t m = Some (opts, s) \<longrightarrow> m = [] \<or> Q opts)"

lemma settle_gives:
  "Calls j (StartChild m src as os) \<in> set (snd (settle i s st)) \<Longrightarrow> child_given (snd st) = Some os"
  by (cases st; cases "snd st") (auto simp: settle_def)

locale world_kin =
  fixes B :: "'p on_request" and R :: "'p on_reply" and Q :: "options \<Rightarrow> bool"
  assumes request_gives: "child_given (snd (B self opts w oper p)) = Some os \<Longrightarrow> Q os"
    and reply_gives: "child_given (snd (R opts w q r)) = None"
begin

lemma host_gives:
  assumes "Calls j (StartChild m src as os) \<in> set (snd (host_step B R self opts s e))"
  shows "Q os"
proof (cases e)
  case (Request i oper p)
  then show ?thesis
    using assms settle_gives [of j m src as os i s "B self opts (hworld s) oper p"] request_gives
    by (auto split: if_splits)
next
  case (Reply i r)
  have "Calls j (StartChild m src as os) \<notin> set (snd (settle i s (R opts (hworld s) q r)))" for q
    using settle_gives [of j m src as os i s "R opts (hworld s) q r"] reply_gives by force
  then show ?thesis
    using assms Reply by (auto split: option.splits if_splits)
qed

lemma kin_birth:
  "kin_ok Q t \<Longrightarrow> (\<And>j m src as os. Calls j (StartChild m src as os) \<in> set es \<Longrightarrow> Q os) \<Longrightarrow> kin_ok Q (fold birth es t)"
proof (induction es arbitrary: t)
  case (Cons e es)
  have "kin_ok Q (birth e t)"
  proof (cases rule: birth_cases [of e t])
    case (1 i m src as os)
    then have "Q os" using Cons.prems(2) by force
    then show ?thesis using 1 Cons.prems(1) by (simp add: kin_ok_def)
  next
    case 2
    then show ?thesis using Cons.prems(1) by simp
  qed
  from Cons.IH [OF this] Cons.prems(2) show ?case by (metis fold_simps(2) list.set_intros(2))
qed simp

lemma kin_step: "kin_ok Q t \<Longrightarrow> kin_ok Q (fst (tree_step B R t ev))"
proof -
  assume k: "kin_ok Q t"
  obtain n e where ev: "ev = (n, e)" by fastforce
  show ?thesis
  proof (cases "t n")
    case None
    then show ?thesis using k by (simp add: tree_step_def ev)
  next
    case (Some os)
    obtain opts s where os: "os = (opts, s)" by fastforce
    obtain s' es where st: "host_step B R n opts s e = (s', es)" by fastforce
    have "kin_ok Q (t(n \<mapsto> (opts, s')))" using k Some os by (auto simp: kin_ok_def)
    then have "kin_ok Q (fold birth es (t(n \<mapsto> (opts, s'))))"
      by (rule kin_birth) (use host_gives [of _ _ _ _ _ n opts s e] st in simp)
    then show ?thesis by (simp add: tree_step_def ev Some os st)
  qed
qed

sublocale kin: event_machine "root_tree first" "tree_step B R" "kin_ok Q" for first
  by unfold_locales (simp_all add: kin_step, simp add: kin_ok_def root_tree_def)

lemma children_kept:
  assumes "run_machine (tree_step B R) (root_tree first) es = (t, effs)" "t n = Some (opts, s)" "n \<noteq> []"
  shows "Q opts"
  using kin.inv_run [of first es] assms by (auto simp: kin_ok_def)

end

section \<open>An example\<close>

definition reader_options :: options where
  "reader_options =
     \<lparr>args_opt = [], fs_read = True, fs_write = False, net_opt = False, env_opt = False, cwd_opt = None,
      self_opt = Some WORKER_MARKER, write_opt = False, writeErr_opt = False, worker_opt = True, linkStat_opt = True,
      dom_opt = False, stdin_opt = None, chunk_opt = None\<rparr>"

text \<open>A reader starts itself asking for everything, and the child reads a file and opens a socket.\<close>

definition escalation :: "(name \<times> host_event) list" where
  "escalation =
     [([], Request 0 SPAWN_SELF (spawnSelf_payload [] 15 [] False)), ([], Reply 0 Done),
      ([1], Request 0 READ_FILE [97]), ([1], Request 1 CONNECT (i32le 80 @ [97]))]"

lemma escalation_decoded:
  "unpackSpawnSelf (spawnSelf_payload [] 15 [] False) = Some ([], [], False)"
  "want (spawnSelf_payload [] 15 [] False) = Some 15"
proof -
  show "unpackSpawnSelf (spawnSelf_payload [] 15 [] False) = Some ([], [], False)"
    by (rule spawnSelf_roundtrip_lemma) (simp_all add: i32_ok_def text_ok_def str_def encode_def)
  show "want (spawnSelf_payload [] 15 [] False) = Some 15"
    unfolding want_def spawnSelf_payload_def headed_def
    by (rule get_i32le [where xs = "[]", simplified]) (simp_all add: i32_ok_def)
qed

lemma marker_starts: "starts_with WORKER_MARKER WORKER_MARKER"
  by (simp add: WORKER_MARKER_def js_def)

end
