(* ===== verification/World_Types.thy ===== *)
theory World_Types
  imports World
begin

text \<open>
  What kind of answer a waiting handler can take. A place where a handler waits is reached by some
  calls only, and no other; with a reply of the call's type, the code after it finds the value it
  expects. The locale \<open>typed_handlers\<close> is that contract, \<open>exposed\<close> the places where the code may fail
  for another reason than what the runtime answered.
\<close>

section \<open>Calls and places\<close>

fun call_of :: "'p ending \<Rightarrow> (os_call \<times> 'p) option" where
  "call_of (Await c q) = Some (c, q)"
| "call_of (Do c q) = Some (c, q)"
| "call_of _ = None"

fun is_raised :: "os_reply \<Rightarrow> bool" where
  "is_raised (Raised e) = True"
| "is_raised _ = False"

definition calls_fit :: "('p \<Rightarrow> os_call \<Rightarrow> bool) \<Rightarrow> 'p stretch \<Rightarrow> bool" where
  "calls_fit takes st \<longleftrightarrow> (\<forall>c q. call_of (snd st) = Some (c, q) \<longrightarrow> takes q c)"

definition all_fit :: "('p \<Rightarrow> os_call \<Rightarrow> bool) \<Rightarrow> 'p world_host \<Rightarrow> bool" where
  "all_fit takes s \<longleftrightarrow> (\<forall>i c q. pending s i = Some (c, q) \<longrightarrow> takes q c)"

section \<open>Lemmas\<close>

lemma all_fit_idle [simp]: "all_fit takes idle_host"
  by (simp add: all_fit_def idle_host_def)

lemma settle_fit: "all_fit takes s \<Longrightarrow> calls_fit takes st \<Longrightarrow> all_fit takes (fst (settle i s st))"
  by (cases st; cases "snd st") (auto simp: settle_def calls_fit_def all_fit_def)

lemma settle_throws:
  "snd (settle i s st) = [Throws j e] \<Longrightarrow> j = i \<and> snd st = Fail e"
  by (cases st; cases "snd st") (auto simp: settle_def)

text \<open>A reply that makes a handler throw reached that handler, at the place where it waited.\<close>

lemma throws_from:
  assumes "host_step B R self opts s (Reply i r) = (s', [Throws j e])"
  obtains c q where "pending s i = Some (c, q)" "replies c r" "snd (R opts (hworld s) q r) = Fail e" "j = i"
proof -
  obtain c q where p: "pending s i = Some (c, q)" "replies c r" "settle i s (R opts (hworld s) q r) = (s', [Throws j e])"
    using assms by (auto split: option.splits if_splits)
  with settle_throws [of i s "R opts (hworld s) q r" j e] that show ?thesis by simp
qed

section \<open>The contract\<close>

locale typed_handlers =
  fixes B :: "'p on_request" and R :: "'p on_reply" and takes :: "'p \<Rightarrow> os_call \<Rightarrow> bool"
    and exposed :: "world \<Rightarrow> 'p \<Rightarrow> bool"
  assumes request_fits: "calls_fit takes (B self opts w oper p)"
    and reply_fits: "takes q c \<Longrightarrow> replies c r \<Longrightarrow> calls_fit takes (R opts w q r)"
    and understood: "takes q c \<Longrightarrow> replies c r \<Longrightarrow> snd (R opts w q r) = Fail e \<Longrightarrow> is_raised r \<or> exposed w q"
begin

lemma host_step_fit:
  assumes "all_fit takes s"
  shows "all_fit takes (fst (host_step B R self opts s e))"
proof (cases e)
  case (Request i oper p)
  then show ?thesis using assms settle_fit [OF assms request_fits] by simp
next
  case (Reply i r)
  have "all_fit takes (fst (settle i s (R opts (hworld s) q r)))"
    if "pending s i = Some (c, q)" "replies c r" for c q
  proof -
    have "takes q c" using assms that(1) by (simp add: all_fit_def)
    then show ?thesis by (rule settle_fit [OF assms reply_fits]) (rule that(2))
  qed
  then show ?thesis using assms Reply by (auto split: option.split)
qed

sublocale fits: event_machine idle_host "host_step B R self opts" "all_fit takes" for self opts
  by unfold_locales (simp_all add: host_step_fit)

lemma throws_only_raised:
  assumes "run_machine (host_step B R self opts) idle_host es = (s, effs)"
    and "host_step B R self opts s (Reply i r) = (s', [Throws j e])"
  shows "j = i \<and> (\<exists>c q. pending s i = Some (c, q) \<and> (is_raised r \<or> exposed (hworld s) q))"
proof -
  obtain c q where p: "pending s i = Some (c, q)" "replies c r" "snd (R opts (hworld s) q r) = Fail e" "j = i"
    using throws_from [OF assms(2)] by blast
  have "all_fit takes s" using fits.inv_run [of self opts es] assms(1) by simp
  then have "takes q c" using p(1) by (simp add: all_fit_def)
  from understood [OF this p(2,3)] p(1,4) show ?thesis by blast
qed

lemma pending_fits:
  assumes "run_machine (host_step B R self opts) idle_host es = (s, effs)" "pending s i = Some (c, q)"
  shows "takes q c"
  using fits.inv_run [of self opts es] assms by (simp add: all_fit_def)

end

end
