(* ===== verification/Deno_World.thy ===== *)
theory Deno_World
  imports World_Tree World_Types
begin

text \<open>
  \<open>packages/platform/host/deno.ts\<close>: the handler table that gives a program its capabilities under
  Deno. Each handler is a definition; \<open>handle_op\<close> is the table, a handler up to its first call of
  the runtime, and \<open>resume\<close> is what a handler does with a reply. They keep the contract of
  \<open>World_Tree\<close>, so a Deno world does nothing it was not granted and never reuses a handle.
\<close>

section \<open>The handlers\<close>

text \<open>Where a handler stands while the runtime has its call.\<close>

datatype (plugins only: size code) pc =
    AtInt64 | AtBytes | AtCwd | AtDone | AtEnv
  | AtFile jsstring | AtDir jsstring | AtStat jsstring | AtLinkStat jsstring
  | AtChange jsstring | AtRename jsstring jsstring
  | AtStdin "bytes list" | AtPiped
  | AtSink bytes nat | AtStdout bytes nat | AtStderr bytes nat | AtPipedWrite
  | AtCloseSource jsstring | AtOpenSource jsstring | AtCloseSink jsstring | AtOpenSink jsstring
  | AtRead | AtSocketRead
  | AtConnect | AtListen | AtAccept | AtSend nat bytes nat
  | AtCloseConn int | AtCloseListener int | AtCloseIn int | AtCloseKill int
  | AtStart name int | AtLoaded name int | AtKilled jsstring | AtExit

text \<open>Where a Deno handler stands between the stretches of a close.\<close>

definition deno_closers :: "pc closers" where
  "deno_closers = \<lparr>after_conn = AtCloseConn, after_listener = AtCloseListener, after_in = AtCloseIn, after_kill = AtCloseKill\<rparr>"

subsection \<open>Pieces\<close>

definition thrown_path :: "thrown \<Rightarrow> jsstring \<Rightarrow> thrown" where
  "thrown_path e path = (case pathFailure True e path of Some t \<Rightarrow> t | None \<Rightarrow> null_error (text_of e) ''code'')"

text \<open>\<open>changed\<close> with the default words, for work that threw.\<close>

definition changed_failed :: "thrown \<Rightarrow> 'p ending" where
  "changed_failed e =
     (case changed True (Some e) (\<lambda>f m. m) of
        Some b \<Rightarrow> Finish b | None \<Rightarrow> Fail (null_error (text_of e) ''code''))"

text \<open>The names of a directory.\<close>

definition denoDir :: "jsstring list \<Rightarrow> jsstring list" where
  "denoDir names = sort_names names"

text \<open>A failed write: the reason is kept for \<open>outputError\<close>, unless the reader has gone.\<close>

definition output_failed :: "world \<Rightarrow> thrown \<Rightarrow> pc stretch" where
  "output_failed w e =
     (w\<lparr>outputFailure := (if matches_i (text_of e) ''broken pipe'' \<or> matches_i (text_of e) ''os error 32''
                            then [] else text_of e)\<rparr>, Fail e)"

text \<open>The write loops, at the position reached. \<open>sink\<close> is the variable, read again on every turn.\<close>

definition sink_loop :: "world \<Rightarrow> bytes \<Rightarrow> nat \<Rightarrow> pc stretch" where
  "sink_loop w b k =
     (if length b \<le> k then (w, Finish [])
      else case sink_file w of
        None \<Rightarrow> output_failed w (null_error (js ''null'') ''write'')
      | Some f \<Rightarrow> (w, Await (FileWrite f (drop k b)) (AtSink b k)))"

definition writeAllStdout :: "world \<Rightarrow> bytes \<Rightarrow> nat \<Rightarrow> pc stretch" where
  "writeAllStdout w b k =
     (w, if length b \<le> k then Finish [] else Await (StdoutWrite (drop k b)) (AtStdout b k))"

definition writeAllStderr :: "world \<Rightarrow> bytes \<Rightarrow> nat \<Rightarrow> pc stretch" where
  "writeAllStderr w b k =
     (w, if length b \<le> k then Finish [] else Await (StderrWrite (drop k b)) (AtStderr b k))"

definition send_loop :: "world \<Rightarrow> nat \<Rightarrow> bytes \<Rightarrow> nat \<Rightarrow> pc stretch" where
  "send_loop w c b k =
     (w, if length b \<le> k then Finish [] else Await (ConnWrite c (drop k b)) (AtSend c b k))"

subsection \<open>Opening the streams\<close>

text \<open>\<open>OPEN_INPUT\<close> and \<open>OPEN_OUTPUT\<close> once the file that was open is closed.\<close>

definition open_source :: "options \<Rightarrow> world \<Rightarrow> jsstring \<Rightarrow> pc stretch" where
  "open_source opts w path =
     (let w = w\<lparr>source_file := None\<rparr>
      in if path = [] then (w, Finish CHANGED_OK)
         else if \<not> fs_read opts then (w, denied_change ''filesystem read'')
         else let full = P opts w path in (w, Await (OpenRead full) (AtOpenSource full)))"

definition open_sink :: "options \<Rightarrow> world \<Rightarrow> jsstring \<Rightarrow> pc stretch" where
  "open_sink opts w path =
     (let w = w\<lparr>sink_file := None\<rparr>
      in if path = [] then (w, Finish CHANGED_OK)
         else if \<not> fs_write opts then (w, denied_change ''filesystem write'')
         else let full = P opts w path in (w, Await (OpenWrite full) (AtOpenSink full)))"

subsection \<open>The handlers up to their first call\<close>

definition op_now_millis :: "world \<Rightarrow> pc stretch" where
  "op_now_millis w = (w, Do DateNow AtInt64)"

definition op_monotonic_nanos :: "world \<Rightarrow> pc stretch" where
  "op_monotonic_nanos w = (w, Do PerformanceNow AtInt64)"

definition op_cwd :: "options \<Rightarrow> world \<Rightarrow> pc stretch" where
  "op_cwd opts w =
     (case cwd_opt opts of
        Some d \<Rightarrow> (if d \<noteq> [] then (w, Finish (str d)) else (w, Do ProcessCwd AtCwd))
      | None \<Rightarrow> (w, Do ProcessCwd AtCwd))"

definition op_sleep_millis :: "world \<Rightarrow> bytes \<Rightarrow> pc stretch" where
  "op_sleep_millis w p = with_i32 w p (\<lambda>ms. (w, Await (SetTimeout ms) AtInt64))"

definition op_random_bytes :: "world \<Rightarrow> bytes \<Rightarrow> pc stretch" where
  "op_random_bytes w p = with_i32 w p (\<lambda>n.
     if n < 0 \<or> n > push_bit 20 1
     then (w, Fail (plain_error ''Error'' (js ''randomBytes('' @ dec_int n @ js '') out of range'')))
     else (w, Do (RandomValues (nat n)) AtBytes))"

definition op_log :: "world \<Rightarrow> bytes \<Rightarrow> pc stretch" where
  "op_log w p =
     (if active (kids w) then (w\<lparr>kids := fst (write_out (kids w) (lineOf p))\<rparr>, Finish [])
      else (w, Do (LogLine (unstr p)) AtDone))"

definition op_warn :: "world \<Rightarrow> bytes \<Rightarrow> pc stretch" where
  "op_warn w p =
     (case warn (kids w) (lineOf p) of (k, said) \<Rightarrow>
        if said then (w\<lparr>kids := k\<rparr>, Finish []) else (w\<lparr>kids := k\<rparr>, Do (WarnLine (unstr p)) AtDone))"

definition op_push_child :: "world \<Rightarrow> bytes \<Rightarrow> pc stretch" where
  "op_push_child w p =
     (case unpackPush p of
        None \<Rightarrow> (w, Fail OUT_OF_RANGE)
      | Some (vec, inp, d) \<Rightarrow> (w\<lparr>kids := push (kids w) vec inp d\<rparr>, Finish []))"

definition op_pop_child :: "world \<Rightarrow> pc stretch" where
  "op_pop_child w =
     (case pop (kids w) of (k, o1, e1) \<Rightarrow> (w\<lparr>kids := k\<rparr>, Finish (packCaptured o1 e1)))"

definition op_arg_count :: "options \<Rightarrow> world \<Rightarrow> pc stretch" where
  "op_arg_count opts w = (w, Finish (i32le (int (length (own_args opts w)))))"

definition op_arg :: "options \<Rightarrow> world \<Rightarrow> bytes \<Rightarrow> pc stretch" where
  "op_arg opts w p = with_i32 w p (\<lambda>i.
     (w, Finish (if 0 \<le> i \<and> i < int (length (own_args opts w)) then argBytes (own_args opts w ! nat i) else [])))"

definition op_env :: "options \<Rightarrow> world \<Rightarrow> bytes \<Rightarrow> pc stretch" where
  "op_env opts w p =
     (if env_opt opts then (w, Do (GetEnv (unstr p)) AtEnv) else (w, Finish (env_answer None)))"

definition op_read_file :: "options \<Rightarrow> world \<Rightarrow> bytes \<Rightarrow> pc stretch" where
  "op_read_file opts w p =
     (if \<not> fs_read opts then (w, deny ''filesystem read'')
      else let path = P opts w (unstr p) in (w, Await (ReadFile path) (AtFile path)))"

definition op_read_stdin :: "options \<Rightarrow> world \<Rightarrow> pc stretch" where
  "op_read_stdin opts w =
     (case readAll (kids w) of
        (k, Some b) \<Rightarrow> (w\<lparr>kids := k\<rparr>, Finish b)
      | (k, None) \<Rightarrow>
          (w\<lparr>kids := k\<rparr>, case stdin_opt opts of
              None \<Rightarrow> Await StdinRead (AtStdin []) | Some s \<Rightarrow> Await (PipedAll s) AtBytes))"

definition op_write_stdout :: "options \<Rightarrow> world \<Rightarrow> bytes \<Rightarrow> pc stretch" where
  "op_write_stdout opts w p =
     (if active (kids w) then
        (case write_out (kids w) p of (k, kept) \<Rightarrow>
           (w\<lparr>kids := k\<rparr>,
            if kept then Finish []
            else Fail (plain_error ''Error'' (js ''the child'' @ [39] @ js ''s output buffer is full''))))
      else if sink_file w \<noteq> None then sink_loop w p 0
      else if write_opt opts then (w, Do (PipedWrite p) AtPipedWrite)
      else writeAllStdout w p 0)"

definition op_write_stderr :: "options \<Rightarrow> world \<Rightarrow> bytes \<Rightarrow> pc stretch" where
  "op_write_stderr opts w p =
     (if active (kids w) then (w\<lparr>kids := fst (warn (kids w) p)\<rparr>, Finish [])
      else if writeErr_opt opts then (w, Do (PipedWriteErr p) AtDone)
      else writeAllStderr w p 0)"

definition op_stat :: "options \<Rightarrow> world \<Rightarrow> bytes \<Rightarrow> pc stretch" where
  "op_stat opts w p =
     (if \<not> fs_read opts then (w, Finish (stat_answer (Inr FAULT_NOT_GRANTED)))
      else let path = P opts w (unstr p) in (w, Await (Stat path) (AtStat path)))"

definition op_link_stat :: "options \<Rightarrow> world \<Rightarrow> bytes \<Rightarrow> pc stretch" where
  "op_link_stat opts w p =
     (if \<not> fs_read opts then (w, Finish (stat_answer (Inr FAULT_NOT_GRANTED)))
      else let path = P opts w (unstr p) in (w, Await (Lstat path) (AtLinkStat path)))"

definition op_read_dir :: "options \<Rightarrow> world \<Rightarrow> bytes \<Rightarrow> pc stretch" where
  "op_read_dir opts w p =
     (if \<not> fs_read opts then (w, deny ''filesystem read'')
      else let path = P opts w (unstr p) in (w, Await (ReadDir path) (AtDir path)))"

definition op_write_file :: "options \<Rightarrow> world \<Rightarrow> bytes \<Rightarrow> pc stretch" where
  "op_write_file opts w p =
     (if \<not> fs_write opts then (w, denied_change ''filesystem write'')
      else case writeFile_args p of
        None \<Rightarrow> (w, Fail OUT_OF_RANGE)
      | Some (f, b) \<Rightarrow> let path = P opts w f in (w, Await (WriteFile path b) (AtChange path)))"

definition op_mkdir :: "options \<Rightarrow> world \<Rightarrow> bytes \<Rightarrow> pc stretch" where
  "op_mkdir opts w p =
     (if \<not> fs_write opts then (w, denied_change ''filesystem write'')
      else case flagged_args p of (rec, d) \<Rightarrow>
        let path = P opts w d in (w, Await (Mkdir path rec) (AtChange path)))"

definition op_remove :: "options \<Rightarrow> world \<Rightarrow> bytes \<Rightarrow> pc stretch" where
  "op_remove opts w p =
     (if \<not> fs_write opts then (w, denied_change ''filesystem write'')
      else case flagged_args p of (rec, d) \<Rightarrow>
        let path = P opts w d in (w, Await (Remove path rec) (AtChange path)))"

definition op_rename :: "options \<Rightarrow> world \<Rightarrow> bytes \<Rightarrow> pc stretch" where
  "op_rename opts w p =
     (if \<not> fs_write opts then (w, denied_change ''filesystem write'')
      else case rename_args p of
        None \<Rightarrow> (w, Fail OUT_OF_RANGE)
      | Some (a, b) \<Rightarrow>
          let a1 = P opts w a; b1 = P opts w b in (w, Await (Rename a1 b1) (AtRename a1 b1)))"

definition op_open_input :: "options \<Rightarrow> world \<Rightarrow> bytes \<Rightarrow> pc stretch" where
  "op_open_input opts w p =
     (case source_file w of
        Some f \<Rightarrow> (w, Do (FileClose f) (AtCloseSource (unstr p)))
      | None \<Rightarrow> open_source opts w (unstr p))"

definition op_read_chunk :: "options \<Rightarrow> world \<Rightarrow> pc stretch" where
  "op_read_chunk opts w =
     (case source_file w of
        Some f \<Rightarrow> (w, Await (FileRead f) AtRead)
      | None \<Rightarrow>
          (case readChunk (kids w) of
             (k, Some b) \<Rightarrow> (w\<lparr>kids := k\<rparr>, Finish (tagged b))
           | (k, None) \<Rightarrow>
               (w\<lparr>kids := k\<rparr>, case readChunkIn opts of
                   Some c \<Rightarrow> Await c AtPiped | None \<Rightarrow> Await StdinRead AtRead)))"

definition op_output_error :: "world \<Rightarrow> pc stretch" where
  "op_output_error w = (w, Finish (str (outputFailure w)))"

definition op_open_output :: "options \<Rightarrow> world \<Rightarrow> bytes \<Rightarrow> pc stretch" where
  "op_open_output opts w p =
     (case sink_file w of
        Some f \<Rightarrow> (w, Do (FileClose f) (AtCloseSink (unstr p)))
      | None \<Rightarrow> open_sink opts w (unstr p))"

definition op_connect :: "options \<Rightarrow> world \<Rightarrow> bytes \<Rightarrow> pc stretch" where
  "op_connect opts w p =
     (if \<not> net_opt opts then (w, deny ''network access'')
      else case connect_args p of
        None \<Rightarrow> (w, Fail OUT_OF_RANGE)
      | Some (port, hostname) \<Rightarrow> (w, Await (ConnectTo hostname port) AtConnect))"

definition op_listen :: "options \<Rightarrow> world \<Rightarrow> bytes \<Rightarrow> pc stretch" where
  "op_listen opts w p =
     (if \<not> net_opt opts then (w, deny ''network access'')
      else case connect_args p of
        None \<Rightarrow> (w, Fail OUT_OF_RANGE)
      | Some (port, hostname) \<Rightarrow> (w, Do (ListenOn (if hostname = [] then None else Some hostname) port) AtListen))"

definition op_accept :: "world \<Rightarrow> bytes \<Rightarrow> pc stretch" where
  "op_accept w p = with_i32 w p (\<lambda>h.
     case listeners w h of
       None \<Rightarrow> (w, Fail (plain_error ''Error'' (js ''not a listening socket'')))
     | Some l \<Rightarrow> (w, Await (AcceptFrom l) AtAccept))"

definition op_recv :: "options \<Rightarrow> world \<Rightarrow> bytes \<Rightarrow> pc stretch" where
  "op_recv opts w p = with_i32 w p (\<lambda>h.
     if h = 0 then
       (w, case readChunkIn opts of Some c \<Rightarrow> Await c AtPiped | None \<Rightarrow> Await StdinRead AtSocketRead)
     else case children w h of
       Some c \<Rightarrow> (w, Await (ChildOut c) AtPiped)
     | None \<Rightarrow>
         (case errStreams w h of
            Some c \<Rightarrow> (w, Await (ChildErr c) AtPiped)
          | None \<Rightarrow>
              (case sockets w h of
                 None \<Rightarrow> (w, Finish (failed (js ''not an open socket'')))
               | Some c \<Rightarrow> (w, Await (ConnRead c) AtRead))))"

definition op_send :: "world \<Rightarrow> bytes \<Rightarrow> pc stretch" where
  "op_send w p =
     (case send_args p of
        None \<Rightarrow> (w, Fail OUT_OF_RANGE)
      | Some (h, b) \<Rightarrow>
          (case children w h of
             Some c \<Rightarrow> (w, Do (ChildIn c b) AtDone)
           | None \<Rightarrow>
               (case sockets w h of
                  None \<Rightarrow> (w, Fail (plain_error ''Error'' (js ''not an open socket'')))
                | Some c \<Rightarrow> send_loop w c b 0)))"

definition op_close_socket :: "world \<Rightarrow> bytes \<Rightarrow> pc stretch" where
  "op_close_socket w p = with_i32 w p (close_socket deno_closers w)"

definition op_spawn :: "name \<Rightarrow> options \<Rightarrow> world \<Rightarrow> bytes \<Rightarrow> pc stretch" where
  "op_spawn self opts w p =
     (case (unpackSpawn p, want p) of
        (Some r, Some wanted) \<Rightarrow> startChild AtStart self opts w (source r) (args r) wanted (cwd r) (inheritIn r)
      | _ \<Rightarrow> (w, Fail OUT_OF_RANGE))"

definition op_spawn_self :: "name \<Rightarrow> options \<Rightarrow> world \<Rightarrow> bytes \<Rightarrow> pc stretch" where
  "op_spawn_self self opts w p =
     (case self_opt opts of
        None \<Rightarrow> (w, Finish (noSpawnHere (js ''this launcher did not pass the program its own source'')))
      | Some src \<Rightarrow>
          (case (unpackSpawnSelf p, want p) of
             (Some (as, d, inherit), Some wanted) \<Rightarrow> startChild AtStart self opts w src as wanted d inherit
           | _ \<Rightarrow> (w, Fail OUT_OF_RANGE)))"

definition op_close_feed :: "world \<Rightarrow> bytes \<Rightarrow> pc stretch" where
  "op_close_feed w p = with_i32 w p (\<lambda>h.
     case children w h of None \<Rightarrow> (w, Finish []) | Some c \<Rightarrow> (w, Do (ChildInEnd c) AtDone))"

definition op_exit_code :: "world \<Rightarrow> bytes \<Rightarrow> pc stretch" where
  "op_exit_code w p = with_i32 w p (\<lambda>h.
     case children w h of
       None \<Rightarrow> (w, Fail (plain_error ''Error'' (js ''not a spawned worker'')))
     | Some c \<Rightarrow> (w, Await (ChildExit c) AtExit))"

text \<open>The table.\<close>

primrec handle_op :: "name \<Rightarrow> options \<Rightarrow> world \<Rightarrow> op \<Rightarrow> bytes \<Rightarrow> pc stretch" where
  "handle_op self opts w NOW_MILLIS p = op_now_millis w"
| "handle_op self opts w MONOTONIC_NANOS p = op_monotonic_nanos w"
| "handle_op self opts w CWD p = op_cwd opts w"
| "handle_op self opts w SLEEP_MILLIS p = op_sleep_millis w p"
| "handle_op self opts w RANDOM_BYTES p = op_random_bytes w p"
| "handle_op self opts w LOG p = op_log w p"
| "handle_op self opts w WARN p = op_warn w p"
| "handle_op self opts w PUSH_CHILD p = op_push_child w p"
| "handle_op self opts w POP_CHILD p = op_pop_child w"
| "handle_op self opts w ARG_COUNT p = op_arg_count opts w"
| "handle_op self opts w ARG p = op_arg opts w p"
| "handle_op self opts w ENV p = op_env opts w p"
| "handle_op self opts w READ_FILE p = op_read_file opts w p"
| "handle_op self opts w READ_STDIN p = op_read_stdin opts w"
| "handle_op self opts w WRITE_STDOUT p = op_write_stdout opts w p"
| "handle_op self opts w WRITE_STDERR p = op_write_stderr opts w p"
| "handle_op self opts w STAT p = op_stat opts w p"
| "handle_op self opts w LINK_STAT p = op_link_stat opts w p"
| "handle_op self opts w READ_DIR p = op_read_dir opts w p"
| "handle_op self opts w WRITE_FILE p = op_write_file opts w p"
| "handle_op self opts w MKDIR p = op_mkdir opts w p"
| "handle_op self opts w REMOVE p = op_remove opts w p"
| "handle_op self opts w RENAME p = op_rename opts w p"
| "handle_op self opts w OPEN_INPUT p = op_open_input opts w p"
| "handle_op self opts w READ_CHUNK p = op_read_chunk opts w"
| "handle_op self opts w OUTPUT_ERROR p = op_output_error w"
| "handle_op self opts w OPEN_OUTPUT p = op_open_output opts w p"
| "handle_op self opts w CONNECT p = op_connect opts w p"
| "handle_op self opts w LISTEN p = op_listen opts w p"
| "handle_op self opts w ACCEPT p = op_accept w p"
| "handle_op self opts w RECV p = op_recv opts w p"
| "handle_op self opts w SEND p = op_send w p"
| "handle_op self opts w CLOSE_SOCKET p = op_close_socket w p"
| "handle_op self opts w SPAWN p = op_spawn self opts w p"
| "handle_op self opts w SPAWN_SELF p = op_spawn_self self opts w p"
| "handle_op self opts w CLOSE_FEED p = op_close_feed w p"
| "handle_op self opts w EXIT_CODE p = op_exit_code w p"
| "handle_op self opts w RENDER p = no_handler w RENDER"
| "handle_op self opts w SET_TEXT p = no_handler w SET_TEXT"
| "handle_op self opts w SET_VALUE p = no_handler w SET_VALUE"
| "handle_op self opts w GET_VALUE p = no_handler w GET_VALUE"
| "handle_op self opts w ON p = no_handler w ON"
| "handle_op self opts w NEXT_EVENT p = no_handler w NEXT_EVENT"
| "handle_op self opts w TITLE p = no_handler w TITLE"
| "handle_op self opts w DRAW_PIXELS p = no_handler w DRAW_PIXELS"
| "handle_op self opts w NEXT_FILE p = no_handler w NEXT_FILE"
| "handle_op self opts w OFFER_DOWNLOAD p = no_handler w OFFER_DOWNLOAD"

lemmas handler_defs =
  op_now_millis_def op_monotonic_nanos_def op_cwd_def op_sleep_millis_def op_random_bytes_def
  op_log_def op_warn_def op_push_child_def op_pop_child_def op_arg_count_def op_arg_def
  op_env_def op_read_file_def op_read_stdin_def op_write_stdout_def op_write_stderr_def
  op_stat_def op_link_stat_def op_read_dir_def op_write_file_def op_mkdir_def op_remove_def
  op_rename_def op_open_input_def op_read_chunk_def op_output_error_def op_open_output_def
  op_connect_def op_listen_def op_accept_def op_recv_def op_send_def op_close_socket_def
  op_spawn_def op_spawn_self_def op_close_feed_def op_exit_code_def no_handler_def

subsection \<open>The handlers from a reply on\<close>

primrec resume :: "options \<Rightarrow> world \<Rightarrow> pc \<Rightarrow> os_reply \<Rightarrow> pc stretch" where
  "resume opts w AtInt64 r =
     (case r of IntR n \<Rightarrow> (w, Finish (i64le n)) | Raised e \<Rightarrow> (w, Fail e) | _ \<Rightarrow> unexpected w)"
| "resume opts w AtBytes r =
     (case r of BytesR b \<Rightarrow> (w, Finish b) | Raised e \<Rightarrow> (w, Fail e) | _ \<Rightarrow> unexpected w)"
| "resume opts w AtCwd r =
     (case r of TextR d \<Rightarrow> (w, Finish (str d)) | Raised e \<Rightarrow> (w, Fail e) | _ \<Rightarrow> unexpected w)"
| "resume opts w AtDone r =
     (case r of Raised e \<Rightarrow> (w, Fail e) | _ \<Rightarrow> (w, Finish []))"
| "resume opts w AtEnv r =
     (case r of NullR \<Rightarrow> (w, Finish (env_answer None)) | TextR v \<Rightarrow> (w, Finish (env_answer (Some v)))
      | Raised e \<Rightarrow> (w, Fail e) | _ \<Rightarrow> unexpected w)"
| "resume opts w (AtFile path) r =
     (case r of BytesR b \<Rightarrow> (w, Finish b) | Raised e \<Rightarrow> (w, Fail (thrown_path e path)) | _ \<Rightarrow> unexpected w)"
| "resume opts w (AtDir path) r =
     (case r of NamesR ns \<Rightarrow> (w, Finish (str (join0 (denoDir ns))))
      | Raised e \<Rightarrow> (w, Fail (thrown_path e path)) | _ \<Rightarrow> unexpected w)"
| "resume opts w (AtStat path) r =
     (case r of StatR st \<Rightarrow> (w, Finish (stat_answer (Inl (st\<lparr>isSymlink := False\<rparr>))))
      | Raised e \<Rightarrow>
          (case statFault True e path of
             Some f \<Rightarrow> (w, Finish (stat_answer (Inr f))) | None \<Rightarrow> (w, Fail (null_error (text_of e) ''code'')))
      | _ \<Rightarrow> unexpected w)"
| "resume opts w (AtLinkStat path) r =
     (case r of StatR st \<Rightarrow> (w, Finish (stat_answer (Inl st)))
      | Raised e \<Rightarrow>
          (case statFault True e path of
             Some f \<Rightarrow> (w, Finish (stat_answer (Inr f))) | None \<Rightarrow> (w, Fail (null_error (text_of e) ''code'')))
      | _ \<Rightarrow> unexpected w)"
| "resume opts w (AtChange path) r =
     (case r of Raised e \<Rightarrow> (w, changed_failed (thrown_path e path)) | _ \<Rightarrow> (w, Finish CHANGED_OK))"
| "resume opts w (AtRename a b) r =
     (case r of Raised e \<Rightarrow> (w, changed_failed (thrown_path (thrown_path e b) a)) | _ \<Rightarrow> (w, Finish CHANGED_OK))"
| "resume opts w (AtStdin parts) r =
     (case r of NullR \<Rightarrow> (w, Finish (concat parts)) | BytesR b \<Rightarrow> (w, Await StdinRead (AtStdin (parts @ [b])))
      | Raised e \<Rightarrow> (w, Fail e) | _ \<Rightarrow> unexpected w)"
| "resume opts w AtPiped r =
     (case r of BytesR b \<Rightarrow> (w, Finish (tagged b)) | Raised e \<Rightarrow> (w, Fail e) | _ \<Rightarrow> unexpected w)"
| "resume opts w (AtSink b k) r =
     (case r of WroteR n \<Rightarrow> sink_loop w b (k + n) | Raised e \<Rightarrow> output_failed w e | _ \<Rightarrow> unexpected w)"
| "resume opts w (AtStdout b k) r =
     (case r of WroteR n \<Rightarrow> writeAllStdout w b (k + n) | Raised e \<Rightarrow> output_failed w e | _ \<Rightarrow> unexpected w)"
| "resume opts w (AtStderr b k) r =
     (case r of WroteR n \<Rightarrow> writeAllStderr w b (k + n) | Raised e \<Rightarrow> output_failed w e | _ \<Rightarrow> unexpected w)"
| "resume opts w AtPipedWrite r =
     (case r of Raised e \<Rightarrow> output_failed w e | _ \<Rightarrow> (w, Finish []))"
| "resume opts w (AtCloseSource path) r =
     (case r of Raised e \<Rightarrow> (w, Fail e) | _ \<Rightarrow> open_source opts w path)"
| "resume opts w (AtOpenSource path) r =
     (case r of OpenedR f \<Rightarrow> (w\<lparr>source_file := Some f\<rparr>, Finish CHANGED_OK)
      | Raised e \<Rightarrow> (w, changed_failed (thrown_path e path)) | _ \<Rightarrow> unexpected w)"
| "resume opts w (AtCloseSink path) r =
     (case r of Raised e \<Rightarrow> (w, Fail e) | _ \<Rightarrow> open_sink opts w path)"
| "resume opts w (AtOpenSink path) r =
     (case r of OpenedR f \<Rightarrow> (w\<lparr>sink_file := Some f\<rparr>, Finish CHANGED_OK)
      | Raised e \<Rightarrow> (w, changed_failed (thrown_path e path)) | _ \<Rightarrow> unexpected w)"
| "resume opts w AtRead r =
     (case r of NullR \<Rightarrow> (w, Finish END_READ) | BytesR b \<Rightarrow> (w, Finish (data b))
      | Raised e \<Rightarrow> (w, Finish (failed (text_of e))) | _ \<Rightarrow> unexpected w)"
| "resume opts w AtSocketRead r =
     (case r of NullR \<Rightarrow> (w, Finish END_READ) | BytesR b \<Rightarrow> (w, Finish (data b))
      | Raised e \<Rightarrow> (w, Fail e) | _ \<Rightarrow> unexpected w)"
| "resume opts w AtConnect r =
     (case r of SocketR c peer port \<Rightarrow>
          (case add_handle w of (h, w) \<Rightarrow> (w\<lparr>sockets := (sockets w)(h \<mapsto> c)\<rparr>, Finish (withPeer h [] port)))
      | Raised e \<Rightarrow> (w, Fail e) | _ \<Rightarrow> unexpected w)"
| "resume opts w AtListen r =
     (case r of ListenerR l port \<Rightarrow>
          (case add_handle w of (h, w) \<Rightarrow> (w\<lparr>listeners := (listeners w)(h \<mapsto> l)\<rparr>, Finish (withPeer h [] port)))
      | Raised e \<Rightarrow> (w, Fail e) | _ \<Rightarrow> unexpected w)"
| "resume opts w AtAccept r =
     (case r of SocketR c peer port \<Rightarrow>
          (case add_handle w of (h, w) \<Rightarrow> (w\<lparr>sockets := (sockets w)(h \<mapsto> c)\<rparr>, Finish (withPeer h peer port)))
      | Raised e \<Rightarrow> (w, Fail e) | _ \<Rightarrow> unexpected w)"
| "resume opts w (AtSend c b k) r =
     (case r of WroteR n \<Rightarrow> send_loop w c b (k + n) | Raised e \<Rightarrow> (w, Fail e) | _ \<Rightarrow> unexpected w)"
| "resume opts w (AtCloseConn h) r = close_listener deno_closers w h"
| "resume opts w (AtCloseListener h) r = close_child deno_closers w h"
| "resume opts w (AtCloseIn h) r = close_after_in deno_closers w h r"
| "resume opts w (AtCloseKill h) r = close_forget w h"
| "resume opts w (AtStart c h) r =
     (case r of Raised e \<Rightarrow> (w, Fail e) | _ \<Rightarrow> (w, Await (ChildLoaded c) (AtLoaded c h)))"
| "resume opts w (AtLoaded c h) r =
     (case r of TextR why \<Rightarrow>
          (if why \<noteq> [] then (w, Do (ChildKill c) (AtKilled why))
           else register_child w c h)
      | Raised e \<Rightarrow> (w, Fail e) | _ \<Rightarrow> unexpected w)"
| "resume opts w (AtKilled why) r =
     (case r of Raised e \<Rightarrow> (w, Fail e) | _ \<Rightarrow> (w, Finish (failedChild why)))"
| "resume opts w AtExit r =
     (case r of IntR n \<Rightarrow> (w, Finish (i32le n)) | Raised e \<Rightarrow> (w, Fail e) | _ \<Rightarrow> unexpected w)"

section \<open>The contract\<close>

text \<open>What a waiting handler may still use, has set aside, and is closing.\<close>

fun will_need :: "pc \<Rightarrow> capability set" where
  "will_need (AtOpenSource p) = {FsRead}"
| "will_need (AtOpenSink p) = {FsWrite}"
| "will_need AtConnect = {NetAccess}"
| "will_need AtListen = {NetAccess}"
| "will_need AtAccept = {NetAccess}"
| "will_need (AtSend c b k) = {NetAccess}"
| "will_need _ = {}"

fun reserved :: "pc \<Rightarrow> int option" where
  "reserved (AtStart c h) = Some h"
| "reserved (AtLoaded c h) = Some h"
| "reserved _ = None"

fun closing :: "pc \<Rightarrow> int option" where
  "closing (AtCloseConn h) = Some h"
| "closing (AtCloseListener h) = Some h"
| "closing (AtCloseIn h) = Some h"
| "closing (AtCloseKill h) = Some h"
| "closing _ = None"

lemmas close_defs = close_socket_def close_listener_def close_child_def close_kill_def close_forget_def
  close_after_in_def deno_closers_def

lemmas stretch_defs = with_i32_def deny_def denied_change_def open_source_def open_sink_def sink_loop_def
  output_failed_def writeAllStdout_def writeAllStderr_def send_loop_def startChild_def start_worker_def register_child_def
  unexpected_def add_handle_def changed_failed_def readChunkIn_def Let_def close_defs handler_defs

lemma handle_op_ok: "world_ok opts w \<Longrightarrow> stretch_ok will_need opts (handle_op self opts w oper p)"
  by (cases oper)
    (simp_all add: stretch_ok_def stretch_defs world_ok_open child_narrows split: option.split prod.split, auto)

lemma resume_ok:
  "world_ok opts w \<Longrightarrow> will_need q \<subseteq> grants opts \<Longrightarrow> stretch_ok will_need opts (resume opts w q r)"
  by (cases q)
    (simp_all add: stretch_ok_def stretch_defs world_ok_open split: os_reply.split option.split)

lemma deno_closers_ok: "closers_ok reserved closing deno_closers"
  by (simp add: closers_ok_def deno_closers_def)

lemma handle_op_tables:
  assumes "oper \<noteq> SPAWN" "oper \<noteq> SPAWN_SELF" "oper \<noteq> CLOSE_SOCKET"
  shows "same_tables w (fst (handle_op self opts w oper p)) \<and> aside_of reserved (snd (handle_op self opts w oper p)) = None"
  using assms
  by (cases oper) (simp_all add: same_tables_def stretch_defs split: option.split prod.split)

lemma handle_op_counts:
  assumes "below w"
  shows "stretch_counts reserved w None (handle_op self opts w oper p)"
proof -
  have same: "stretch_counts reserved w None (w, Fail e)" "stretch_counts reserved w None (w, Finish b)" for e b
    by (rule counts_tables [OF assms]; simp add: same_tables_def)+
  have st: "stretch_counts reserved w None (startChild AtStart self opts w src as n d inh)" for src as n d inh
    unfolding startChild_def by (rule counts_start [OF assms]) simp
  consider "oper = SPAWN" | "oper = SPAWN_SELF" | "oper = CLOSE_SOCKET"
    | "oper \<noteq> SPAWN" "oper \<noteq> SPAWN_SELF" "oper \<noteq> CLOSE_SOCKET" by blast
  then show ?thesis
  proof cases
    case 4
    from handle_op_tables [OF 4, of w self opts p] show ?thesis
      by (intro counts_tables [OF assms]) auto
  qed (use same st counts_close(4) [OF assms deno_closers_ok] in
      \<open>auto simp: handler_defs with_i32_def split: option.split prod.split\<close>)
qed

fun moves :: "pc \<Rightarrow> bool" where
  "moves AtConnect = True"
| "moves AtListen = True"
| "moves AtAccept = True"
| "moves (AtLoaded c h) = True"
| "moves (AtCloseConn h) = True"
| "moves (AtCloseListener h) = True"
| "moves (AtCloseIn h) = True"
| "moves (AtCloseKill h) = True"
| "moves _ = False"

lemma resume_tables:
  assumes "\<not> moves q"
  shows "same_tables w (fst (resume opts w q r))
    \<and> (aside_of reserved (snd (resume opts w q r)) = None \<or> aside_of reserved (snd (resume opts w q r)) = reserved q)"
  using assms
  by (cases q) (simp_all add: same_tables_def stretch_defs split: os_reply.split option.split)

lemma resume_counts:
  assumes b: "below w" and rh: "\<And>h. reserved q = Some h \<Longrightarrow> h < nextHandle w"
  shows "stretch_counts reserved w (reserved q) (resume opts w q r)"
proof (cases "moves q")
  case False
  from resume_tables [OF this, of w opts r] show ?thesis
    by (intro counts_tables [OF b]) auto
next
  case True
  have same: "stretch_counts reserved w a (w, Fail e)" "stretch_counts reserved w None (w, Finish d)"
    "stretch_counts reserved w a (w, Do (ChildKill c) (AtKilled y))" for a e d c y
    by (rule counts_tables [OF b]; simp add: same_tables_def)+
  have reg: "stretch_counts reserved w (Some h) (register_child w c h)" if "q = AtLoaded c h" for c h
    by (rule counts_register [OF b]) (use rh that in simp)
  note facts = same counts_added [OF b] counts_close [OF b deno_closers_ok] counts_forget [OF b]
  show ?thesis
    using True
    by (cases q; cases r) (simp_all add: facts reg unexpected_def add_handle_def)
qed

lemma handle_op_closes: "stretch_closes closing (handle_op self opts w oper p)"
proof (cases "oper = CLOSE_SOCKET")
  case True
  then show ?thesis
    using closes_close(5) [OF deno_closers_ok] by (simp add: handler_defs with_i32_def stretch_closes_def split: option.split)
next
  case False
  then show ?thesis
    by (cases oper) (simp_all add: stretch_closes_def stretch_defs split: option.split prod.split)
qed

lemma resume_closes: "stretch_closes closing (resume opts w q r)"
proof (cases "closing q")
  case None
  then show ?thesis
    by (cases q) (simp_all add: stretch_closes_def stretch_defs split: os_reply.split option.split)
next
  case (Some h)
  then show ?thesis
    using closes_close [OF deno_closers_ok] by (cases q) simp_all
qed

lemma handle_op_goes:
  assumes "i32_ok h"
  shows "stretch_goes closing h (handle_op self opts w CLOSE_SOCKET (i32le h))"
proof -
  have "readI32le (i32le h) = Some h"
    using get_i32le_0 [OF assms, of "[]"] by (simp add: readI32le_def)
  then show ?thesis
    using goes_close(5) [OF deno_closers_ok] by (simp add: op_close_socket_def with_i32_def)
qed

lemma resume_goes: "closing q = Some h \<Longrightarrow> stretch_goes closing h (resume opts w q r)"
  using goes_close [OF deno_closers_ok] by (cases q) simp_all

lemma handle_op_child:
  "child_started (snd (handle_op self opts w oper p)) = Some m \<Longrightarrow>
     m = self @ [nextHandle w] \<and> nextHandle (fst (handle_op self opts w oper p)) = nextHandle w + 1"
  by (cases oper) (auto simp: stretch_defs split: option.splits prod.splits if_splits)

lemma resume_child: "child_started (snd (resume opts w q r)) = None"
  by (cases q) (simp_all add: stretch_defs split: os_reply.split option.split)

interpretation deno: world_family handle_op resume will_need reserved
proof
  show "world_ok opts w \<Longrightarrow> stretch_ok will_need opts (handle_op self opts w oper p)" for opts w self oper p
    by (rule handle_op_ok)
  show "world_ok opts w \<Longrightarrow> will_need q \<subseteq> grants opts \<Longrightarrow> stretch_ok will_need opts (resume opts w q r)"
    for opts w q r by (rule resume_ok)
  show "below w \<Longrightarrow> stretch_counts reserved w None (handle_op self opts w oper p)" for w self opts oper p
    by (rule handle_op_counts)
  show "below w \<Longrightarrow> (\<And>h. reserved q = Some h \<Longrightarrow> h < nextHandle w) \<Longrightarrow>
      stretch_counts reserved w (reserved q) (resume opts w q r)" for w q opts r
    by (rule resume_counts)
  show "child_started (snd (handle_op self opts w oper p)) = Some m \<Longrightarrow>
      m = self @ [nextHandle w] \<and> nextHandle (fst (handle_op self opts w oper p)) = nextHandle w + 1"
    for self opts w oper p m by (rule handle_op_child)
  show "child_started (snd (resume opts w q r)) = None" for opts w q r
    by (rule resume_child)
qed

interpretation deno_close: handle_closing handle_op resume reserved closing
proof
  show "stretch_closes closing (handle_op self opts w oper p)" for self opts w oper p
    by (rule handle_op_closes)
  show "stretch_closes closing (resume opts w q r)" for opts w q r
    by (rule resume_closes)
  show "i32_ok h \<Longrightarrow> stretch_goes closing h (handle_op self opts w CLOSE_SOCKET (i32le h))" for h self opts w
    by (rule handle_op_goes)
  show "closing q = Some h \<Longrightarrow> stretch_goes closing h (resume opts w q r)" for q h opts w r
    by (rule resume_goes)
qed

text \<open>
  Which call a handler waits for at a place. The one place where the code after a call may fail on its
  own is the loop that writes to the file of \<open>openOutput\<close>, which another handler may have closed.
\<close>

primrec takes :: "pc \<Rightarrow> os_call \<Rightarrow> bool" where
  "takes AtInt64 c = (c = DateNow \<or> c = PerformanceNow \<or> (\<exists>ms. c = SetTimeout ms))"
| "takes AtBytes c = ((\<exists>n. c = RandomValues n) \<or> (\<exists>s. c = PipedAll s))"
| "takes AtCwd c = (c = ProcessCwd)"
| "takes AtDone c = ((\<exists>l. c = LogLine l) \<or> (\<exists>l. c = WarnLine l) \<or> (\<exists>b. c = PipedWriteErr b) \<or> (\<exists>n b. c = ChildIn n b)
     \<or> (\<exists>n. c = ChildInEnd n))"
| "takes AtEnv c = (\<exists>n. c = GetEnv n)"
| "takes (AtFile p) c = (c = ReadFile p)"
| "takes (AtDir p) c = (c = ReadDir p)"
| "takes (AtStat p) c = (c = Stat p)"
| "takes (AtLinkStat p) c = (c = Lstat p)"
| "takes (AtChange p) c = ((\<exists>b. c = WriteFile p b) \<or> (\<exists>r. c = Mkdir p r) \<or> (\<exists>r. c = Remove p r))"
| "takes (AtRename p q) c = (c = Rename p q)"
| "takes (AtStdin bs) c = (c = StdinRead)"
| "takes AtPiped c = ((\<exists>s. c = PipedChunk s) \<or> (\<exists>s. c = PipedAll s) \<or> (\<exists>n. c = ChildOut n) \<or> (\<exists>n. c = ChildErr n))"
| "takes (AtSink b k) c = (\<exists>f. c = FileWrite f (drop k b))"
| "takes (AtStdout b k) c = (c = StdoutWrite (drop k b))"
| "takes (AtStderr b k) c = (c = StderrWrite (drop k b))"
| "takes AtPipedWrite c = (\<exists>b. c = PipedWrite b)"
| "takes (AtCloseSource p) c = (\<exists>f. c = FileClose f)"
| "takes (AtOpenSource p) c = (c = OpenRead p)"
| "takes (AtCloseSink p) c = (\<exists>f. c = FileClose f)"
| "takes (AtOpenSink p) c = (c = OpenWrite p)"
| "takes AtRead c = (c = StdinRead \<or> (\<exists>f. c = FileRead f) \<or> (\<exists>k. c = ConnRead k))"
| "takes AtSocketRead c = (c = StdinRead)"
| "takes AtConnect c = (\<exists>h p. c = ConnectTo h p)"
| "takes AtListen c = (\<exists>h p. c = ListenOn h p)"
| "takes AtAccept c = (\<exists>l. c = AcceptFrom l)"
| "takes (AtSend k b n) c = (c = ConnWrite k (drop n b))"
| "takes (AtCloseConn h) c = (\<exists>k. c = ConnClose k)"
| "takes (AtCloseListener h) c = (\<exists>l. c = ListenerClose l)"
| "takes (AtCloseIn h) c = (\<exists>n. c = ChildInEnd n)"
| "takes (AtCloseKill h) c = (\<exists>n. c = ChildKill n)"
| "takes (AtStart n h) c = (\<exists>src as os. c = StartChild n src as os)"
| "takes (AtLoaded n h) c = (c = ChildLoaded n)"
| "takes (AtKilled why) c = (\<exists>n. c = ChildKill n)"
| "takes AtExit c = (\<exists>n. c = ChildExit n)"

fun sink_gone :: "world \<Rightarrow> pc \<Rightarrow> bool" where
  "sink_gone w (AtSink b k) = (sink_file w = None)"
| "sink_gone w _ = False"

lemma handle_op_fits: "calls_fit takes (handle_op self opts w oper p)"
  by (cases oper) (auto simp: calls_fit_def stretch_defs split: option.split prod.split)

lemma resume_fits: "takes q c \<Longrightarrow> replies c r \<Longrightarrow> calls_fit takes (resume opts w q r)"
  by (cases q) (auto simp: calls_fit_def stretch_defs split: os_reply.split option.split)

lemma resume_understood:
  "takes q c \<Longrightarrow> replies c r \<Longrightarrow> snd (resume opts w q r) = Fail e \<Longrightarrow> is_raised r \<or> sink_gone w q"
  by (cases q; cases r) (auto simp: stretch_defs split: option.splits if_splits)

interpretation deno_typed: typed_handlers handle_op resume takes sink_gone
  by unfold_locales (auto simp: handle_op_fits resume_fits dest: resume_understood)

section \<open>Properties\<close>

text \<open>
  C3. Nothing in a tree of programs reaches past the first one's grants. Whatever programs ask for,
  however their requests and the runtime's replies interleave, and whatever grants a parent names
  when it starts a child: every call a world makes on the file system, the network or the
  environment is covered by that world's own options, which it keeps for ever, and the options of
  every world hold no grant that the first world's lack.
\<close>

theorem authority_confined:
  assumes "run_machine (tree_step handle_op resume) (root_tree first) es = (t, effs)"
  shows "(\<forall>n i c. (n, Calls i c) \<in> set effs \<longrightarrow> (\<exists>opts s. t n = Some (opts, s) \<and> needs c \<subseteq> grants opts))
    \<and> (\<forall>n opts s. t n = Some (opts, s) \<longrightarrow> grants opts \<subseteq> grants first)"
  by (rule deno.authority [OF assms])

text \<open>
  A world is never replaced: whatever happens, a world that was started under a name goes on
  under that name with the options it was started with, since every child gets a new one.
\<close>

theorem world_keeps_options:
  assumes "run_machine (tree_step handle_op resume) (root_tree first) es = (t, effs)" "t n = Some (opts, s)"
    and "run_machine (tree_step handle_op resume) t es' = (t', effs')"
  shows "\<exists>s'. t' n = Some (opts, s')"
  by (rule deno.options_kept [OF assms])

lemma escalation_run:
  "snd (run_machine (tree_step handle_op resume) (root_tree reader_options) escalation) =
     [([], Calls 0 (StartChild [1] WORKER_MARKER [] (child_options reader_options [1] [] 15 [] False))),
      ([], Calls 0 (ChildLoaded [1])),
      ([1], Calls 0 (ReadFile (unstr [97]))),
      ([1], Throws 1 (Faulted FAULT_NOT_GRANTED (js ''network access'' @ js '' not granted to this application'')))]"
proof -
  have o1: "self_opt reader_options = Some WORKER_MARKER" by (simp add: reader_options_def)
  have o2: "fs_read (child_options reader_options [1] [] 15 [] False)"
    "\<not> net_opt (child_options reader_options [1] [] 15 [] False)"
    "cwd_opt (child_options reader_options [1] [] 15 [] False) = None"
    by (simp_all add: child_options_def give_def reader_options_def GRANT_READ_def GRANT_NET_def)
  show ?thesis
    by (simp add: escalation_def root_tree_def tree_step_def o1 o2 escalation_decoded marker_starts
      handler_defs startChild_def start_worker_def settle_def idle_host_def new_world_def Let_def may_run_def P_def path_of_def joinPath_def deny_def)
qed

theorem authority_confined_witness:
  "\<exists>t effs. run_machine (tree_step handle_op resume) (root_tree reader_options) escalation = (t, effs)
    \<and> ([1], Calls 0 (ReadFile (unstr [97]))) \<in> set effs \<and> (\<forall>n i h p. (n, Calls i (ConnectTo h p)) \<notin> set effs)"
proof -
  obtain t effs where r: "run_machine (tree_step handle_op resume) (root_tree reader_options) escalation = (t, effs)" by fastforce
  have "\<not> needs (ConnectTo h p) \<subseteq> grants reader_options" for h p by (simp add: reader_options_def)
  with authority_confined [OF r] have "(n, Calls i (ConnectTo h p)) \<notin> set effs" for n i h p
    by (meson order_trans)
  moreover have "([1], Calls 0 (ReadFile (unstr [97]))) \<in> set effs" using escalation_run r by simp
  ultimately show ?thesis using r by blast
qed

theorem world_keeps_options_witness:
  "\<exists>t effs s'. run_machine (tree_step handle_op resume) (root_tree reader_options) escalation = (t, effs) \<and> t [] = Some (reader_options, s')"
proof -
  obtain t effs where r: "run_machine (tree_step handle_op resume) (root_tree reader_options) escalation = (t, effs)" by fastforce
  have "run_machine (tree_step handle_op resume) (root_tree reader_options) [] = (root_tree reader_options, [])" by simp
  moreover have "root_tree reader_options [] = Some (reader_options, idle_host)" by (simp add: root_tree_def)
  ultimately show ?thesis using world_keeps_options [OF _ _ r] r by blast
qed

text \<open>
  C15. A handle that has been closed never comes back. Let \<open>h\<close> be open as anything at all (a socket, a
  listener, a child, a child's error stream) in a state the world can reach, no handler being inside
  a synchronous call, and let the program ask to close it. Once that request is answered, whether at
  once or after the calls of the runtime it takes, and after whatever else the world does (new
  connections, new children, replies to calls that were waiting), \<open>h\<close> is in none of its tables:
  reading it answers that it is not an open socket, and writing to it or asking for its exit code is
  refused. (\<open>h\<close> is any handle that fits the four bytes of a request.)
\<close>

theorem closed_handle_is_dead:
  assumes "run_machine (host_step handle_op resume self opts) idle_host es = (s, effs)"
    and "inside s = None" "pending s i = None" "table_role (hworld s) k h" "i32_ok h"
    and "run_machine (host_step handle_op resume self opts) s (Request i CLOSE_SOCKET (i32le h) # es1) = (s1, effs1)"
    and "Answers i b \<in> set effs1"
  shows "unused reserved s1 h
    \<and> handle_op self opts (hworld s1) RECV (i32le h) = (hworld s1, Finish (failed (js ''not an open socket'')))
    \<and> (\<exists>e. handle_op self opts (hworld s1) SEND (i32le h @ d) = (hworld s1, Fail e))
    \<and> (\<exists>e. handle_op self opts (hworld s1) EXIT_CODE (i32le h) = (hworld s1, Fail e))"
proof -
  have u: "unused reserved s1 h" "1 \<le> h"
    using deno_close.closed_stays_closed [OF assms] by simp_all
  have "readI32le (i32le h @ xs) = Some h" for xs
    using get_i32le_0 [OF assms(5)] by (simp add: readI32le_def)
  note rd = this this [of "[]", simplified]
  show ?thesis
    using u unused_tables [OF u(1)] rd by (simp add: handler_defs with_i32_def send_args_def)
qed

text \<open>A parent that starts a child, closes the child's error stream and then connects.\<close>

definition parent_events :: "host_event list" where
  "parent_events = [Request 0 SPAWN_SELF (spawnSelf_payload [] 15 [] False), Reply 0 Done, Reply 0 (TextR [])]"

definition parent_host :: "pc world_host" where
  "parent_host = \<lparr>hworld = new_world\<lparr>nextHandle := 3, children := [1 \<mapsto> [1]], errStreams := [2 \<mapsto> [1]]\<rparr>,
     pending = Map.empty, inside = None\<rparr>"

lemma parent_run:
  "fst (run_machine (host_step handle_op resume [] reader_options) idle_host parent_events) = parent_host"
proof -
  have o1: "self_opt reader_options = Some WORKER_MARKER" by (simp add: reader_options_def)
  show ?thesis
    by (auto simp: parent_events_def parent_host_def idle_host_def new_world_def o1 escalation_decoded
      handler_defs startChild_def start_worker_def settle_def may_run_def register_child_def add_handle_def Let_def)
qed

theorem closed_handle_is_dead_witness:
  "\<exists>s1 effs1. run_machine (host_step handle_op resume [] reader_options) parent_host
       (Request 1 CLOSE_SOCKET (i32le 2) # [Request 2 CONNECT (i32le 80 @ [97]), Reply 2 (SocketR 6 [] 9)]) = (s1, effs1)
    \<and> handle_op [] reader_options (hworld s1) RECV (i32le 2) = (hworld s1, Finish (failed (js ''not an open socket'')))"
proof -
  let ?es = "[Request 2 CONNECT (i32le 80 @ [97]), Reply 2 (SocketR 6 [] 9)]"
  let ?step = "host_step handle_op resume [] reader_options"
  obtain effs where r: "run_machine ?step idle_host parent_events = (parent_host, effs)"
    using parent_run by (metis prod.collapse)
  obtain s1 effs1 where s1: "run_machine ?step parent_host (Request 1 CLOSE_SOCKET (i32le 2) # ?es) = (s1, effs1)" by fastforce
  have "readI32le (i32le 2) = Some 2"
    using get_i32le_0 [of 2 "[]"] by (simp add: readI32le_def i32_ok_def)
  then have "snd (?step parent_host (Request 1 CLOSE_SOCKET (i32le 2))) = [Answers 1 []]"
    by (simp add: parent_host_def new_world_def op_close_socket_def with_i32_def close_defs settle_def)
  then have a: "Answers 1 [] \<in> set effs1"
    using arg_cong [OF s1, of snd] by auto
  have p: "inside parent_host = None" "pending parent_host 1 = None" "table_role (hworld parent_host) ErrRole 2" "i32_ok 2"
    by (simp_all add: parent_host_def i32_ok_def)
  from closed_handle_is_dead [OF r p s1 a] s1 show ?thesis by blast
qed

end
