(* ===== verification/Node_World.thy ===== *)
theory Node_World
  imports World_Tree World_Types
begin

text \<open>
  \<open>packages/platform/host/node.ts\<close>: the handler table for Node. It answers the operations of
  \<open>Deno_World\<close> over \<open>io\<close>, an object of promise-shaped pieces its launcher made: whole writes, reads that
  answer nothing at the end, files that are closed by awaiting. It keeps the same contract.
\<close>

section \<open>The handlers\<close>

text \<open>Where a handler stands while the runtime has its call.\<close>

datatype (plugins only: size code) node_pc =
    NInt64 | NBytes | NRandom nat bytes | NCwd | NDone | NEnv | NDir | NChange
  | NStat jsstring | NLinkStat jsstring | NPiped | NNext | NWritten
  | NCloseSource jsstring | NOpenSource | NCloseSink jsstring | NOpenSink
  | NConnect | NListen | NAccept
  | NCloseConn int | NCloseListener int | NCloseIn int | NCloseKill int
  | NStart name int | NLoaded name int | NKilled jsstring | NExit

definition node_closers :: "node_pc closers" where
  "node_closers = \<lparr>after_conn = NCloseConn, after_listener = NCloseListener, after_in = NCloseIn, after_kill = NCloseKill\<rparr>"

subsection \<open>Pieces\<close>

text \<open>\<open>changed\<close> for work that threw; under Node there are no Deno error classes.\<close>

definition node_changed_failed :: "thrown \<Rightarrow> 'p ending" where
  "node_changed_failed e =
     (case changed False (Some e) (\<lambda>f m. m) of
        Some b \<Rightarrow> Finish b | None \<Rightarrow> Fail (null_error (text_of e) ''code''))"

definition node_output_failed :: "world \<Rightarrow> thrown \<Rightarrow> node_pc stretch" where
  "node_output_failed w e =
     (w\<lparr>outputFailure := (if matches_i (text_of e) ''epipe'' \<or> matches_i (text_of e) ''broken pipe''
                            then [] else text_of e)\<rparr>, Fail e)"

text \<open>\<open>getRandomValues\<close> in pieces of at most 65536 bytes.\<close>

definition random_loop :: "world \<Rightarrow> nat \<Rightarrow> bytes \<Rightarrow> node_pc stretch" where
  "random_loop w n got =
     (w, if n \<le> length got then Finish got
         else Do (RandomValues (min 65536 (n - length got))) (NRandom n got))"

definition node_open_source :: "options \<Rightarrow> world \<Rightarrow> jsstring \<Rightarrow> node_pc stretch" where
  "node_open_source opts w path =
     (let w = w\<lparr>source_file := None\<rparr>
      in if path = [] then (w, Finish CHANGED_OK)
         else if \<not> fs_read opts then (w, denied_change ''filesystem read'')
         else (w, Await (OpenRead (P opts w path)) NOpenSource))"

definition node_open_sink :: "options \<Rightarrow> world \<Rightarrow> jsstring \<Rightarrow> node_pc stretch" where
  "node_open_sink opts w path =
     (let w = w\<lparr>sink_file := None\<rparr>
      in if path = [] then (w, Finish CHANGED_OK)
         else if \<not> fs_write opts then (w, denied_change ''filesystem write'')
         else (w, Await (OpenWrite (P opts w path)) NOpenSink))"

definition node_startChild ::
  "name \<Rightarrow> options \<Rightarrow> world \<Rightarrow> jsstring \<Rightarrow> bytes list \<Rightarrow> int \<Rightarrow> jsstring \<Rightarrow> bool \<Rightarrow> node_pc stretch"
where
  "node_startChild self opts w src childArgs wanted childCwd inherit =
     (if \<not> worker_opt opts
      then (w, Finish (noSpawnHere (js ''this Node launcher was built without a way to start a worker'')))
      else startChild NStart self opts w src childArgs wanted childCwd inherit)"

subsection \<open>The handlers up to their first call\<close>

definition node_now_millis :: "world \<Rightarrow> node_pc stretch" where
  "node_now_millis w = (w, Do DateNow NInt64)"

definition node_monotonic_nanos :: "world \<Rightarrow> node_pc stretch" where
  "node_monotonic_nanos w = (w, Do PerformanceNow NInt64)"

definition node_cwd :: "options \<Rightarrow> world \<Rightarrow> node_pc stretch" where
  "node_cwd opts w =
     (case cwd_opt opts of
        Some d \<Rightarrow> (if d \<noteq> [] then (w, Finish (str d)) else (w, Do ProcessCwd NCwd))
      | None \<Rightarrow> (w, Do ProcessCwd NCwd))"

definition node_sleep_millis :: "world \<Rightarrow> bytes \<Rightarrow> node_pc stretch" where
  "node_sleep_millis w p = with_i32 w p (\<lambda>ms. (w, Await (SetTimeout ms) NInt64))"

definition node_random_bytes :: "world \<Rightarrow> bytes \<Rightarrow> node_pc stretch" where
  "node_random_bytes w p = with_i32 w p (\<lambda>n.
     if n < 0 \<or> n > push_bit 20 1
     then (w, Fail (plain_error ''Error'' (js ''randomBytes('' @ dec_int n @ js '') out of range'')))
     else random_loop w (nat n) [])"

definition node_log :: "world \<Rightarrow> bytes \<Rightarrow> node_pc stretch" where
  "node_log w p =
     (if active (kids w) then (w\<lparr>kids := fst (write_out (kids w) (lineOf p))\<rparr>, Finish [])
      else (w, Do (LogLine (unstr p)) NDone))"

definition node_warn :: "world \<Rightarrow> bytes \<Rightarrow> node_pc stretch" where
  "node_warn w p =
     (case warn (kids w) (lineOf p) of (k, said) \<Rightarrow>
        if said then (w\<lparr>kids := k\<rparr>, Finish []) else (w\<lparr>kids := k\<rparr>, Do (WarnLine (unstr p)) NDone))"

definition node_push_child :: "world \<Rightarrow> bytes \<Rightarrow> node_pc stretch" where
  "node_push_child w p =
     (case unpackPush p of
        None \<Rightarrow> (w, Fail OUT_OF_RANGE)
      | Some (vec, inp, d) \<Rightarrow> (w\<lparr>kids := push (kids w) vec inp d\<rparr>, Finish []))"

definition node_pop_child :: "world \<Rightarrow> node_pc stretch" where
  "node_pop_child w =
     (case pop (kids w) of (k, o1, e1) \<Rightarrow> (w\<lparr>kids := k\<rparr>, Finish (packCaptured o1 e1)))"

definition node_arg_count :: "options \<Rightarrow> world \<Rightarrow> node_pc stretch" where
  "node_arg_count opts w = (w, Finish (i32le (int (length (own_args opts w)))))"

definition node_arg :: "options \<Rightarrow> world \<Rightarrow> bytes \<Rightarrow> node_pc stretch" where
  "node_arg opts w p = with_i32 w p (\<lambda>i.
     (w, Finish (if 0 \<le> i \<and> i < int (length (own_args opts w)) then argBytes (own_args opts w ! nat i) else [])))"

definition node_env :: "options \<Rightarrow> world \<Rightarrow> bytes \<Rightarrow> node_pc stretch" where
  "node_env opts w p =
     (if env_opt opts then (w, Do (GetEnv (unstr p)) NEnv) else (w, Finish (env_answer None)))"

definition node_read_file :: "options \<Rightarrow> world \<Rightarrow> bytes \<Rightarrow> node_pc stretch" where
  "node_read_file opts w p =
     (if \<not> fs_read opts then (w, deny ''filesystem read'')
      else (w, Await (ReadFile (P opts w (unstr p))) NBytes))"

definition node_read_stdin :: "options \<Rightarrow> world \<Rightarrow> node_pc stretch" where
  "node_read_stdin opts w =
     (case readAll (kids w) of
        (k, Some b) \<Rightarrow> (w\<lparr>kids := k\<rparr>, Finish b)
      | (k, None) \<Rightarrow> (w\<lparr>kids := k\<rparr>, Await (IoStdin (stdin_opt opts)) NBytes))"

definition node_write_stdout :: "world \<Rightarrow> bytes \<Rightarrow> node_pc stretch" where
  "node_write_stdout w p =
     (if active (kids w) then
        (case write_out (kids w) p of (k, kept) \<Rightarrow>
           (w\<lparr>kids := k\<rparr>,
            if kept then Finish []
            else Fail (plain_error ''Error'' (js ''the child'' @ [39] @ js ''s output buffer is full''))))
      else case sink_file w of
        None \<Rightarrow> (w, Await (IoWrite p) NWritten)
      | Some f \<Rightarrow> (w, Await (FileWriteAll f p) NWritten))"

definition node_write_stderr :: "options \<Rightarrow> world \<Rightarrow> bytes \<Rightarrow> node_pc stretch" where
  "node_write_stderr opts w p =
     (if active (kids w) then (w\<lparr>kids := fst (warn (kids w) p)\<rparr>, Finish [])
      else if \<not> writeErr_opt opts then (w, Do (WarnLine (unstr p)) NWritten)
      else (w, Await (IoWriteErr p) NWritten))"

definition node_stat :: "options \<Rightarrow> world \<Rightarrow> bytes \<Rightarrow> node_pc stretch" where
  "node_stat opts w p =
     (if \<not> fs_read opts then (w, Finish (stat_answer (Inr FAULT_NOT_GRANTED)))
      else let path = P opts w (unstr p) in (w, Await (Stat path) (NStat path)))"

definition node_link_stat :: "options \<Rightarrow> world \<Rightarrow> bytes \<Rightarrow> node_pc stretch" where
  "node_link_stat opts w p =
     (if \<not> fs_read opts then (w, Finish (stat_answer (Inr FAULT_NOT_GRANTED)))
      else let path = P opts w (unstr p)
           in if \<not> linkStat_opt opts then (w, Await (Stat path) (NStat path))
              else (w, Await (Lstat path) (NLinkStat path)))"

definition node_read_dir :: "options \<Rightarrow> world \<Rightarrow> bytes \<Rightarrow> node_pc stretch" where
  "node_read_dir opts w p =
     (if \<not> fs_read opts then (w, deny ''filesystem read'')
      else (w, Await (ReadDir (P opts w (unstr p))) NDir))"

definition node_write_file :: "options \<Rightarrow> world \<Rightarrow> bytes \<Rightarrow> node_pc stretch" where
  "node_write_file opts w p =
     (if \<not> fs_write opts then (w, denied_change ''filesystem write'')
      else case writeFile_args p of
        None \<Rightarrow> (w, Fail OUT_OF_RANGE)
      | Some (f, b) \<Rightarrow> (w, Await (WriteFile (P opts w f) b) NChange))"

definition node_mkdir :: "options \<Rightarrow> world \<Rightarrow> bytes \<Rightarrow> node_pc stretch" where
  "node_mkdir opts w p =
     (if \<not> fs_write opts then (w, denied_change ''filesystem write'')
      else case flagged_args p of (rec, d) \<Rightarrow> (w, Await (Mkdir (P opts w d) rec) NChange))"

definition node_remove :: "options \<Rightarrow> world \<Rightarrow> bytes \<Rightarrow> node_pc stretch" where
  "node_remove opts w p =
     (if \<not> fs_write opts then (w, denied_change ''filesystem write'')
      else case flagged_args p of (rec, d) \<Rightarrow> (w, Await (Remove (P opts w d) rec) NChange))"

definition node_rename :: "options \<Rightarrow> world \<Rightarrow> bytes \<Rightarrow> node_pc stretch" where
  "node_rename opts w p =
     (if \<not> fs_write opts then (w, denied_change ''filesystem write'')
      else case rename_args p of
        None \<Rightarrow> (w, Fail OUT_OF_RANGE)
      | Some (a, b) \<Rightarrow> (w, Await (Rename (P opts w a) (P opts w b)) NChange))"

text \<open>Closing the file that was open is awaited, and so is closing nothing.\<close>

definition node_open_input :: "world \<Rightarrow> bytes \<Rightarrow> node_pc stretch" where
  "node_open_input w p =
     (w, Await (case source_file w of Some f \<Rightarrow> FileClose f | None \<Rightarrow> Yield) (NCloseSource (unstr p)))"

definition node_read_chunk :: "options \<Rightarrow> world \<Rightarrow> node_pc stretch" where
  "node_read_chunk opts w =
     (case source_file w of
        Some f \<Rightarrow> (w, Await (FileNext f) NNext)
      | None \<Rightarrow>
          (case readChunk (kids w) of
             (k, Some b) \<Rightarrow> (w\<lparr>kids := k\<rparr>, Finish (tagged b))
           | (k, None) \<Rightarrow> (w\<lparr>kids := k\<rparr>, Await (IoChunk (chunk_opt opts)) NNext)))"

definition node_output_error :: "world \<Rightarrow> node_pc stretch" where
  "node_output_error w = (w, Finish (str (outputFailure w)))"

definition node_open_output :: "world \<Rightarrow> bytes \<Rightarrow> node_pc stretch" where
  "node_open_output w p =
     (w, Await (case sink_file w of Some f \<Rightarrow> FileClose f | None \<Rightarrow> Yield) (NCloseSink (unstr p)))"

definition node_connect :: "options \<Rightarrow> world \<Rightarrow> bytes \<Rightarrow> node_pc stretch" where
  "node_connect opts w p =
     (if \<not> net_opt opts then (w, deny ''network access'')
      else case connect_args p of
        None \<Rightarrow> (w, Fail OUT_OF_RANGE)
      | Some (port, hostname) \<Rightarrow> (w, Await (ConnectTo hostname port) NConnect))"

definition node_listen :: "options \<Rightarrow> world \<Rightarrow> bytes \<Rightarrow> node_pc stretch" where
  "node_listen opts w p =
     (if \<not> net_opt opts then (w, deny ''network access'')
      else case connect_args p of
        None \<Rightarrow> (w, Fail OUT_OF_RANGE)
      | Some (port, hostname) \<Rightarrow> (w, Await (ListenOn (Some hostname) port) NListen))"

definition node_accept :: "world \<Rightarrow> bytes \<Rightarrow> node_pc stretch" where
  "node_accept w p = with_i32 w p (\<lambda>h.
     case listeners w h of
       None \<Rightarrow> (w, Fail (plain_error ''Error'' (js ''not a listening socket'')))
     | Some l \<Rightarrow> (w, Await (AcceptFrom l) NAccept))"

definition node_recv :: "options \<Rightarrow> world \<Rightarrow> bytes \<Rightarrow> node_pc stretch" where
  "node_recv opts w p = with_i32 w p (\<lambda>h.
     if h = 0 then (w, Await (IoChunk (chunk_opt opts)) NPiped)
     else case children w h of
       Some c \<Rightarrow> (w, Await (ChildOut c) NPiped)
     | None \<Rightarrow>
         (case errStreams w h of
            Some c \<Rightarrow> (w, Await (ChildErr c) NPiped)
          | None \<Rightarrow>
              (case sockets w h of
                 None \<Rightarrow> (w, Finish (failed (js ''not an open socket'')))
               | Some c \<Rightarrow> (w, Await (ConnNext c) NNext))))"

definition node_send :: "world \<Rightarrow> bytes \<Rightarrow> node_pc stretch" where
  "node_send w p =
     (case send_args p of
        None \<Rightarrow> (w, Fail OUT_OF_RANGE)
      | Some (h, b) \<Rightarrow>
          (case children w h of
             Some c \<Rightarrow> (w, Do (ChildIn c b) NDone)
           | None \<Rightarrow>
               (case sockets w h of
                  None \<Rightarrow> (w, Fail (plain_error ''Error'' (js ''not an open socket'')))
                | Some c \<Rightarrow> (w, Await (ConnSend c b) NDone))))"

definition node_close_socket :: "world \<Rightarrow> bytes \<Rightarrow> node_pc stretch" where
  "node_close_socket w p = with_i32 w p (close_socket node_closers w)"

definition node_spawn :: "name \<Rightarrow> options \<Rightarrow> world \<Rightarrow> bytes \<Rightarrow> node_pc stretch" where
  "node_spawn self opts w p =
     (case (unpackSpawn p, want p) of
        (Some r, Some wanted) \<Rightarrow> node_startChild self opts w (source r) (args r) wanted (cwd r) (inheritIn r)
      | _ \<Rightarrow> (w, Fail OUT_OF_RANGE))"

definition node_spawn_self :: "name \<Rightarrow> options \<Rightarrow> world \<Rightarrow> bytes \<Rightarrow> node_pc stretch" where
  "node_spawn_self self opts w p =
     (case self_opt opts of
        None \<Rightarrow> (w, Finish (noSpawnHere (js ''this launcher did not pass the program its own source'')))
      | Some src \<Rightarrow>
          (case (unpackSpawnSelf p, want p) of
             (Some (as, d, inherit), Some wanted) \<Rightarrow> node_startChild self opts w src as wanted d inherit
           | _ \<Rightarrow> (w, Fail OUT_OF_RANGE)))"

definition node_close_feed :: "world \<Rightarrow> bytes \<Rightarrow> node_pc stretch" where
  "node_close_feed w p = with_i32 w p (\<lambda>h.
     case children w h of None \<Rightarrow> (w, Finish []) | Some c \<Rightarrow> (w, Do (ChildInEnd c) NDone))"

definition node_exit_code :: "world \<Rightarrow> bytes \<Rightarrow> node_pc stretch" where
  "node_exit_code w p = with_i32 w p (\<lambda>h.
     case children w h of
       None \<Rightarrow> (w, Fail (plain_error ''Error'' (js ''not a spawned worker'')))
     | Some c \<Rightarrow> (w, Await (ChildExit c) NExit))"

text \<open>The table.\<close>

primrec node_handle_op :: "name \<Rightarrow> options \<Rightarrow> world \<Rightarrow> op \<Rightarrow> bytes \<Rightarrow> node_pc stretch" where
  "node_handle_op self opts w NOW_MILLIS p = node_now_millis w"
| "node_handle_op self opts w MONOTONIC_NANOS p = node_monotonic_nanos w"
| "node_handle_op self opts w RANDOM_BYTES p = node_random_bytes w p"
| "node_handle_op self opts w LOG p = node_log w p"
| "node_handle_op self opts w WARN p = node_warn w p"
| "node_handle_op self opts w ARG_COUNT p = node_arg_count opts w"
| "node_handle_op self opts w ARG p = node_arg opts w p"
| "node_handle_op self opts w ENV p = node_env opts w p"
| "node_handle_op self opts w READ_FILE p = node_read_file opts w p"
| "node_handle_op self opts w WRITE_FILE p = node_write_file opts w p"
| "node_handle_op self opts w READ_STDIN p = node_read_stdin opts w"
| "node_handle_op self opts w WRITE_STDOUT p = node_write_stdout w p"
| "node_handle_op self opts w STAT p = node_stat opts w p"
| "node_handle_op self opts w READ_DIR p = node_read_dir opts w p"
| "node_handle_op self opts w MKDIR p = node_mkdir opts w p"
| "node_handle_op self opts w REMOVE p = node_remove opts w p"
| "node_handle_op self opts w RENAME p = node_rename opts w p"
| "node_handle_op self opts w OPEN_INPUT p = node_open_input w p"
| "node_handle_op self opts w READ_CHUNK p = node_read_chunk opts w"
| "node_handle_op self opts w OPEN_OUTPUT p = node_open_output w p"
| "node_handle_op self opts w CONNECT p = node_connect opts w p"
| "node_handle_op self opts w LISTEN p = node_listen opts w p"
| "node_handle_op self opts w ACCEPT p = node_accept w p"
| "node_handle_op self opts w RECV p = node_recv opts w p"
| "node_handle_op self opts w SEND p = node_send w p"
| "node_handle_op self opts w CLOSE_SOCKET p = node_close_socket w p"
| "node_handle_op self opts w SPAWN p = node_spawn self opts w p"
| "node_handle_op self opts w EXIT_CODE p = node_exit_code w p"
| "node_handle_op self opts w CLOSE_FEED p = node_close_feed w p"
| "node_handle_op self opts w SLEEP_MILLIS p = node_sleep_millis w p"
| "node_handle_op self opts w CWD p = node_cwd opts w"
| "node_handle_op self opts w PUSH_CHILD p = node_push_child w p"
| "node_handle_op self opts w POP_CHILD p = node_pop_child w"
| "node_handle_op self opts w OUTPUT_ERROR p = node_output_error w"
| "node_handle_op self opts w LINK_STAT p = node_link_stat opts w p"
| "node_handle_op self opts w WRITE_STDERR p = node_write_stderr opts w p"
| "node_handle_op self opts w SPAWN_SELF p = node_spawn_self self opts w p"
| "node_handle_op self opts w RENDER p = no_handler w RENDER"
| "node_handle_op self opts w SET_TEXT p = no_handler w SET_TEXT"
| "node_handle_op self opts w SET_VALUE p = no_handler w SET_VALUE"
| "node_handle_op self opts w GET_VALUE p = no_handler w GET_VALUE"
| "node_handle_op self opts w ON p = no_handler w ON"
| "node_handle_op self opts w NEXT_EVENT p = no_handler w NEXT_EVENT"
| "node_handle_op self opts w TITLE p = no_handler w TITLE"
| "node_handle_op self opts w DRAW_PIXELS p = no_handler w DRAW_PIXELS"
| "node_handle_op self opts w NEXT_FILE p = no_handler w NEXT_FILE"
| "node_handle_op self opts w OFFER_DOWNLOAD p = no_handler w OFFER_DOWNLOAD"

lemmas node_handler_defs =
  node_now_millis_def node_monotonic_nanos_def node_random_bytes_def node_log_def node_warn_def
  node_arg_count_def node_arg_def node_env_def node_read_file_def node_write_file_def
  node_read_stdin_def node_write_stdout_def node_stat_def node_read_dir_def node_mkdir_def
  node_remove_def node_rename_def node_open_input_def node_read_chunk_def node_open_output_def
  node_connect_def node_listen_def node_accept_def node_recv_def node_send_def
  node_close_socket_def node_spawn_def node_exit_code_def node_close_feed_def
  node_sleep_millis_def node_cwd_def node_push_child_def node_pop_child_def node_output_error_def
  node_link_stat_def node_write_stderr_def node_spawn_self_def no_handler_def

subsection \<open>The handlers from a reply on\<close>

primrec node_resume :: "options \<Rightarrow> world \<Rightarrow> node_pc \<Rightarrow> os_reply \<Rightarrow> node_pc stretch" where
  "node_resume opts w NInt64 r =
     (case r of IntR n \<Rightarrow> (w, Finish (i64le n)) | Raised e \<Rightarrow> (w, Fail e) | _ \<Rightarrow> unexpected w)"
| "node_resume opts w NBytes r =
     (case r of BytesR b \<Rightarrow> (w, Finish b) | Raised e \<Rightarrow> (w, Fail e) | _ \<Rightarrow> unexpected w)"
| "node_resume opts w (NRandom n got) r =
     (case r of BytesR b \<Rightarrow> random_loop w n (got @ b) | Raised e \<Rightarrow> (w, Fail e) | _ \<Rightarrow> unexpected w)"
| "node_resume opts w NCwd r =
     (case r of TextR d \<Rightarrow> (w, Finish (str d)) | Raised e \<Rightarrow> (w, Fail e) | _ \<Rightarrow> unexpected w)"
| "node_resume opts w NDone r =
     (case r of Raised e \<Rightarrow> (w, Fail e) | _ \<Rightarrow> (w, Finish []))"
| "node_resume opts w NEnv r =
     (case r of NullR \<Rightarrow> (w, Finish (env_answer None)) | TextR v \<Rightarrow> (w, Finish (env_answer (Some v)))
      | Raised e \<Rightarrow> (w, Fail e) | _ \<Rightarrow> unexpected w)"
| "node_resume opts w NDir r =
     (case r of NamesR ns \<Rightarrow> (w, Finish (str (join0 ns))) | Raised e \<Rightarrow> (w, Fail e) | _ \<Rightarrow> unexpected w)"
| "node_resume opts w NChange r =
     (case r of Raised e \<Rightarrow> (w, node_changed_failed e) | _ \<Rightarrow> (w, Finish CHANGED_OK))"
| "node_resume opts w (NStat path) r =
     (case r of StatR st \<Rightarrow> (w, Finish (stat_answer (Inl (st\<lparr>isSymlink := False\<rparr>))))
      | Raised e \<Rightarrow>
          (case statFault False e path of
             Some f \<Rightarrow> (w, Finish (stat_answer (Inr f))) | None \<Rightarrow> (w, Fail (null_error (text_of e) ''code'')))
      | _ \<Rightarrow> unexpected w)"
| "node_resume opts w (NLinkStat path) r =
     (case r of StatR st \<Rightarrow> (w, Finish (stat_answer (Inl st)))
      | Raised e \<Rightarrow>
          (case statFault False e path of
             Some f \<Rightarrow> (w, Finish (stat_answer (Inr f))) | None \<Rightarrow> (w, Fail (null_error (text_of e) ''code'')))
      | _ \<Rightarrow> unexpected w)"
| "node_resume opts w NPiped r =
     (case r of BytesR b \<Rightarrow> (w, Finish (tagged b)) | Raised e \<Rightarrow> (w, Fail e) | _ \<Rightarrow> unexpected w)"
| "node_resume opts w NNext r =
     (case r of BytesR b \<Rightarrow> (w, Finish (tagged b)) | Raised e \<Rightarrow> (w, Finish (failed (text_of e))) | _ \<Rightarrow> unexpected w)"
| "node_resume opts w NWritten r =
     (case r of Raised e \<Rightarrow> node_output_failed w e | _ \<Rightarrow> (w, Finish []))"
| "node_resume opts w (NCloseSource path) r =
     (case r of Raised e \<Rightarrow> (w, Fail e) | _ \<Rightarrow> node_open_source opts w path)"
| "node_resume opts w NOpenSource r =
     (case r of OpenedR f \<Rightarrow> (w\<lparr>source_file := Some f\<rparr>, Finish CHANGED_OK)
      | Raised e \<Rightarrow> (w, node_changed_failed e) | _ \<Rightarrow> unexpected w)"
| "node_resume opts w (NCloseSink path) r =
     (case r of Raised e \<Rightarrow> (w, Fail e) | _ \<Rightarrow> node_open_sink opts w path)"
| "node_resume opts w NOpenSink r =
     (case r of OpenedR f \<Rightarrow> (w\<lparr>sink_file := Some f\<rparr>, Finish CHANGED_OK)
      | Raised e \<Rightarrow> (w, node_changed_failed e) | _ \<Rightarrow> unexpected w)"
| "node_resume opts w NConnect r =
     (case r of SocketR c peer port \<Rightarrow>
          (case add_handle w of (h, w) \<Rightarrow> (w\<lparr>sockets := (sockets w)(h \<mapsto> c)\<rparr>, Finish (withPeer h [] port)))
      | Raised e \<Rightarrow> (w, Fail e) | _ \<Rightarrow> unexpected w)"
| "node_resume opts w NListen r =
     (case r of ListenerR l port \<Rightarrow>
          (case add_handle w of (h, w) \<Rightarrow> (w\<lparr>listeners := (listeners w)(h \<mapsto> l)\<rparr>, Finish (withPeer h [] port)))
      | Raised e \<Rightarrow> (w, Fail e) | _ \<Rightarrow> unexpected w)"
| "node_resume opts w NAccept r =
     (case r of SocketR c peer port \<Rightarrow>
          (case add_handle w of (h, w) \<Rightarrow> (w\<lparr>sockets := (sockets w)(h \<mapsto> c)\<rparr>, Finish (withPeer h peer port)))
      | Raised e \<Rightarrow> (w, Fail e) | _ \<Rightarrow> unexpected w)"
| "node_resume opts w (NCloseConn h) r = close_listener node_closers w h"
| "node_resume opts w (NCloseListener h) r = close_child node_closers w h"
| "node_resume opts w (NCloseIn h) r = close_after_in node_closers w h r"
| "node_resume opts w (NCloseKill h) r = close_forget w h"
| "node_resume opts w (NStart c h) r =
     (case r of Raised e \<Rightarrow> (w, Fail e) | _ \<Rightarrow> (w, Await (ChildLoaded c) (NLoaded c h)))"
| "node_resume opts w (NLoaded c h) r =
     (case r of TextR why \<Rightarrow>
          (if why \<noteq> [] then (w, Do (ChildKill c) (NKilled why)) else register_child w c h)
      | Raised e \<Rightarrow> (w, Fail e) | _ \<Rightarrow> unexpected w)"
| "node_resume opts w (NKilled why) r =
     (case r of Raised e \<Rightarrow> (w, Fail e) | _ \<Rightarrow> (w, Finish (failedChild why)))"
| "node_resume opts w NExit r =
     (case r of IntR n \<Rightarrow> (w, Finish (i32le n)) | Raised e \<Rightarrow> (w, Fail e) | _ \<Rightarrow> unexpected w)"

section \<open>The contract\<close>

text \<open>What a waiting handler may still use, has set aside, and is closing.\<close>

fun node_will_need :: "node_pc \<Rightarrow> capability set" where
  "node_will_need NOpenSource = {FsRead}"
| "node_will_need NOpenSink = {FsWrite}"
| "node_will_need NConnect = {NetAccess}"
| "node_will_need NListen = {NetAccess}"
| "node_will_need NAccept = {NetAccess}"
| "node_will_need _ = {}"

fun node_reserved :: "node_pc \<Rightarrow> int option" where
  "node_reserved (NStart c h) = Some h"
| "node_reserved (NLoaded c h) = Some h"
| "node_reserved _ = None"

fun node_closing :: "node_pc \<Rightarrow> int option" where
  "node_closing (NCloseConn h) = Some h"
| "node_closing (NCloseListener h) = Some h"
| "node_closing (NCloseIn h) = Some h"
| "node_closing (NCloseKill h) = Some h"
| "node_closing _ = None"

lemmas node_stretch_defs = with_i32_def deny_def denied_change_def node_open_source_def node_open_sink_def
  node_output_failed_def random_loop_def node_startChild_def startChild_def start_worker_def register_child_def
  unexpected_def add_handle_def node_changed_failed_def Let_def
  close_socket_def close_listener_def close_child_def close_kill_def close_forget_def
  close_after_in_def node_closers_def node_handler_defs

lemma node_handle_op_ok: "world_ok opts w \<Longrightarrow> stretch_ok node_will_need opts (node_handle_op self opts w oper p)"
  by (cases oper)
    (simp_all add: stretch_ok_def node_stretch_defs world_ok_open child_narrows split: option.split prod.split)

lemma node_resume_ok:
  "world_ok opts w \<Longrightarrow> node_will_need q \<subseteq> grants opts \<Longrightarrow> stretch_ok node_will_need opts (node_resume opts w q r)"
  by (cases q)
    (simp_all add: stretch_ok_def node_stretch_defs world_ok_open split: os_reply.split option.split)

lemma node_closers_ok: "closers_ok node_reserved node_closing node_closers"
  by (simp add: closers_ok_def node_closers_def)

lemma node_handle_op_tables:
  assumes "oper \<noteq> SPAWN" "oper \<noteq> SPAWN_SELF" "oper \<noteq> CLOSE_SOCKET"
  shows "same_tables w (fst (node_handle_op self opts w oper p)) \<and> aside_of node_reserved (snd (node_handle_op self opts w oper p)) = None"
  using assms
  by (cases oper) (simp_all add: same_tables_def node_stretch_defs split: option.split prod.split)

lemma node_handle_op_counts:
  assumes "below w"
  shows "stretch_counts node_reserved w None (node_handle_op self opts w oper p)"
proof -
  have same: "stretch_counts node_reserved w None (w, Fail e)" "stretch_counts node_reserved w None (w, Finish b)" for e b
    by (rule counts_tables [OF assms]; simp add: same_tables_def)+
  have st: "stretch_counts node_reserved w None (startChild NStart self opts w src as n d inh)" for src as n d inh
    unfolding startChild_def by (rule counts_start [OF assms]) simp
  consider "oper = SPAWN" | "oper = SPAWN_SELF" | "oper = CLOSE_SOCKET"
    | "oper \<noteq> SPAWN" "oper \<noteq> SPAWN_SELF" "oper \<noteq> CLOSE_SOCKET" by blast
  then show ?thesis
  proof cases
    case 4
    from node_handle_op_tables [OF 4, of w self opts p] show ?thesis
      by (intro counts_tables [OF assms]) auto
  qed (use same st counts_close(4) [OF assms node_closers_ok] in
      \<open>auto simp: node_handler_defs node_startChild_def with_i32_def split: option.split prod.split\<close>)
qed

fun node_moves :: "node_pc \<Rightarrow> bool" where
  "node_moves NConnect = True"
| "node_moves NListen = True"
| "node_moves NAccept = True"
| "node_moves (NLoaded c h) = True"
| "node_moves (NCloseConn h) = True"
| "node_moves (NCloseListener h) = True"
| "node_moves (NCloseIn h) = True"
| "node_moves (NCloseKill h) = True"
| "node_moves _ = False"

lemma node_resume_tables:
  assumes "\<not> node_moves q"
  shows "same_tables w (fst (node_resume opts w q r))
    \<and> (aside_of node_reserved (snd (node_resume opts w q r)) = None \<or> aside_of node_reserved (snd (node_resume opts w q r)) = node_reserved q)"
  using assms
  by (cases q) (simp_all add: same_tables_def node_stretch_defs split: os_reply.split option.split)

lemma node_resume_counts:
  assumes b: "below w" and rh: "\<And>h. node_reserved q = Some h \<Longrightarrow> h < nextHandle w"
  shows "stretch_counts node_reserved w (node_reserved q) (node_resume opts w q r)"
proof (cases "node_moves q")
  case False
  from node_resume_tables [OF this, of w opts r] show ?thesis
    by (intro counts_tables [OF b]) auto
next
  case True
  have same: "stretch_counts node_reserved w a (w, Fail e)" "stretch_counts node_reserved w None (w, Finish d)"
    "stretch_counts node_reserved w a (w, Do (ChildKill c) (NKilled y))" for a e d c y
    by (rule counts_tables [OF b]; simp add: same_tables_def)+
  have reg: "stretch_counts node_reserved w (Some h) (register_child w c h)" if "q = NLoaded c h" for c h
    by (rule counts_register [OF b]) (use rh that in simp)
  note facts = same counts_added [OF b] counts_close [OF b node_closers_ok] counts_forget [OF b]
  show ?thesis
    using True
    by (cases q; cases r) (simp_all add: facts reg unexpected_def add_handle_def)
qed

lemma node_handle_op_closes: "stretch_closes node_closing (node_handle_op self opts w oper p)"
proof (cases "oper = CLOSE_SOCKET")
  case True
  then show ?thesis
    using closes_close(5) [OF node_closers_ok] by (simp add: node_handler_defs with_i32_def stretch_closes_def split: option.split)
next
  case False
  then show ?thesis
    by (cases oper) (simp_all add: stretch_closes_def node_stretch_defs split: option.split prod.split)
qed

lemma node_resume_closes: "stretch_closes node_closing (node_resume opts w q r)"
proof (cases "node_closing q")
  case None
  then show ?thesis
    by (cases q) (simp_all add: stretch_closes_def node_stretch_defs split: os_reply.split option.split)
next
  case (Some h)
  then show ?thesis
    using closes_close [OF node_closers_ok] by (cases q) simp_all
qed

lemma node_handle_op_goes:
  assumes "i32_ok h"
  shows "stretch_goes node_closing h (node_handle_op self opts w CLOSE_SOCKET (i32le h))"
proof -
  have "readI32le (i32le h) = Some h"
    using get_i32le_0 [OF assms, of "[]"] by (simp add: readI32le_def)
  then show ?thesis
    using goes_close(5) [OF node_closers_ok] by (simp add: node_close_socket_def with_i32_def)
qed

lemma node_resume_goes: "node_closing q = Some h \<Longrightarrow> stretch_goes node_closing h (node_resume opts w q r)"
  using goes_close [OF node_closers_ok] by (cases q) simp_all

lemma node_handle_op_child:
  "child_started (snd (node_handle_op self opts w oper p)) = Some m \<Longrightarrow>
     m = self @ [nextHandle w] \<and> nextHandle (fst (node_handle_op self opts w oper p)) = nextHandle w + 1"
  by (cases oper) (auto simp: node_stretch_defs split: option.splits prod.splits if_splits)

lemma node_resume_child: "child_started (snd (node_resume opts w q r)) = None"
  by (cases q) (simp_all add: node_stretch_defs split: os_reply.split option.split)

interpretation node: world_family node_handle_op node_resume node_will_need node_reserved
proof
  show "world_ok opts w \<Longrightarrow> stretch_ok node_will_need opts (node_handle_op self opts w oper p)" for opts w self oper p
    by (rule node_handle_op_ok)
  show "world_ok opts w \<Longrightarrow> node_will_need q \<subseteq> grants opts \<Longrightarrow> stretch_ok node_will_need opts (node_resume opts w q r)"
    for opts w q r by (rule node_resume_ok)
  show "below w \<Longrightarrow> stretch_counts node_reserved w None (node_handle_op self opts w oper p)" for w self opts oper p
    by (rule node_handle_op_counts)
  show "below w \<Longrightarrow> (\<And>h. node_reserved q = Some h \<Longrightarrow> h < nextHandle w) \<Longrightarrow>
      stretch_counts node_reserved w (node_reserved q) (node_resume opts w q r)" for w q opts r
    by (rule node_resume_counts)
  show "child_started (snd (node_handle_op self opts w oper p)) = Some m \<Longrightarrow>
      m = self @ [nextHandle w] \<and> nextHandle (fst (node_handle_op self opts w oper p)) = nextHandle w + 1"
    for self opts w oper p m by (rule node_handle_op_child)
  show "child_started (snd (node_resume opts w q r)) = None" for opts w q r
    by (rule node_resume_child)
qed

interpretation node_close: handle_closing node_handle_op node_resume node_reserved node_closing
proof
  show "stretch_closes node_closing (node_handle_op self opts w oper p)" for self opts w oper p
    by (rule node_handle_op_closes)
  show "stretch_closes node_closing (node_resume opts w q r)" for opts w q r
    by (rule node_resume_closes)
  show "i32_ok h \<Longrightarrow> stretch_goes node_closing h (node_handle_op self opts w CLOSE_SOCKET (i32le h))" for h self opts w
    by (rule node_handle_op_goes)
  show "node_closing q = Some h \<Longrightarrow> stretch_goes node_closing h (node_resume opts w q r)" for q h opts w r
    by (rule node_resume_goes)
qed

text \<open>Which call a handler waits for at a place.\<close>

primrec node_takes :: "node_pc \<Rightarrow> os_call \<Rightarrow> bool" where
  "node_takes NInt64 c = (c = DateNow \<or> c = PerformanceNow \<or> (\<exists>ms. c = SetTimeout ms))"
| "node_takes NBytes c = ((\<exists>p. c = ReadFile p) \<or> (\<exists>s. c = IoStdin s))"
| "node_takes (NRandom n got) c = (length got < n \<and> c = RandomValues (min 65536 (n - length got)))"
| "node_takes NCwd c = (c = ProcessCwd)"
| "node_takes NDone c = ((\<exists>l. c = LogLine l) \<or> (\<exists>l. c = WarnLine l) \<or> (\<exists>n b. c = ChildIn n b) \<or> (\<exists>n. c = ChildInEnd n)
     \<or> (\<exists>k b. c = ConnSend k b))"
| "node_takes NEnv c = (\<exists>n. c = GetEnv n)"
| "node_takes NDir c = (\<exists>p. c = ReadDir p)"
| "node_takes NChange c = ((\<exists>p b. c = WriteFile p b) \<or> (\<exists>p r. c = Mkdir p r) \<or> (\<exists>p r. c = Remove p r) \<or> (\<exists>p q. c = Rename p q))"
| "node_takes (NStat p) c = (c = Stat p)"
| "node_takes (NLinkStat p) c = (c = Lstat p)"
| "node_takes NPiped c = ((\<exists>s. c = IoChunk s) \<or> (\<exists>n. c = ChildOut n) \<or> (\<exists>n. c = ChildErr n))"
| "node_takes NNext c = ((\<exists>f. c = FileNext f) \<or> (\<exists>s. c = IoChunk s) \<or> (\<exists>k. c = ConnNext k))"
| "node_takes NWritten c = ((\<exists>b. c = IoWrite b) \<or> (\<exists>f b. c = FileWriteAll f b) \<or> (\<exists>b. c = IoWriteErr b) \<or> (\<exists>l. c = WarnLine l))"
| "node_takes (NCloseSource p) c = (c = Yield \<or> (\<exists>f. c = FileClose f))"
| "node_takes NOpenSource c = (\<exists>p. c = OpenRead p)"
| "node_takes (NCloseSink p) c = (c = Yield \<or> (\<exists>f. c = FileClose f))"
| "node_takes NOpenSink c = (\<exists>p. c = OpenWrite p)"
| "node_takes NConnect c = (\<exists>h p. c = ConnectTo h p)"
| "node_takes NListen c = (\<exists>h p. c = ListenOn h p)"
| "node_takes NAccept c = (\<exists>l. c = AcceptFrom l)"
| "node_takes (NCloseConn h) c = (\<exists>k. c = ConnClose k)"
| "node_takes (NCloseListener h) c = (\<exists>l. c = ListenerClose l)"
| "node_takes (NCloseIn h) c = (\<exists>n. c = ChildInEnd n)"
| "node_takes (NCloseKill h) c = (\<exists>n. c = ChildKill n)"
| "node_takes (NStart n h) c = (\<exists>src as os. c = StartChild n src as os)"
| "node_takes (NLoaded n h) c = (c = ChildLoaded n)"
| "node_takes (NKilled why) c = (\<exists>n. c = ChildKill n)"
| "node_takes NExit c = (\<exists>n. c = ChildExit n)"

lemma node_handle_op_fits: "calls_fit node_takes (node_handle_op self opts w oper p)"
  by (cases oper) (auto simp: calls_fit_def node_stretch_defs split: option.split prod.split)

lemma node_resume_fits:
  "node_takes q c \<Longrightarrow> replies c r \<Longrightarrow> calls_fit node_takes (node_resume opts w q r)"
  by (cases q) (auto simp: calls_fit_def node_stretch_defs split: os_reply.split option.split)

lemma node_resume_understood:
  "node_takes q c \<Longrightarrow> replies c r \<Longrightarrow> snd (node_resume opts w q r) = Fail e \<Longrightarrow> is_raised r"
  by (cases q; cases r) (auto simp: node_stretch_defs split: option.splits if_splits)

interpretation node_typed: typed_handlers node_handle_op node_resume node_takes "\<lambda>w q. False"
  by unfold_locales (auto simp: node_handle_op_fits node_resume_fits dest: node_resume_understood)

section \<open>Random bytes\<close>

text \<open>The pieces in which \<open>b\<close> arrives: at most 65536 bytes each.\<close>

function pieces :: "bytes \<Rightarrow> bytes list" where
  "pieces b = (if b = [] then [] else take 65536 b # pieces (drop 65536 b))"
  by pat_completeness auto
termination by (relation "measure length") auto

declare pieces.simps [simp del]

definition random_events :: "nat \<Rightarrow> bytes \<Rightarrow> host_event list" where
  "random_events i b = Request i RANDOM_BYTES (i32le (int (length b))) # map (\<lambda>x. Reply i (BytesR x)) (pieces b)"

lemma pieces_small: "x \<in> set (pieces b) \<Longrightarrow> length x \<le> 65536"
proof (induction b rule: pieces.induct)
  case (1 b)
  then show ?case unfolding pieces.simps [of b] by (auto split: if_splits)
qed

text \<open>From a turn of the loop on, with \<open>got\<close> filled and \<open>b\<close> to come.\<close>

lemma random_pieces:
  assumes "inside s = None" "pending s i = None"
  shows "settle i s (random_loop (hworld s) (length (got @ b)) got) = (t, es) \<Longrightarrow>
    run_machine (host_step node_handle_op node_resume self opts) t (map (\<lambda>x. Reply i (BytesR x)) (pieces b)) = (u, es')
    \<Longrightarrow> u = s \<and> es @ es' = map (\<lambda>x. Calls i (RandomValues (length x))) (pieces b) @ [Answers i (got @ b)]"
proof (induction b arbitrary: got t es es' rule: pieces.induct)
  case (1 b)
  have same: "s\<lparr>hworld := hworld s, pending := (pending s)(i := None), inside := None\<rparr> = s"
    using assms by (simp add: fun_upd_idem)
  show ?case
  proof (cases "b = []")
    case True
    then show ?thesis
      using "1.prems" same by (simp add: pieces.simps [of "[]"] random_loop_def settle_def)
  next
    case False
    let ?x = "take 65536 b" and ?y = "drop 65536 b"
    define t1 where "t1 = s\<lparr>pending := (pending s)(i \<mapsto> (RandomValues (length ?x), NRandom (length (got @ b)) got)), inside := Some i\<rparr>"
    have t: "t = t1" "es = [Calls i (RandomValues (length ?x))]"
      using "1.prems"(1) False by (auto simp: random_loop_def settle_def t1_def min.commute)
    have next1: "host_step node_handle_op node_resume self opts t1 (Reply i (BytesR ?x))
      = settle i s (random_loop (hworld s) (length (got @ b)) (got @ ?x))"
      by (simp add: t1_def may_run_def settle_def random_loop_def)
    obtain t2 es2 where s2: "settle i s (random_loop (hworld s) (length (got @ b)) (got @ ?x)) = (t2, es2)" by fastforce
    have len: "length (got @ b) = length ((got @ ?x) @ ?y)" by simp
    obtain es3 where r3: "run_machine (host_step node_handle_op node_resume self opts) t2 (map (\<lambda>x. Reply i (BytesR x)) (pieces ?y)) = (u, es3)"
      and es': "es' = es2 @ es3"
      using "1.prems"(2) False unfolding pieces.simps [of b] t(1)
      by (auto simp: next1 [unfolded s2] run_machine.simps simp del: host_step.simps split: prod.splits)
    from "1.IH" [OF False s2 [unfolded len] r3] show ?thesis
      using False unfolding pieces.simps [of b] by (simp add: t(2) es')
  qed
qed

section \<open>Properties\<close>

text \<open>
  Nothing in a tree of Node programs reaches past the first one's grants: the file system, the
  network and the environment are called by a world only as its own options allow, and the options
  of every world hold no grant that the first world's lack.
\<close>

theorem node_authority_confined:
  assumes "run_machine (tree_step node_handle_op node_resume) (root_tree first) es = (t, effs)"
  shows "(\<forall>n i c. (n, Calls i c) \<in> set effs \<longrightarrow> (\<exists>opts s. t n = Some (opts, s) \<and> needs c \<subseteq> grants opts))
    \<and> (\<forall>n opts s. t n = Some (opts, s) \<longrightarrow> grants opts \<subseteq> grants first)"
  by (rule node.authority [OF assms])

lemma node_escalation_run:
  "snd (run_machine (tree_step node_handle_op node_resume) (root_tree reader_options) escalation) =
     [([], Calls 0 (StartChild [1] WORKER_MARKER [] (child_options reader_options [1] [] 15 [] False))),
      ([], Calls 0 (ChildLoaded [1])),
      ([1], Calls 0 (ReadFile (unstr [97]))),
      ([1], Throws 1 (Faulted FAULT_NOT_GRANTED (js ''network access'' @ js '' not granted to this application'')))]"
proof -
  have o1: "self_opt reader_options = Some WORKER_MARKER" "worker_opt reader_options" by (simp_all add: reader_options_def)
  have o2: "fs_read (child_options reader_options [1] [] 15 [] False)"
    "\<not> net_opt (child_options reader_options [1] [] 15 [] False)"
    "cwd_opt (child_options reader_options [1] [] 15 [] False) = None"
    by (simp_all add: child_options_def give_def reader_options_def GRANT_READ_def GRANT_NET_def)
  show ?thesis
    by (simp add: escalation_def root_tree_def tree_step_def o1 o2 escalation_decoded marker_starts
      node_handler_defs node_startChild_def startChild_def start_worker_def settle_def idle_host_def new_world_def Let_def may_run_def
      P_def path_of_def joinPath_def deny_def)
qed

theorem node_authority_confined_witness:
  "\<exists>t effs. run_machine (tree_step node_handle_op node_resume) (root_tree reader_options) escalation = (t, effs)
    \<and> ([1], Calls 0 (ReadFile (unstr [97]))) \<in> set effs \<and> (\<forall>n i h p. (n, Calls i (ConnectTo h p)) \<notin> set effs)"
proof -
  obtain t effs where r: "run_machine (tree_step node_handle_op node_resume) (root_tree reader_options) escalation = (t, effs)"
    by fastforce
  have "\<not> needs (ConnectTo h p) \<subseteq> grants reader_options" for h p by (simp add: reader_options_def)
  with node_authority_confined [OF r] have "(n, Calls i (ConnectTo h p)) \<notin> set effs" for n i h p
    by (meson order_trans)
  moreover have "([1], Calls 0 (ReadFile (unstr [97]))) \<in> set effs" using node_escalation_run r by simp
  ultimately show ?thesis using r by blast
qed

text \<open>
  A handler that got past its first call fails only because a call failed. In every run of a Node
  world, a handler that was waiting throws upon a reply only if that reply is an exception: every
  other reply a call can have is one the code after it takes.
\<close>

theorem node_throws_only_raised:
  assumes "run_machine (host_step node_handle_op node_resume self opts) idle_host es = (s, effs)"
    and "host_step node_handle_op node_resume self opts s (Reply i r) = (s', [Throws j e])"
  shows "j = i \<and> (\<exists>e'. r = Raised e')"
  using node_typed.throws_only_raised [OF assms] by (cases r) auto

theorem node_throws_only_raised_witness:
  "\<exists>s s' e. run_machine (host_step node_handle_op node_resume [] reader_options) idle_host [Request 0 READ_FILE [97]]
        = (s, [Calls 0 (ReadFile (unstr [97]))])
    \<and> host_step node_handle_op node_resume [] reader_options s (Reply 0 (Raised e)) = (s', [Throws 0 e])"
proof -
  let ?e = "plain_error ''Error'' (js ''ENOENT'')"
  have o: "fs_read reader_options" "cwd_opt reader_options = None" by (simp_all add: reader_options_def)
  obtain s effs where r: "run_machine (host_step node_handle_op node_resume [] reader_options) idle_host [Request 0 READ_FILE [97]] = (s, effs)"
    by fastforce
  then have e: "effs = [Calls 0 (ReadFile (unstr [97]))]"
    by (auto simp: run_machine.simps idle_host_def new_world_def node_read_file_def o settle_def P_def path_of_def joinPath_def)
  obtain s' where st: "host_step node_handle_op node_resume [] reader_options s (Reply 0 (Raised ?e)) = (s', [Throws 0 ?e])"
    using r by (auto simp: run_machine.simps idle_host_def new_world_def node_read_file_def o settle_def P_def path_of_def joinPath_def may_run_def)
  from node_throws_only_raised [OF r st] st r e show ?thesis by blast
qed

text \<open>
  C18. \<open>randomBytes\<close> under Node answers exactly what it was asked for, up to a mebibyte, and no single
  call asks the runtime for more than 65536 bytes, which is all \<open>getRandomValues\<close> gives at once.
\<close>

theorem node_random_filled:
  assumes "length b \<le> 1048576" "inside s = None" "pending s i = None"
  shows "run_machine (host_step node_handle_op node_resume self opts) s (random_events i b)
      = (s, map (\<lambda>x. Calls i (RandomValues (length x))) (pieces b) @ [Answers i b])
    \<and> (\<forall>x \<in> set (pieces b). length x \<le> 65536)"
proof -
  have "i32_ok (int (length b))" using assms(1) by (simp add: i32_ok_def)
  then have "readI32le (i32le (int (length b))) = Some (int (length b))"
    using get_i32le_0 [of "int (length b)" "[]"] by (simp add: readI32le_def)
  then have req: "host_step node_handle_op node_resume self opts s (Request i RANDOM_BYTES (i32le (int (length b))))
      = settle i s (random_loop (hworld s) (length ([] @ b)) [])"
    using assms by (simp add: node_random_bytes_def with_i32_def)
  obtain t es where st: "settle i s (random_loop (hworld s) (length ([] @ b)) []) = (t, es)" by fastforce
  obtain u es' where r: "run_machine (host_step node_handle_op node_resume self opts) t
      (map (\<lambda>x. Reply i (BytesR x)) (pieces b)) = (u, es')" by fastforce
  from random_pieces [OF assms(2,3) st r] show ?thesis
    by (simp add: random_events_def run_machine.simps req [unfolded st] r pieces_small del: host_step.simps)
qed

theorem node_random_filled_witness:
  "run_machine (host_step node_handle_op node_resume [] reader_options) idle_host (random_events 0 (replicate 70000 7))
     = (idle_host, [Calls 0 (RandomValues 65536), Calls 0 (RandomValues 4464), Answers 0 (replicate 70000 7)])"
proof -
  have "pieces (replicate 70000 7) = [replicate 65536 7, replicate 4464 7]"
    by (subst pieces.simps, subst pieces.simps, subst pieces.simps) simp
  moreover have "length (replicate 70000 (7 :: byte)) \<le> 1048576" "inside idle_host = None" "pending idle_host 0 = None"
    by (simp_all add: idle_host_def)
  ultimately show ?thesis
    using node_random_filled [of "replicate 70000 7" idle_host 0 "[]" reader_options] by simp
qed

end
