(* ===== verification/World_Writes.thy ===== *)
theory World_Writes
  imports Deno_World Node_World Queue
begin

text \<open>
  A spawned child's standard output. Its parent's queue is behind the \<open>write\<close> of the child's options
  (\<open>deno.ts\<close>) or the \<open>writeStdout\<close> of its \<open>io\<close> (\<open>node.ts\<close>): a function that pushes, awaits what the
  queue says, and throws when it is refused. Here the child's world and the queue run together: a
  write the world makes is a push, and it returns to the handler when the handler's own code says,
  at once if it did not await it, and when the queue settles the push if it did.
\<close>

section \<open>A child and its parent's queue\<close>

text \<open>The queue, and the requests whose handler awaits a push, by the push's id.\<close>

record 'p piped =
  child_world :: "'p world_host"
  out_queue :: byte_queue
  write_waits :: "nat \<rightharpoonup> nat"

text \<open>The child's world is asked something or hears from the runtime; somebody else uses the queue.\<close>

datatype piped_event = ChildSees host_event | OnQueue bq_call

datatype piped_effect = OfChild host_effect | OfQueue effect

text \<open>The two names of the call that writes.\<close>

fun written :: "os_call \<Rightarrow> bytes option" where
  "written (PipedWrite b) = Some b"
| "written (IoWrite b) = Some b"
| "written _ = None"

fun written_by :: "host_effect list \<Rightarrow> (nat \<times> bytes) option" where
  "written_by [Calls i c] = map_option (Pair i) (written c)"
| "written_by _ = None"

text \<open>A reply to a write comes from the queue alone.\<close>

fun to_a_write :: "'p world_host \<Rightarrow> host_event \<Rightarrow> bool" where
  "to_a_write s (Reply i r) = (case pending s i of None \<Rightarrow> False | Some (c, q) \<Rightarrow> written c \<noteq> None)"
| "to_a_write s (Request i oper p) = False"

text \<open>The code after the \<open>await\<close> of \<open>write\<close>.\<close>

definition write_ends :: "bool \<Rightarrow> os_reply" where
  "write_ends ok = (if ok then Done
     else Raised (plain_error ''Error'' (js ''the child'' @ [39] @ js ''s output is not being read'')))"

fun settle_writes ::
  "'p on_request \<Rightarrow> 'p on_reply \<Rightarrow> name \<Rightarrow> options \<Rightarrow> 'p piped \<Rightarrow> effect list \<Rightarrow> 'p piped \<times> piped_effect list"
where
  "settle_writes B R self opts t [] = (t, [])"
| "settle_writes B R self opts t (ToReader k b # es) =
     (case settle_writes B R self opts t es of (t', out1) \<Rightarrow> (t', OfQueue (ToReader k b) # out1))"
| "settle_writes B R self opts t (ToWriter k ok # es) =
     (case write_waits t k of
        None \<Rightarrow> (case settle_writes B R self opts t es of (t', out1) \<Rightarrow> (t', OfQueue (ToWriter k ok) # out1))
      | Some i \<Rightarrow>
          (case host_step B R self opts (child_world t) (Reply i (write_ends ok)) of (s, effs) \<Rightarrow>
             case settle_writes B R self opts (t\<lparr>child_world := s, write_waits := (write_waits t)(k := None)\<rparr>) es of
               (t', out1) \<Rightarrow> (t', OfQueue (ToWriter k ok) # map OfChild effs @ out1)))"

text \<open>
  \<open>write\<close> up to its \<open>await\<close> is the push. A handler in a synchronous call goes on with the promise it
  does not look at; another one waits for it.
\<close>

definition call_write ::
  "'p on_request \<Rightarrow> 'p on_reply \<Rightarrow> name \<Rightarrow> options \<Rightarrow> 'p piped \<Rightarrow> nat \<Rightarrow> bytes \<Rightarrow> 'p piped \<times> piped_effect list"
where
  "call_write B R self opts t i b =
     (case bq_step (out_queue t) (CallPush b) of (q, es) \<Rightarrow>
        if inside (child_world t) = Some i then
          (case host_step B R self opts (child_world t) (Reply i Done) of (s, effs) \<Rightarrow>
             case settle_writes B R self opts (t\<lparr>child_world := s, out_queue := q\<rparr>) es of
               (t', out1) \<Rightarrow> (t', map OfChild effs @ out1))
        else settle_writes B R self opts
          (t\<lparr>out_queue := q, write_waits := (write_waits t)(next_id (out_queue t) \<mapsto> i)\<rparr>) es)"

fun piped_step ::
  "'p on_request \<Rightarrow> 'p on_reply \<Rightarrow> name \<Rightarrow> options \<Rightarrow> 'p piped \<Rightarrow> piped_event \<Rightarrow> 'p piped \<times> piped_effect list"
where
  "piped_step B R self opts t (ChildSees e) =
     (if to_a_write (child_world t) e then (t, [])
      else case host_step B R self opts (child_world t) e of (s, effs) \<Rightarrow>
        (case written_by effs of
           None \<Rightarrow> (t\<lparr>child_world := s\<rparr>, map OfChild effs)
         | Some (i, b) \<Rightarrow>
             (case call_write B R self opts (t\<lparr>child_world := s\<rparr>) i b of
                (t', out1) \<Rightarrow> (t', map OfChild effs @ out1))))"
| "piped_step B R self opts t (OnQueue c) =
     (if inside (child_world t) = None then
        (case bq_step (out_queue t) c of (q, es) \<Rightarrow> settle_writes B R self opts (t\<lparr>out_queue := q\<rparr>) es)
      else (t, []))"

section \<open>Specification\<close>

text \<open>A queue that has no room for \<open>b\<close>, and nobody reading.\<close>

definition full_for :: "byte_queue \<Rightarrow> bytes \<Rightarrow> bool" where
  "full_for q b \<longleftrightarrow> bq_ok q \<and> \<not> ended (qstate q) \<and> reader (qstate q) = None \<and> b \<noteq> []
     \<and> 0 < cap (qstate q) \<and> cap (qstate q) < held (qstate q) + length b"

text \<open>A world that is not running a captured child, has not redirected its output and is in no synchronous call.\<close>

definition writes_out :: "'p world_host \<Rightarrow> bool" where
  "writes_out s \<longleftrightarrow> kids (hworld s) = [] \<and> sink_file (hworld s) = None \<and> inside s = None"

abbreviation write_request :: "nat \<times> bytes \<Rightarrow> piped_event" where
  "write_request w \<equiv> ChildSees (Request (fst w) WRITE_STDOUT (snd w))"

abbreviation write_and_success :: "nat \<times> bytes \<Rightarrow> piped_effect list" where
  "write_and_success w \<equiv> [OfChild (Calls (fst w) (PipedWrite (snd w))), OfChild (Answers (fst w) [])]"

section \<open>Lemmas\<close>

lemma full_parks:
  assumes "full_for q b"
  obtains q' where "bq_step q (CallPush b) = (q', [])" "bq_ok q'"
    and "qstate q' = (qstate q)\<lparr>writers := writers (qstate q) @ [\<lparr>wid = next_id q, wbytes = b\<rparr>]\<rparr>"
proof -
  have "bq_ok q" using assms by (simp add: full_for_def)
  from bq_step_ok [OF this, of "CallPush b"] assms that show ?thesis
    by (cases "bq_step q (CallPush b)") (auto simp: full_for_def)
qed

lemma full_stays:
  "full_for q b \<Longrightarrow> bq_ok q' \<Longrightarrow> qstate q' = (qstate q)\<lparr>writers := ws\<rparr> \<Longrightarrow> full_for q' b"
  by (simp add: full_for_def)

lemma deno_write_parks:
  assumes "write_opt opts" "writes_out s" "pending s i = None" "full_for q b"
  obtains q' where "piped_step handle_op resume self opts \<lparr>child_world = s, out_queue = q, write_waits = m\<rparr> (write_request (i, b))
      = (\<lparr>child_world = s, out_queue = q', write_waits = m\<rparr>, write_and_success (i, b))" "bq_ok q'"
    and "qstate q' = (qstate q)\<lparr>writers := writers (qstate q) @ [\<lparr>wid = next_id q, wbytes = b\<rparr>]\<rparr>"
proof -
  obtain q' where q': "bq_step q (CallPush b) = (q', [])" "bq_ok q'"
    "qstate q' = (qstate q)\<lparr>writers := writers (qstate q) @ [\<lparr>wid = next_id q, wbytes = b\<rparr>]\<rparr>"
    by (rule full_parks [OF assms(4)])
  have "(pending s)(i := None) = pending s" using assms(3) by (simp add: fun_upd_idem)
  then have "piped_step handle_op resume self opts \<lparr>child_world = s, out_queue = q, write_waits = m\<rparr> (write_request (i, b))
      = (\<lparr>child_world = s, out_queue = q', write_waits = m\<rparr>, write_and_success (i, b))"
    using assms(1-3) q'(1)
    by (simp add: handler_defs writes_out_def active_def settle_def may_run_def call_write_def del: bq_step.simps)
  with q' that show ?thesis by blast
qed

text \<open>Under Node the handler awaits, and its request stays open.\<close>

lemma node_write_waits:
  assumes "writes_out s" "pending s i = None" "full_for q b"
  shows "\<exists>s' q'. piped_step node_handle_op node_resume self opts \<lparr>child_world = s, out_queue = q, write_waits = m\<rparr> (write_request (i, b))
      = (\<lparr>child_world = s', out_queue = q', write_waits = m(next_id q \<mapsto> i)\<rparr>, [OfChild (Calls i (IoWrite b))])
    \<and> pending s' i = Some (IoWrite b, NWritten)"
proof -
  obtain q' where "bq_step q (CallPush b) = (q', [])"
    by (rule full_parks [OF assms(3)])
  then show ?thesis
    using assms(1,2)
    by (simp add: node_handler_defs writes_out_def active_def settle_def may_run_def call_write_def del: bq_step.simps)
qed

section \<open>Properties\<close>

text \<open>
  C16. A full queue does not stop a child that writes. Let a spawned child of \<open>deno.ts\<close> make any
  writes to a queue that has no room for them and that nobody reads. Each is answered as a success in
  the step that makes it, though the queue settles no push: it only parks one more writer each time,
  and the world waits for none of them. However many writes there are, all succeed and the bytes of all
  are held, beyond the queue's cap. (The comment at the child's \<open>write\<close> says that a full queue waits for
  the parent to read; the handler calls it without awaiting. In \<open>node.ts\<close> it is awaited, and the
  request stays open: \<open>node_write_waits\<close>. The child is not running a captured child and has not
  redirected its output; the requests are new ones.)
\<close>

theorem full_queue_never_waits:
  assumes "opts = child_options parent child as wanted d inh" "writes_out s"
    and "\<forall>w\<in>set ws. pending s (fst w) = None \<and> full_for q (snd w)"
  shows "\<exists>q'. run_machine (piped_step handle_op resume self opts) \<lparr>child_world = s, out_queue = q, write_waits = m\<rparr>
        (map write_request ws)
      = (\<lparr>child_world = s, out_queue = q', write_waits = m\<rparr>, concat (map write_and_success ws))
    \<and> map wbytes (writers (qstate q')) = map wbytes (writers (qstate q)) @ map snd ws
    \<and> chunks (qstate q') = chunks (qstate q) \<and> cap (qstate q') = cap (qstate q)"
  using assms(3)
proof (induction ws arbitrary: q)
  case (Cons w ws)
  obtain i b where w: "w = (i, b)" by fastforce
  have wo: "write_opt opts" using assms(1) by (simp add: child_options_def give_def)
  have "pending s i = None" "full_for q b" using Cons.prems w by simp_all
  from deno_write_parks [OF wo assms(2) this] obtain q1 where q1:
    "piped_step handle_op resume self opts \<lparr>child_world = s, out_queue = q, write_waits = m\<rparr> (write_request (i, b))
      = (\<lparr>child_world = s, out_queue = q1, write_waits = m\<rparr>, write_and_success (i, b))" "bq_ok q1"
    "qstate q1 = (qstate q)\<lparr>writers := writers (qstate q) @ [\<lparr>wid = next_id q, wbytes = b\<rparr>]\<rparr>"
    by blast
  have "\<forall>w\<in>set ws. pending s (fst w) = None \<and> full_for q1 (snd w)"
    using Cons.prems full_stays [OF _ q1(2,3)] by simp
  from Cons.IH [OF this] q1(1,3) show ?case
    by (auto simp: w run_machine.simps(2) simp del: piped_step.simps)
qed simp

definition tiny_full :: byte_queue where
  "tiny_full = fst (bq_step (new_ByteQueue 1) (CallPush [7]))"

theorem full_queue_never_waits_witness:
  "\<exists>q'. run_machine (piped_step handle_op resume [1] (child_options reader_options [1] [] 0 [] False))
        \<lparr>child_world = idle_host, out_queue = tiny_full, write_waits = Map.empty\<rparr>
        (map write_request (replicate 1000 (0, [8])))
      = (\<lparr>child_world = idle_host, out_queue = q', write_waits = Map.empty\<rparr>, concat (map write_and_success (replicate 1000 (0, [8]))))
    \<and> map wbytes (writers (qstate q')) = replicate 1000 [8] \<and> cap (qstate q') = 1"
proof -
  have ok: "bq_ok (new_ByteQueue 1)" by (rule bq_ok_new)
  have q: "qstate tiny_full = (emptyQueue 1)\<lparr>chunks := [[7]], held := 1\<rparr>" "bq_ok tiny_full"
    using bq_step_ok [OF ok, of "CallPush [7]"]
    by (simp_all add: tiny_full_def new_ByteQueue_def emptyQueue_def)
  then have f: "full_for tiny_full [8]" by (simp add: full_for_def emptyQueue_def)
  have h: "writes_out idle_host"
    by (simp add: writes_out_def idle_host_def new_world_def)
  have n: "\<forall>w\<in>set (replicate 1000 (0, [8])). pending idle_host (fst w) = None \<and> full_for tiny_full (snd w)"
    using f by simp
  from full_queue_never_waits [OF refl h n] q(1) show ?thesis
    by (simp add: emptyQueue_def del: bq_step.simps) blast
qed

end
