(* ===== verification/World_Hosts.thy ===== *)
theory World_Hosts
  imports Deno_World Node_World
begin

text \<open>
  The two hosts beside each other. A program that keeps to the operations both answer in the same
  words (\<open>portable\<close>) cannot tell them apart while the runtime throws nothing: the same calls are
  made, in the same order, and the same bytes come back.
\<close>

section \<open>What the hosts share\<close>

text \<open>The rest differs by design: the streams, \<open>randomBytes\<close>, \<open>listen\<close>, and \<open>readDir\<close>, which Deno sorts.\<close>

definition portable :: "op \<Rightarrow> bool" where
  "portable oper \<longleftrightarrow> oper \<in> {NOW_MILLIS, MONOTONIC_NANOS, CWD, SLEEP_MILLIS, LOG, WARN, ARG_COUNT, ARG, ENV,
     READ_FILE, WRITE_FILE, STAT, LINK_STAT, MKDIR, REMOVE, RENAME, CONNECT, ACCEPT, CLOSE_SOCKET, SPAWN,
     SPAWN_SELF, CLOSE_FEED, EXIT_CODE, PUSH_CHILD, POP_CHILD, OUTPUT_ERROR}"

fun portable_event :: "host_event \<Rightarrow> bool" where
  "portable_event (Request i oper p) = portable oper"
| "portable_event (Reply i r) = (\<not> is_raised r)"

text \<open>Where Node's handler stands when Deno's stands at a place.\<close>

primrec node_place :: "pc \<Rightarrow> node_pc option" where
  "node_place AtInt64 = Some NInt64"
| "node_place AtBytes = None"
| "node_place AtCwd = Some NCwd"
| "node_place AtDone = Some NDone"
| "node_place AtEnv = Some NEnv"
| "node_place (AtFile p) = Some NBytes"
| "node_place (AtDir p) = None"
| "node_place (AtStat p) = Some (NStat p)"
| "node_place (AtLinkStat p) = Some (NLinkStat p)"
| "node_place (AtChange p) = Some NChange"
| "node_place (AtRename p q) = Some NChange"
| "node_place (AtStdin bs) = None"
| "node_place AtPiped = None"
| "node_place (AtSink b k) = None"
| "node_place (AtStdout b k) = None"
| "node_place (AtStderr b k) = None"
| "node_place AtPipedWrite = None"
| "node_place (AtCloseSource p) = None"
| "node_place (AtOpenSource p) = None"
| "node_place (AtCloseSink p) = None"
| "node_place (AtOpenSink p) = None"
| "node_place AtRead = None"
| "node_place AtSocketRead = None"
| "node_place AtConnect = Some NConnect"
| "node_place AtListen = None"
| "node_place AtAccept = Some NAccept"
| "node_place (AtSend c b k) = None"
| "node_place (AtCloseConn h) = Some (NCloseConn h)"
| "node_place (AtCloseListener h) = Some (NCloseListener h)"
| "node_place (AtCloseIn h) = Some (NCloseIn h)"
| "node_place (AtCloseKill h) = Some (NCloseKill h)"
| "node_place (AtStart n h) = Some (NStart n h)"
| "node_place (AtLoaded n h) = Some (NLoaded n h)"
| "node_place (AtKilled why) = Some (NKilled why)"
| "node_place AtExit = Some NExit"

text \<open>Stretches that end alike, and worlds whose handlers stand at the same places.\<close>

fun ends_alike :: "pc ending \<Rightarrow> node_pc ending \<Rightarrow> bool" where
  "ends_alike (Finish b) e = (e = Finish b)"
| "ends_alike (Fail x) e = (e = Fail x)"
| "ends_alike (Await c q) e = (\<exists>q'. node_place q = Some q' \<and> e = Await c q')"
| "ends_alike (Do c q) e = (\<exists>q'. node_place q = Some q' \<and> e = Do c q')"

definition alike :: "pc stretch \<Rightarrow> node_pc stretch \<Rightarrow> bool" where
  "alike a b \<longleftrightarrow> fst b = fst a \<and> ends_alike (snd a) (snd b)"

definition same_call :: "(os_call \<times> pc) option \<Rightarrow> (os_call \<times> node_pc) option \<Rightarrow> bool" where
  "same_call x y \<longleftrightarrow>
     (case x of None \<Rightarrow> y = None | Some (c, q) \<Rightarrow> \<exists>q'. node_place q = Some q' \<and> y = Some (c, q'))"

definition hosts_alike :: "pc world_host \<Rightarrow> node_pc world_host \<Rightarrow> bool" where
  "hosts_alike s t \<longleftrightarrow> hworld t = hworld s \<and> inside t = inside s \<and> (\<forall>i. same_call (pending s i) (pending t i))"

section \<open>Lemmas\<close>

lemma alike_close:
  "alike (close_forget w h) (close_forget w h)"
  "alike (close_kill deno_closers w h) (close_kill node_closers w h)"
  "alike (close_child deno_closers w h) (close_child node_closers w h)"
  "alike (close_listener deno_closers w h) (close_listener node_closers w h)"
  "alike (close_socket deno_closers w h) (close_socket node_closers w h)"
  by (auto simp: alike_def close_defs node_closers_def split: option.split)

lemma request_alike:
  assumes "portable oper" "worker_opt opts" "linkStat_opt opts"
  shows "alike (handle_op self opts w oper p) (node_handle_op self opts w oper p)"
  using assms
  by (cases oper)
    (auto simp: portable_def alike_def handler_defs node_handler_defs with_i32_def deny_def denied_change_def
      startChild_def node_startChild_def start_worker_def Let_def close_defs node_closers_def split: option.split prod.split)

lemma reply_alike:
  assumes "node_place q = Some q'" "takes q c" "replies c r" "\<not> is_raised r"
  shows "alike (resume opts w q r) (node_resume opts w q' r)"
proof (cases "closing q")
  case None
  with assms show ?thesis
    by (cases q; cases r) (auto simp: alike_def add_handle_def register_child_def)
next
  case (Some h)
  with assms alike_close show ?thesis
    by (cases q) (auto simp: close_after_in_def split: os_reply.split)
qed

lemma same_call_simps [simp]:
  "same_call None y \<longleftrightarrow> y = None"
  "same_call (Some (c, q)) y \<longleftrightarrow> (\<exists>q'. node_place q = Some q' \<and> y = Some (c, q'))"
  by (simp_all add: same_call_def)

lemma same_call_none: "same_call x y \<Longrightarrow> y = None \<longleftrightarrow> x = None"
  by (cases x) auto

lemma hosts_alike_upd:
  assumes "hosts_alike s t" "same_call x y"
  shows "hosts_alike (s\<lparr>hworld := w, pending := (pending s)(i := x), inside := n\<rparr>)
    (t\<lparr>hworld := w, pending := (pending t)(i := y), inside := n\<rparr>)"
  using assms by (simp add: hosts_alike_def)

lemma settle_alike:
  assumes "hosts_alike s t" "alike a b"
  shows "hosts_alike (fst (settle i s a)) (fst (settle i t b)) \<and> snd (settle i t b) = snd (settle i s a)"
proof -
  obtain w x y where ab: "a = (w, x)" "b = (w, y)" "ends_alike x y"
    using assms(2) by (cases a; cases b) (simp add: alike_def)
  show ?thesis
  proof (cases x)
    case (Finish r)
    then show ?thesis using ab hosts_alike_upd [OF assms(1)] by (simp add: settle_def)
  next
    case (Fail e)
    then show ?thesis using ab hosts_alike_upd [OF assms(1)] by (simp add: settle_def)
  next
    case (Await c q)
    then obtain q' where "node_place q = Some q'" "y = Await c q'" using ab(3) by auto
    then show ?thesis using ab Await hosts_alike_upd [OF assms(1)] by (simp add: settle_def)
  next
    case (Do c q)
    then obtain q' where "node_place q = Some q'" "y = Do c q'" using ab(3) by auto
    then show ?thesis using ab Do hosts_alike_upd [OF assms(1)] by (simp add: settle_def)
  qed
qed

lemma step_alike:
  assumes h: "hosts_alike s t" and fit: "all_fit takes s" and ev: "portable_event e"
    and o: "worker_opt opts" "linkStat_opt opts"
  shows "hosts_alike (fst (host_step handle_op resume self opts s e)) (fst (host_step node_handle_op node_resume self opts t e))
    \<and> snd (host_step node_handle_op node_resume self opts t e) = snd (host_step handle_op resume self opts s e)"
proof (cases e)
  case (Request i oper p)
  have "pending t i = None \<longleftrightarrow> pending s i = None" "inside t = inside s" "hworld t = hworld s"
    using h same_call_none by (simp_all add: hosts_alike_def)
  then show ?thesis
    using Request h ev settle_alike [OF h request_alike [OF _ o]] by auto
next
  case (Reply i r)
  show ?thesis
  proof (cases "pending s i")
    case None
    then have "pending t i = None" using h same_call_none by (metis hosts_alike_def)
    with None h Reply show ?thesis by simp
  next
    case (Some cq)
    obtain c q where s: "pending s i = Some (c, q)" using Some by (cases cq) simp
    then have "same_call (Some (c, q)) (pending t i)" using h by (metis hosts_alike_def)
    then obtain q' where t: "pending t i = Some (c, q')" "node_place q = Some q'" by auto
    have w: "inside t = inside s" "hworld t = hworld s" using h by (simp_all add: hosts_alike_def)
    have "takes q c" using fit s by (simp add: all_fit_def)
    then have "alike (resume opts (hworld s) q r) (node_resume opts (hworld s) q' r)" if "replies c r"
      using reply_alike [OF t(2)] that ev Reply by simp
    then show ?thesis
      using settle_alike [OF h] h by (simp add: Reply s t w may_run_def)
  qed
qed

lemma runs_alike:
  assumes "hosts_alike s t" "all_fit takes s" "list_all portable_event es" "worker_opt opts" "linkStat_opt opts"
  shows "hosts_alike (fst (run_machine (host_step handle_op resume self opts) s es))
      (fst (run_machine (host_step node_handle_op node_resume self opts) t es))
    \<and> snd (run_machine (host_step node_handle_op node_resume self opts) t es)
      = snd (run_machine (host_step handle_op resume self opts) s es)"
  using assms(1-3)
proof (induction es arbitrary: s t)
  case (Cons e es)
  have ev: "portable_event e" and es: "list_all portable_event es" using Cons.prems(3) by simp_all
  note st = step_alike [OF Cons.prems(1,2) ev assms(4,5), of self]
  from Cons.IH [OF conjunct1 [OF st] deno_typed.host_step_fit [OF Cons.prems(2)] es] st show ?case
    by (simp del: host_step.simps)
qed simp

section \<open>Properties\<close>

text \<open>
  C19. Deno and Node answer alike. A program that asks only for portable operations gets, for the same
  requests and the same replies of the runtime, none of them an exception, the same answers, the
  same refusals and the same calls of the runtime in the same order from either host, and leaves
  both worlds in the same state.
\<close>

theorem hosts_answer_alike:
  assumes "list_all portable_event es" "worker_opt opts" "linkStat_opt opts"
    and "run_machine (host_step handle_op resume self opts) idle_host es = (s, effs)"
    and "run_machine (host_step node_handle_op node_resume self opts) idle_host es = (t, effs')"
  shows "effs' = effs \<and> hworld t = hworld s \<and> (\<forall>i. map_option fst (pending t i) = map_option fst (pending s i))"
proof -
  have "hosts_alike idle_host idle_host" by (simp add: hosts_alike_def same_call_def idle_host_def)
  from runs_alike [OF this all_fit_idle assms(1-3), of self] assms(4,5)
  have h: "hosts_alike s t" "effs' = effs" by simp_all
  have "map_option fst y = map_option fst x" if "same_call x y" for x y
    using that by (cases x) auto
  with h show ?thesis by (simp add: hosts_alike_def)
qed

definition server_options :: options where
  "server_options =
     \<lparr>args_opt = [], fs_read = False, fs_write = False, net_opt = True, env_opt = False, cwd_opt = None,
      self_opt = None, write_opt = False, writeErr_opt = False, worker_opt = True, linkStat_opt = True,
      dom_opt = False, stdin_opt = None, chunk_opt = None\<rparr>"

definition connect_close :: "host_event list" where
  "connect_close = [Request 0 CONNECT (i32le 80 @ [97]), Reply 0 (SocketR 5 [] 9), Request 1 CLOSE_SOCKET (i32le 1)]"

theorem hosts_answer_alike_witness:
  "\<exists>s t effs. run_machine (host_step handle_op resume [] server_options) idle_host connect_close = (s, effs)
    \<and> run_machine (host_step node_handle_op node_resume [] server_options) idle_host connect_close = (t, effs)
    \<and> Calls 0 (ConnectTo (unstr [97]) 80) \<in> set effs"
proof -
  obtain s effs where r: "run_machine (host_step handle_op resume [] server_options) idle_host connect_close = (s, effs)" by fastforce
  obtain t effs' where r': "run_machine (host_step node_handle_op node_resume [] server_options) idle_host connect_close = (t, effs')"
    by fastforce
  have "list_all portable_event connect_close" "worker_opt server_options" "linkStat_opt server_options"
    by (simp_all add: connect_close_def portable_def server_options_def)
  from hosts_answer_alike [OF this r r'] have "effs' = effs" by simp
  moreover have "Calls 0 (ConnectTo (unstr [97]) 80) \<in> set effs"
  proof -
    have rd: "readI32le (i32le 80 @ [97]) = Some 80"
      using get_i32le_0 [of 80 "[97]"] by (simp add: readI32le_def i32_ok_def)
    have "snd (host_step handle_op resume [] server_options idle_host (Request 0 CONNECT (i32le 80 @ [97])))
      = [Calls 0 (ConnectTo (unstr [97]) 80)]"
      using subarray_from_nat [of "i32le 80 @ [97]" 4]
      by (simp add: op_connect_def connect_args_def rd server_options_def idle_host_def settle_def)
    then have "Calls 0 (ConnectTo (unstr [97]) 80) \<in> set (snd (run_machine (host_step handle_op resume [] server_options) idle_host connect_close))"
      by (simp add: connect_close_def del: host_step.simps)
    then show ?thesis using r by simp
  qed
  ultimately show ?thesis using r r' by blast
qed

end
