(* ===== verification/Browser_World.thy ===== *)
theory Browser_World
  imports World_Tree World_Types
begin

text \<open>
  \<open>packages/platform/host/browser.ts\<close>: the handler table of a page. Files are those of the Origin
  Private File System, reached one directory handle at a time, so a handler that names a path is a
  walk over many calls; \<open>goal\<close> is what it does when it gets there. There are no sockets and no
  environment, and there is a document.
\<close>

section \<open>The handlers\<close>

text \<open>What \<open>resolve\<close> and \<open>fileOf\<close> are walking for, and \<open>dirOf\<close>.\<close>

datatype (plugins only: size code) goal =
    ReadGoal | StatGoal jsstring | OpenGoal | CopyGoal jsstring jsstring
  | WriteGoal bytes | CopyTo jsstring bytes | MkdirsGoal | MkdirGoal | RemoveGoal bool | RenameGoal | SinkGoal

datatype (plugins only: size code) dir_goal = StatDir | ListDir

text \<open>Where a handler stands while the runtime has its call.\<close>

datatype (plugins only: size code) page_pc =
    BInt64 | BBytes | BDone | BText | BEvent | BPicked | BPiped | BSlice | BWritten
  | BWalk goal "jsstring list" | BFile goal | BBlob goal | BBuffer | BCopyBuffer jsstring jsstring
  | BTarget goal | BWritable goal | BWrote goal nat | BClosed goal
  | BProbe nat jsstring | BLast | BSinkFile | BSinkOpen
  | BDirs dir_goal "jsstring list" | BKeys
  | BCloseSink jsstring | BCloseIn int | BCloseKill int
  | BStart name int | BLoaded name int | BKilled jsstring | BExit

subsection \<open>Pieces\<close>

definition denied :: "string \<Rightarrow> thrown" where
  "denied what = Faulted FAULT_NOT_GRANTED (js what @ js '' not granted to this application'')"

definition describeAsPhrase :: "int \<Rightarrow> jsstring \<Rightarrow> jsstring" where
  "describeAsPhrase fault why = (if phraseOf fault = [] then why else phraseOf fault)"

text \<open>\<open>readOrPhrase\<close> and \<open>changed\<close>, for work that threw; a page has no Deno error classes.\<close>

definition phrased :: "thrown \<Rightarrow> 'p ending" where
  "phrased e =
     (case e of
        Faulted f why \<Rightarrow> Fail e
      | _ \<Rightarrow> (case faultOf False e of
                None \<Rightarrow> Fail (null_error (text_of e) ''code'')
              | Some f \<Rightarrow> Fail (Faulted f (describeAsPhrase f (text_of e)))))"

definition page_changed_failed :: "(int \<Rightarrow> jsstring \<Rightarrow> jsstring) \<Rightarrow> thrown \<Rightarrow> 'p ending" where
  "page_changed_failed describe e =
     (case changed False (Some e) describe of
        Some b \<Rightarrow> Finish b | None \<Rightarrow> Fail (null_error (text_of e) ''code''))"

definition canWrite :: "options \<Rightarrow> bool" where
  "canWrite opts \<longleftrightarrow> fs_read opts \<and> fs_write opts"

subsection \<open>Paths\<close>

fun split_slash :: "jsstring \<Rightarrow> jsstring list" where
  "split_slash [] = [[]]"
| "split_slash (c # cs) =
     (if c = 47 then [] # split_slash cs
      else case split_slash cs of [] \<Rightarrow> [[c]] | s # ss \<Rightarrow> (c # s) # ss)"

definition parts_of :: "options \<Rightarrow> world \<Rightarrow> jsstring \<Rightarrow> jsstring list" where
  "parts_of opts w path = filter (\<lambda>s. s \<noteq> [] \<and> s \<noteq> [46]) (split_slash (P opts w path))"

text \<open>\<open>dirOf\<close>, from the root, directory 0, on; \<open>stat\<close> and \<open>readDir\<close> use it.\<close>

fun dir_failed :: "dir_goal \<Rightarrow> thrown \<Rightarrow> page_pc ending" where
  "dir_failed StatDir e = Finish (stat_answer (Inr FAULT_NONE))"
| "dir_failed ListDir e = Fail e"

fun walk_dirs :: "dir_goal \<Rightarrow> nat \<Rightarrow> jsstring list \<Rightarrow> page_pc ending" where
  "walk_dirs StatDir d [] =
     Finish (stat_answer (Inl \<lparr>isFile = False, isDirectory = True, size_of = 0, mtime = 0, isSymlink = False\<rparr>))"
| "walk_dirs ListDir d [] = Await (Opfs (DirKeys d)) BKeys"
| "walk_dirs g d (n # ns) = Await (Opfs (GetDirectory d n False)) (BDirs g ns)"

definition dirOf :: "options \<Rightarrow> world \<Rightarrow> jsstring \<Rightarrow> dir_goal \<Rightarrow> page_pc ending" where
  "dirOf opts w path g =
     (if \<not> fs_read opts then dir_failed g (denied ''filesystem read'') else walk_dirs g 0 (parts_of opts w path))"

text \<open>What became of work that threw: of a \<open>stat\<close>, that the path may be a directory.\<close>

fun goal_failed :: "options \<Rightarrow> world \<Rightarrow> goal \<Rightarrow> thrown \<Rightarrow> page_pc ending" where
  "goal_failed opts w ReadGoal e = phrased e"
| "goal_failed opts w (StatGoal path) e = dirOf opts w path StatDir"
| "goal_failed opts w SinkGoal e = page_changed_failed (\<lambda>f why. why) e"
| "goal_failed opts w g e = page_changed_failed describeAsPhrase e"

text \<open>The directory is reached: the next call, with the last component.\<close>

primrec at_goal :: "goal \<Rightarrow> nat \<Rightarrow> jsstring \<Rightarrow> page_pc ending" where
  "at_goal ReadGoal d n = Await (Opfs (GetFileHandle d n False)) (BFile ReadGoal)"
| "at_goal (StatGoal path) d n = Await (Opfs (GetFileHandle d n False)) (BFile (StatGoal path))"
| "at_goal OpenGoal d n = Await (Opfs (GetFileHandle d n False)) (BFile OpenGoal)"
| "at_goal (CopyGoal src dst) d n = Await (Opfs (GetFileHandle d n False)) (BFile (CopyGoal src dst))"
| "at_goal (WriteGoal b) d n = Await (Opfs (GetFileHandle d n True)) (BTarget (WriteGoal b))"
| "at_goal (CopyTo src b) d n = Await (Opfs (GetFileHandle d n True)) (BTarget (CopyTo src b))"
| "at_goal MkdirsGoal d n = Await (Opfs (GetDirectory d n True)) BLast"
| "at_goal MkdirGoal d n = Await (Opfs (GetDirectory d n False)) (BProbe d n)"
| "at_goal (RemoveGoal r) d n = Await (Opfs (RemoveEntry d n r)) BLast"
| "at_goal RenameGoal d n = Await (Opfs (RemoveEntry d n False)) BLast"
| "at_goal SinkGoal d n = Await (Opfs (GetFileHandle d n True)) BSinkFile"

text \<open>Whether the directories on the way are made.\<close>

fun creates :: "goal \<Rightarrow> bool" where
  "creates (WriteGoal b) = True"
| "creates (CopyTo src b) = True"
| "creates MkdirsGoal = True"
| "creates SinkGoal = True"
| "creates g = False"

text \<open>\<open>resolve\<close>: the parts are not empty when the walk begins, so the first line is never reached.\<close>

fun page_walk :: "goal \<Rightarrow> nat \<Rightarrow> jsstring list \<Rightarrow> page_pc ending" where
  "page_walk g d [] = Fail (plain_error ''TypeError'' [])"
| "page_walk g d [n] = at_goal g d n"
| "page_walk g d (m # n # ns) = Await (Opfs (GetDirectory d m (creates g))) (BWalk g (n # ns))"

definition page_resolve :: "options \<Rightarrow> world \<Rightarrow> jsstring \<Rightarrow> goal \<Rightarrow> page_pc ending" where
  "page_resolve opts w path g =
     (let parts = parts_of opts w path
      in if parts = [] then goal_failed opts w g (plain_error ''Error'' (js ''empty path''))
         else if \<not> fs_read opts then goal_failed opts w g (denied ''filesystem read'')
         else page_walk g 0 parts)"

text \<open>\<open>fileOf\<close> has its blob, of a size and a time.\<close>

fun at_blob :: "world \<Rightarrow> goal \<Rightarrow> nat \<Rightarrow> nat \<Rightarrow> int \<Rightarrow> page_pc stretch" where
  "at_blob w ReadGoal k n t = (w, Await (Opfs (ArrayBuffer k)) BBuffer)"
| "at_blob w (StatGoal path) k n t =
     (w, Finish (stat_answer (Inl \<lparr>isFile = True, isDirectory = False, size_of = int n, mtime = t, isSymlink = False\<rparr>)))"
| "at_blob w OpenGoal k n t = (w\<lparr>source_blob := Some (k, n, 0)\<rparr>, Finish CHANGED_OK)"
| "at_blob w (CopyGoal src dst) k n t = (w, Await (Opfs (ArrayBuffer k)) (BCopyBuffer src dst))"
| "at_blob w g k n t = unexpected w"

fun goal_bytes :: "goal \<Rightarrow> bytes" where
  "goal_bytes (WriteGoal b) = b"
| "goal_bytes (CopyTo src b) = b"
| "goal_bytes g = []"

text \<open>The file is written: of a rename, the old name goes.\<close>

fun goal_written :: "options \<Rightarrow> world \<Rightarrow> goal \<Rightarrow> page_pc ending" where
  "goal_written opts w (CopyTo src b) = page_resolve opts w src RenameGoal"
| "goal_written opts w g = Finish CHANGED_OK"

definition page_open_sink :: "options \<Rightarrow> world \<Rightarrow> jsstring \<Rightarrow> page_pc stretch" where
  "page_open_sink opts w path =
     (w, if path = [] then Finish CHANGED_OK
         else if \<not> canWrite opts then deny ''filesystem write''
         else page_resolve opts w path SinkGoal)"

text \<open>The document, or a refusal.\<close>

definition with_dom :: "options \<Rightarrow> world \<Rightarrow> page_pc ending \<Rightarrow> page_pc stretch" where
  "with_dom opts w e = (w, if dom_opt opts then e else deny ''the page'')"

definition picked_answer :: "bool \<Rightarrow> jsstring \<Rightarrow> bytes \<Rightarrow> jsstring \<Rightarrow> bytes" where
  "picked_answer ok fname b why =
     (if ok then 1 else 0) # i32le (int (length (str fname))) @ str fname
       @ i32le (int (length (str why))) @ str why @ b"

definition page_output_failed :: "world \<Rightarrow> thrown \<Rightarrow> page_pc stretch" where
  "page_output_failed w e = (w\<lparr>outputFailure := text_of e\<rparr>, Fail e)"

subsection \<open>Children\<close>

text \<open>
  The options of a child: its root and whether it may write, from what was asked and what this page
  has; no document, no network, no environment. A child that inherits its input gets no reader.
\<close>

definition page_child_options :: "options \<Rightarrow> name \<Rightarrow> bytes list \<Rightarrow> int \<Rightarrow> jsstring \<Rightarrow> bool \<Rightarrow> options" where
  "page_child_options opts child childArgs wanted childCwd inherit =
     (let read1 = wanted AND GRANT_READ \<noteq> 0 \<and> fs_read opts;
          write1 = wanted AND GRANT_WRITE \<noteq> 0 \<and> fs_read opts \<and> fs_write opts
      in \<lparr>args_opt = map Inr childArgs, fs_read = read1, fs_write = read1 \<and> write1, net_opt = False, env_opt = False,
          cwd_opt = (if childCwd = [] then cwd_opt opts else Some childCwd), self_opt = self_opt opts,
          write_opt = True, writeErr_opt = True, worker_opt = False, linkStat_opt = False, dom_opt = False,
          stdin_opt = (if inherit then None else Some child), chunk_opt = (if inherit then None else Some child)\<rparr>)"

definition page_startChild ::
  "name \<Rightarrow> options \<Rightarrow> world \<Rightarrow> jsstring \<Rightarrow> bytes list \<Rightarrow> int \<Rightarrow> jsstring \<Rightarrow> bool \<Rightarrow> page_pc stretch"
where
  "page_startChild self opts w src childArgs wanted childCwd inherit =
     start_worker BStart (\<lambda>child. page_child_options opts child childArgs wanted childCwd inherit) self w src childArgs"

text \<open>Closing looks only among the children.\<close>

definition page_forget :: "world \<Rightarrow> int \<Rightarrow> page_pc stretch" where
  "page_forget w h = (w\<lparr>children := (children w)(h := None)\<rparr>, Finish [])"

definition page_close :: "world \<Rightarrow> int \<Rightarrow> page_pc stretch" where
  "page_close w h =
     (case children w h of None \<Rightarrow> (w, Finish []) | Some c \<Rightarrow> (w, Do (ChildInEnd c) (BCloseIn h)))"

definition page_close_kill :: "world \<Rightarrow> int \<Rightarrow> os_reply \<Rightarrow> page_pc stretch" where
  "page_close_kill w h r =
     (case r of
        Raised e \<Rightarrow> page_forget w h
      | _ \<Rightarrow> (case children w h of None \<Rightarrow> page_forget w h | Some c \<Rightarrow> (w, Do (ChildKill c) (BCloseKill h))))"

subsection \<open>The handlers up to their first call\<close>

definition page_render :: "options \<Rightarrow> world \<Rightarrow> bytes \<Rightarrow> page_pc stretch" where
  "page_render opts w p = with_dom opts w (Do (Dom (DomRender (unstr p))) BDone)"

definition page_set_text :: "options \<Rightarrow> world \<Rightarrow> bytes \<Rightarrow> page_pc stretch" where
  "page_set_text opts w p =
     (case rename_args p of None \<Rightarrow> (w, Fail OUT_OF_RANGE) | Some (a, b) \<Rightarrow> with_dom opts w (Do (Dom (DomSetText a b)) BDone))"

definition page_set_value :: "options \<Rightarrow> world \<Rightarrow> bytes \<Rightarrow> page_pc stretch" where
  "page_set_value opts w p =
     (case rename_args p of None \<Rightarrow> (w, Fail OUT_OF_RANGE) | Some (a, b) \<Rightarrow> with_dom opts w (Do (Dom (DomSetValue a b)) BDone))"

definition page_get_value :: "options \<Rightarrow> world \<Rightarrow> bytes \<Rightarrow> page_pc stretch" where
  "page_get_value opts w p = with_dom opts w (Do (Dom (DomValue (unstr p))) BText)"

definition page_on :: "options \<Rightarrow> world \<Rightarrow> bytes \<Rightarrow> page_pc stretch" where
  "page_on opts w p =
     (case rename_args p of None \<Rightarrow> (w, Fail OUT_OF_RANGE) | Some (a, b) \<Rightarrow> with_dom opts w (Do (Dom (DomOn a b)) BDone))"

definition page_title :: "options \<Rightarrow> world \<Rightarrow> bytes \<Rightarrow> page_pc stretch" where
  "page_title opts w p = with_dom opts w (Do (Dom (DomTitle (unstr p))) BDone)"

definition page_next_event :: "options \<Rightarrow> world \<Rightarrow> page_pc stretch" where
  "page_next_event opts w = with_dom opts w (Await (Dom DomNext) BEvent)"

definition draw_args :: "bytes \<Rightarrow> (int \<times> int \<times> jsstring \<times> bytes) option" where
  "draw_args p =
     (case (readI32le p, readI32le (subarray_from p 4), readI32le (subarray_from p 8)) of
        (Some width, Some height, Some n) \<Rightarrow>
          Some (width, height, unstr (subarray p 12 (12 + n)), subarray_from p (12 + n))
      | _ \<Rightarrow> None)"

definition page_draw_pixels :: "options \<Rightarrow> world \<Rightarrow> bytes \<Rightarrow> page_pc stretch" where
  "page_draw_pixels opts w p =
     (case draw_args p of
        None \<Rightarrow> (w, Fail OUT_OF_RANGE)
      | Some (width, height, ident, rgba) \<Rightarrow>
          if int (length rgba) \<noteq> width * height * 4
          then (w, Fail (plain_error ''Error'' (js ''drawPixels: '' @ dec_int width @ js ''x'' @ dec_int height @ js '' needs ''
                  @ dec_int (width * height * 4) @ js '' bytes, got '' @ dec_int (int (length rgba)))))
          else with_dom opts w (Do (Dom (DomDraw ident width height rgba)) BDone))"

definition page_next_file :: "options \<Rightarrow> world \<Rightarrow> page_pc stretch" where
  "page_next_file opts w = with_dom opts w (Await (Dom DomNextFile) BPicked)"

definition page_offer_download :: "options \<Rightarrow> world \<Rightarrow> bytes \<Rightarrow> page_pc stretch" where
  "page_offer_download opts w p =
     (case writeFile_args p of None \<Rightarrow> (w, Fail OUT_OF_RANGE) | Some (f, b) \<Rightarrow> with_dom opts w (Do (Dom (DomOffer f b)) BDone))"

definition page_now_millis :: "world \<Rightarrow> page_pc stretch" where
  "page_now_millis w = (w, Do DateNow BInt64)"

definition page_monotonic_nanos :: "world \<Rightarrow> page_pc stretch" where
  "page_monotonic_nanos w = (w, Do PerformanceNow BInt64)"

definition page_cwd :: "options \<Rightarrow> world \<Rightarrow> page_pc stretch" where
  "page_cwd opts w =
     (w, Finish (str (case cwd_opt opts of Some d \<Rightarrow> if d \<noteq> [] then d else js ''/'' | None \<Rightarrow> js ''/'')))"

definition page_sleep_millis :: "world \<Rightarrow> bytes \<Rightarrow> page_pc stretch" where
  "page_sleep_millis w p = with_i32 w p (\<lambda>ms. (w, Await (SetTimeout ms) BInt64))"

definition page_random_bytes :: "world \<Rightarrow> bytes \<Rightarrow> page_pc stretch" where
  "page_random_bytes w p = with_i32 w p (\<lambda>n.
     if n < 0 \<or> n > push_bit 20 1
     then (w, Fail (plain_error ''Error'' (js ''randomBytes('' @ dec_int n @ js '') out of range'')))
     else (w, Do (RandomValues (nat n)) BBytes))"

definition page_log :: "world \<Rightarrow> bytes \<Rightarrow> page_pc stretch" where
  "page_log w p =
     (if active (kids w) then (w\<lparr>kids := fst (write_out (kids w) (lineOf p))\<rparr>, Finish [])
      else (w, Do (LogLine (unstr p)) BDone))"

definition page_warn :: "world \<Rightarrow> bytes \<Rightarrow> page_pc stretch" where
  "page_warn w p =
     (case warn (kids w) (lineOf p) of (k, said) \<Rightarrow>
        if said then (w\<lparr>kids := k\<rparr>, Finish []) else (w\<lparr>kids := k\<rparr>, Do (WarnLine (unstr p)) BDone))"

definition page_push_child :: "world \<Rightarrow> bytes \<Rightarrow> page_pc stretch" where
  "page_push_child w p =
     (case unpackPush p of
        None \<Rightarrow> (w, Fail OUT_OF_RANGE)
      | Some (vec, inp, d) \<Rightarrow> (w\<lparr>kids := push (kids w) vec inp d\<rparr>, Finish []))"

definition page_pop_child :: "world \<Rightarrow> page_pc stretch" where
  "page_pop_child w =
     (case pop (kids w) of (k, o1, e1) \<Rightarrow> (w\<lparr>kids := k\<rparr>, Finish (packCaptured o1 e1)))"

definition page_arg_count :: "options \<Rightarrow> world \<Rightarrow> page_pc stretch" where
  "page_arg_count opts w = (w, Finish (i32le (int (length (own_args opts w)))))"

definition page_arg :: "options \<Rightarrow> world \<Rightarrow> bytes \<Rightarrow> page_pc stretch" where
  "page_arg opts w p = with_i32 w p (\<lambda>i.
     (w, Finish (if 0 \<le> i \<and> i < int (length (own_args opts w)) then argBytes (own_args opts w ! nat i) else [])))"

definition page_env :: "world \<Rightarrow> page_pc stretch" where
  "page_env w = (w, Finish [0])"

definition page_read_stdin :: "options \<Rightarrow> world \<Rightarrow> page_pc stretch" where
  "page_read_stdin opts w =
     (case readAll (kids w) of
        (k, Some b) \<Rightarrow> (w\<lparr>kids := k\<rparr>, Finish b)
      | (k, None) \<Rightarrow>
          (w\<lparr>kids := k\<rparr>, case stdin_opt opts of None \<Rightarrow> Finish [] | Some s \<Rightarrow> Await (PipedAll s) BBytes))"

definition page_write_stdout :: "options \<Rightarrow> world \<Rightarrow> bytes \<Rightarrow> page_pc stretch" where
  "page_write_stdout opts w p =
     (if active (kids w) then
        (case write_out (kids w) p of (k, kept) \<Rightarrow>
           (w\<lparr>kids := k\<rparr>,
            if kept then Finish []
            else Fail (plain_error ''Error'' (js ''the child'' @ [39] @ js ''s output buffer is full''))))
      else case sink_file w of
        None \<Rightarrow> (w, Do (if write_opt opts then PipedWrite p else ConsoleLog (unstr p)) BWritten)
      | Some f \<Rightarrow> (w, Await (Opfs (WriteInto f p)) BWritten))"

definition page_write_stderr :: "options \<Rightarrow> world \<Rightarrow> bytes \<Rightarrow> page_pc stretch" where
  "page_write_stderr opts w p =
     (if active (kids w) then (w\<lparr>kids := fst (warn (kids w) p)\<rparr>, Finish [])
      else (w, Do (if writeErr_opt opts then PipedWriteErr p else WarnLine (unstr p)) BDone))"

definition page_spawn :: "name \<Rightarrow> options \<Rightarrow> world \<Rightarrow> bytes \<Rightarrow> page_pc stretch" where
  "page_spawn self opts w p =
     (case (unpackSpawn p, want p) of
        (Some r, Some wanted) \<Rightarrow> page_startChild self opts w (source r) (args r) wanted (cwd r) (inheritIn r)
      | _ \<Rightarrow> (w, Fail OUT_OF_RANGE))"

definition page_spawn_self :: "name \<Rightarrow> options \<Rightarrow> world \<Rightarrow> bytes \<Rightarrow> page_pc stretch" where
  "page_spawn_self self opts w p =
     (case self_opt opts of
        None \<Rightarrow> (w, Finish (noSpawnHere (js ''this page did not pass the program its own source'')))
      | Some src \<Rightarrow>
          (case (unpackSpawnSelf p, want p) of
             (Some (as, d, inherit), Some wanted) \<Rightarrow> page_startChild self opts w src as wanted d inherit
           | _ \<Rightarrow> (w, Fail OUT_OF_RANGE)))"

definition page_close_feed :: "world \<Rightarrow> bytes \<Rightarrow> page_pc stretch" where
  "page_close_feed w p = with_i32 w p (\<lambda>h.
     case children w h of None \<Rightarrow> (w, Finish []) | Some c \<Rightarrow> (w, Do (ChildInEnd c) BDone))"

definition page_exit_code :: "world \<Rightarrow> bytes \<Rightarrow> page_pc stretch" where
  "page_exit_code w p = with_i32 w p (\<lambda>h.
     case children w h of
       None \<Rightarrow> (w, Fail (plain_error ''Error'' (js ''not a spawned worker'')))
     | Some c \<Rightarrow> (w, Await (ChildExit c) BExit))"

definition page_read_file :: "options \<Rightarrow> world \<Rightarrow> bytes \<Rightarrow> page_pc stretch" where
  "page_read_file opts w p = (w, page_resolve opts w (unstr p) ReadGoal)"

definition page_write_file :: "options \<Rightarrow> world \<Rightarrow> bytes \<Rightarrow> page_pc stretch" where
  "page_write_file opts w p =
     (if \<not> canWrite opts then (w, denied_change ''filesystem write'')
      else case writeFile_args p of
        None \<Rightarrow> (w, Fail OUT_OF_RANGE) | Some (f, b) \<Rightarrow> (w, page_resolve opts w f (WriteGoal b)))"

definition page_stat :: "options \<Rightarrow> world \<Rightarrow> bytes \<Rightarrow> page_pc stretch" where
  "page_stat opts w p =
     (w, if \<not> fs_read opts then Finish (stat_answer (Inr FAULT_NOT_GRANTED))
         else page_resolve opts w (unstr p) (StatGoal (unstr p)))"

definition page_read_dir :: "options \<Rightarrow> world \<Rightarrow> bytes \<Rightarrow> page_pc stretch" where
  "page_read_dir opts w p = (w, dirOf opts w (unstr p) ListDir)"

definition page_mkdir :: "options \<Rightarrow> world \<Rightarrow> bytes \<Rightarrow> page_pc stretch" where
  "page_mkdir opts w p =
     (if \<not> canWrite opts then (w, denied_change ''filesystem write'')
      else case flagged_args p of (rec, d) \<Rightarrow> (w, page_resolve opts w d (if rec then MkdirsGoal else MkdirGoal)))"

definition page_remove :: "options \<Rightarrow> world \<Rightarrow> bytes \<Rightarrow> page_pc stretch" where
  "page_remove opts w p =
     (if \<not> canWrite opts then (w, denied_change ''filesystem write'')
      else case flagged_args p of (rec, d) \<Rightarrow> (w, page_resolve opts w d (RemoveGoal rec)))"

definition page_rename :: "options \<Rightarrow> world \<Rightarrow> bytes \<Rightarrow> page_pc stretch" where
  "page_rename opts w p =
     (if \<not> canWrite opts then (w, denied_change ''filesystem write'')
      else case rename_args p of
        None \<Rightarrow> (w, Fail OUT_OF_RANGE) | Some (a, b) \<Rightarrow> (w, page_resolve opts w a (CopyGoal a b)))"

definition page_open_input :: "options \<Rightarrow> world \<Rightarrow> bytes \<Rightarrow> page_pc stretch" where
  "page_open_input opts w p =
     (let w = w\<lparr>source_blob := None\<rparr>
      in (w, if unstr p = [] then Finish CHANGED_OK else page_resolve opts w (unstr p) OpenGoal))"

definition page_read_chunk :: "options \<Rightarrow> world \<Rightarrow> page_pc stretch" where
  "page_read_chunk opts w =
     (case source_blob w of
        Some (k, n, at1) \<Rightarrow>
          (let end1 = min (at1 + CHUNK) n
           in if end1 \<le> at1 then (w, Finish END_READ)
              else (w\<lparr>source_blob := Some (k, n, end1)\<rparr>, Await (Opfs (SliceBuffer k at1 end1)) BSlice))
      | None \<Rightarrow>
          (case readChunk (kids w) of
             (k, Some b) \<Rightarrow> (w\<lparr>kids := k\<rparr>, Finish (tagged b))
           | (k, None) \<Rightarrow>
               (w\<lparr>kids := k\<rparr>, case readChunkIn opts of Some c \<Rightarrow> Await c BPiped | None \<Rightarrow> Finish END_READ)))"

definition page_output_error :: "world \<Rightarrow> page_pc stretch" where
  "page_output_error w = (w, Finish (str (outputFailure w)))"

definition page_open_output :: "options \<Rightarrow> world \<Rightarrow> bytes \<Rightarrow> page_pc stretch" where
  "page_open_output opts w p =
     (case sink_file w of
        Some f \<Rightarrow> (w, Await (Opfs (CloseWritable f)) (BCloseSink (unstr p)))
      | None \<Rightarrow> page_open_sink opts w (unstr p))"

definition page_no_network :: "world \<Rightarrow> page_pc stretch" where
  "page_no_network w = (w, deny ''network access'')"

definition page_recv :: "options \<Rightarrow> world \<Rightarrow> bytes \<Rightarrow> page_pc stretch" where
  "page_recv opts w p = with_i32 w p (\<lambda>h.
     if h = 0 then (w, case readChunkIn opts of Some c \<Rightarrow> Await c BPiped | None \<Rightarrow> Finish END_READ)
     else case children w h of
       Some c \<Rightarrow> (w, Await (ChildOut c) BPiped)
     | None \<Rightarrow>
         (case errStreams w h of
            Some c \<Rightarrow> (w, Await (ChildErr c) BPiped)
          | None \<Rightarrow> (w, Finish (failed (js ''network access is not granted'')))))"

definition page_send :: "world \<Rightarrow> bytes \<Rightarrow> page_pc stretch" where
  "page_send w p =
     (case send_args p of
        None \<Rightarrow> (w, Fail OUT_OF_RANGE)
      | Some (h, b) \<Rightarrow>
          (case children w h of Some c \<Rightarrow> (w, Do (ChildIn c b) BDone) | None \<Rightarrow> page_no_network w))"

definition page_close_socket :: "world \<Rightarrow> bytes \<Rightarrow> page_pc stretch" where
  "page_close_socket w p = with_i32 w p (page_close w)"

text \<open>The table.\<close>

primrec page_handle_op :: "name \<Rightarrow> options \<Rightarrow> world \<Rightarrow> op \<Rightarrow> bytes \<Rightarrow> page_pc stretch" where
  "page_handle_op self opts w NOW_MILLIS p = page_now_millis w"
| "page_handle_op self opts w MONOTONIC_NANOS p = page_monotonic_nanos w"
| "page_handle_op self opts w RENDER p = page_render opts w p"
| "page_handle_op self opts w SET_TEXT p = page_set_text opts w p"
| "page_handle_op self opts w SET_VALUE p = page_set_value opts w p"
| "page_handle_op self opts w GET_VALUE p = page_get_value opts w p"
| "page_handle_op self opts w ON p = page_on opts w p"
| "page_handle_op self opts w TITLE p = page_title opts w p"
| "page_handle_op self opts w NEXT_EVENT p = page_next_event opts w"
| "page_handle_op self opts w DRAW_PIXELS p = page_draw_pixels opts w p"
| "page_handle_op self opts w NEXT_FILE p = page_next_file opts w"
| "page_handle_op self opts w OFFER_DOWNLOAD p = page_offer_download opts w p"
| "page_handle_op self opts w CWD p = page_cwd opts w"
| "page_handle_op self opts w SLEEP_MILLIS p = page_sleep_millis w p"
| "page_handle_op self opts w RANDOM_BYTES p = page_random_bytes w p"
| "page_handle_op self opts w LOG p = page_log w p"
| "page_handle_op self opts w WARN p = page_warn w p"
| "page_handle_op self opts w PUSH_CHILD p = page_push_child w p"
| "page_handle_op self opts w POP_CHILD p = page_pop_child w"
| "page_handle_op self opts w ARG_COUNT p = page_arg_count opts w"
| "page_handle_op self opts w ARG p = page_arg opts w p"
| "page_handle_op self opts w ENV p = page_env w"
| "page_handle_op self opts w READ_STDIN p = page_read_stdin opts w"
| "page_handle_op self opts w WRITE_STDOUT p = page_write_stdout opts w p"
| "page_handle_op self opts w WRITE_STDERR p = page_write_stderr opts w p"
| "page_handle_op self opts w SPAWN p = page_spawn self opts w p"
| "page_handle_op self opts w SPAWN_SELF p = page_spawn_self self opts w p"
| "page_handle_op self opts w CLOSE_FEED p = page_close_feed w p"
| "page_handle_op self opts w EXIT_CODE p = page_exit_code w p"
| "page_handle_op self opts w READ_FILE p = page_read_file opts w p"
| "page_handle_op self opts w WRITE_FILE p = page_write_file opts w p"
| "page_handle_op self opts w STAT p = page_stat opts w p"
| "page_handle_op self opts w LINK_STAT p = page_stat opts w p"
| "page_handle_op self opts w READ_DIR p = page_read_dir opts w p"
| "page_handle_op self opts w MKDIR p = page_mkdir opts w p"
| "page_handle_op self opts w REMOVE p = page_remove opts w p"
| "page_handle_op self opts w RENAME p = page_rename opts w p"
| "page_handle_op self opts w OPEN_INPUT p = page_open_input opts w p"
| "page_handle_op self opts w READ_CHUNK p = page_read_chunk opts w"
| "page_handle_op self opts w OUTPUT_ERROR p = page_output_error w"
| "page_handle_op self opts w OPEN_OUTPUT p = page_open_output opts w p"
| "page_handle_op self opts w CONNECT p = page_no_network w"
| "page_handle_op self opts w LISTEN p = page_no_network w"
| "page_handle_op self opts w ACCEPT p = page_no_network w"
| "page_handle_op self opts w RECV p = page_recv opts w p"
| "page_handle_op self opts w SEND p = page_send w p"
| "page_handle_op self opts w CLOSE_SOCKET p = page_close_socket w p"

lemmas page_handler_defs =
  page_render_def page_set_text_def page_set_value_def page_get_value_def page_on_def page_title_def
  page_next_event_def page_draw_pixels_def page_next_file_def page_offer_download_def
  page_now_millis_def page_monotonic_nanos_def page_cwd_def page_sleep_millis_def page_random_bytes_def
  page_log_def page_warn_def page_push_child_def page_pop_child_def page_arg_count_def page_arg_def
  page_env_def page_read_stdin_def page_write_stdout_def page_write_stderr_def page_spawn_def
  page_spawn_self_def page_close_feed_def page_exit_code_def page_read_file_def page_write_file_def
  page_stat_def page_read_dir_def page_mkdir_def page_remove_def page_rename_def page_open_input_def
  page_read_chunk_def page_output_error_def page_open_output_def page_no_network_def page_recv_def
  page_send_def page_close_socket_def

subsection \<open>The handlers from a reply on\<close>

primrec page_resume :: "options \<Rightarrow> world \<Rightarrow> page_pc \<Rightarrow> os_reply \<Rightarrow> page_pc stretch" where
  "page_resume opts w BInt64 r =
     (case r of IntR n \<Rightarrow> (w, Finish (i64le n)) | Raised e \<Rightarrow> (w, Fail e) | _ \<Rightarrow> unexpected w)"
| "page_resume opts w BBytes r =
     (case r of BytesR b \<Rightarrow> (w, Finish b) | Raised e \<Rightarrow> (w, Fail e) | _ \<Rightarrow> unexpected w)"
| "page_resume opts w BDone r =
     (case r of Raised e \<Rightarrow> (w, Fail e) | _ \<Rightarrow> (w, Finish []))"
| "page_resume opts w BText r =
     (case r of TextR s \<Rightarrow> (w, Finish (str s)) | Raised e \<Rightarrow> (w, Fail e) | _ \<Rightarrow> unexpected w)"
| "page_resume opts w BEvent r =
     (case r of EventR fs \<Rightarrow> (w, Finish (str (join0 fs))) | Raised e \<Rightarrow> (w, Fail e) | _ \<Rightarrow> unexpected w)"
| "page_resume opts w BPicked r =
     (case r of PickedR ok fname b why \<Rightarrow> (w, Finish (picked_answer ok fname b why))
      | Raised e \<Rightarrow> (w, Fail e) | _ \<Rightarrow> unexpected w)"
| "page_resume opts w BPiped r =
     (case r of BytesR b \<Rightarrow> (w, Finish (tagged b)) | Raised e \<Rightarrow> (w, Fail e) | _ \<Rightarrow> unexpected w)"
| "page_resume opts w BSlice r =
     (case r of BytesR b \<Rightarrow> (w, Finish (data b)) | Raised e \<Rightarrow> (w, Finish (failed (text_of e))) | _ \<Rightarrow> unexpected w)"
| "page_resume opts w BWritten r =
     (case r of Raised e \<Rightarrow> page_output_failed w e | _ \<Rightarrow> (w, Finish []))"
| "page_resume opts w (BWalk g ns) r =
     (case r of OpenedR d \<Rightarrow> (w, page_walk g d ns) | Raised e \<Rightarrow> (w, goal_failed opts w g e) | _ \<Rightarrow> unexpected w)"
| "page_resume opts w (BFile g) r =
     (case r of OpenedR h \<Rightarrow> (w, Await (Opfs (GetFile h)) (BBlob g)) | Raised e \<Rightarrow> (w, goal_failed opts w g e) | _ \<Rightarrow> unexpected w)"
| "page_resume opts w (BBlob g) r =
     (case r of BlobR k n t \<Rightarrow> at_blob w g k n t | Raised e \<Rightarrow> (w, goal_failed opts w g e) | _ \<Rightarrow> unexpected w)"
| "page_resume opts w BBuffer r =
     (case r of BytesR b \<Rightarrow> (w, Finish b) | Raised e \<Rightarrow> (w, phrased e) | _ \<Rightarrow> unexpected w)"
| "page_resume opts w (BCopyBuffer src dst) r =
     (case r of BytesR b \<Rightarrow> (w, page_resolve opts w dst (CopyTo src b))
      | Raised e \<Rightarrow> (w, page_changed_failed describeAsPhrase e) | _ \<Rightarrow> unexpected w)"
| "page_resume opts w (BTarget g) r =
     (case r of OpenedR h \<Rightarrow> (w, Await (Opfs (CreateWritable h)) (BWritable g))
      | Raised e \<Rightarrow> (w, goal_failed opts w g e) | _ \<Rightarrow> unexpected w)"
| "page_resume opts w (BWritable g) r =
     (case r of OpenedR f \<Rightarrow> (w, Await (Opfs (WriteInto f (goal_bytes g))) (BWrote g f))
      | Raised e \<Rightarrow> (w, goal_failed opts w g e) | _ \<Rightarrow> unexpected w)"
| "page_resume opts w (BWrote g f) r =
     (case r of Raised e \<Rightarrow> (w, goal_failed opts w g e) | _ \<Rightarrow> (w, Await (Opfs (CloseWritable f)) (BClosed g)))"
| "page_resume opts w (BClosed g) r =
     (case r of Raised e \<Rightarrow> (w, goal_failed opts w g e) | _ \<Rightarrow> (w, goal_written opts w g))"
| "page_resume opts w (BProbe d n) r =
     (case r of Raised e \<Rightarrow> (w, Await (Opfs (GetDirectory d n True)) BLast)
      | _ \<Rightarrow> (w, page_changed_failed describeAsPhrase (Faulted FAULT_EXISTS (js ''already exists''))))"
| "page_resume opts w BLast r =
     (case r of Raised e \<Rightarrow> (w, page_changed_failed describeAsPhrase e) | _ \<Rightarrow> (w, Finish CHANGED_OK))"
| "page_resume opts w BSinkFile r =
     (case r of OpenedR h \<Rightarrow> (w, Await (Opfs (CreateWritable h)) BSinkOpen)
      | Raised e \<Rightarrow> (w, goal_failed opts w SinkGoal e) | _ \<Rightarrow> unexpected w)"
| "page_resume opts w BSinkOpen r =
     (case r of OpenedR f \<Rightarrow> (w\<lparr>sink_file := Some f\<rparr>, Finish CHANGED_OK)
      | Raised e \<Rightarrow> (w, goal_failed opts w SinkGoal e) | _ \<Rightarrow> unexpected w)"
| "page_resume opts w (BDirs g ns) r =
     (case r of OpenedR d \<Rightarrow> (w, walk_dirs g d ns) | Raised e \<Rightarrow> (w, dir_failed g e) | _ \<Rightarrow> unexpected w)"
| "page_resume opts w BKeys r =
     (case r of NamesR ns \<Rightarrow> (w, Finish (str (join0 (sort_names ns)))) | Raised e \<Rightarrow> (w, Fail e) | _ \<Rightarrow> unexpected w)"
| "page_resume opts w (BCloseSink path) r =
     (case r of Raised e \<Rightarrow> (w, Fail e) | _ \<Rightarrow> page_open_sink opts (w\<lparr>sink_file := None\<rparr>) path)"
| "page_resume opts w (BCloseIn h) r = page_close_kill w h r"
| "page_resume opts w (BCloseKill h) r = page_forget w h"
| "page_resume opts w (BStart c h) r =
     (case r of Raised e \<Rightarrow> (w, Fail e) | _ \<Rightarrow> (w, Await (ChildLoaded c) (BLoaded c h)))"
| "page_resume opts w (BLoaded c h) r =
     (case r of TextR why \<Rightarrow>
          (if why \<noteq> [] then (w, Do (ChildKill c) (BKilled why)) else register_child w c h)
      | Raised e \<Rightarrow> (w, Fail e) | _ \<Rightarrow> unexpected w)"
| "page_resume opts w (BKilled why) r =
     (case r of Raised e \<Rightarrow> (w, Fail e) | _ \<Rightarrow> (w, Finish (failedChild why)))"
| "page_resume opts w BExit r =
     (case r of IntR n \<Rightarrow> (w, Finish (i32le n)) | Raised e \<Rightarrow> (w, Fail e) | _ \<Rightarrow> unexpected w)"

section \<open>The contract\<close>

text \<open>What a waiting handler may still use, and has set aside.\<close>

fun goal_needs :: "goal \<Rightarrow> capability set" where
  "goal_needs ReadGoal = {FsRead}"
| "goal_needs (StatGoal path) = {FsRead}"
| "goal_needs OpenGoal = {FsRead}"
| "goal_needs g = {FsRead, FsWrite}"

fun page_will_need :: "page_pc \<Rightarrow> capability set" where
  "page_will_need (BWalk g ns) = goal_needs g"
| "page_will_need (BFile g) = goal_needs g"
| "page_will_need (BBlob g) = goal_needs g"
| "page_will_need (BCopyBuffer src dst) = {FsRead, FsWrite}"
| "page_will_need (BTarget g) = {FsRead, FsWrite}"
| "page_will_need (BWritable g) = {FsRead, FsWrite}"
| "page_will_need (BWrote g f) = {FsRead, FsWrite}"
| "page_will_need (BClosed g) = {FsRead, FsWrite}"
| "page_will_need (BProbe d n) = {FsWrite}"
| "page_will_need BSinkFile = {FsWrite}"
| "page_will_need BSinkOpen = {FsWrite}"
| "page_will_need (BDirs g ns) = {FsRead}"
| "page_will_need _ = {}"

fun page_reserved :: "page_pc \<Rightarrow> int option" where
  "page_reserved (BStart c h) = Some h"
| "page_reserved (BLoaded c h) = Some h"
| "page_reserved _ = None"

lemmas page_stretch_defs = with_i32_def deny_def denied_change_def with_dom_def page_output_failed_def
  page_open_sink_def page_startChild_def start_worker_def register_child_def unexpected_def add_handle_def
  page_forget_def page_close_def page_close_kill_def canWrite_def Let_def page_handler_defs

text \<open>Endings that only answer: they call nothing.\<close>

lemma phrased_answers [simp]: "call_of (phrased e) = None"
  by (simp add: phrased_def split: thrown.split option.split)

lemma changed_answers [simp]: "call_of (page_changed_failed d e) = None"
  by (simp add: page_changed_failed_def split: option.split)

lemma dir_failed_answers [simp]: "call_of (dir_failed g e) = None"
  by (cases g) simp_all

lemma ending_ok_calls: "ending_ok n opts e \<longleftrightarrow> (\<forall>c q. call_of e = Some (c, q) \<longrightarrow> needs c \<union> n q \<subseteq> grants opts)"
  by (cases e) auto

lemma ending_ok_answers [simp]: "call_of e = None \<Longrightarrow> ending_ok n opts e"
  by (simp add: ending_ok_calls)

lemma dirs_ok: "fs_read opts \<Longrightarrow> ending_ok page_will_need opts (walk_dirs g d ns)"
  by (cases "(g, d, ns)" rule: walk_dirs.cases) auto

lemma dirOf_ok [simp]: "ending_ok page_will_need opts (dirOf opts w path g)"
  by (simp add: dirOf_def dirs_ok)

lemma goal_failed_ok [simp]: "ending_ok page_will_need opts (goal_failed opts w g e)"
  by (cases g) simp_all

lemma at_goal_ok: "goal_needs g \<subseteq> grants opts \<Longrightarrow> ending_ok page_will_need opts (at_goal g d n)"
  by (cases g) auto

lemma walk_ok: "goal_needs g \<subseteq> grants opts \<Longrightarrow> ending_ok page_will_need opts (page_walk g d ns)"
proof (cases "(g, d, ns)" rule: page_walk.cases)
  case (3 g' d' m n ns')
  then show "goal_needs g \<subseteq> grants opts \<Longrightarrow> ?thesis" by (cases g) auto
qed (use at_goal_ok in auto)

lemma resolve_ok [simp]:
  "(fs_read opts \<Longrightarrow> goal_needs g \<subseteq> grants opts) \<Longrightarrow> ending_ok page_will_need opts (page_resolve opts w path g)"
  by (simp add: page_resolve_def Let_def walk_ok)

lemma at_blob_ok: "world_ok opts w \<Longrightarrow> goal_needs g \<subseteq> grants opts \<Longrightarrow> stretch_ok page_will_need opts (at_blob w g k n t)"
  by (cases g) (simp_all add: stretch_ok_def unexpected_def)

lemma written_ok: "{FsRead, FsWrite} \<subseteq> grants opts \<Longrightarrow> ending_ok page_will_need opts (goal_written opts w g)"
  by (cases g) simp_all

lemma goal_reads: "goal_needs g \<subseteq> grants opts \<Longrightarrow> fs_read opts"
  by (cases g) auto

lemma page_child_narrows: "grants (page_child_options opts n as wanted d inh) \<subseteq> grants opts"
proof
  fix c
  assume "c \<in> grants (page_child_options opts n as wanted d inh)"
  then show "c \<in> grants opts" by (cases c) (simp_all add: page_child_options_def Let_def)
qed

lemma page_handle_op_ok: "world_ok opts w \<Longrightarrow> stretch_ok page_will_need opts (page_handle_op self opts w oper p)"
  by (cases oper)
    (simp_all add: stretch_ok_def page_stretch_defs readChunkIn_def world_ok_open page_child_narrows
       split: option.split prod.split, auto)

lemma page_resume_ok:
  "world_ok opts w \<Longrightarrow> page_will_need q \<subseteq> grants opts \<Longrightarrow> stretch_ok page_will_need opts (page_resume opts w q r)"
  by (cases q)
    (simp_all add: stretch_ok_def at_blob_ok [unfolded stretch_ok_def] walk_ok dirs_ok written_ok goal_reads page_stretch_defs
       world_ok_open split: os_reply.split option.split)

lemma page_handle_op_tables:
  assumes "oper \<noteq> SPAWN" "oper \<noteq> SPAWN_SELF"
  shows "same_tables w (fst (page_handle_op self opts w oper p))"
  using assms
  by (cases oper) (simp_all add: same_tables_def page_stretch_defs split: option.split prod.split)

text \<open>Walking sets nothing aside.\<close>

lemma aside_answers [simp]: "call_of e = None \<Longrightarrow> aside_of res e = None"
  by (cases e) simp_all

lemma dirs_aside [simp]: "aside_of page_reserved (walk_dirs g d ns) = None"
  by (cases "(g, d, ns)" rule: walk_dirs.cases) simp_all

lemma dirOf_aside [simp]: "aside_of page_reserved (dirOf opts w path g) = None"
  by (simp add: dirOf_def)

lemma goal_failed_aside [simp]: "aside_of page_reserved (goal_failed opts w g e) = None"
  by (cases g) simp_all

lemma at_goal_aside [simp]: "aside_of page_reserved (at_goal g d n) = None"
  by (cases g) simp_all

lemma walk_aside [simp]: "aside_of page_reserved (page_walk g d ns) = None"
  by (cases "(g, d, ns)" rule: page_walk.cases) simp_all

lemma resolve_aside [simp]: "aside_of page_reserved (page_resolve opts w path g) = None"
  by (simp add: page_resolve_def Let_def)

lemma written_aside [simp]: "aside_of page_reserved (goal_written opts w g) = None"
  by (cases g) simp_all

lemma at_blob_aside [simp]: "aside_of page_reserved (snd (at_blob w g k n t)) = None"
  by (cases g) (simp_all add: unexpected_def)

lemma at_blob_tables: "same_tables w (fst (at_blob w g k n t))"
  by (cases g) (simp_all add: unexpected_def same_tables_def)

lemma page_handle_op_aside:
  assumes "oper \<noteq> SPAWN" "oper \<noteq> SPAWN_SELF"
  shows "aside_of page_reserved (snd (page_handle_op self opts w oper p)) = None"
  using assms
  by (cases oper) (simp_all add: page_stretch_defs readChunkIn_def split: option.split prod.split)

lemma page_handle_op_counts:
  assumes "below w"
  shows "stretch_counts page_reserved w None (page_handle_op self opts w oper p)"
proof -
  have same: "stretch_counts page_reserved w None (w, Fail e)" "stretch_counts page_reserved w None (w, Finish b)" for e b
    by (rule counts_tables [OF assms]; simp add: same_tables_def)+
  have st: "stretch_counts page_reserved w None (page_startChild self opts w src as n d inh)" for src as n d inh
    unfolding page_startChild_def by (rule counts_start [OF assms]) simp
  consider "oper = SPAWN" | "oper = SPAWN_SELF" | "oper \<noteq> SPAWN" "oper \<noteq> SPAWN_SELF" by blast
  then show ?thesis
  proof cases
    case 1
    then show ?thesis using same st by (simp add: page_spawn_def split: option.split prod.split)
  next
    case 2
    then show ?thesis using same st by (simp add: page_spawn_self_def split: option.split prod.split)
  next
    case 3
    show ?thesis
      by (rule counts_tables [OF assms page_handle_op_tables]) (simp_all add: 3 page_handle_op_aside)
  qed
qed

lemma counts_page_forget:
  assumes "below w"
  shows "stretch_counts page_reserved w a (page_forget w h)"
  unfolding stretch_counts_def
proof (rule counted_same [OF assms])
  show "table_role (fst (page_forget w h)) r k \<Longrightarrow> table_role w r k" for r k
    by (cases r) (auto simp: page_forget_def split: if_splits)
qed (simp_all add: page_forget_def)

lemma page_resume_counts:
  assumes "below w" "\<And>h. page_reserved q = Some h \<Longrightarrow> h < nextHandle w"
  shows "stretch_counts page_reserved w (page_reserved q) (page_resume opts w q r)"
proof -
  have same: "stretch_counts page_reserved w a (w', e)" if "same_tables w w'" "aside_of page_reserved e = None \<or> aside_of page_reserved e = a"
    for a w' e using that by (intro counts_tables [OF assms(1)]) simp_all
  consider (load) c h where "q = BLoaded c h" | (in1) h where "q = BCloseIn h" | (kill) h where "q = BCloseKill h"
    | (blob) g where "q = BBlob g"
    | (other) "\<forall>c h. q \<noteq> BLoaded c h" "\<forall>h. q \<noteq> BCloseIn h" "\<forall>h. q \<noteq> BCloseKill h" "\<forall>g. q \<noteq> BBlob g" by blast
  then show ?thesis
  proof cases
    case load
    then show ?thesis
      using assms(2) counts_register [OF assms(1), where res = page_reserved] same [of w] by (simp add: same_tables_def unexpected_def split: os_reply.split)
  next
    case in1
    then show ?thesis
      using counts_page_forget [OF assms(1)] same [of w]
      by (simp add: same_tables_def page_close_kill_def split: os_reply.split option.split)
  next
    case kill
    then show ?thesis using counts_page_forget [OF assms(1)] by simp
  next
    case blob
    then show ?thesis
      using counts_tables [OF assms(1) at_blob_tables] same [of w]
      by (simp add: same_tables_def unexpected_def split: os_reply.split)
  next
    case other
    have "same_tables w (fst (page_resume opts w q r))"
      using other by (cases q) (simp_all add: same_tables_def page_stretch_defs split: os_reply.split)
    moreover have "aside_of page_reserved (snd (page_resume opts w q r)) \<in> {None, page_reserved q}"
      using other by (cases q) (simp_all add: page_stretch_defs split: os_reply.split)
    ultimately show ?thesis by (intro counts_tables [OF assms(1)]) auto
  qed
qed

text \<open>Walking only calls the file system.\<close>

fun only_opfs :: "page_pc ending \<Rightarrow> bool" where
  "only_opfs (Await c q) = (\<exists>x. c = Opfs x)"
| "only_opfs (Do c q) = False"
| "only_opfs _ = True"

lemma opfs_answers [simp]: "call_of e = None \<Longrightarrow> only_opfs e"
  by (cases e) simp_all

lemma opfs_walks [simp]:
  "only_opfs (walk_dirs g1 d ns)" "only_opfs (dirOf opts w path g1)" "only_opfs (goal_failed opts w g e)"
  "only_opfs (at_goal g d n)" "only_opfs (page_walk g d ns)" "only_opfs (page_resolve opts w path g)"
  "only_opfs (goal_written opts w g)" "only_opfs (snd (at_blob w g k m t))"
proof -
  show a: "only_opfs (walk_dirs g1 d ns)" for g1 d ns by (cases "(g1, d, ns)" rule: walk_dirs.cases) simp_all
  show b: "only_opfs (dirOf opts w path g1)" for g1 path using a by (simp add: dirOf_def)
  show f: "only_opfs (goal_failed opts w g e)" for e g using b by (cases g) simp_all
  show c: "only_opfs (at_goal g d n)" for g d n by (cases g) simp_all
  show k: "only_opfs (page_walk g d ns)" for g d ns using c by (cases "(g, d, ns)" rule: page_walk.cases) simp_all
  show r: "only_opfs (page_resolve opts w path g)" for path g using f k by (simp add: page_resolve_def Let_def)
  show "only_opfs (goal_written opts w g)" using r by (cases g) simp_all
  show "only_opfs (snd (at_blob w g k m t))" by (cases g) (simp_all add: unexpected_def)
qed

lemma opfs_starts_none [simp]: "only_opfs e \<Longrightarrow> child_started e = None" "only_opfs e \<Longrightarrow> child_given e = None"
  by (cases e; auto)+

lemma page_others_start_none:
  assumes "oper \<noteq> SPAWN" "oper \<noteq> SPAWN_SELF"
  shows "child_started (snd (page_handle_op self opts w oper p)) = None
    \<and> child_given (snd (page_handle_op self opts w oper p)) = None"
  using assms
  by (cases oper) (simp_all add: page_stretch_defs readChunkIn_def split: option.split prod.split, auto)

lemma page_handle_op_child:
  assumes "child_started (snd (page_handle_op self opts w oper p)) = Some m"
  shows "m = self @ [nextHandle w] \<and> nextHandle (fst (page_handle_op self opts w oper p)) = nextHandle w + 1"
proof -
  have "oper = SPAWN \<or> oper = SPAWN_SELF" using assms page_others_start_none by (metis option.distinct(1))
  then show ?thesis using assms by (auto simp: page_stretch_defs split: option.splits prod.splits)
qed

lemma page_handle_op_gives:
  assumes "child_given (snd (page_handle_op self opts w oper p)) = Some os"
  shows "\<not> dom_opt os \<and> \<not> net_opt os \<and> \<not> env_opt os"
proof -
  have "oper = SPAWN \<or> oper = SPAWN_SELF" using assms page_others_start_none by (metis option.distinct(1))
  then show ?thesis using assms by (auto simp: page_stretch_defs page_child_options_def split: option.splits prod.splits)
qed

lemma page_resume_child:
  "child_started (snd (page_resume opts w q r)) = None" "child_given (snd (page_resume opts w q r)) = None"
  by (cases q; simp add: page_stretch_defs split: os_reply.split option.split)+

interpretation page: world_family page_handle_op page_resume page_will_need page_reserved
proof
  show "world_ok opts w \<Longrightarrow> stretch_ok page_will_need opts (page_handle_op self opts w oper p)" for opts w self oper p
    by (rule page_handle_op_ok)
  show "world_ok opts w \<Longrightarrow> page_will_need q \<subseteq> grants opts \<Longrightarrow> stretch_ok page_will_need opts (page_resume opts w q r)"
    for opts w q r by (rule page_resume_ok)
  show "below w \<Longrightarrow> stretch_counts page_reserved w None (page_handle_op self opts w oper p)" for w self opts oper p
    by (rule page_handle_op_counts)
  show "below w \<Longrightarrow> (\<And>h. page_reserved q = Some h \<Longrightarrow> h < nextHandle w) \<Longrightarrow>
      stretch_counts page_reserved w (page_reserved q) (page_resume opts w q r)" for w q opts r
    by (rule page_resume_counts)
  show "child_started (snd (page_handle_op self opts w oper p)) = Some m \<Longrightarrow>
      m = self @ [nextHandle w] \<and> nextHandle (fst (page_handle_op self opts w oper p)) = nextHandle w + 1"
    for self opts w oper p m by (rule page_handle_op_child)
  show "child_started (snd (page_resume opts w q r)) = None" for opts w q r
    by (rule page_resume_child)
qed

interpretation page_kin: world_kin page_handle_op page_resume "\<lambda>os. \<not> dom_opt os \<and> \<not> net_opt os \<and> \<not> env_opt os"
  by unfold_locales (rule page_handle_op_gives page_resume_child | assumption)+

text \<open>
  Which call a handler waits for at a place. After closing the output a page may find that it was never
  allowed to write, and throws the refusal.
\<close>

fun reads_file :: "goal \<Rightarrow> bool" where
  "reads_file ReadGoal = True"
| "reads_file (StatGoal path) = True"
| "reads_file OpenGoal = True"
| "reads_file (CopyGoal src dst) = True"
| "reads_file g = False"

primrec page_takes :: "page_pc \<Rightarrow> os_call \<Rightarrow> bool" where
  "page_takes BInt64 c = (c = DateNow \<or> c = PerformanceNow \<or> (\<exists>ms. c = SetTimeout ms))"
| "page_takes BBytes c = ((\<exists>n. c = RandomValues n) \<or> (\<exists>s. c = PipedAll s))"
| "page_takes BDone c = ((\<exists>l. c = LogLine l) \<or> (\<exists>l. c = WarnLine l) \<or> (\<exists>b. c = PipedWriteErr b) \<or> (\<exists>n b. c = ChildIn n b)
     \<or> (\<exists>n. c = ChildInEnd n) \<or> (\<exists>d. c = Dom d \<and> replies c Done))"
| "page_takes BText c = (\<exists>i. c = Dom (DomValue i))"
| "page_takes BEvent c = (c = Dom DomNext)"
| "page_takes BPicked c = (c = Dom DomNextFile)"
| "page_takes BPiped c = ((\<exists>s. c = PipedChunk s) \<or> (\<exists>s. c = PipedAll s) \<or> (\<exists>n. c = ChildOut n) \<or> (\<exists>n. c = ChildErr n))"
| "page_takes BSlice c = (\<exists>k a b. c = Opfs (SliceBuffer k a b))"
| "page_takes BWritten c = ((\<exists>b. c = PipedWrite b) \<or> (\<exists>l. c = ConsoleLog l) \<or> (\<exists>f b. c = Opfs (WriteInto f b)))"
| "page_takes (BWalk g ns) c = (ns \<noteq> [] \<and> (\<exists>d n m. c = Opfs (GetDirectory d n m)))"
| "page_takes (BFile g) c = (reads_file g \<and> (\<exists>d n m. c = Opfs (GetFileHandle d n m)))"
| "page_takes (BBlob g) c = (reads_file g \<and> (\<exists>h. c = Opfs (GetFile h)))"
| "page_takes BBuffer c = (\<exists>k. c = Opfs (ArrayBuffer k))"
| "page_takes (BCopyBuffer src dst) c = (\<exists>k. c = Opfs (ArrayBuffer k))"
| "page_takes (BTarget g) c = (\<exists>d n m. c = Opfs (GetFileHandle d n m))"
| "page_takes (BWritable g) c = (\<exists>h. c = Opfs (CreateWritable h))"
| "page_takes (BWrote g f) c = (c = Opfs (WriteInto f (goal_bytes g)))"
| "page_takes (BClosed g) c = (\<exists>f. c = Opfs (CloseWritable f))"
| "page_takes (BProbe d n) c = (c = Opfs (GetDirectory d n False))"
| "page_takes BLast c = ((\<exists>d n m. c = Opfs (GetDirectory d n m)) \<or> (\<exists>d n r. c = Opfs (RemoveEntry d n r)))"
| "page_takes BSinkFile c = (\<exists>d n m. c = Opfs (GetFileHandle d n m))"
| "page_takes BSinkOpen c = (\<exists>h. c = Opfs (CreateWritable h))"
| "page_takes (BDirs g ns) c = (\<exists>d n m. c = Opfs (GetDirectory d n m))"
| "page_takes BKeys c = (\<exists>d. c = Opfs (DirKeys d))"
| "page_takes (BCloseSink path) c = (\<exists>f. c = Opfs (CloseWritable f))"
| "page_takes (BCloseIn h) c = (\<exists>n. c = ChildInEnd n)"
| "page_takes (BCloseKill h) c = (\<exists>n. c = ChildKill n)"
| "page_takes (BStart n h) c = (\<exists>src as os. c = StartChild n src as os)"
| "page_takes (BLoaded n h) c = (c = ChildLoaded n)"
| "page_takes (BKilled why) c = (\<exists>n. c = ChildKill n)"
| "page_takes BExit c = (\<exists>n. c = ChildExit n)"

fun closing_sink :: "world \<Rightarrow> page_pc \<Rightarrow> bool" where
  "closing_sink w (BCloseSink path) = True"
| "closing_sink w _ = False"

definition ending_fits :: "page_pc ending \<Rightarrow> bool" where
  "ending_fits e \<longleftrightarrow> (\<forall>c q. call_of e = Some (c, q) \<longrightarrow> page_takes q c)"

lemma fits_simps [simp]:
  "ending_fits (Finish b)" "ending_fits (Fail e)" "ending_fits (Await c q) = page_takes q c" "ending_fits (Do c q) = page_takes q c"
  "call_of x = None \<Longrightarrow> ending_fits x"
  by (auto simp: ending_fits_def)

lemma calls_fit_ending: "calls_fit page_takes st \<longleftrightarrow> ending_fits (snd st)"
  by (simp add: calls_fit_def ending_fits_def)

lemma walks_fit [simp]:
  "ending_fits (walk_dirs g1 d ns)" "ending_fits (dirOf opts w path g1)" "ending_fits (goal_failed opts w g e)"
  "ending_fits (at_goal g d n)" "ending_fits (page_walk g d ns)" "ending_fits (page_resolve opts w path g)"
  "ending_fits (goal_written opts w g)" "ending_fits (snd (at_blob w g k m t))"
proof -
  show a: "ending_fits (walk_dirs g1 d ns)" for g1 d ns by (cases "(g1, d, ns)" rule: walk_dirs.cases) (simp_all, blast)
  show b: "ending_fits (dirOf opts w path g1)" for g1 path using a by (simp add: dirOf_def)
  show f: "ending_fits (goal_failed opts w g e)" for e g using b by (cases g) simp_all
  show c: "ending_fits (at_goal g d n)" for g d n by (cases g) (simp_all, blast+)
  show k: "ending_fits (page_walk g d ns)" for g d ns using c by (cases "(g, d, ns)" rule: page_walk.cases) simp_all
  show r: "ending_fits (page_resolve opts w path g)" for path g using f k by (simp add: page_resolve_def Let_def)
  show "ending_fits (goal_written opts w g)" using r by (cases g) simp_all
  show "ending_fits (snd (at_blob w g k m t))" by (cases g) (simp_all add: unexpected_def)
qed

lemma page_handle_op_fits: "calls_fit page_takes (page_handle_op self opts w oper p)"
  unfolding calls_fit_ending
  by (cases oper) (simp_all add: page_stretch_defs readChunkIn_def split: option.split prod.split, auto)

lemma page_resume_fits:
  "page_takes q c \<Longrightarrow> replies c r \<Longrightarrow> calls_fit page_takes (page_resume opts w q r)"
  unfolding calls_fit_ending
  by (cases q) (simp_all add: page_stretch_defs split: os_reply.split option.split, auto)

text \<open>What the code itself throws is classified, so a change that fails for it is answered.\<close>

lemma own_changes_answered [simp]:
  "page_changed_failed d (plain_error cls why) \<noteq> Fail e" "page_changed_failed d (Faulted f why) \<noteq> Fail e"
  by (auto simp: page_changed_failed_def changed_def plain_error_def split: option.split)

lemma walks_dont_fail [simp]:
  "walk_dirs g1 d ns \<noteq> Fail e" "at_goal g d n \<noteq> Fail e" "ns \<noteq> [] \<Longrightarrow> page_walk g d ns \<noteq> Fail e"
  "page_resolve opts w path (CopyTo src b) \<noteq> Fail e" "page_resolve opts w path RenameGoal \<noteq> Fail e"
  "goal_written opts w g \<noteq> Fail e"
proof -
  show "walk_dirs g1 d ns \<noteq> Fail e" by (cases "(g1, d, ns)" rule: walk_dirs.cases) simp_all
  show a: "at_goal g d n \<noteq> Fail e" for g d n by (cases g) simp_all
  show k: "page_walk g d ns \<noteq> Fail e" if "ns \<noteq> []" for g d ns using a that by (cases "(g, d, ns)" rule: page_walk.cases) simp_all
  show "page_resolve opts w path (CopyTo src b) \<noteq> Fail e" using k by (simp add: page_resolve_def Let_def denied_def)
  show r: "page_resolve opts w path RenameGoal \<noteq> Fail e" for path using k by (simp add: page_resolve_def Let_def denied_def)
  show "goal_written opts w g \<noteq> Fail e" using r by (cases g) simp_all
qed

lemma at_blob_takes: "reads_file g \<Longrightarrow> snd (at_blob w g k m t) \<noteq> Fail e"
  by (cases g) auto

lemma page_resume_understood:
  "page_takes q c \<Longrightarrow> replies c r \<Longrightarrow> snd (page_resume opts w q r) = Fail e \<Longrightarrow> is_raised r \<or> closing_sink w q"
  by (cases q; cases r) (auto simp: page_stretch_defs at_blob_takes split: option.splits if_splits)

interpretation page_typed: typed_handlers page_handle_op page_resume page_takes closing_sink
  by unfold_locales (auto simp: page_handle_op_fits page_resume_fits dest: page_resume_understood)

end
