(* ===== verification/Browser_Props.thy ===== *)
theory Browser_Props
  imports Browser_World Deno_World
begin

text \<open>
  What the world of a page guarantees, and three places where it does not do what it says: the input
  a child inherits, a rename onto itself, and the handle of an error stream.
\<close>

section \<open>Payloads of a page\<close>

text \<open>\<open>provider.ts\<close>: what the worker makes of an event (its numbers as text) and of a picked file.\<close>

definition event_fields :: "bytes \<Rightarrow> jsstring list" where
  "event_fields b =
     (let parts = split0 (unstr b)
      in map (\<lambda>i. if i < length parts then parts ! i else if i < 3 then [] else js ''0'') [0..<5])"

definition picked_of :: "bytes \<Rightarrow> (bool \<times> jsstring \<times> bytes \<times> jsstring) option" where
  "picked_of out1 =
     (case readI32le (subarray_from out1 1) of
        None \<Rightarrow> None
      | Some nameLen \<Rightarrow>
          (case readI32le (subarray_from out1 (5 + nameLen)) of
             None \<Rightarrow> None
           | Some errLen \<Rightarrow>
               Some (byte_is out1 0 1, unstr (subarray out1 5 (5 + nameLen)), subarray_from out1 (9 + nameLen + errLen),
                     unstr (subarray out1 (9 + nameLen) (9 + nameLen + errLen)))))"

lemma picked_roundtrip:
  assumes "text_ok fname" "text_ok why" "length (str fname) < 2147483648" "length (str why) < 2147483648"
  shows "picked_of (picked_answer ok fname b why) = Some (ok, fname, b, why)"
proof -
  let ?m = "int (length (str fname))" and ?n = "int (length (str why))" and ?p = "picked_answer ok fname b why"
  let ?o = "[if ok then 1 else 0 :: byte]"
  have p1: "?p = ?o @ i32le ?m @ (str fname @ i32le ?n @ str why @ b)"
    and p2: "?p = (?o @ i32le ?m) @ str fname @ (i32le ?n @ str why @ b)"
    and p3: "?p = (?o @ i32le ?m @ str fname) @ (i32le ?n @ (str why @ b))"
    and p4: "?p = (?o @ i32le ?m @ str fname @ i32le ?n) @ str why @ b"
    and p5: "?p = (?o @ i32le ?m @ str fname @ i32le ?n @ str why) @ b"
    and p0: "?p = [] @ (if ok then 1 else 0) # (i32le ?m @ str fname @ i32le ?n @ str why @ b)"
    by (simp_all add: picked_answer_def)
  have a: "readI32le (subarray_from ?p 1) = Some ?m"
    unfolding p1 using assms get_i32le_0 [OF i32_ok_length] by (simp add: subarray_from_1 readI32le_def)
  have e: "readI32le (subarray_from ?p (5 + ?m)) = Some ?n"
    unfolding p3 by (subst subarray_from_mid) (use assms get_i32le_0 [OF i32_ok_length] in \<open>simp_all add: readI32le_def\<close>)
  have f: "subarray ?p 5 (5 + ?m) = str fname"
    unfolding p2 by (rule subarray_mid) simp_all
  have g: "subarray ?p (9 + ?m) (9 + ?m + ?n) = str why"
    unfolding p4 by (rule subarray_mid) simp_all
  have h: "subarray_from ?p (9 + ?m + ?n) = b"
    unfolding p5 by (rule subarray_from_mid) simp
  have k: "byte_is ?p 0 1 = ok"
    unfolding p0 by (subst byte_is_mid) simp_all
  show ?thesis
    using assms by (simp add: picked_of_def a e f g h k unstr_def) (simp add: str_def decode_encode)
qed

lemma draw_roundtrip:
  assumes "i32_ok width" "i32_ok height" "text_ok ident" "length (str ident) < 2147483648"
  shows "draw_args (drawPixels_payload ident width height rgba) = Some (width, height, ident, rgba)"
proof -
  let ?n = "int (length (str ident))" and ?p = "drawPixels_payload ident width height rgba"
  have p1: "?p = i32le width @ (i32le height @ i32le ?n @ str ident @ rgba)"
    and p2: "?p = i32le width @ i32le height @ (i32le ?n @ str ident @ rgba)"
    and p3: "?p = (i32le width @ i32le height) @ (i32le ?n @ (str ident @ rgba))"
    and p4: "?p = (i32le width @ i32le height @ i32le ?n) @ str ident @ rgba"
    and p5: "?p = (i32le width @ i32le height @ i32le ?n @ str ident) @ rgba"
    by (simp_all add: drawPixels_payload_def)
  have a: "readI32le ?p = Some width"
    unfolding p1 readI32le_def by (rule get_i32le_0 [OF assms(1)])
  have b: "readI32le (subarray_from ?p 4) = Some height"
    unfolding p2 by (subst subarray_from_mid) (use assms get_i32le_0 in \<open>simp_all add: readI32le_def\<close>)
  have c: "readI32le (subarray_from ?p 8) = Some ?n"
    unfolding p3 by (subst subarray_from_mid) (use assms get_i32le_0 [OF i32_ok_length] in \<open>simp_all add: readI32le_def\<close>)
  have d: "subarray ?p 12 (12 + ?n) = str ident"
    unfolding p4 by (rule subarray_mid) simp_all
  have e: "subarray_from ?p (12 + ?n) = rgba"
    unfolding p5 by (rule subarray_from_mid) simp
  show ?thesis
    using assms by (simp add: draw_args_def a b c d e unstr_def) (simp add: str_def decode_encode)
qed

lemma two_twoPaths: "two a b = twoPaths a b" "offerDownload_payload f body = prefixed (str f) body"
  by (simp_all add: two_def twoPaths_def offerDownload_payload_def prefixed_def)

lemma event_roundtrip:
  assumes "length fs = 5" "\<forall>f\<in>set fs. 0 \<notin> set f" "text_ok (join0 fs)"
  shows "event_fields (str (join0 fs)) = fs"
proof -
  have "split0 (unstr (str (join0 fs))) = fs"
    using assms split0_join0 [of fs] by (cases fs) (simp_all add: unstr_def str_def decode_encode)
  then show ?thesis
    using assms(1) by (auto simp: event_fields_def intro!: nth_equalityI)
qed

section \<open>Reading a file piece by piece\<close>

text \<open>The slices a history asked for, in order, and what it means that they tile a blob.\<close>

fun slice_of :: "host_effect \<Rightarrow> (nat \<times> nat) list" where
  "slice_of (Calls i (Opfs (SliceBuffer k a b))) = [(a, b)]"
| "slice_of e = []"

definition slices :: "host_effect list \<Rightarrow> (nat \<times> nat) list" where
  "slices es = concat (map slice_of es)"

fun tile_up :: "nat \<Rightarrow> (nat \<times> nat) list \<Rightarrow> nat \<Rightarrow> bool" where
  "tile_up a [] z = (a = z)"
| "tile_up a ((x, y) # xs) z = (x = a \<and> a < y \<and> y \<le> a + CHUNK \<and> tile_up y xs z)"

fun only_reads :: "host_event \<Rightarrow> bool" where
  "only_reads (Request i oper p) = (oper = READ_CHUNK)"
| "only_reads (Reply i r) = True"

definition reading_at :: "nat \<Rightarrow> nat \<Rightarrow> nat \<Rightarrow> page_pc world_host \<Rightarrow> bool" where
  "reading_at k n a s \<longleftrightarrow> source_blob (hworld s) = Some (k, n, a) \<and> a \<le> n \<and> inside s = None
     \<and> (\<forall>i c q. pending s i = Some (c, q) \<longrightarrow> q = BSlice)"

definition piece :: "bytes \<Rightarrow> nat \<times> nat \<Rightarrow> bytes" where
  "piece file xy = take (snd xy - fst xy) (drop (fst xy) file)"

lemma slices_append [simp]: "slices (xs @ ys) = slices xs @ slices ys" "slices [] = []"
  by (simp_all add: slices_def)

lemma tile_up_append: "tile_up a xs b \<Longrightarrow> tile_up b ys z \<Longrightarrow> tile_up a (xs @ ys) z"
  by (induction a xs b rule: tile_up.induct) auto

lemma tile_up_le: "tile_up a xs z \<Longrightarrow> a \<le> z"
  by (induction a xs z rule: tile_up.induct) auto

lemma tile_up_content:
  "tile_up a xs z \<Longrightarrow> concat (map (piece file) xs) = take (z - a) (drop a file)"
proof (induction a xs z rule: tile_up.induct)
  case (2 a x y xs z)
  then have h: "x = a" "a < y" "tile_up y xs z" by simp_all
  then have "z - a = (y - a) + (z - y)" using tile_up_le by fastforce
  then have "take (z - a) (drop a file) = take (y - a) (drop a file) @ take (z - y) (drop (y - a) (drop a file))"
    by (simp add: take_add)
  then show ?case using 2 h by (simp add: piece_def)
qed simp

lemma resume_slice:
  "\<exists>e. page_resume opts w BSlice r = (w, e) \<and> (\<forall>c q. call_of e \<noteq> Some (c, q))"
  by (cases r) (auto simp: unexpected_def)

lemma reading_step:
  assumes "reading_at k n a s" "only_reads e"
  shows "\<exists>z. reading_at k n z (fst (host_step page_handle_op page_resume self opts s e))
    \<and> tile_up a (slices (snd (host_step page_handle_op page_resume self opts s e))) z"
proof (cases e)
  case (Request i oper p)
  then have op: "oper = READ_CHUNK" using assms(2) by simp
  have w: "source_blob (hworld s) = Some (k, n, a)" "a \<le> n" "inside s = None"
    "\<And>i c q. pending s i = Some (c, q) \<Longrightarrow> q = BSlice" using assms(1) by (auto simp: reading_at_def)
  show ?thesis
  proof (cases "pending s i = None")
    case True
    show ?thesis
    proof (cases "min (a + CHUNK) n \<le> a")
      case end1: True
      then have "host_step page_handle_op page_resume self opts s e
          = (s\<lparr>hworld := hworld s, pending := (pending s)(i := None), inside := None\<rparr>, [Answers i END_READ])"
        using True w by (simp add: Request op page_read_chunk_def settle_def Let_def)
      then show ?thesis using w by (intro exI [of _ a]) (auto simp: reading_at_def slices_def)
    next
      case False
      then have "host_step page_handle_op page_resume self opts s e
          = (s\<lparr>hworld := (hworld s)\<lparr>source_blob := Some (k, n, min (a + CHUNK) n)\<rparr>,
                pending := (pending s)(i \<mapsto> (Opfs (SliceBuffer k a (min (a + CHUNK) n)), BSlice)), inside := None\<rparr>,
             [Calls i (Opfs (SliceBuffer k a (min (a + CHUNK) n)))])"
        using True w by (simp add: Request op page_read_chunk_def settle_def Let_def)
      then show ?thesis
        using w False by (intro exI [of _ "min (a + CHUNK) n"]) (auto simp: reading_at_def slices_def)
    qed
  next
    case False
    then show ?thesis using assms(1) by (intro exI [of _ a]) (auto simp: Request slices_def)
  qed
next
  case (Reply i r)
  show ?thesis
  proof (cases "pending s i")
    case None
    then show ?thesis using assms(1) by (intro exI [of _ a]) (simp add: Reply slices_def)
  next
    case (Some cq)
    obtain c where pd: "pending s i = Some (c, BSlice)" using Some assms(1) by (cases cq) (auto simp: reading_at_def)
    obtain x where x: "page_resume opts (hworld s) BSlice r = (hworld s, x)" "\<forall>c q. call_of x \<noteq> Some (c, q)"
      using resume_slice by blast
    have "reading_at k n a (fst (settle i s (hworld s, x))) \<and> slices (snd (settle i s (hworld s, x))) = []"
      using x(2) assms(1) by (cases x) (auto simp: settle_def reading_at_def slices_def split: if_splits)
    then show ?thesis using assms(1) by (intro exI [of _ a]) (auto simp: Reply pd x(1) simp del: page_resume.simps)
  qed
qed

lemma reading_run:
  assumes "reading_at k n a s" "list_all only_reads es"
  shows "\<exists>z. reading_at k n z (fst (run_machine (host_step page_handle_op page_resume self opts) s es))
    \<and> tile_up a (slices (snd (run_machine (host_step page_handle_op page_resume self opts) s es))) z"
  using assms
proof (induction es arbitrary: a s)
  case Nil
  then show ?case by (auto simp: slices_def)
next
  case (Cons e es)
  have e: "only_reads e" "list_all only_reads es" using Cons.prems(2) by simp_all
  obtain y where y: "reading_at k n y (fst (host_step page_handle_op page_resume self opts s e))"
    "tile_up a (slices (snd (host_step page_handle_op page_resume self opts s e))) y"
    using reading_step [OF Cons.prems(1) e(1)] by blast
  obtain z where "reading_at k n z (fst (run_machine (host_step page_handle_op page_resume self opts)
        (fst (host_step page_handle_op page_resume self opts s e)) es))"
    "tile_up y (slices (snd (run_machine (host_step page_handle_op page_resume self opts)
        (fst (host_step page_handle_op page_resume self opts s e)) es))) z"
    using Cons.IH [OF y(1) e(2)] by blast
  then show ?case using tile_up_append [OF y(2)] by (auto simp del: host_step.simps)
qed

section \<open>Properties\<close>

text \<open>
  C20. Nothing in a tree of page programs reaches past the first page's grants, and only the page
  itself draws: every call of a world is covered by its own options, the options of every world hold
  no grant that the first one's lack, and a program that a page started, directly or not, never calls
  the document.
\<close>

theorem page_authority_confined:
  assumes "run_machine (tree_step page_handle_op page_resume) (root_tree first) es = (t, effs)"
  shows "(\<forall>n i c. (n, Calls i c) \<in> set effs \<longrightarrow> (\<exists>opts s. t n = Some (opts, s) \<and> needs c \<subseteq> grants opts))
    \<and> (\<forall>n opts s. t n = Some (opts, s) \<longrightarrow> grants opts \<subseteq> grants first)
    \<and> (\<forall>n i d. (n, Calls i (Dom d)) \<in> set effs \<longrightarrow> n = [])"
proof -
  note auth = page.authority [OF assms]
  have "n = []" if "(n, Calls i (Dom d)) \<in> set effs" for n i d
  proof (rule ccontr)
    assume ne: "n \<noteq> []"
    obtain opts s where "t n = Some (opts, s)" "needs (Dom d) \<subseteq> grants opts" using auth \<open>(n, Calls i (Dom d)) \<in> set effs\<close> by blast
    with page_kin.children_kept [OF assms _ ne] show False by fastforce
  qed
  with auth show ?thesis by blast
qed

definition page_options :: options where
  "page_options =
     \<lparr>args_opt = [], fs_read = True, fs_write = True, net_opt = False, env_opt = False, cwd_opt = None,
      self_opt = Some WORKER_MARKER, write_opt = False, writeErr_opt = False, worker_opt = True, linkStat_opt = True,
      dom_opt = True, stdin_opt = None, chunk_opt = None\<rparr>"

text \<open>A page draws and starts itself; the child tries to draw and reads a file.\<close>

definition page_family :: "(name \<times> host_event) list" where
  "page_family =
     [([], Request 0 RENDER [97]), ([], Reply 0 Done), ([], Request 0 SPAWN_SELF (spawnSelf_payload [] 15 [] False)),
      ([], Reply 0 Done), ([1], Request 0 RENDER [97]), ([1], Request 1 READ_FILE [97])]"

lemma page_family_run:
  "snd (run_machine (tree_step page_handle_op page_resume) (root_tree page_options) page_family) =
     [([], Calls 0 (Dom (DomRender (unstr [97])))), ([], Answers 0 []),
      ([], Calls 0 (StartChild [1] WORKER_MARKER [] (page_child_options page_options [1] [] 15 [] False))),
      ([], Calls 0 (ChildLoaded [1])),
      ([1], Throws 0 (denied ''the page'')),
      ([1], Calls 1 (Opfs (GetFileHandle 0 [97] False)))]"
proof -
  have o1: "self_opt page_options = Some WORKER_MARKER" "dom_opt page_options" by (simp_all add: page_options_def)
  have o2: "fs_read (page_child_options page_options [1] [] 15 [] False)"
    "\<not> dom_opt (page_child_options page_options [1] [] 15 [] False)"
    "cwd_opt (page_child_options page_options [1] [] 15 [] False) = None"
    by (simp_all add: page_child_options_def page_options_def GRANT_READ_def Let_def)
  have u: "unstr [97] = [97]" by (simp add: unstr_def decode_def) code_simp
  show ?thesis
    by (simp add: page_family_def root_tree_def tree_step_def o1 o2 escalation_decoded marker_starts u
      page_handler_defs with_dom_def page_startChild_def start_worker_def settle_def idle_host_def new_world_def Let_def
      may_run_def page_resolve_def parts_of_def P_def path_of_def joinPath_def deny_def denied_def)
qed

theorem page_authority_confined_witness:
  "\<exists>t effs. run_machine (tree_step page_handle_op page_resume) (root_tree page_options) page_family = (t, effs)
    \<and> ([], Calls 0 (Dom (DomRender (unstr [97])))) \<in> set effs
    \<and> (\<forall>i d. ([1], Calls i (Dom d)) \<notin> set effs) \<and> (\<forall>n i h p. (n, Calls i (ConnectTo h p)) \<notin> set effs)"
proof -
  obtain t effs where r: "run_machine (tree_step page_handle_op page_resume) (root_tree page_options) page_family = (t, effs)"
    by fastforce
  note ok = page_authority_confined [OF r]
  have "\<not> needs (ConnectTo h p) \<subseteq> grants page_options" for h p by (simp add: page_options_def)
  with ok have "(n, Calls i (ConnectTo h p)) \<notin> set effs" for n i h p by (meson order_trans)
  moreover have "([1], Calls i (Dom d)) \<notin> set effs" for i d using ok by blast
  moreover have "([], Calls 0 (Dom (DomRender (unstr [97])))) \<in> set effs" using page_family_run r by simp
  ultimately show ?thesis using r by blast
qed

text \<open>
  C21. A file that a page opened is read without a gap or an overlap: however many \<open>readChunk\<close>s are
  waiting at once, and in whatever order their bytes arrive, the slices they ask for, in the order
  they were asked, tile the blob from where the reading stood, each at most a chunk long; so their
  contents make up the file, up to the position reached.
\<close>

theorem page_reads_tile:
  assumes "reading_at k (length file) a s" "list_all only_reads es"
    and "run_machine (host_step page_handle_op page_resume self opts) s es = (s', effs)"
  shows "\<exists>z. source_blob (hworld s') = Some (k, length file, z) \<and> z \<le> length file \<and> tile_up a (slices effs) z
    \<and> concat (map (piece file) (slices effs)) = take (z - a) (drop a file)"
proof -
  obtain z where "reading_at k (length file) z s'" "tile_up a (slices effs) z"
    using reading_run [OF assms(1,2), of self opts] assms(3) by auto
  with tile_up_content show ?thesis by (auto simp: reading_at_def)
qed

definition reading_page :: "page_pc world_host" where
  "reading_page = idle_host\<lparr>hworld := new_world\<lparr>source_blob := Some (5, 400000, 0)\<rparr>\<rparr>"

theorem page_reads_tile_witness:
  "\<exists>s' effs. run_machine (host_step page_handle_op page_resume [] page_options) reading_page
        [Request 0 READ_CHUNK [], Request 1 READ_CHUNK [], Request 2 READ_CHUNK []] = (s', effs)
    \<and> concat (map (piece (replicate 400000 7)) (slices effs)) = replicate (min (3 * CHUNK) 400000) 7"
proof -
  let ?es = "[Request 0 READ_CHUNK [], Request 1 READ_CHUNK [], Request 2 READ_CHUNK []]"
  obtain s' effs where r: "run_machine (host_step page_handle_op page_resume [] page_options) reading_page ?es = (s', effs)"
    by fastforce
  have at0: "reading_at 5 (length (replicate 400000 (7 :: byte))) 0 reading_page"
    by (simp add: reading_at_def reading_page_def idle_host_def)
  have es: "list_all only_reads ?es" by simp
  have "source_blob (hworld (fst (run_machine (host_step page_handle_op page_resume [] page_options) reading_page ?es)))
      = Some (5, 400000, min (3 * CHUNK) 400000)"
    by (simp add: reading_page_def idle_host_def page_read_chunk_def settle_def Let_def CHUNK_def)
  with page_reads_tile [OF at0 es r] r show ?thesis by (auto simp: min.commute)
qed

text \<open>
  C22. A rename onto itself loses the file. Where the old and the new name are the same entry of the
  root, as for \<open>f\<close> and \<open>./f\<close>, and every call succeeds, the handler reads the file, writes the same
  bytes back under the same name, and then removes that name; the answer is that all went well.
\<close>

theorem page_rename_onto_itself:
  assumes "canWrite opts" "rename_args p = Some (a, b)" "parts_of opts (hworld s) a = [n]" "parts_of opts (hworld s) b = [n]"
    and "inside s = None" "pending s i = None"
  shows "run_machine (host_step page_handle_op page_resume self opts) s
      [Request i RENAME p, Reply i (OpenedR h), Reply i (BlobR k m t), Reply i (BytesR c), Reply i (OpenedR h'),
       Reply i (OpenedR f), Reply i Done, Reply i Done, Reply i Done]
    = (s, [Calls i (Opfs (GetFileHandle 0 n False)), Calls i (Opfs (GetFile h)), Calls i (Opfs (ArrayBuffer k)),
           Calls i (Opfs (GetFileHandle 0 n True)), Calls i (Opfs (CreateWritable h')), Calls i (Opfs (WriteInto f c)),
           Calls i (Opfs (CloseWritable f)), Calls i (Opfs (RemoveEntry 0 n False)), Answers i CHANGED_OK])"
proof -
  have same: "(pending s)(i := None) = pending s" using assms(6) by (simp add: fun_upd_idem)
  have "fs_read opts" using assms(1) by (simp add: canWrite_def)
  then show ?thesis
    using assms same
    by (simp add: run_machine.simps page_rename_def page_resolve_def Let_def settle_def may_run_def)
qed

lemma dot_parts:
  "parts_of page_options new_world [102] = [[102]]" "parts_of page_options new_world [46, 47, 102] = [[102]]"
  by (simp_all add: parts_of_def P_def path_of_def joinPath_def page_options_def new_world_def)

theorem page_rename_onto_itself_witness:
  "\<exists>effs. run_machine (host_step page_handle_op page_resume [] page_options) idle_host
      [Request 0 RENAME (twoPaths [102] [46, 47, 102]), Reply 0 (OpenedR 1), Reply 0 (BlobR 2 1 0), Reply 0 (BytesR [9]),
       Reply 0 (OpenedR 3), Reply 0 (OpenedR 4), Reply 0 Done, Reply 0 Done, Reply 0 Done] = (idle_host, effs)
    \<and> Calls 0 (Opfs (WriteInto 4 [9])) \<in> set effs \<and> last (butlast effs) = Calls 0 (Opfs (RemoveEntry 0 [102] False))
    \<and> last effs = Answers 0 CHANGED_OK"
proof -
  have a: "rename_args (twoPaths [102] [46, 47, 102]) = Some ([102], [46, 47, 102])"
    by (rule twoPaths_read) (simp_all add: text_ok_def str_def encode_def scalar_def enc_cp_def)
  have w: "canWrite page_options" by (simp add: canWrite_def page_options_def)
  have i: "parts_of page_options (hworld idle_host) [102] = [[102]]"
    "parts_of page_options (hworld idle_host) [46, 47, 102] = [[102]]" "inside idle_host = None" "pending idle_host 0 = None"
    using dot_parts by (simp_all add: idle_host_def)
  show ?thesis
    by (rule exI, rule conjI, rule page_rename_onto_itself [OF w a i]) simp
qed

text \<open>
  C23. A child that inherits its input from a page's program reads nothing: its whole input and its next
  chunk are empty at once, whatever its parent would read. Under Deno such a child asks for what its
  parent reads.
\<close>

theorem page_inherits_nothing:
  assumes "opts = page_child_options parent c as wanted d True" "kids w = []" "source_blob w = None" "source_file w = None"
  shows "page_handle_op self opts w READ_STDIN p = (w, Finish [])
    \<and> page_handle_op self opts w READ_CHUNK p = (w, Finish END_READ)
    \<and> page_handle_op self opts w RECV (i32le 0) = (w, Finish END_READ)
    \<and> (stdin_opt parent = Some src \<longrightarrow>
         handle_op self (child_options parent c as wanted d True) w READ_STDIN p = (w, Await (PipedAll src) AtBytes))"
proof -
  have "readI32le (i32le 0) = Some 0" using get_i32le_0 [of 0 "[]"] by (simp add: readI32le_def i32_ok_def)
  moreover have "w\<lparr>kids := []\<rparr> = w" using assms(2) by simp
  ultimately show ?thesis
    using assms(2-4)
    by (simp add: assms(1) page_read_stdin_def page_read_chunk_def page_recv_def page_child_options_def Let_def
      readAll_def readChunk_def readChunkIn_def with_i32_def op_read_stdin_def child_options_def give_def)
qed

theorem page_inherits_nothing_witness:
  "page_handle_op [1, 1] (page_child_options (page_child_options page_options [1] [] 0 [] False) [1, 1] [] 0 [] True)
      new_world READ_STDIN [] = (new_world, Finish [])
    \<and> handle_op [1, 1] (child_options (child_options page_options [1] [] 0 [] False) [1, 1] [] 0 [] True)
      new_world READ_STDIN [] = (new_world, Await (PipedAll [1]) AtBytes)"
proof -
  have w: "kids new_world = []" "source_blob new_world = None" "source_file new_world = None" by (simp_all add: new_world_def)
  have "stdin_opt (child_options page_options [1] [] 0 [] False) = Some [1]"
    by (simp add: child_options_def give_def)
  with page_inherits_nothing [OF refl w, of "[1, 1]" "page_child_options page_options [1] [] 0 [] False" "[1, 1]" "[]" 0 "[]" "[]"]
    page_inherits_nothing [OF refl w, of "[1, 1]" "child_options page_options [1] [] 0 [] False" "[1, 1]" "[]" 0 "[]" "[]" "[1]"]
  show ?thesis by blast
qed

text \<open>
  Closing the handle of an error stream does nothing in a page. In every state a page can reach, a
  handle that names a child's error stream is closed with success and goes on naming it: the next
  read of it waits for the child, where the other hosts answer that it is not open.
\<close>

theorem page_error_stream_stays:
  assumes "run_machine (host_step page_handle_op page_resume self opts) idle_host es = (s, effs)"
    and "errStreams (hworld s) h = Some c" "i32_ok h"
  shows "page_handle_op self opts (hworld s) CLOSE_SOCKET (i32le h) = (hworld s, Finish [])
    \<and> page_handle_op self opts (hworld s) RECV (i32le h) = (hworld s, Await (ChildErr c) BPiped)"
proof -
  have ok: "handles_ok page_reserved s" using page.hd.inv_run [of self opts es] assms(1) by simp
  have r: "has_role page_reserved s ErrRole h" using assms(2) by (simp add: has_role_def)
  then have "1 \<le> h" using ok by (auto simp: handles_ok_def)
  moreover have "\<not> has_role page_reserved s ChildRole h" using r ok unfolding handles_ok_def by blast
  then have "children (hworld s) h = None" by (auto simp: has_role_def)
  moreover have "readI32le (i32le h) = Some h" using get_i32le_0 [OF assms(3), of "[]"] by (simp add: readI32le_def)
  ultimately show ?thesis
    using assms(2) by (simp add: page_close_socket_def page_close_def page_recv_def with_i32_def)
qed

definition page_with_child :: "page_pc world_host" where
  "page_with_child = idle_host\<lparr>hworld := new_world\<lparr>nextHandle := 3, children := [1 \<mapsto> [1]], errStreams := [2 \<mapsto> [1]]\<rparr>\<rparr>"

lemma page_with_child_run:
  "fst (run_machine (host_step page_handle_op page_resume [] page_options) idle_host
     [Request 0 SPAWN_SELF (spawnSelf_payload [] 15 [] False), Reply 0 Done, Reply 0 (TextR [])]) = page_with_child"
proof -
  have o1: "self_opt page_options = Some WORKER_MARKER" by (simp add: page_options_def)
  show ?thesis
    by (simp add: o1 escalation_decoded page_spawn_self_def page_startChild_def start_worker_def settle_def idle_host_def
      new_world_def Let_def may_run_def register_child_def add_handle_def page_with_child_def)
qed

theorem page_error_stream_stays_witness:
  "page_handle_op [] page_options (hworld page_with_child) CLOSE_SOCKET (i32le 2) = (hworld page_with_child, Finish [])
    \<and> page_handle_op [] page_options (hworld page_with_child) RECV (i32le 2) = (hworld page_with_child, Await (ChildErr [1]) BPiped)"
proof -
  let ?es = "[Request 0 SPAWN_SELF (spawnSelf_payload [] 15 [] False), Reply 0 Done, Reply 0 (TextR [])]"
  obtain effs where r: "run_machine (host_step page_handle_op page_resume [] page_options) idle_host ?es = (page_with_child, effs)"
    using page_with_child_run by (metis prod.collapse)
  have "errStreams (hworld page_with_child) 2 = Some [1]" "i32_ok 2" by (simp_all add: page_with_child_def i32_ok_def)
  from page_error_stream_stays [OF r this] show ?thesis .
qed

text \<open>
  What a page's program and its host say to each other arrives as it was sent: the two strings of
  \<open>setText\<close>, \<open>setValue\<close> and \<open>on\<close>, the picture of \<open>drawPixels\<close>, the file of \<open>offerDownload\<close>, the five
  fields of an event (none holds a NUL), and a picked file with its name and its reason.
\<close>

theorem page_payloads_roundtrip:
  assumes "text_ok a" "text_ok b" "length (str a) < 2147483648" "length (str b) < 2147483648"
    and "i32_ok width" "i32_ok height" "length fs = 5" "\<forall>f\<in>set fs. 0 \<notin> set f" "text_ok (join0 fs)"
  shows "rename_args (two a b) = Some (a, b)
    \<and> draw_args (drawPixels_payload a width height rgba) = Some (width, height, a, rgba)
    \<and> writeFile_args (offerDownload_payload a rgba) = Some (a, rgba)
    \<and> event_fields (str (join0 fs)) = fs
    \<and> picked_of (picked_answer ok a rgba b) = Some (ok, a, rgba, b)"
  using twoPaths_read [OF assms(1-3)] draw_roundtrip [OF assms(5,6,1,3)] event_roundtrip [OF assms(7-9)]
    picked_roundtrip [OF assms(1-4)]
  by (simp add: two_twoPaths)

theorem page_payloads_roundtrip_witness:
  "draw_args (drawPixels_payload [99] 1 1 [1, 2, 3, 255]) = Some (1, 1, [99], [1, 2, 3, 255])
    \<and> event_fields (str (join0 [[99], [97], [], [49], [48]])) = [[99], [97], [], [49], [48]]
    \<and> picked_of (picked_answer False [99] [] [110]) = Some (False, [99], [], [110])"
proof -
  have t: "text_ok [99]" "text_ok [110]" "length (str [99]) < 2147483648" "length (str [110]) < 2147483648"
    "i32_ok 1" "i32_ok 1"
    by (simp_all add: text_ok_def str_def encode_def scalar_def enc_cp_def i32_ok_def)
  have e: "length [[99], [97], [], [49], [48 :: nat]] = 5" "\<forall>f\<in>set [[99], [97], [], [49], [48 :: nat]]. 0 \<notin> set f"
    "text_ok (join0 [[99], [97], [], [49], [48]])"
    by (simp_all add: text_ok_def scalar_def)
  show ?thesis
    using page_payloads_roundtrip [OF t e, of "[1, 2, 3, 255]"] page_payloads_roundtrip [OF t e, of "[]" False] by blast
qed

end
