(* ===== verification/Stream_Rings.thy ===== *)
theory Stream_Rings
  imports Prelude "HOL-Library.Sublist"
begin

text \<open>
  The byte rings of \<open>packages/stream/host\<close>: the layout of the shared buffer, the two copies
  that wrap, and the protocol by which one side publishes bytes and the other takes them
  (\<open>feed\<close>, \<open>close\<close>, \<open>abort\<close> and \<open>pull\<close> of \<open>bridge.ts\<close>; \<open>read\<close>, \<open>write\<close> and the end of
  \<open>worker.ts\<close>). The input ring and the output ring run the same protocol with other cells,
  so it is modelled once, over one ring: \<open>reof\<close> is \<open>IN_EOF\<close> or \<open>OUT_DONE\<close>, and \<open>rerr\<close> is
  \<open>IN_ERR\<close>, which the output side never raises.
\<close>

section \<open>Layout\<close>

definition CAP :: nat where "CAP = 2 ^ 16"

definition IN_HEAD :: nat where "IN_HEAD = 0"
definition IN_TAIL :: nat where "IN_TAIL = 1"
definition IN_EOF :: nat where "IN_EOF = 2"
definition OUT_HEAD :: nat where "OUT_HEAD = 3"
definition OUT_TAIL :: nat where "OUT_TAIL = 4"
definition OUT_DONE :: nat where "OUT_DONE = 5"
definition STATUS :: nat where "STATUS = 6"
definition IN_SEQ :: nat where "IN_SEQ = 7"
definition OUT_SEQ :: nat where "OUT_SEQ = 8"
definition IN_ERR :: nat where "IN_ERR = 9"
definition CTRL_INTS :: nat where "CTRL_INTS = 16"

definition CTRL_BYTES :: nat where "CTRL_BYTES = CTRL_INTS * 4"
definition IN_OFFSET :: nat where "IN_OFFSET = CTRL_BYTES"
definition OUT_OFFSET :: nat where "OUT_OFFSET = IN_OFFSET + CAP"
definition TOTAL_BYTES :: nat where "TOTAL_BYTES = OUT_OFFSET + CAP"

lemmas stream_layout = CAP_def IN_HEAD_def IN_TAIL_def IN_EOF_def OUT_HEAD_def OUT_TAIL_def OUT_DONE_def
  STATUS_def IN_SEQ_def OUT_SEQ_def IN_ERR_def CTRL_INTS_def CTRL_BYTES_def IN_OFFSET_def OUT_OFFSET_def
  TOTAL_BYTES_def

definition STATUS_RUNNING :: int where "STATUS_RUNNING = -100"
definition STATUS_THREW :: int where "STATUS_THREW = -101"

text \<open>The three views of \<open>rings\<close>, as the byte ranges they cover.\<close>

definition rings_views :: "(nat \<times> nat) list" where
  "rings_views = [(0, CTRL_INTS * 4), (IN_OFFSET, CAP), (OUT_OFFSET, CAP)]"

section \<open>The copies that wrap\<close>

text \<open>The remainder of the language, which has the sign of its first operand.\<close>

definition js_rem :: "int \<Rightarrow> int \<Rightarrow> int" where
  "js_rem a n = (if 0 \<le> a then a mod n else - ((- a) mod n))"

text \<open>\<open>None\<close> is the \<open>RangeError\<close> of a \<open>set\<close> or of an allocation that is out of range.\<close>

definition ringWrite :: "bytes \<Rightarrow> int \<Rightarrow> bytes \<Rightarrow> bytes option" where
  "ringWrite ring head src =
     (let start = js_rem head (int CAP);
          first = min (int (length src)) (int CAP - start) in
      if start < 0 then None
      else case array_set ring (subarray src 0 first) (nat start) of
             None \<Rightarrow> None
           | Some ring \<Rightarrow>
               if first < int (length src) then array_set ring (subarray_from src first) 0 else Some ring)"

definition ringRead :: "bytes \<Rightarrow> int \<Rightarrow> int \<Rightarrow> bytes option" where
  "ringRead ring tail n =
     (let start = js_rem tail (int CAP);
          first = min n (int CAP - start) in
      if n < 0 then None
      else case array_set (replicate (nat n) 0) (subarray ring start (start + first)) 0 of
             None \<Rightarrow> None
           | Some out \<Rightarrow>
               if first < n then array_set out (subarray ring 0 (n - first)) (nat first) else Some out)"

section \<open>The protocol\<close>

text \<open>
  The producer, in \<open>feed\<close> and \<open>write\<close>: between chunks; with the rest of a chunk to send; with the
  head loaded, then the tail; about to wait for the tail to leave the value it saw; asleep; with a
  piece copied and not published; with an event to add to the counter; with the sleepers of the
  counter to notify. \<open>PErr\<close> is \<open>abort\<close> between its two stores. \<open>PDead\<close> is a producer whose copy
  threw. After an event it goes on with the rest of its chunk, or, after the end mark, with nothing.
\<close>

datatype producer =
    PIdle
  | PChunk bytes
  | PHead bytes int
  | PLoaded bytes int int
  | PWait bytes i32
  | PSleep bytes i32
  | PCopied bytes int int
  | PSignal "bytes option"
  | PNotify "bytes option"
  | PErr
  | PDead

text \<open>
  The consumer, in \<open>read\<close> and \<open>pull\<close>: between reads; with the event counter loaded, then the head,
  then the tail; with the bytes copied out and the tail not stored; with the sleepers of the tail to
  notify; past the check for bytes; past the check for a failure; past the check for the end;
  asleep. \<open>CDead\<close> is a consumer whose copy threw.
\<close>

datatype consumer =
    CIdle
  | CSeq i32
  | CHead i32 int
  | CLoaded i32 int int
  | CCopied int int bytes
  | CNotify
  | CEmpty i32
  | CNoErr i32
  | CWait i32
  | CSleep i32
  | CDead

text \<open>What a read answers: \<open>Read.Data\<close>, \<open>Read.Failed\<close> and \<open>Read.End\<close>.\<close>

datatype answer = Data bytes | Failed | End

record ring_state =
  ring :: bytes
  rhead :: i32
  rtail :: i32
  rseq :: i32
  reof :: bool
  rerr :: bool
  ppc :: producer
  cpc :: consumer
  produced :: bytes
  answers :: "answer list"

definition ring_init :: ring_state where
  "ring_init =
     \<lparr>ring = replicate CAP 0, rhead = 0, rtail = 0, rseq = 0, reof = False, rerr = False,
      ppc = PIdle, cpc = CIdle, produced = [], answers = []\<rparr>"

definition free_of :: "int \<Rightarrow> int \<Rightarrow> int" where
  "free_of head tail = int CAP - (head - tail)"

text \<open>
  \<open>Atomics.notify\<close> wakes who sleeps on the cell: the consumer on the event counter, the producer on
  the tail. \<open>signal\<close> is an addition to the counter (a step) and a notification (another).
\<close>

definition wake_consumer :: "consumer \<Rightarrow> consumer" where
  "wake_consumer c = (case c of CSleep q \<Rightarrow> CIdle | _ \<Rightarrow> c)"

definition wake_producer :: "producer \<Rightarrow> producer" where
  "wake_producer p = (case p of PSleep rest t \<Rightarrow> PChunk rest | _ \<Rightarrow> p)"

definition after_signal :: "bytes option \<Rightarrow> producer" where
  "after_signal k = (case k of Some rest \<Rightarrow> PChunk rest | None \<Rightarrow> PIdle)"

text \<open>The copy of \<open>feed\<close> and of \<open>write\<close> once there is room, and the store that publishes it.\<close>

definition copy_piece :: "ring_state \<Rightarrow> bytes \<Rightarrow> int \<Rightarrow> int \<Rightarrow> ring_state" where
  "copy_piece r rest head tail =
     (let n = min (free_of head tail) (int (length rest)) in
      case ringWrite (ring r) head (subarray rest 0 n) of
        None \<Rightarrow> r\<lparr>ppc := PDead\<rparr>
      | Some b \<Rightarrow> r\<lparr>ring := b, ppc := PCopied rest head n\<rparr>)"

definition publish_piece :: "ring_state \<Rightarrow> bytes \<Rightarrow> int \<Rightarrow> int \<Rightarrow> ring_state" where
  "publish_piece r rest head n =
     r\<lparr>rhead := word_of_int (head + n), ppc := PSignal (Some (drop (nat n) rest)),
       produced := produced r @ subarray rest 0 n\<rparr>"

text \<open>
  The copy of \<open>read\<close> and of \<open>pull\<close> once there are bytes, and the store that gives the room back;
  the bytes count as answered from there.
\<close>

definition copy_available :: "ring_state \<Rightarrow> int \<Rightarrow> int \<Rightarrow> ring_state" where
  "copy_available r head tail =
     (case ringRead (ring r) tail (head - tail) of
        None \<Rightarrow> r\<lparr>cpc := CDead\<rparr>
      | Some out \<Rightarrow> r\<lparr>cpc := CCopied head tail out\<rparr>)"

definition give_back :: "ring_state \<Rightarrow> int \<Rightarrow> int \<Rightarrow> bytes \<Rightarrow> ring_state" where
  "give_back r head tail out =
     r\<lparr>rtail := word_of_int (tail + (head - tail)), cpc := CNotify, answers := answers r @ [Data out]\<rparr>"

text \<open>
  One atomic access of one side, or one copy, in a step. \<open>Atomics.wait\<close> compares and falls asleep in
  one; only a notification ends a sleep.
\<close>

inductive ring_step :: "ring_state \<Rightarrow> ring_state \<Rightarrow> bool" where
  p_begin: "ppc r = PIdle \<Longrightarrow> \<not> reof r \<Longrightarrow> ring_step r (r\<lparr>ppc := PChunk chunk\<rparr>)"
| p_done: "ppc r = PChunk [] \<Longrightarrow> ring_step r (r\<lparr>ppc := PIdle\<rparr>)"
| p_head: "ppc r = PChunk rest \<Longrightarrow> rest \<noteq> [] \<Longrightarrow> ring_step r (r\<lparr>ppc := PHead rest (sint (rhead r))\<rparr>)"
| p_tail: "ppc r = PHead rest h \<Longrightarrow> ring_step r (r\<lparr>ppc := PLoaded rest h (sint (rtail r))\<rparr>)"
| p_full: "ppc r = PLoaded rest h t \<Longrightarrow> free_of h t = 0 \<Longrightarrow> ring_step r (r\<lparr>ppc := PWait rest (word_of_int t)\<rparr>)"
| p_stale: "ppc r = PWait rest t \<Longrightarrow> rtail r \<noteq> t \<Longrightarrow> ring_step r (r\<lparr>ppc := PChunk rest\<rparr>)"
| p_sleep: "ppc r = PWait rest t \<Longrightarrow> rtail r = t \<Longrightarrow> ring_step r (r\<lparr>ppc := PSleep rest t\<rparr>)"
| p_copy: "ppc r = PLoaded rest h t \<Longrightarrow> free_of h t \<noteq> 0 \<Longrightarrow> ring_step r (copy_piece r rest h t)"
| p_publish: "ppc r = PCopied rest h n \<Longrightarrow> ring_step r (publish_piece r rest h n)"
| p_signal: "ppc r = PSignal k \<Longrightarrow> ring_step r (r\<lparr>rseq := rseq r + 1, ppc := PNotify k\<rparr>)"
| p_notify: "ppc r = PNotify k \<Longrightarrow> ring_step r (r\<lparr>ppc := after_signal k, cpc := wake_consumer (cpc r)\<rparr>)"
| p_close: "ppc r = PIdle \<Longrightarrow> \<not> reof r \<Longrightarrow> ring_step r (r\<lparr>reof := True, ppc := PSignal None\<rparr>)"
| p_abort: "ppc r = PIdle \<Longrightarrow> \<not> reof r \<Longrightarrow> ring_step r (r\<lparr>rerr := True, ppc := PErr\<rparr>)"
| p_abort_eof: "ppc r = PErr \<Longrightarrow> ring_step r (r\<lparr>reof := True, ppc := PSignal None\<rparr>)"
| c_seq: "cpc r = CIdle \<Longrightarrow> ring_step r (r\<lparr>cpc := CSeq (rseq r)\<rparr>)"
| c_head: "cpc r = CSeq q \<Longrightarrow> ring_step r (r\<lparr>cpc := CHead q (sint (rhead r))\<rparr>)"
| c_tail: "cpc r = CHead q h \<Longrightarrow> ring_step r (r\<lparr>cpc := CLoaded q h (sint (rtail r))\<rparr>)"
| c_copy: "cpc r = CLoaded q h t \<Longrightarrow> h - t > 0 \<Longrightarrow> ring_step r (copy_available r h t)"
| c_give: "cpc r = CCopied h t out \<Longrightarrow> ring_step r (give_back r h t out)"
| c_notify: "cpc r = CNotify \<Longrightarrow> ring_step r (r\<lparr>cpc := CIdle, ppc := wake_producer (ppc r)\<rparr>)"
| c_empty: "cpc r = CLoaded q h t \<Longrightarrow> h - t \<le> 0 \<Longrightarrow> ring_step r (r\<lparr>cpc := CEmpty q\<rparr>)"
| c_failed: "cpc r = CEmpty q \<Longrightarrow> rerr r \<Longrightarrow> ring_step r (r\<lparr>cpc := CIdle, answers := answers r @ [Failed]\<rparr>)"
| c_noerr: "cpc r = CEmpty q \<Longrightarrow> \<not> rerr r \<Longrightarrow> ring_step r (r\<lparr>cpc := CNoErr q\<rparr>)"
| c_end: "cpc r = CNoErr q \<Longrightarrow> reof r \<Longrightarrow> ring_step r (r\<lparr>cpc := CIdle, answers := answers r @ [End]\<rparr>)"
| c_noeof: "cpc r = CNoErr q \<Longrightarrow> \<not> reof r \<Longrightarrow> ring_step r (r\<lparr>cpc := CWait q\<rparr>)"
| c_stale: "cpc r = CWait q \<Longrightarrow> rseq r \<noteq> q \<Longrightarrow> ring_step r (r\<lparr>cpc := CIdle\<rparr>)"
| c_sleep: "cpc r = CWait q \<Longrightarrow> rseq r = q \<Longrightarrow> ring_step r (r\<lparr>cpc := CSleep q\<rparr>)"

inductive ring_run :: "ring_state \<Rightarrow> bool" where
  start: "ring_run ring_init"
| more: "ring_run r \<Longrightarrow> ring_step r r' \<Longrightarrow> ring_run r'"

fun data_of :: "answer \<Rightarrow> bytes" where
  "data_of (Data b) = b"
| "data_of _ = []"

definition consumed :: "ring_state \<Rightarrow> bytes" where
  "consumed r = concat (map data_of (answers r))"

section \<open>The ends of a transform\<close>

text \<open>
  A transform as its driver sees it: it reads, writes, returns a status or traps. Its code is
  wac, which is not modelled; a value of this type is one behaviour of it.
\<close>

datatype transform =
    Reads "answer \<Rightarrow> transform"
  | Writes bytes transform
  | Returns int
  | Traps

text \<open>The status the worker stores, and what \<open>pull\<close> makes of it once the output is drained.\<close>

datatype stream_end = Closed | TransformFailed int

definition worker_status :: "int option \<Rightarrow> int" where
  "worker_status returned = (case returned of None \<Rightarrow> STATUS_THREW | Some s \<Rightarrow> s)"

definition pull_end :: "int \<Rightarrow> stream_end" where
  "pull_end status = (if status < 0 then TransformFailed status else Closed)"

text \<open>
  \<open>runWhole\<close>: the first read is given the whole input, every later one the end, and the writes
  are joined. A trap is not caught here: \<open>None\<close>.
\<close>

definition readWhole :: "bytes \<Rightarrow> bool \<Rightarrow> answer \<times> bool" where
  "readWhole input given = (if given then (End, given) else (Data input, True))"

primrec drive_whole :: "transform \<Rightarrow> bytes \<Rightarrow> bool \<Rightarrow> bytes list \<Rightarrow> (int \<times> bytes list) option" where
  "drive_whole (Reads k) input given parts =
     (case readWhole input given of (a, given) \<Rightarrow> drive_whole (k a) input given parts)"
| "drive_whole (Writes b t) input given parts = drive_whole t input given (parts @ [b])"
| "drive_whole (Returns s) input given parts = Some (s, parts)"
| "drive_whole Traps input given parts = None"

definition runWhole :: "transform \<Rightarrow> bytes \<Rightarrow> (stream_end + bytes) option" where
  "runWhole t input =
     (case drive_whole t input False [] of
        None \<Rightarrow> None
      | Some (status, parts) \<Rightarrow> Some (if status < 0 then Inl (TransformFailed status) else Inr (concat parts)))"

section \<open>The copies, read as functions of the position\<close>

lemma js_rem_nat [simp]: "js_rem (int a) (int n) = int (a mod n)"
  by (simp add: js_rem_def zmod_int)

lemma ring_CAP_pos [simp]: "0 < CAP"
  by (simp add: CAP_def)

text \<open>How far position \<open>j\<close> of the ring is from position \<open>s\<close>, going forward.\<close>

definition ahead :: "nat \<Rightarrow> nat \<Rightarrow> nat" where
  "ahead s j = (if s \<le> j then j - s else j + CAP - s)"

lemma ring_pos:
  assumes "k < CAP"
  shows "(h + k) mod CAP = (if h mod CAP + k < CAP then h mod CAP + k else h mod CAP + k - CAP)"
proof -
  have s: "h mod CAP < CAP" by simp
  have "(h + k) mod CAP = (h mod CAP + k) mod CAP" by (simp add: mod_add_left_eq)
  also have "\<dots> = (if h mod CAP + k < CAP then h mod CAP + k else h mod CAP + k - CAP)"
  proof (cases "h mod CAP + k < CAP")
    case True
    then show ?thesis by simp
  next
    case False
    then have "(h mod CAP + k) mod CAP = (h mod CAP + k - CAP) mod CAP" by (intro le_mod_geq) simp
    also have "\<dots> = h mod CAP + k - CAP" using s assms by (intro mod_less) linarith
    finally show ?thesis using False by simp
  qed
  finally show ?thesis .
qed

lemma ahead_mod: "k < CAP \<Longrightarrow> ahead (h mod CAP) ((h + k) mod CAP) = k"
proof -
  assume k: "k < CAP"
  have "h mod CAP < CAP" by simp
  with k show ?thesis by (auto simp: ahead_def ring_pos [OF k])
qed

lemma ringWrite_spec:
  assumes "length rg = CAP" "length src \<le> CAP"
  obtains out where "ringWrite rg (int h) src = Some out" "length out = CAP"
    "\<And>j. j < CAP \<Longrightarrow> out ! j = (if ahead (h mod CAP) j < length src then src ! ahead (h mod CAP) j else rg ! j)"
proof -
  define s where "s = h mod CAP"
  define f where "f = min (length src) (CAP - s)"
  have s: "s < CAP" by (simp add: s_def)
  have f: "min (int (length src)) (int CAP - int s) = int f" using s unfolding f_def by (auto simp: min_def)
  define a where "a = take s rg @ take f src @ drop (s + f) rg"
  have sa: "array_set rg (subarray src 0 (int f)) s = Some a"
    using assms s subarray_nat [of src 0 f] by (simp add: array_set_def f_def a_def)
  have la: "length a = CAP" using assms s by (simp add: f_def a_def)
  have na: "a ! j = (if j < s then rg ! j else if j < s + f then src ! (j - s) else rg ! j)" if "j < CAP" for j
    using that assms s by (auto simp: nth_append f_def a_def)
  show thesis
  proof (cases "f < length src")
    case True
    then have fe: "f = CAP - s" by (simp add: f_def)
    let ?b = "drop f src @ drop (length src - f) a"
    have b: "array_set a (subarray_from src (int f)) 0 = Some ?b"
      using assms la True by (simp add: array_set_def subarray_from_nat)
    have w: "ringWrite rg (int h) src = Some ?b"
      using True by (simp add: ringWrite_def Let_def f sa b s_def [symmetric])
    have "?b ! j = (if ahead s j < length src then src ! ahead s j else rg ! j)" if "j < CAP" for j
    proof (cases "j < length src - f")
      case True
      then have "ahead s j = f + j" using s fe assms(2) by (auto simp: ahead_def)
      moreover have "f + j < length src" using True by linarith
      ultimately show ?thesis using True by (simp add: nth_append)
    next
      case False
      then have "?b ! j = a ! j" using la True that by (simp add: nth_append)
      then show ?thesis using na [OF that] False s fe that assms(2) True by (auto simp: ahead_def)
    qed
    then show thesis using assms la True by (intro that [OF w]) (simp_all add: s_def)
  next
    case False
    then have fe: "f = length src" by (simp add: f_def)
    have w: "ringWrite rg (int h) src = Some a"
      using False by (simp add: ringWrite_def Let_def f sa s_def [symmetric])
    have "a ! j = (if ahead s j < length src then src ! ahead s j else rg ! j)" if "j < CAP" for j
    proof -
      have "s + length src \<le> CAP" using fe s by (simp add: f_def)
      then show ?thesis using na [OF that] that s by (auto simp: ahead_def fe)
    qed
    then show thesis using la by (intro that [OF w]) (simp_all add: s_def)
  qed
qed

lemma ringRead_spec:
  assumes "length rg = CAP" "n \<le> CAP"
  shows "ringRead rg (int t) (int n) = Some (map (\<lambda>k. rg ! ((t + k) mod CAP)) [0..<n])"
proof -
  define s where "s = t mod CAP"
  define f where "f = min n (CAP - s)"
  have s: "s < CAP" by (simp add: s_def)
  have f: "min (int n) (int CAP - int s) = int f" using s unfolding f_def by (auto simp: min_def)
  have pos: "(t + k) mod CAP = (if s + k < CAP then s + k else s + k - CAP)" if "k < CAP" for k
    using ring_pos [OF that] by (simp add: s_def)
  define out where "out = take f (drop s rg) @ drop f (replicate n (0::byte))"
  have o: "array_set (replicate n 0) (subarray rg (int s) (int s + int f)) 0 = Some out"
    using assms s subarray_nat [of rg s "s + f"] by (simp add: array_set_def f_def out_def)
  show ?thesis
  proof (cases "f < n")
    case True
    then have fe: "f = CAP - s" by (simp add: f_def)
    have sub: "subarray rg 0 (int n - int f) = take (n - f) rg"
      using subarray_nat [of rg 0 "n - f"] True by (simp add: of_nat_diff)
    have "length out = n" "length (take (n - f) rg) = n - f" using assms s True fe by (simp_all add: out_def)
    then have "array_set out (subarray rg 0 (int n - int f)) f = Some (take f out @ take (n - f) rg @ drop n out)"
      unfolding sub array_set_def using True by simp
    then have r: "ringRead rg (int t) (int n) = Some (take f out @ take (n - f) rg @ drop n out)"
      using True by (simp add: ringRead_def Let_def f o s_def [symmetric])
    have "take f out @ take (n - f) rg @ drop n out = map (\<lambda>k. rg ! ((t + k) mod CAP)) [0..<n]"
    proof (rule nth_equalityI)
      show l: "length (take f out @ take (n - f) rg @ drop n out) = length (map (\<lambda>k. rg ! ((t + k) mod CAP)) [0..<n])"
        using assms s True fe by (simp add: out_def)
      fix i assume "i < length (take f out @ take (n - f) rg @ drop n out)"
      then have i: "i < n" using l by simp
      show "(take f out @ take (n - f) rg @ drop n out) ! i = map (\<lambda>k. rg ! ((t + k) mod CAP)) [0..<n] ! i"
        using i assms s fe True pos [of i] by (auto simp: nth_append out_def add.commute)
    qed
    with r show ?thesis by simp
  next
    case False
    then have fe: "f = n" "s + n \<le> CAP" using s by (simp_all add: f_def min_def split: if_splits)
    have r: "ringRead rg (int t) (int n) = Some out"
      using False by (simp add: ringRead_def Let_def f o s_def [symmetric])
    have "out = map (\<lambda>k. rg ! ((t + k) mod CAP)) [0..<n]"
      using assms s fe pos by (intro nth_equalityI) (auto simp: nth_append out_def)
    with r show ?thesis by simp
  qed
qed


section \<open>The invariant\<close>

abbreviation made :: "ring_state \<Rightarrow> nat" where "made r \<equiv> length (produced r)"
abbreviation used :: "ring_state \<Rightarrow> nat" where "used r \<equiv> length (consumed r)"

text \<open>An event stored and not yet counted, and the events stored so far, counted or not.\<close>

definition owed :: "producer \<Rightarrow> nat" where
  "owed p = (case p of PSignal k \<Rightarrow> 1 | _ \<Rightarrow> 0)"

definition events :: "ring_state \<Rightarrow> nat" where
  "events r = unat (rseq r) + owed (ppc r)"

text \<open>Since the consumer looked at the counter, at most the end mark has been stored.\<close>

definition quiet_since :: "ring_state \<Rightarrow> i32 \<Rightarrow> bool" where
  "quiet_since r q \<longleftrightarrow> events r \<le> unat q + (if reof r then 1 else 0)"

text \<open>Where a producer can be once the end mark is stored.\<close>

definition closing :: "producer \<Rightarrow> bool" where
  "closing p \<longleftrightarrow> p = PIdle \<or> p = PSignal None \<or> p = PNotify None"

definition ring_core :: "ring_state \<Rightarrow> bool" where
  "ring_core r \<longleftrightarrow>
     length (ring r) = CAP \<and> rhead r = word_of_nat (made r) \<and> rtail r = word_of_nat (used r)
   \<and> used r \<le> made r \<and> made r \<le> used r + CAP \<and> consumed r = take (used r) (produced r)
   \<and> (\<forall>i. used r \<le> i \<longrightarrow> i < made r \<longrightarrow> ring r ! (i mod CAP) = produced r ! i)
   \<and> events r \<le> made r + (if reof r then 1 else 0) \<and> (reof r \<longrightarrow> closing (ppc r))"

definition producer_ok :: "ring_state \<Rightarrow> bool" where
  "producer_ok r \<longleftrightarrow>
     (case ppc r of
        PHead rest h \<Rightarrow> rest \<noteq> [] \<and> h = int (made r)
      | PLoaded rest h t \<Rightarrow> rest \<noteq> [] \<and> h = int (made r) \<and> (\<exists>n \<le> used r. t = int n \<and> made r \<le> n + CAP)
      | PWait rest w \<Rightarrow> \<exists>n \<le> used r. w = word_of_nat n \<and> made r = n + CAP
      | PSleep rest w \<Rightarrow> (\<exists>n \<le> used r. w = word_of_nat n \<and> made r = n + CAP) \<and> (rtail r \<noteq> w \<longrightarrow> cpc r = CNotify)
      | PCopied rest h k \<Rightarrow> h = int (made r) \<and> (\<exists>n. k = int n \<and> 0 < n \<and> n \<le> length rest \<and> made r + n \<le> used r + CAP
          \<and> (\<forall>i < n. ring r ! ((made r + i) mod CAP) = rest ! i))
      | PDead \<Rightarrow> False
      | _ \<Rightarrow> True)"

definition consumer_ok :: "ring_state \<Rightarrow> bool" where
  "consumer_ok r \<longleftrightarrow>
     (case cpc r of
        CSeq q \<Rightarrow> unat q \<le> events r
      | CHead q h \<Rightarrow> unat q \<le> events r
          \<and> (\<exists>n. h = int n \<and> used r \<le> n \<and> n \<le> made r \<and> (quiet_since r q \<longrightarrow> n = made r))
      | CLoaded q h t \<Rightarrow> unat q \<le> events r \<and> t = int (used r)
          \<and> (\<exists>n. h = int n \<and> used r \<le> n \<and> n \<le> made r \<and> (quiet_since r q \<longrightarrow> n = made r))
      | CCopied h t out \<Rightarrow> t = int (used r)
          \<and> (\<exists>n. h = int n \<and> used r \<le> n \<and> n \<le> made r \<and> out = take (n - used r) (drop (used r) (produced r)))
      | CEmpty q \<Rightarrow> unat q \<le> events r \<and> (quiet_since r q \<longrightarrow> made r = used r)
      | CNoErr q \<Rightarrow> unat q \<le> events r \<and> (quiet_since r q \<longrightarrow> made r = used r)
      | CWait q \<Rightarrow> unat q \<le> events r \<and> (events r = unat q \<longrightarrow> made r = used r \<and> \<not> reof r)
      | CSleep q \<Rightarrow> unat q \<le> events r \<and> (events r = unat q \<longrightarrow> made r = used r \<and> \<not> reof r)
          \<and> (rseq r \<noteq> q \<longrightarrow> (\<exists>k. ppc r = PNotify k))
      | CDead \<Rightarrow> False
      | _ \<Rightarrow> True)"

definition ring_inv :: "ring_state \<Rightarrow> bool" where
  "ring_inv r \<longleftrightarrow> ring_core r \<and> producer_ok r \<and> consumer_ok r"

lemma ring_inv_init: "ring_inv ring_init"
  by (simp add: ring_inv_def ring_core_def producer_ok_def consumer_ok_def ring_init_def consumed_def events_def owed_def)

lemma sint_small: "n < 2 ^ 31 \<Longrightarrow> sint (word_of_nat n :: i32) = int n"
  using sint_word_of_int_i32 [of "int n"] by simp

lemma unat_succ:
  assumes "unat (a :: i32) < 2 ^ 32 - 1"
  shows "unat (a + 1) = Suc (unat a)"
proof -
  have "1 + a \<noteq> 0"
  proof
    assume "1 + a = 0"
    then have "a = -1" by (simp add: eq_neg_iff_add_eq_0 add.commute)
    with assms show False by (simp add: unsigned_minus_1_eq_mask mask_eq_exp_minus_1)
  qed
  then show ?thesis using unatSuc [of a] by (simp add: add.commute)
qed

lemma consumed_simps [simp]:
  "consumed (r\<lparr>ppc := p\<rparr>) = consumed r" "consumed (r\<lparr>cpc := c\<rparr>) = consumed r" "consumed (r\<lparr>rseq := q\<rparr>) = consumed r"
  "consumed (r\<lparr>reof := x\<rparr>) = consumed r" "consumed (r\<lparr>rerr := x\<rparr>) = consumed r" "consumed (r\<lparr>ring := b\<rparr>) = consumed r"
  "consumed (r\<lparr>rhead := h\<rparr>) = consumed r" "consumed (r\<lparr>rtail := h\<rparr>) = consumed r" "consumed (r\<lparr>produced := b\<rparr>) = consumed r"
  by (simp_all add: consumed_def)

text \<open>Steps that only move one of the two program counters.\<close>

lemma inv_p_pc:
  assumes "ring_inv r" "\<not> reof r \<or> closing p" "producer_ok (r\<lparr>ppc := p\<rparr>)"
    "owed p = owed (ppc r)" "\<And>k. ppc r \<noteq> PNotify k"
  shows "ring_inv (r\<lparr>ppc := p\<rparr>)"
proof -
  have e: "events (r\<lparr>ppc := p\<rparr>) = events r" using assms(4) by (simp add: events_def)
  have q: "quiet_since (r\<lparr>ppc := p\<rparr>) q = quiet_since r q" for q by (simp add: quiet_since_def e)
  have "consumer_ok (r\<lparr>ppc := p\<rparr>)"
    using assms(1,5) by (cases "cpc r") (simp_all add: ring_inv_def consumer_ok_def e q)
  with assms(1-3) show ?thesis by (simp add: ring_inv_def ring_core_def e)
qed

lemma inv_c_pc:
  assumes "ring_inv r" "consumer_ok (r\<lparr>cpc := c\<rparr>)" "cpc r \<noteq> CNotify"
  shows "ring_inv (r\<lparr>cpc := c\<rparr>)"
proof -
  have "producer_ok (r\<lparr>cpc := c\<rparr>)"
    using assms(1,3) by (cases "ppc r") (auto simp: ring_inv_def producer_ok_def)
  with assms(1,2) show ?thesis by (simp add: ring_inv_def ring_core_def events_def)
qed

lemma inv_notify_c:
  assumes "ring_inv r" "ppc r = PNotify k"
  shows "ring_inv (r\<lparr>ppc := after_signal k, cpc := wake_consumer (cpc r)\<rparr>)"
proof -
  let ?r = "r\<lparr>ppc := after_signal k, cpc := wake_consumer (cpc r)\<rparr>"
  have o: "owed (after_signal k) = 0" "closing (PNotify k) \<Longrightarrow> closing (after_signal k)"
    by (cases k; simp add: after_signal_def owed_def closing_def)+
  have e: "events (r\<lparr>ppc := after_signal k, cpc := c\<rparr>) = events r" for c
    using assms(2) o by (simp add: events_def owed_def)
  have q: "quiet_since (r\<lparr>ppc := after_signal k, cpc := c\<rparr>) q = quiet_since r q" for c q by (simp add: quiet_since_def e)
  have "ring_core ?r" using assms o by (simp add: ring_inv_def ring_core_def e)
  moreover have "producer_ok ?r" by (cases k) (simp_all add: producer_ok_def after_signal_def)
  moreover have "consumer_ok ?r"
    using assms(1) by (cases "cpc r") (simp_all add: ring_inv_def consumer_ok_def e q wake_consumer_def)
  ultimately show ?thesis by (simp add: ring_inv_def)
qed

lemma inv_notify_p:
  assumes "ring_inv r" "cpc r = CNotify"
  shows "ring_inv (r\<lparr>cpc := CIdle, ppc := wake_producer (ppc r)\<rparr>)"
proof -
  let ?r = "r\<lparr>cpc := CIdle, ppc := wake_producer (ppc r)\<rparr>"
  have o: "owed (wake_producer p) = owed p" "closing p \<Longrightarrow> closing (wake_producer p)" for p
    by (cases p; simp add: wake_producer_def owed_def closing_def)+
  have e: "events ?r = events r" using o by (simp add: events_def)
  have "ring_core ?r" using assms o by (simp add: ring_inv_def ring_core_def e)
  moreover have "producer_ok ?r"
    using assms(1) by (cases "ppc r") (simp_all add: ring_inv_def producer_ok_def wake_producer_def)
  moreover have "consumer_ok ?r" by (simp add: consumer_ok_def)
  ultimately show ?thesis by (simp add: ring_inv_def)
qed

text \<open>An event added to the counter moves it away from every value the consumer has seen.\<close>

lemma inv_signal:
  assumes "ring_inv r" "ppc r = PSignal k" "made r < 2 ^ 31"
  shows "ring_inv (r\<lparr>rseq := rseq r + 1, ppc := PNotify k\<rparr>)"
proof -
  let ?r = "r\<lparr>rseq := rseq r + 1, ppc := PNotify k\<rparr>"
  have c: "ring_core r" and k: "consumer_ok r" using assms(1) by (simp_all add: ring_inv_def)
  have "unat (rseq r) + 1 \<le> made r + 1" using c assms(2) by (auto simp: ring_core_def events_def owed_def split: if_splits)
  then have s: "unat (rseq r + 1) = Suc (unat (rseq r))" using assms(3) by (intro unat_succ) simp
  then have e: "events ?r = events r" using assms(2) by (simp add: events_def owed_def)
  have q: "quiet_since ?r q = quiet_since r q" for q by (simp add: quiet_since_def e)
  have "ring_core ?r" using c assms(2) by (simp add: ring_core_def e) (simp add: closing_def)
  moreover have "producer_ok ?r" by (simp add: producer_ok_def)
  moreover have "consumer_ok ?r" using k by (cases "cpc r") (simp_all add: consumer_ok_def e q)
  ultimately show ?thesis by (simp add: ring_inv_def)
qed

lemma inv_close:
  assumes "ring_inv r" "ppc r = PIdle \<or> ppc r = PErr" "\<not> reof r"
  shows "ring_inv (r\<lparr>reof := True, ppc := PSignal None\<rparr>)"
proof -
  let ?r = "r\<lparr>reof := True, ppc := PSignal None\<rparr>"
  have c: "ring_core r" and k: "consumer_ok r" using assms(1) by (simp_all add: ring_inv_def)
  have e: "events ?r = Suc (events r)" using assms(2) by (auto simp: events_def owed_def)
  have q: "quiet_since ?r q = quiet_since r q" for q using assms(3) by (simp add: quiet_since_def e)
  have "ring_core ?r" using c assms(3) by (simp add: ring_core_def e) (simp add: closing_def)
  moreover have "producer_ok ?r" by (simp add: producer_ok_def)
  moreover have "consumer_ok ?r" using k assms(2) by (cases "cpc r") (auto simp: consumer_ok_def e q)
  ultimately show ?thesis by (simp add: ring_inv_def)
qed

text \<open>A piece copied: its bytes go to positions that are free, and nothing that is published moves.\<close>

lemma mod_eq_close:
  assumes "i mod CAP = j mod CAP" "i \<le> j" "j < i + CAP"
  shows "i = j"
proof -
  have "(j - i) mod CAP = 0" using assms(1,2) by (metis mod_eq_dvd_iff_nat dvd_imp_mod_0)
  moreover have "j - i < CAP" using assms(2,3) by linarith
  ultimately show ?thesis using assms(2) by simp
qed

lemma inv_copy:
  assumes "ring_inv r" "ppc r = PLoaded rest h t" "free_of h t \<noteq> 0"
  shows "ring_inv (copy_piece r rest h t)"
proof -
  have c: "ring_core r" and k: "consumer_ok r" and p: "producer_ok r" using assms(1) by (simp_all add: ring_inv_def)
  obtain m where m: "m \<le> used r" "t = int m" "made r \<le> m + CAP" and h: "h = int (made r)" and rest: "rest \<noteq> []"
    using p assms(2) by (auto simp: producer_ok_def)
  define n where "n = min (m + CAP - made r) (length rest)"
  have mm: "m \<le> made r" using m c by (simp add: ring_core_def)
  have fr: "free_of h t = int (m + CAP - made r)" using m mm by (simp add: free_of_def h of_nat_diff)
  then have n0: "0 < n" using assms(3) rest by (simp add: n_def)
  have nn: "min (free_of h t) (int (length rest)) = int n" by (simp add: fr n_def)
  have room: "made r + n \<le> used r + CAP" "n \<le> CAP" "n \<le> length rest" using m mm by (auto simp: n_def)
  have pc: "subarray rest 0 (int n) = take n rest" using subarray_nat [of rest 0 n] by simp
  have len: "length (take n rest) = n" by (simp add: n_def)
  obtain out where w: "ringWrite (ring r) (int (made r)) (take n rest) = Some out" "length out = CAP"
    "\<And>j. j < CAP \<Longrightarrow> out ! j = (if ahead (made r mod CAP) j < n then take n rest ! ahead (made r mod CAP) j else ring r ! j)"
  proof -
    have "length (ring r) = CAP" "length (take n rest) \<le> CAP" using c len room by (simp_all add: ring_core_def)
    then show thesis by (rule ringWrite_spec [where h = "made r"]) (rule that; simp only: len)
  qed
  let ?r = "r\<lparr>ring := out, ppc := PCopied rest h (int n)\<rparr>"
  have e: "copy_piece r rest h t = ?r" unfolding copy_piece_def Let_def nn pc using w(1) by (simp add: h)
  have old: "out ! (i mod CAP) = ring r ! (i mod CAP)" if "used r \<le> i" "i < made r" for i
  proof -
    have "ahead (made r mod CAP) (i mod CAP) = i + CAP - made r"
    proof -
      have "(made r + (i + CAP - made r)) mod CAP = i mod CAP" using that c by (simp add: ring_core_def)
      moreover have "i + CAP - made r < CAP" using that ring_CAP_pos by linarith
      ultimately show ?thesis using ahead_mod [of "i + CAP - made r" "made r"] by simp
    qed
    then have "\<not> ahead (made r mod CAP) (i mod CAP) < n" using room that c by (simp add: ring_core_def)
    with w(3) [of "i mod CAP"] show ?thesis by simp
  qed
  have new: "out ! ((made r + i) mod CAP) = rest ! i" if "i < n" for i
    using ahead_mod [of i "made r"] that room w(3) [of "(made r + i) mod CAP"] by simp
  have ev: "events ?r = events r" using assms(2) by (simp add: events_def owed_def)
  have q: "quiet_since ?r q = quiet_since r q" for q by (simp add: quiet_since_def ev)
  have "ring_core ?r" using c assms(2) w(2) old by (simp add: ring_core_def ev) (simp add: closing_def)
  moreover have "producer_ok ?r" using room n0 new h by (auto simp: producer_ok_def)
  moreover have "consumer_ok ?r" using k assms(2) by (cases "cpc r") (auto simp: consumer_ok_def ev q)
  ultimately show ?thesis unfolding e by (simp add: ring_inv_def)
qed

lemma inv_publish:
  assumes "ring_inv r" "ppc r = PCopied rest h k"
  shows "ring_inv (publish_piece r rest h k)"
proof -
  have c: "ring_core r" and co: "consumer_ok r" and p: "producer_ok r" using assms(1) by (simp_all add: ring_inv_def)
  obtain n where n: "k = int n" "0 < n" "n \<le> length rest" "made r + n \<le> used r + CAP" and h: "h = int (made r)"
    and put: "\<And>i. i < n \<Longrightarrow> ring r ! ((made r + i) mod CAP) = rest ! i"
    using p assms(2) by (auto simp: producer_ok_def)
  have pc: "subarray rest 0 (int n) = take n rest" using subarray_nat [of rest 0 n] by simp
  define r' where "r' = publish_piece r rest h k"
  have f: "produced r' = produced r @ take n rest" "rhead r' = word_of_nat (made r + n)" "rtail r' = rtail r"
    "ring r' = ring r" "reof r' = reof r" "ppc r' = PSignal (Some (drop n rest))" "cpc r' = cpc r" "consumed r' = consumed r"
    "rseq r' = rseq r"
    by (simp_all add: r'_def publish_piece_def n(1) h pc)
  have ne: "\<not> reof r" using c assms(2) by (auto simp: ring_core_def closing_def)
  have ev: "events r' = Suc (events r)" using assms(2) by (simp add: events_def owed_def f)
  have q: "\<not> quiet_since r' w" if "unat w \<le> events r" for w using that ne by (simp add: quiet_since_def ev f)
  have "ring r ! (i mod CAP) = (produced r @ take n rest) ! i" if "used r \<le> i" "i < made r + n" for i
  proof (cases "i < made r")
    case True
    with c that(1) show ?thesis by (simp add: nth_append ring_core_def)
  next
    case False
    then have "i = made r + (i - made r)" "i - made r < n" using that(2) by simp_all
    then show ?thesis using put [of "i - made r"] False by (simp add: nth_append)
  qed
  moreover have "consumed r = take (used r) (produced r @ take n rest)" using c by (simp add: ring_core_def)
  ultimately have "ring_core r'" using c n ne by (simp add: ring_core_def ev f)
  moreover have "producer_ok r'" by (simp add: producer_ok_def f)
  moreover have "consumer_ok r'"
    using co q assms(2) by (cases "cpc r") (auto simp: consumer_ok_def ev f)
  ultimately show ?thesis by (simp add: ring_inv_def r'_def)
qed

lemma inv_copy_out:
  assumes "ring_inv r" "cpc r = CLoaded q h t" "h - t > 0"
  shows "ring_inv (copy_available r h t)"
proof -
  have c: "ring_core r" and k: "consumer_ok r" using assms(1) by (simp_all add: ring_inv_def)
  obtain n where n: "h = int n" "used r \<le> n" "n \<le> made r" and t: "t = int (used r)"
    using k assms(2) by (auto simp: consumer_ok_def)
  let ?d = "n - used r"
  have d: "h - t = int ?d" using n t by (simp add: of_nat_diff)
  let ?out = "map (\<lambda>k. ring r ! ((used r + k) mod CAP)) [0..<?d]"
  have read: "ringRead (ring r) t (h - t) = Some ?out"
  proof -
    have "ringRead (ring r) (int (used r)) (int ?d) = Some ?out"
      using c n by (intro ringRead_spec) (auto simp: ring_core_def)
    then show ?thesis unfolding d by (simp add: t)
  qed
  have out: "?out = take ?d (drop (used r) (produced r))"
    using c n by (intro nth_equalityI) (auto simp: ring_core_def)
  have e: "copy_available r h t = r\<lparr>cpc := CCopied h t ?out\<rparr>" by (simp add: copy_available_def read)
  show ?thesis
    unfolding e by (rule inv_c_pc [OF assms(1)]) (use n t out assms(2) in \<open>auto simp: consumer_ok_def\<close>)
qed

lemma inv_give:
  assumes "ring_inv r" "cpc r = CCopied h t out"
  shows "ring_inv (give_back r h t out)"
proof -
  have c: "ring_core r" and k: "consumer_ok r" and p: "producer_ok r" using assms(1) by (simp_all add: ring_inv_def)
  obtain n where n: "h = int n" "used r \<le> n" "n \<le> made r" and t: "t = int (used r)"
    and out: "out = take (n - used r) (drop (used r) (produced r))"
    using k assms(2) by (auto simp: consumer_ok_def)
  let ?r = "give_back r h t out"
  have cons: "consumed ?r = take n (produced r)"
  proof -
    have "consumed ?r = consumed r @ out" by (simp add: give_back_def consumed_def)
    also have "\<dots> = take (used r) (produced r) @ take (n - used r) (drop (used r) (produced r))" using c out by (simp add: ring_core_def)
    also have "\<dots> = take n (produced r)" using n by (metis le_add_diff_inverse take_add)
    finally show ?thesis .
  qed
  then have u: "used ?r = n" using n by simp
  have f: "produced ?r = produced r" "rhead ?r = rhead r" "rtail ?r = word_of_nat n" "ring ?r = ring r" "events ?r = events r"
    "reof ?r = reof r" "ppc ?r = ppc r" "cpc ?r = CNotify"
    by (simp_all add: give_back_def n(1) events_def)
  have "ring_core ?r" using c n cons unfolding ring_core_def u f by auto
  moreover have "producer_ok ?r"
    using p n unfolding producer_ok_def u f by (cases "ppc r") (auto intro: order_trans)
  moreover have "consumer_ok ?r" by (simp add: consumer_ok_def f)
  ultimately show ?thesis by (simp add: ring_inv_def)
qed

lemma answers_irrelevant:
  assumes "ring_inv r" "data_of a = []" "cpc r \<noteq> CNotify"
  shows "ring_inv (r\<lparr>cpc := CIdle, answers := answers r @ [a]\<rparr>)"
proof -
  let ?r = "r\<lparr>cpc := CIdle\<rparr>"
  have i: "ring_inv ?r" by (rule inv_c_pc [OF assms(1) _ assms(3)]) (simp add: consumer_ok_def)
  have u: "consumed (?r\<lparr>answers := answers r @ [a]\<rparr>) = consumed ?r" using assms(2) by (simp add: consumed_def)
  have "ring_core ?r" "producer_ok ?r" using i by (simp_all add: ring_inv_def)
  then have "ring_inv (?r\<lparr>answers := answers r @ [a]\<rparr>)"
    unfolding ring_inv_def ring_core_def producer_ok_def u by (cases "ppc r") (auto simp: consumer_ok_def events_def)
  then show ?thesis by simp
qed

lemma step_made: "ring_step r r' \<Longrightarrow> made r \<le> made r'"
  by (erule ring_step.cases)
    (auto simp: copy_piece_def publish_piece_def copy_available_def give_back_def Let_def split: option.splits)

lemma inv_ring_step:
  assumes "ring_step r r'" "ring_inv r" "made r' < 2 ^ 31"
  shows "ring_inv r'"
proof -
  have c: "ring_core r" and k: "consumer_ok r" and p: "producer_ok r" using assms(2) by (simp_all add: ring_inv_def)
  have lt: "made r < 2 ^ 31" using step_made [OF assms(1)] assms(3) by simp
  have hd: "sint (rhead r) = int (made r)" "sint (rtail r) = int (used r)"
    using c lt sint_small [of "made r"] sint_small [of "used r"] by (auto simp: ring_core_def)
  have live: "\<not> reof r" if "\<not> closing (ppc r)" using c that by (auto simp: ring_core_def)
  note pp = inv_p_pc [OF assms(2)] and cc = inv_c_pc [OF assms(2)]
  from assms(1) show ?thesis
  proof cases
    case (p_begin chunk)
    then show ?thesis by (auto intro!: pp simp: producer_ok_def owed_def)
  next
    case p_done
    then show ?thesis by (auto intro!: pp simp: producer_ok_def owed_def closing_def)
  next
    case (p_head rest)
    then show ?thesis using live by (auto intro!: pp simp: producer_ok_def owed_def closing_def hd)
  next
    case (p_tail rest h)
    with p have "producer_ok (r\<lparr>ppc := PLoaded rest h (sint (rtail r))\<rparr>)"
      using c unfolding producer_ok_def hd by (auto simp: ring_core_def)
    with p_tail live show ?thesis by (auto intro!: pp simp: owed_def closing_def)
  next
    case (p_full rest h t)
    with p obtain m where "m \<le> used r" "t = int m" "made r \<le> m + CAP" "h = int (made r)" by (auto simp: producer_ok_def)
    with p_full have "producer_ok (r\<lparr>ppc := PWait rest (word_of_int t)\<rparr>)"
      by (auto simp: producer_ok_def free_of_def intro!: exI [of _ m])
    with p_full live show ?thesis by (auto intro!: pp simp: owed_def closing_def)
  next
    case (p_stale rest t)
    with live show ?thesis by (auto intro!: pp simp: producer_ok_def owed_def closing_def)
  next
    case (p_sleep rest t)
    with p live show ?thesis by (auto intro!: pp simp: producer_ok_def owed_def closing_def)
  next
    case (p_copy rest h t)
    then show ?thesis using inv_copy [OF assms(2)] by simp
  next
    case (p_publish rest h n)
    then show ?thesis using inv_publish [OF assms(2)] by simp
  next
    case (p_signal k)
    then show ?thesis using inv_signal [OF assms(2) _ lt] by simp
  next
    case (p_notify k)
    then show ?thesis using inv_notify_c [OF assms(2)] by simp
  next
    case p_close
    then show ?thesis using inv_close [OF assms(2)] by simp
  next
    case p_abort
    have i: "ring_inv (r\<lparr>rerr := True\<rparr>)"
      using assms(2) p_abort by (cases "cpc r")
        (auto simp: ring_inv_def ring_core_def producer_ok_def consumer_ok_def quiet_since_def events_def)
    have "ring_inv (r\<lparr>rerr := True, ppc := PErr\<rparr>)"
      using inv_p_pc [OF i, of PErr] p_abort by (simp add: producer_ok_def owed_def)
    then show ?thesis unfolding p_abort(1) .
  next
    case p_abort_eof
    then show ?thesis using inv_close [OF assms(2)] live by (simp add: closing_def)
  next
    case c_seq
    then show ?thesis by (auto intro!: cc simp: consumer_ok_def events_def)
  next
    case (c_head q)
    have u: "used r \<le> made r" using c by (simp add: ring_core_def)
    from c_head k have "consumer_ok (r\<lparr>cpc := CHead q (sint (rhead r))\<rparr>)"
      unfolding hd by (simp add: consumer_ok_def events_def u)
    with c_head show ?thesis by (auto intro!: cc)
  next
    case (c_tail q h)
    with k have "consumer_ok (r\<lparr>cpc := CLoaded q h (sint (rtail r))\<rparr>)"
      by (auto simp: consumer_ok_def hd events_def quiet_since_def)
    with c_tail show ?thesis by (auto intro!: cc)
  next
    case (c_copy q h t)
    then show ?thesis using inv_copy_out [OF assms(2)] by simp
  next
    case (c_give h t out)
    then show ?thesis using inv_give [OF assms(2)] by simp
  next
    case c_notify
    then show ?thesis using inv_notify_p [OF assms(2)] by simp
  next
    case (c_empty q h t)
    with k have "consumer_ok (r\<lparr>cpc := CEmpty q\<rparr>)" by (auto simp: consumer_ok_def quiet_since_def events_def)
    with c_empty show ?thesis by (auto intro!: cc)
  next
    case c_failed
    then show ?thesis using answers_irrelevant [OF assms(2), of Failed] by simp
  next
    case (c_noerr q)
    with k have "consumer_ok (r\<lparr>cpc := CNoErr q\<rparr>)" by (auto simp: consumer_ok_def quiet_since_def events_def)
    with c_noerr show ?thesis by (auto intro!: cc)
  next
    case c_end
    then show ?thesis using answers_irrelevant [OF assms(2), of End] by simp
  next
    case (c_noeof q)
    with k have "consumer_ok (r\<lparr>cpc := CWait q\<rparr>)" by (auto simp: consumer_ok_def quiet_since_def events_def)
    with c_noeof show ?thesis by (auto intro!: cc)
  next
    case (c_stale q)
    then show ?thesis by (auto intro!: cc simp: consumer_ok_def)
  next
    case (c_sleep q)
    with k have "consumer_ok (r\<lparr>cpc := CSleep q\<rparr>)" by (auto simp: consumer_ok_def quiet_since_def events_def)
    with c_sleep show ?thesis by (auto intro!: cc)
  qed
qed

lemma ring_run_inv: "ring_run r \<Longrightarrow> made r < 2 ^ 31 \<Longrightarrow> ring_inv r"
proof (induction rule: ring_run.induct)
  case start
  show ?case by (rule ring_inv_init)
next
  case (more r r')
  then have "made r < 2 ^ 31" using step_made [OF more(2)] by simp
  with more show ?case using inv_ring_step by blast
qed


section \<open>Runs\<close>

lemma ring_run_steps: "ring_run r \<Longrightarrow> ring_step\<^sup>*\<^sup>* r r' \<Longrightarrow> ring_run r'"
  by (rotate_tac, induction rule: rtranclp_induct) (auto intro: ring_run.more)

text \<open>One byte written from end to end, and one read.\<close>

lemma copies_one:
  assumes "ppc r = PIdle" "\<not> reof r" "0 < free_of (sint (rhead r)) (sint (rtail r))"
  shows "ring_step\<^sup>*\<^sup>* r (case ringWrite (ring r) (sint (rhead r)) [x] of
      None \<Rightarrow> r\<lparr>ppc := PDead\<rparr> | Some b \<Rightarrow> r\<lparr>ring := b, ppc := PCopied [x] (sint (rhead r)) 1\<rparr>)"
proof -
  let ?h = "sint (rhead r)" and ?t = "sint (rtail r)"
  have n: "min (free_of ?h ?t) (int (length [x])) = int 1" using assms(3) by simp
  have pc: "subarray [x] 0 (int 1) = [x]" using subarray_nat [of "[x]" 0 1] by simp
  have "ring_step r (r\<lparr>ppc := PChunk [x]\<rparr>)" using p_begin assms(1,2) by blast
  moreover have "ring_step (r\<lparr>ppc := PChunk [x]\<rparr>) (r\<lparr>ppc := PHead [x] ?h\<rparr>)"
    using p_head [of "r\<lparr>ppc := PChunk [x]\<rparr>" "[x]"] by simp
  moreover have "ring_step (r\<lparr>ppc := PHead [x] ?h\<rparr>) (r\<lparr>ppc := PLoaded [x] ?h ?t\<rparr>)"
    using p_tail [of "r\<lparr>ppc := PHead [x] ?h\<rparr>"] by simp
  moreover have "ring_step (r\<lparr>ppc := PLoaded [x] ?h ?t\<rparr>) (copy_piece (r\<lparr>ppc := PLoaded [x] ?h ?t\<rparr>) [x] ?h ?t)"
    using p_copy [of "r\<lparr>ppc := PLoaded [x] ?h ?t\<rparr>"] assms(3) by simp
  moreover have "copy_piece (r\<lparr>ppc := PLoaded [x] ?h ?t\<rparr>) [x] ?h ?t = (case ringWrite (ring r) ?h [x] of
      None \<Rightarrow> r\<lparr>ppc := PDead\<rparr> | Some b \<Rightarrow> r\<lparr>ring := b, ppc := PCopied [x] ?h 1\<rparr>)"
    unfolding copy_piece_def n Let_def pc by (simp split: option.splits)
  ultimately show ?thesis by (auto intro: converse_rtranclp_into_rtranclp)
qed

definition with_byte :: "ring_state \<Rightarrow> bytes \<Rightarrow> byte \<Rightarrow> ring_state" where
  "with_byte r b x =
     r\<lparr>ring := b, rhead := word_of_int (sint (rhead r) + 1), rseq := rseq r + 1, ppc := PIdle,
       produced := produced r @ [x], cpc := wake_consumer (cpc r)\<rparr>"

lemma publishes_one:
  assumes "ppc r = PCopied [x] h 1"
  shows "ring_step\<^sup>*\<^sup>* r (r\<lparr>rhead := word_of_int (h + 1), rseq := rseq r + 1, ppc := PIdle,
       produced := produced r @ [x], cpc := wake_consumer (cpc r)\<rparr>)"
proof -
  have pc: "subarray [x] 0 1 = [x]" using subarray_nat [of "[x]" 0 1] by simp
  let ?a = "r\<lparr>rhead := word_of_int (h + 1), ppc := PSignal (Some []), produced := produced r @ [x]\<rparr>"
  let ?b = "?a\<lparr>rseq := rseq r + 1, ppc := PNotify (Some [])\<rparr>"
  let ?c = "?b\<lparr>ppc := PChunk [], cpc := wake_consumer (cpc r)\<rparr>"
  have "ring_step r ?a" using p_publish [OF assms] by (simp add: publish_piece_def pc)
  moreover have "ring_step ?a ?b" using p_signal [of ?a] by simp
  moreover have "ring_step ?b ?c" using p_notify [of ?b] by (simp add: after_signal_def)
  moreover have "ring_step ?c (?c\<lparr>ppc := PIdle\<rparr>)" using p_done [of ?c] by simp
  ultimately have steps: "ring_step\<^sup>*\<^sup>* r (?c\<lparr>ppc := PIdle\<rparr>)" by (auto intro: converse_rtranclp_into_rtranclp)
  have e: "?c\<lparr>ppc := PIdle\<rparr> = r\<lparr>rhead := word_of_int (h + 1), rseq := rseq r + 1, ppc := PIdle,
       produced := produced r @ [x], cpc := wake_consumer (cpc r)\<rparr>" by (cases r) simp
  show ?thesis using steps unfolding e .
qed

lemma writes_one:
  assumes "ppc r = PIdle" "\<not> reof r" "0 < free_of (sint (rhead r)) (sint (rtail r))"
    "ringWrite (ring r) (sint (rhead r)) [x] = Some b"
  shows "ring_step\<^sup>*\<^sup>* r (with_byte r b x)"
proof -
  let ?r = "r\<lparr>ring := b, ppc := PCopied [x] (sint (rhead r)) 1\<rparr>"
  have "ring_step\<^sup>*\<^sup>* r ?r" using copies_one [OF assms(1-3), of x] assms(4) by simp
  moreover have "ring_step\<^sup>*\<^sup>* ?r (with_byte r b x)"
    using publishes_one [of ?r x "sint (rhead r)"] by (simp add: with_byte_def)
  ultimately show ?thesis by (rule rtranclp_trans)
qed

lemma looks:
  assumes "cpc r = CIdle"
  shows "ring_step\<^sup>*\<^sup>* r (r\<lparr>cpc := CLoaded (rseq r) (sint (rhead r)) (sint (rtail r))\<rparr>)"
proof -
  have "ring_step r (r\<lparr>cpc := CSeq (rseq r)\<rparr>)" using c_seq [OF assms] .
  moreover have "ring_step (r\<lparr>cpc := CSeq (rseq r)\<rparr>) (r\<lparr>cpc := CHead (rseq r) (sint (rhead r))\<rparr>)"
    using c_head [of "r\<lparr>cpc := CSeq (rseq r)\<rparr>"] by simp
  moreover have "ring_step (r\<lparr>cpc := CHead (rseq r) (sint (rhead r))\<rparr>) (r\<lparr>cpc := CLoaded (rseq r) (sint (rhead r)) (sint (rtail r))\<rparr>)"
    using c_tail [of "r\<lparr>cpc := CHead (rseq r) (sint (rhead r))\<rparr>"] by simp
  ultimately show ?thesis by (auto intro: converse_rtranclp_into_rtranclp)
qed

lemma looks_empty:
  assumes "cpc r = CIdle" "sint (rhead r) \<le> sint (rtail r)" "\<not> rerr r"
  shows "ring_step\<^sup>*\<^sup>* r (r\<lparr>cpc := CNoErr (rseq r)\<rparr>)"
proof -
  let ?a = "r\<lparr>cpc := CLoaded (rseq r) (sint (rhead r)) (sint (rtail r))\<rparr>"
  have "ring_step ?a (r\<lparr>cpc := CEmpty (rseq r)\<rparr>)" using c_empty [of ?a] assms(2) by simp
  moreover have "ring_step (r\<lparr>cpc := CEmpty (rseq r)\<rparr>) (r\<lparr>cpc := CNoErr (rseq r)\<rparr>)"
    using c_noerr [of "r\<lparr>cpc := CEmpty (rseq r)\<rparr>"] assms(3) by simp
  ultimately show ?thesis using looks [OF assms(1)] by (auto intro: rtranclp.rtrancl_into_rtrancl)
qed

lemma falls_asleep:
  assumes "cpc r = CIdle" "sint (rhead r) \<le> sint (rtail r)" "\<not> rerr r" "\<not> reof r"
  shows "ring_step\<^sup>*\<^sup>* r (r\<lparr>cpc := CSleep (rseq r)\<rparr>)"
proof -
  have "ring_step (r\<lparr>cpc := CNoErr (rseq r)\<rparr>) (r\<lparr>cpc := CWait (rseq r)\<rparr>)"
    using c_noeof [of "r\<lparr>cpc := CNoErr (rseq r)\<rparr>"] assms(4) by simp
  moreover have "ring_step (r\<lparr>cpc := CWait (rseq r)\<rparr>) (r\<lparr>cpc := CSleep (rseq r)\<rparr>)"
    using c_sleep [of "r\<lparr>cpc := CWait (rseq r)\<rparr>"] by simp
  ultimately show ?thesis using looks_empty [OF assms(1-3)] by (auto intro: rtranclp.rtrancl_into_rtrancl)
qed

lemma reads_one:
  assumes "cpc r = CIdle" "sint (rtail r) < sint (rhead r)" "ppc r = PIdle"
    "ringRead (ring r) (sint (rtail r)) (sint (rhead r) - sint (rtail r)) = Some out"
  shows "ring_step\<^sup>*\<^sup>* r (r\<lparr>rtail := word_of_int (sint (rhead r)), answers := answers r @ [Data out]\<rparr>)"
proof -
  let ?h = "sint (rhead r)" and ?t = "sint (rtail r)"
  let ?a = "r\<lparr>cpc := CLoaded (rseq r) ?h ?t\<rparr>"
  let ?b = "r\<lparr>cpc := CCopied ?h ?t out\<rparr>"
  let ?c = "r\<lparr>rtail := word_of_int ?h, cpc := CNotify, answers := answers r @ [Data out]\<rparr>"
  have "ring_step ?a ?b" using c_copy [of ?a] assms(2,4) by (simp add: copy_available_def)
  moreover have "ring_step ?b ?c" using c_give [of ?b] by (simp add: give_back_def)
  moreover have "ring_step ?c (?c\<lparr>cpc := CIdle, ppc := PIdle\<rparr>)"
    using c_notify [of ?c] assms(3) by (simp add: wake_producer_def)
  ultimately have "ring_step\<^sup>*\<^sup>* r (?c\<lparr>cpc := CIdle, ppc := PIdle\<rparr>)"
    using looks [OF assms(1)] by (auto intro: rtranclp.rtrancl_into_rtrancl)
  moreover have "?c\<lparr>cpc := CIdle, ppc := PIdle\<rparr> = r\<lparr>rtail := word_of_int ?h, answers := answers r @ [Data out]\<rparr>"
    using assms(1,3) by simp
  ultimately show ?thesis by simp
qed

text \<open>
  A run that loses the end: the read has looked at the head and found nothing; before it looks at
  the end mark the producer publishes its last byte and closes.
\<close>

lemma late_close_run:
  "\<exists>r. ring_run r \<and> made r = 1 \<and> answers r = [End] \<and> produced r = [b]"
proof -
  let ?r1 = "ring_init\<lparr>cpc := CNoErr 0\<rparr>"
  have r1: "ring_run ?r1"
    using ring_run_steps [OF ring_run.start looks_empty] by (simp add: ring_init_def)
  obtain out where w: "ringWrite (replicate CAP 0) (int 0) [b] = Some out"
    using ringWrite_spec [of "replicate CAP 0" "[b]" 0] ring_CAP_pos by (auto simp: CAP_def)
  let ?r2 = "with_byte ?r1 out b"
  have r2: "ring_run ?r2"
    by (rule ring_run_steps [OF r1 writes_one]) (use w in \<open>simp_all add: ring_init_def free_of_def\<close>)
  let ?r3 = "?r2\<lparr>reof := True, ppc := PSignal None\<rparr>"
  have "ring_run ?r3" using ring_run.more [OF r2 p_close] by (simp add: with_byte_def ring_init_def)
  then have "ring_run (?r3\<lparr>cpc := CIdle, answers := answers ?r3 @ [End]\<rparr>)"
    using ring_run.more [OF _ c_end, of ?r3 0] by (simp add: with_byte_def wake_consumer_def)
  then show ?thesis
    by (intro exI [of _ "?r3\<lparr>cpc := CIdle, answers := answers ?r3 @ [End]\<rparr>"] conjI)
      (simp_all add: with_byte_def ring_init_def)
qed

text \<open>A run in which the reader sleeps and a byte has been published.\<close>

lemma sleeper_run:
  "\<exists>r. ring_run r \<and> made r = 1 \<and> cpc r = CSleep 0 \<and> consumed r \<noteq> produced r"
proof -
  let ?r1 = "ring_init\<lparr>cpc := CSleep 0\<rparr>"
  have r1: "ring_run ?r1"
    using ring_run_steps [OF ring_run.start falls_asleep] by (simp add: ring_init_def)
  obtain out where w: "ringWrite (replicate CAP 0) (int 0) [7] = Some out"
    using ringWrite_spec [of "replicate CAP 0" "[7]" 0] ring_CAP_pos by (auto simp: CAP_def)
  let ?r2 = "?r1\<lparr>ring := out, ppc := PCopied [7] 0 1\<rparr>"
  have "ring_step\<^sup>*\<^sup>* ?r1 ?r2"
    using copies_one [of ?r1 7] w by (simp add: ring_init_def free_of_def)
  then have r2: "ring_run ?r2" by (rule ring_run_steps [OF r1])
  have "ring_run (publish_piece ?r2 [7] 0 1)" using ring_run.more [OF r2 p_publish] by simp
  then show ?thesis
    using subarray_nat [of "[7 :: byte]" 0 1]
    by (intro exI [of _ "publish_piece ?r2 [7] 0 1"]) (simp add: publish_piece_def ring_init_def consumed_def)
qed

text \<open>Any number of bytes can be written and read, one at a time, until the counters overflow.\<close>

definition level :: "nat \<Rightarrow> ring_state \<Rightarrow> bool" where
  "level n r \<longleftrightarrow> ring_run r \<and> made r = n \<and> used r = n \<and> ppc r = PIdle \<and> cpc r = CIdle \<and> \<not> reof r \<and> \<not> rerr r"

lemma level_positions:
  assumes "level n r" "n < 2 ^ 31"
  shows "sint (rhead r) = int n" "sint (rtail r) = int n" "length (ring r) = CAP"
  using ring_run_inv [of r] assms sint_small [OF assms(2)] by (simp_all add: level_def ring_inv_def ring_core_def)

lemma level_writes:
  assumes "level n r" "n < 2 ^ 31"
  obtains b where "ringWrite (ring r) (int n) [x] = Some b" "length b = CAP" "ring_run (with_byte r b x)"
proof -
  note p = level_positions [OF assms]
  obtain b where b: "ringWrite (ring r) (int n) [x] = Some b" "length b = CAP"
    using ringWrite_spec [OF p(3), of "[x]" n] by (auto simp: CAP_def)
  have "ring_step\<^sup>*\<^sup>* r (with_byte r b x)"
    using assms(1) b(1) p by (intro writes_one) (simp_all add: level_def free_of_def)
  with assms(1) b show thesis by (intro that) (auto simp: level_def intro: ring_run_steps)
qed

lemma level_Suc:
  assumes "level n r" "Suc n < 2 ^ 31"
  shows "\<exists>r. level (Suc n) r"
proof -
  have n: "n < 2 ^ 31" using assms(2) by simp
  note p = level_positions [OF assms(1) n]
  obtain b where b: "length b = CAP" "ring_run (with_byte r b 0)"
    by (rule level_writes [OF assms(1) n, of 0]) (rule that)
  let ?r = "with_byte r b 0"
  have h: "sint (rhead ?r) = int (Suc n)" "sint (rtail ?r) = int n"
    using p sint_small [OF assms(2)] by (simp_all add: with_byte_def add.commute)
  have "ringRead (ring ?r) (int n) (int 1) = Some (map (\<lambda>k. ring ?r ! ((n + k) mod CAP)) [0..<1])"
    by (rule ringRead_spec) (simp_all add: with_byte_def b CAP_def)
  then obtain y where "ringRead (ring ?r) (int n) (int 1) = Some [y]" by simp
  then have s: "ring_step\<^sup>*\<^sup>* ?r (?r\<lparr>rtail := word_of_int (int (Suc n)), answers := answers ?r @ [Data [y]]\<rparr>)"
    using reads_one [of ?r "[y]"] assms(1) unfolding h by (simp add: with_byte_def level_def wake_consumer_def)
  let ?s = "?r\<lparr>rtail := word_of_int (int (Suc n)), answers := answers ?r @ [Data [y]]\<rparr>"
  have "ring_run ?s" by (rule ring_run_steps [OF b(2) s])
  moreover have "consumed ?s = consumed r @ [y]" by (simp add: consumed_def with_byte_def)
  ultimately have "level (Suc n) ?s"
    using assms(1) by (simp add: level_def with_byte_def wake_consumer_def)
  then show ?thesis by blast
qed

lemma level_reached: "n < 2 ^ 31 \<Longrightarrow> \<exists>r. level n r"
proof (induction n)
  case 0
  show ?case by (intro exI [of _ ring_init]) (simp add: level_def ring_run.start, simp add: ring_init_def consumed_def)
next
  case (Suc n)
  then obtain r where "level n r" by auto
  then show ?case using level_Suc Suc.prems by blast
qed

lemma ringWrite_wrapped: "ringWrite rg (- (2 ^ 31)) src = ringWrite rg (int 0) src"
  by (simp add: ringWrite_def js_rem_def CAP_def)

lemma ringWrite_negative: "ringWrite rg (- (2 ^ 31) + 1) src = None"
  by (simp add: ringWrite_def js_rem_def CAP_def Let_def)

section \<open>Properties\<close>

text \<open>
  C26. A ring is a pipe: whatever the two sides interleave, until \<open>2 ^ 31\<close> bytes have been
  published, what has been read is a prefix of what was written, the difference is at most
  \<open>CAP\<close> bytes, and neither of the two copies that wrap is ever out of range.
\<close>

theorem ring_is_pipe:
  assumes "ring_run r" "length (produced r) < 2 ^ 31"
  shows "prefix (consumed r) (produced r) \<and> length (produced r) - length (consumed r) \<le> CAP
    \<and> ppc r \<noteq> PDead \<and> cpc r \<noteq> CDead"
proof -
  have i: "ring_inv r" using ring_run_inv [OF assms] .
  then have "consumed r = take (used r) (produced r)" "made r - used r \<le> CAP" by (auto simp: ring_inv_def ring_core_def)
  moreover from this(1) have "prefix (consumed r) (produced r)" by (metis take_is_prefix)
  ultimately show ?thesis using i by (auto simp: ring_inv_def producer_ok_def consumer_ok_def)
qed

theorem ring_is_pipe_witness:
  "\<exists>r. ring_run r \<and> produced r = [7] \<and> prefix (consumed r) (produced r)"
proof -
  obtain r where "ring_run r" "made r = 1" "produced r = [7]" using late_close_run by blast
  with ring_is_pipe [of r] show ?thesis by auto
qed

text \<open>
  C27. No wake-up is lost. A sleep is ended by a notification only. Until \<open>2 ^ 31\<close> bytes have been
  published, in every interleaving of the single loads, stores, copies and notifications: while the
  consumer sleeps and there are bytes to read or the end has been marked, the producer has stored an
  event and is at the addition or the notification that follows it, so its next steps wake the sleeper;
  while the producer sleeps and there is room, the consumer is at the notification that wakes it; and
  the two never sleep at once. The consumer's load of the counter comes before its load of the head:
  with the two exchanged it could sleep on a counter that has already moved.
\<close>

theorem no_lost_wakeup:
  assumes "ring_run r" "length (produced r) < 2 ^ 31"
  shows "(cpc r = CSleep q \<longrightarrow> consumed r \<noteq> produced r \<or> reof r \<longrightarrow> (\<exists>k. ppc r = PSignal k \<or> ppc r = PNotify k))
    \<and> (ppc r = PSleep rest w \<longrightarrow> length (produced r) < length (consumed r) + CAP \<longrightarrow> cpc r = CNotify)
    \<and> \<not> (cpc r = CSleep q \<and> ppc r = PSleep rest w)"
proof -
  have i: "ring_core r" "producer_ok r" "consumer_ok r" using ring_run_inv [OF assms] by (simp_all add: ring_inv_def)
  have eq: "made r = used r \<Longrightarrow> consumed r = produced r" using i(1) by (auto simp: ring_core_def)
  have c: "made r = used r \<and> \<not> reof r" if sl: "cpc r = CSleep q" and no: "\<And>k. ppc r \<noteq> PSignal k \<and> ppc r \<noteq> PNotify k"
  proof -
    have "rseq r = q" using i(3) sl no by (auto simp: consumer_ok_def)
    then have "events r = unat q" using no by (cases "ppc r") (auto simp: events_def owed_def)
    then show ?thesis using i(3) sl by (auto simp: consumer_ok_def)
  qed
  have p: "made r = used r + CAP" if sl: "ppc r = PSleep rest w" and no: "cpc r \<noteq> CNotify"
  proof -
    obtain n where n: "n \<le> used r" "w = word_of_nat n" "made r = n + CAP" "rtail r = w"
      using i(2) sl no by (auto simp: producer_ok_def)
    have lt: "used r < 2 ^ 31" "n < 2 ^ 31" using i(1) assms(2) n(1) by (simp_all add: ring_core_def)
    have "word_of_nat (used r) = (word_of_nat n :: i32)" using n(2,4) i(1) by (simp only: ring_core_def)
    then have "int (used r) = int n" by (simp only: sint_small [OF lt(1), symmetric] sint_small [OF lt(2), symmetric])
    with n(3) show ?thesis by (simp only: of_nat_eq_iff)
  qed
  have "\<not> (cpc r = CSleep q \<and> ppc r = PSleep rest w)"
  proof
    assume b: "cpc r = CSleep q \<and> ppc r = PSleep rest w"
    have "made r = used r \<and> \<not> reof r" by (rule c) (simp_all add: b)
    moreover have "made r = used r + CAP" by (rule p) (simp_all add: b)
    ultimately show False using ring_CAP_pos by linarith
  qed
  moreover have "cpc r = CSleep q \<longrightarrow> consumed r \<noteq> produced r \<or> reof r \<longrightarrow> (\<exists>k. ppc r = PSignal k \<or> ppc r = PNotify k)"
    using c eq by blast
  moreover have "ppc r = PSleep rest w \<longrightarrow> made r < used r + CAP \<longrightarrow> cpc r = CNotify"
    using p by (metis less_irrefl)
  ultimately show ?thesis by blast
qed

theorem no_lost_wakeup_witness:
  "\<exists>r. ring_run r \<and> cpc r = CSleep 0 \<and> consumed r \<noteq> produced r \<and> (\<exists>k. ppc r = PSignal k \<or> ppc r = PNotify k)"
proof -
  obtain r where "ring_run r" "made r = 1" "cpc r = CSleep 0" "consumed r \<noteq> produced r" using sleeper_run by blast
  with no_lost_wakeup [of r 0 "[]" 0] show ?thesis by auto
qed

text \<open>
  C28. The counters are 32 bits wide and are compared as numbers, and both a reader and a writer are lost
  when they overflow. There is a run of \<open>2 ^ 31\<close> bytes, all but the last of them read, after which the
  head is less than the tail: from there the reader can fall asleep with its byte in the ring and
  nobody left to wake it, and the writer can publish one more byte (the head is then exactly a
  multiple of \<open>CAP\<close>, so this copy still starts at 0) and throws on the one after.
\<close>

theorem counter_overflow:
  "\<exists>r. ring_run r \<and> length (produced r) = 2 ^ 31 \<and> length (consumed r) = 2 ^ 31 - 1
    \<and> sint (rhead r) < sint (rtail r)
    \<and> (\<exists>r'. ring_step\<^sup>*\<^sup>* r r' \<and> produced r' = produced r \<and> consumed r' = consumed r
         \<and> cpc r' = CSleep (rseq r') \<and> ppc r' = PIdle)
    \<and> (\<exists>r'. ring_step\<^sup>*\<^sup>* r r' \<and> length (produced r') = 2 ^ 31 + 1 \<and> ppc r' = PDead)"
proof -
  have n: "2 ^ 31 - 1 < (2 ^ 31 :: nat)" by simp
  obtain r where r: "level (2 ^ 31 - 1) r" using level_reached [OF n] by blast
  note p = level_positions [OF r n]
  obtain b where b: "length b = CAP" "ring_run (with_byte r b 0)" by (rule level_writes [OF r n, of 0]) (rule that)
  let ?r = "with_byte r b 0"
  have h: "sint (rhead ?r) = - (2 ^ 31)" "sint (rtail ?r) = 2 ^ 31 - 1" using p by (simp_all add: with_byte_def)
  have f: "ppc ?r = PIdle" "cpc ?r = CIdle" "\<not> reof ?r" "\<not> rerr ?r" "made ?r = 2 ^ 31" "consumed ?r = consumed r"
    using r by (simp_all add: level_def with_byte_def wake_consumer_def consumed_def)
  have "ring_step\<^sup>*\<^sup>* ?r (?r\<lparr>cpc := CSleep (rseq ?r)\<rparr>)" using f h by (intro falls_asleep) simp_all
  then have A: "\<exists>r'. ring_step\<^sup>*\<^sup>* ?r r' \<and> produced r' = produced ?r \<and> consumed r' = consumed ?r
      \<and> cpc r' = CSleep (rseq r') \<and> ppc r' = PIdle"
    using f(1) by (intro exI [of _ "?r\<lparr>cpc := CSleep (rseq ?r)\<rparr>"]) simp
  have "length (ring ?r) = CAP" by (simp add: with_byte_def b)
  from ringWrite_spec [OF this, of "[0]" 0] obtain d where d: "ringWrite (ring ?r) (- (2 ^ 31)) [0] = Some d"
    unfolding ringWrite_wrapped by (auto simp: CAP_def)
  let ?s = "with_byte ?r d 0"
  have s: "ring_step\<^sup>*\<^sup>* ?r ?s" using f d by (intro writes_one) (simp_all add: h free_of_def)
  have hs: "sint (rhead ?s) = - (2 ^ 31) + 1" "sint (rtail ?s) = 2 ^ 31 - 1"
    using h by (simp_all add: with_byte_def [of ?r])
  have "ring_step\<^sup>*\<^sup>* ?s (?s\<lparr>ppc := PDead\<rparr>)"
    using copies_one [of ?s 0] f unfolding hs ringWrite_negative by (simp add: with_byte_def [of ?r] free_of_def)
  with s have "ring_step\<^sup>*\<^sup>* ?r (?s\<lparr>ppc := PDead\<rparr>)" by (rule rtranclp_trans)
  moreover have "made (?s\<lparr>ppc := PDead\<rparr>) = 2 ^ 31 + 1" using f(5) by (simp add: with_byte_def [of ?r])
  ultimately have B: "\<exists>r'. ring_step\<^sup>*\<^sup>* ?r r' \<and> length (produced r') = 2 ^ 31 + 1 \<and> ppc r' = PDead"
    by (intro exI [of _ "?s\<lparr>ppc := PDead\<rparr>"]) simp
  have "used ?r = 2 ^ 31 - 1" using r f(6) by (simp add: level_def)
  with A B b(2) f(5) h show ?thesis by (intro exI [of _ ?r]) simp
qed

text \<open>
  The end is the end, if the producer was quiet: when a read is about to answer \<open>End\<close> and
  nothing but the end mark was stored since it loaded the event counter, everything written has been
  read.
\<close>

theorem end_is_complete:
  assumes "ring_run r" "length (produced r) < 2 ^ 31" "cpc r = CNoErr q" "reof r"
    "unat (rseq r) + owed (ppc r) \<le> unat q + 1"
  shows "consumed r = produced r"
proof -
  have i: "ring_core r" "consumer_ok r" using ring_run_inv [OF assms(1,2)] by (simp_all add: ring_inv_def)
  then have "made r = used r" using assms(3-5) by (simp add: consumer_ok_def quiet_since_def events_def)
  with i(1) show ?thesis by (auto simp: ring_core_def)
qed

theorem end_is_complete_witness:
  "\<exists>r. ring_run r \<and> cpc r = CNoErr 0 \<and> reof r \<and> consumed r = produced r"
proof -
  let ?r1 = "ring_init\<lparr>cpc := CNoErr 0\<rparr>"
  let ?r2 = "?r1\<lparr>reof := True, ppc := PSignal None\<rparr>"
  have "ring_run ?r1"
    using ring_run_steps [OF ring_run.start looks_empty] by (simp add: ring_init_def)
  then have r2: "ring_run ?r2" using ring_run.more [OF _ p_close, of ?r1] by (simp add: ring_init_def)
  have "consumed ?r2 = produced ?r2"
    by (rule end_is_complete [OF r2, of 0]) (simp_all add: ring_init_def owed_def)
  with r2 show ?thesis by (intro exI [of _ ?r2]) (simp add: ring_init_def)
qed

text \<open>
  Otherwise it need not be: there is a run in which the reader is told \<open>End\<close> and one byte
  that was written and never reported as failed has not been read. The read looks at the head
  before it looks at the end mark, and bytes published in between are not looked at again.
\<close>

theorem end_can_truncate:
  "\<exists>r. ring_run r \<and> answers r = [End] \<and> produced r = [b] \<and> consumed r = []"
  using late_close_run [of b] by (auto simp: consumed_def)

end
