(* ===== verification/Mutate.thy ===== *)
theory Mutate
  imports Utf8 "HOL-Library.Multiset" "HOL-Library.List_Lexorder"
begin

text \<open>
  The mutation-testing tool: what an edit is and how a mutant's edits are applied
  (\<open>tools/mutate/types.ts\<close>), which mutants the mechanical operators make of a file
  (\<open>tools/mutate/operators.ts\<close>), and how a run is sampled (\<open>tools/mutate/sample.ts\<close>). The
  lexer \<open>wacLex\<close> is a library of the compiler: it is a parameter, and the laws that are used of
  it are those of a lexer that reports each token where it stands. A string of the language is
  the list of its code units.
\<close>

unbundle bit_operations_syntax

section \<open>Edits and mutants: types.ts\<close>

record edit =
  efile :: jsstring
  estart :: nat
  eend :: nat
  replacement :: jsstring
  was :: jsstring

datatype origin = Curated | Operator

text \<open>An absent flag is false, as the code tests them.\<close>

record mutant =
  mname :: jsstring
  edits :: "edit list"
  origin :: origin
  ratioOnly :: bool
  mustSurvive :: bool
  equivalent :: "jsstring option"

text \<open>\<open>file.split("/")\<close>.\<close>

fun split_on :: "nat \<Rightarrow> jsstring \<Rightarrow> jsstring list" where
  "split_on d [] = [[]]"
| "split_on d (c # cs) =
     (if c = d then [] # split_on d cs
      else case split_on d cs of [] \<Rightarrow> [[c]] | p # ps \<Rightarrow> (c # p) # ps)"

definition slash :: nat where "slash = 47"

text \<open>The packages a mutant touches: a set, as the list in which each is met first.\<close>

definition package_of :: "edit \<Rightarrow> jsstring list" where
  "package_of e =
     (let parts = split_on slash (efile e) in
      if hd parts = js ''packages'' \<and> length parts > 1 then [parts ! 1] else [])"

definition packagesOf :: "mutant \<Rightarrow> jsstring list" where
  "packagesOf m = sort_key id (remdups (concat (map package_of (edits m))))"

text \<open>One edit, and a list of them from the last in the text to the first.\<close>

definition apply_edit :: "jsstring \<Rightarrow> edit \<Rightarrow> jsstring" where
  "apply_edit text e = take (estart e) text @ replacement e @ drop (eend e) text"

definition by_start_desc :: "edit list \<Rightarrow> edit list" where
  "by_start_desc es = rev (sort_key estart (rev es))"

definition edit_text :: "jsstring \<Rightarrow> edit list \<Rightarrow> jsstring" where
  "edit_text text es = foldl apply_edit text (by_start_desc es)"

text \<open>
  \<open>applyEdits\<close>, for the whole map of sources: \<open>None\<close> is the error for a file that was not
  loaded. Grouping by file keeps the order of a file's edits.
\<close>

definition edits_of :: "mutant \<Rightarrow> jsstring \<Rightarrow> edit list" where
  "edits_of m f = filter (\<lambda>e. efile e = f) (edits m)"

definition applyEdits :: "(jsstring \<rightharpoonup> jsstring) \<Rightarrow> mutant \<Rightarrow> (jsstring \<rightharpoonup> jsstring) option" where
  "applyEdits sources m =
     (if list_all (\<lambda>e. sources (efile e) \<noteq> None) (edits m)
      then Some (\<lambda>f. map_option (\<lambda>t. edit_text t (edits_of m f)) (sources f))
      else None)"

section \<open>Tokens and offsets: operators.ts\<close>

record token =
  kind :: jsstring
  ttext :: jsstring
  line :: nat
  col :: nat

text \<open>\<open>offsetIndex\<close>: where each line starts, and the offset of a line and column from 1.\<close>

definition lineStart :: "jsstring \<Rightarrow> nat list" where
  "lineStart source = 0 # [Suc i. i \<leftarrow> [0..<length source], source ! i = 10]"

definition offset_at :: "jsstring \<Rightarrow> nat \<Rightarrow> nat \<Rightarrow> nat" where
  "offset_at source l c = lineStart source ! (l - 1) + (c - 1)"

definition str_slice :: "jsstring \<Rightarrow> nat \<Rightarrow> nat \<Rightarrow> jsstring" where
  "str_slice s a b = take (b - a) (drop a s)"

definition edit_of :: "jsstring \<Rightarrow> nat \<Rightarrow> jsstring \<Rightarrow> jsstring \<Rightarrow> edit" where
  "edit_of f at old new = \<lparr>efile = f, estart = at, eend = at + length old, replacement = new, was = old\<rparr>"

definition RELATIONAL :: "jsstring \<Rightarrow> jsstring list" where
  "RELATIONAL k =
     (if k = js ''<'' then [js ''<='', js ''>'']
      else if k = js ''<='' then [js ''<'', js ''>='']
      else if k = js ''>'' then [js ''>='', js ''<'']
      else if k = js ''>='' then [js ''>'', js ''<='']
      else if k = js ''=='' then [js ''!='']
      else if k = js ''!='' then [js ''=='']
      else [])"

definition isIntLiteral :: "token \<Rightarrow> bool" where
  "isIntLiteral t \<longleftrightarrow> kind t = js ''int''"

text \<open>Digits, and numbers written in a base.\<close>

definition digit :: "nat \<Rightarrow> nat option" where
  "digit c =
     (if 48 \<le> c \<and> c \<le> 57 then Some (c - 48)
      else if 97 \<le> c \<and> c \<le> 102 then Some (c - 87)
      else if 65 \<le> c \<and> c \<le> 70 then Some (c - 55)
      else None)"

definition is_hex :: "nat \<Rightarrow> bool" where "is_hex c \<longleftrightarrow> digit c \<noteq> None"
definition is_dec :: "nat \<Rightarrow> bool" where "is_dec c \<longleftrightarrow> 48 \<le> c \<and> c \<le> 57"

definition value_in :: "nat \<Rightarrow> jsstring \<Rightarrow> nat" where
  "value_in b ds = foldl (\<lambda>v c. v * b + (case digit c of None \<Rightarrow> 0 | Some d \<Rightarrow> d)) 0 ds"

definition digit_char :: "nat \<Rightarrow> nat" where
  "digit_char d = (if d < 10 then 48 + d else 87 + d)"

fun hex_nat :: "nat \<Rightarrow> jsstring" where
  "hex_nat n = (if n < 16 then [digit_char n] else hex_nat (n div 16) @ [digit_char (n mod 16)])"

declare hex_nat.simps [simp del]

definition hex_form :: "jsstring \<Rightarrow> bool" where
  "hex_form t \<longleftrightarrow> length t > 2 \<and> t ! 0 = 48 \<and> (t ! 1 = 120 \<or> t ! 1 = 88) \<and> list_all is_hex (drop 2 t)"

definition dec_form :: "jsstring \<Rightarrow> bool" where
  "dec_form t \<longleftrightarrow> t \<noteq> [] \<and> list_all is_dec t"

definition bumpLiteral :: "jsstring \<Rightarrow> jsstring option" where
  "bumpLiteral t =
     (if hex_form t then Some (js ''0x'' @ hex_nat (value_in 16 (drop 2 t) + 1))
      else if dec_form t then Some (dec_nat (value_in 10 t + 1))
      else None)"

definition int_types :: "jsstring list" where
  "int_types = map js [''i8'', ''i16'', ''i32'', ''i64'', ''u8'', ''u16'', ''u32'', ''u64'']"

definition float_types :: "jsstring list" where
  "float_types = map js [''f32'', ''f64'']"

definition element_types :: "jsstring list" where
  "element_types = int_types @ float_types @ map js [''bool'', ''string'']"

definition defaultValueFor :: "jsstring list \<Rightarrow> jsstring option" where
  "defaultValueFor typeTokens =
     (let t = concat typeTokens in
      if t = js ''void'' then Some []
      else if t = js ''bool'' then Some (js ''false'')
      else if t = js ''string'' then Some [34, 34]
      else if t \<in> set float_types then Some (js ''0.0'')
      else if t \<in> set int_types then Some (js ''0'')
      else if t \<noteq> [] \<and> last t = 63 then Some (js ''null'')
      else case find (\<lambda>a. t = a @ js ''[]'') element_types of
             Some a \<Rightarrow> Some (a @ js ''[0]()'')
           | None \<Rightarrow> None)"


section \<open>Top-level functions\<close>

record fn_span =
  retType :: "jsstring list"
  fname :: jsstring
  opens :: nat
  closes :: nat

text \<open>
  The walk to a matching bracket: how many tokens were passed and how many brackets are still
  open when it stops, at the match or at the end of the file.
\<close>

fun match_from :: "jsstring \<Rightarrow> jsstring \<Rightarrow> token list \<Rightarrow> nat \<Rightarrow> nat \<times> nat" where
  "match_from opn cls [] d = (0, d)"
| "match_from opn cls (t # ts) d =
     (if d = 0 then (0, 0)
      else case match_from opn cls ts (if kind t = opn then Suc d else if kind t = cls then d - 1 else d) of
             (n, e) \<Rightarrow> (Suc n, e))"

definition type_stops :: "jsstring list" where
  "type_stops = map js [''export'', '';'', ''}'', ''{'', '','']"

definition ret_type :: "token list \<Rightarrow> nat \<Rightarrow> jsstring list" where
  "ret_type tokens i =
     rev (map ttext (takeWhile (\<lambda>t. kind t \<notin> set type_stops) (rev (take (i - 1) tokens))))"

text \<open>A function whose parameter list opens at token \<open>i\<close>.\<close>

definition candidate :: "token list \<Rightarrow> nat \<Rightarrow> fn_span option" where
  "candidate tokens i =
     (if kind (tokens ! i) \<noteq> js ''('' \<or> i = 0 \<or> kind (tokens ! (i - 1)) \<noteq> js ''ident'' then None
      else if ret_type tokens i = [] then None
      else
        (let p = i + 1 + fst (match_from (js ''('') (js '')'') (drop (i + 1) tokens) 1) in
         if length tokens \<le> p \<or> kind (tokens ! p) \<noteq> js ''{'' then None
         else
           (case match_from (js ''{'') (js ''}'') (drop (p + 1) tokens) 1 of (n, braces) \<Rightarrow>
              if braces \<noteq> 0 then None
              else Some \<lparr>retType = ret_type tokens i, fname = ttext (tokens ! (i - 1)), opens = p, closes = p + n\<rparr>)))"

lemma candidate_closes: "candidate tokens i = Some f \<Longrightarrow> i < opens f \<and> opens f \<le> closes f"
  by (auto simp: candidate_def Let_def split: if_splits prod.splits)

function functions_from :: "token list \<Rightarrow> nat \<Rightarrow> int \<Rightarrow> fn_span list" where
  "functions_from tokens i depth =
     (if length tokens \<le> i then []
      else if kind (tokens ! i) = js ''{'' then functions_from tokens (Suc i) (depth + 1)
      else if kind (tokens ! i) = js ''}'' then functions_from tokens (Suc i) (depth - 1)
      else if depth \<noteq> 0 then functions_from tokens (Suc i) depth
      else case candidate tokens i of
             None \<Rightarrow> functions_from tokens (Suc i) depth
           | Some f \<Rightarrow> f # functions_from tokens (Suc (closes f)) depth)"
  by pat_completeness auto
termination
  by (relation "measure (\<lambda>(tokens, i, depth). length tokens - i)") (auto dest: candidate_closes)

declare functions_from.simps [simp del]

definition functions_of :: "token list \<Rightarrow> fn_span list" where
  "functions_of tokens = functions_from tokens 0 0"

section \<open>Which literals are mutated\<close>

definition LITERAL_PER_SHAPE :: nat where "LITERAL_PER_SHAPE = 3"

fun join_with :: "jsstring \<Rightarrow> jsstring list \<Rightarrow> jsstring" where
  "join_with sep [] = []"
| "join_with sep [x] = x"
| "join_with sep (x # xs) = x @ sep @ join_with sep xs"

definition kind_at :: "token list \<Rightarrow> int \<Rightarrow> jsstring" where
  "kind_at tokens k = (if 0 \<le> k \<and> k < int (length tokens) then kind (tokens ! nat k) else js ''^'')"

definition shapeKey :: "token list \<Rightarrow> nat \<Rightarrow> jsstring \<Rightarrow> jsstring" where
  "shapeKey tokens i fn =
     fn @ js ''|'' @ join_with (js '' '') (map (\<lambda>d. kind_at tokens (int i + d)) [-4, -3, -2, -1, 1, 2, 3, 4])"

text \<open>
  The declaration a token belongs to: the function around it, or at the top level the constant
  being initialised.
\<close>

definition fn_scope :: "fn_span list \<Rightarrow> nat \<Rightarrow> jsstring" where
  "fn_scope spans k = fold (\<lambda>f x. if opens f \<le> k \<and> k \<le> closes f then fname f else x) spans []"

fun const_name :: "token \<Rightarrow> token list \<Rightarrow> jsstring option" where
  "const_name prev [] = None"
| "const_name prev (t # ts) =
     (if kind t = js '';'' then None
      else if kind t = js ''='' then (if kind prev = js ''ident'' then Some (ttext prev) else None)
      else const_name t ts)"

fun scopes_from :: "fn_span list \<Rightarrow> nat \<Rightarrow> token list \<Rightarrow> jsstring \<Rightarrow> jsstring list" where
  "scopes_from spans k [] lastConst = []"
| "scopes_from spans k (t # ts) lastConst =
     (if fn_scope spans k \<noteq> [] then fn_scope spans k # scopes_from spans (Suc k) ts lastConst
      else
        (let lastConst =
           (if kind t = js ''const'' then (case const_name t ts of None \<Rightarrow> lastConst | Some n \<Rightarrow> n) else lastConst)
         in lastConst # scopes_from spans (Suc k) ts lastConst))"

definition scope :: "token list \<Rightarrow> jsstring list" where
  "scope tokens = scopes_from (functions_of tokens) 0 tokens []"

text \<open>The literals of each shape, in the order a \<open>Map\<close> keeps them.\<close>

fun add_member :: "jsstring \<Rightarrow> nat \<Rightarrow> (jsstring \<times> nat list) list \<Rightarrow> (jsstring \<times> nat list) list" where
  "add_member key i [] = [(key, [i])]"
| "add_member key i ((k, ms) # rest) = (if k = key then (k, ms @ [i]) # rest else (k, ms) # add_member key i rest)"

definition mutable_literal :: "token \<Rightarrow> bool" where
  "mutable_literal t \<longleftrightarrow> isIntLiteral t \<and> bumpLiteral (ttext t) \<noteq> None"

definition shapeMembers :: "token list \<Rightarrow> (jsstring \<times> nat list) list" where
  "shapeMembers tokens =
     fold (\<lambda>i al. add_member (shapeKey tokens i (scope tokens ! i)) i al)
       (filter (\<lambda>i. mutable_literal (tokens ! i)) [0..<length tokens]) []"

text \<open>
  \<open>Math.round(k * (n - 1) / (perShape - 1))\<close>. No limit is \<open>Infinity\<close>; with a limit of one the
  quotient is \<open>NaN\<close> and selects nothing.
\<close>

definition spread :: "nat \<Rightarrow> nat \<Rightarrow> nat \<Rightarrow> nat" where
  "spread n p k = (2 * (k * (n - 1)) + (p - 1)) div (2 * (p - 1))"

definition chosen :: "nat option \<Rightarrow> nat list \<Rightarrow> nat list" where
  "chosen perShape members =
     (case perShape of
        None \<Rightarrow> members
      | Some p \<Rightarrow>
          if length members \<le> p then members
          else if p = 1 then []
          else map (\<lambda>k. members ! spread (length members) p k) [0..<p])"

definition literalWanted :: "nat option \<Rightarrow> token list \<Rightarrow> nat list" where
  "literalWanted perShape tokens = concat (map (\<lambda>(key, ms). chosen perShape ms) (shapeMembers tokens))"

section \<open>Generation\<close>

datatype operator = Relational | Literal | Guard | Extreme

definition ALL_OPERATORS :: "operator list" where
  "ALL_OPERATORS = [Relational, Literal, Guard, Extreme]"

record generate_stats =
  literalSampled :: nat
  literalSkipped :: nat
  shapes :: nat

definition is_space :: "nat \<Rightarrow> bool" where
  "is_space c \<longleftrightarrow> 9 \<le> c \<and> c \<le> 13 \<or> 8192 \<le> c \<and> c \<le> 8202
     \<or> c \<in> set [32, 160, 5760, 8232, 8233, 8239, 8287, 12288, 65279]"

definition normalise :: "jsstring \<Rightarrow> jsstring" where
  "normalise t = filter (\<lambda>c. \<not> is_space c) t"

text \<open>\<open>short\<close>: the regular expression, with its optional \<open>src/\<close> tried first.\<close>

definition dot_plus :: "jsstring \<Rightarrow> bool" where
  "dot_plus t \<longleftrightarrow> t \<noteq> [] \<and> list_all (\<lambda>c. c \<notin> set [10, 13, 8232, 8233]) t"

definition before_wac :: "jsstring \<Rightarrow> jsstring option" where
  "before_wac t =
     (let n = length t - 4 in
      if length t > 4 \<and> drop n t = js ''.wac'' \<and> dot_plus (take n t) then Some (take n t) else None)"

definition short :: "jsstring \<Rightarrow> jsstring" where
  "short f =
     (let pkgs = js ''packages/'' in
      if take (length pkgs) f \<noteq> pkgs then f
      else
        (let rest = drop (length pkgs) f; pkg = takeWhile (\<lambda>c. c \<noteq> slash) rest; path = drop (length pkg + 1) rest in
         if pkg = [] \<or> length rest \<le> length pkg then f
         else case (if take 4 path = js ''src/'' then before_wac (drop 4 path) else None) of
                Some b \<Rightarrow> pkg @ [slash] @ b
              | None \<Rightarrow> (case before_wac path of Some b \<Rightarrow> pkg @ [slash] @ b | None \<Rightarrow> f)))"

definition at_token :: "jsstring \<Rightarrow> token \<Rightarrow> nat" where
  "at_token source t = offset_at source (line t) (col t)"

definition place :: "jsstring \<Rightarrow> token \<Rightarrow> jsstring" where
  "place f t = short f @ js '':'' @ dec_nat (line t) @ js '':'' @ dec_nat (col t)"

definition ARROW :: nat where "ARROW = 8594"

definition extreme_of :: "jsstring \<Rightarrow> jsstring \<Rightarrow> token list \<Rightarrow> fn_span \<Rightarrow> mutant list" where
  "extreme_of f source tokens s =
     (case defaultValueFor (retType s) of
        None \<Rightarrow> []
      | Some v \<Rightarrow>
          (let start = at_token source (tokens ! opens s);
               stop = at_token source (tokens ! closes s) + 1;
               new = (if v = [] then js ''{ }'' else js ''{ return '' @ v @ js ''; }'')
           in if normalise (str_slice source start stop) = normalise new then []
              else [\<lparr>mname = js ''extreme/'' @ short f @ [slash] @ fname s,
                     edits = [\<lparr>efile = f, estart = start, eend = stop, replacement = new, was = str_slice source start stop\<rparr>],
                     origin = Operator, ratioOnly = False, mustSurvive = False, equivalent = None\<rparr>]))"

definition relational_of :: "jsstring \<Rightarrow> jsstring \<Rightarrow> token \<Rightarrow> mutant list" where
  "relational_of f source t =
     (if RELATIONAL (kind t) \<noteq> [] \<and> ttext t = kind t
      then map (\<lambda>alt. \<lparr>mname = js ''relational/'' @ place f t @ [slash] @ ttext t @ [ARROW] @ alt,
                       edits = [edit_of f (at_token source t) (ttext t) alt], origin = Operator, ratioOnly = False, mustSurvive = False, equivalent = None\<rparr>) (RELATIONAL (kind t))
      else [])"

definition literal_of :: "jsstring \<Rightarrow> jsstring \<Rightarrow> token \<Rightarrow> jsstring \<Rightarrow> mutant" where
  "literal_of f source t bumped =
     \<lparr>mname = js ''literal/'' @ place f t @ [slash] @ ttext t @ [ARROW] @ bumped,
      edits = [edit_of f (at_token source t) (ttext t) bumped], origin = Operator, ratioOnly = False, mustSurvive = False, equivalent = None\<rparr>"

definition guard_of :: "jsstring \<Rightarrow> jsstring \<Rightarrow> token list \<Rightarrow> nat \<Rightarrow> mutant list" where
  "guard_of f source tokens i =
     (let t = tokens ! i; start = at_token source t in
      if kind t \<noteq> js ''trap'' then []
      else
        (let stop = (if Suc i < length tokens \<and> kind (tokens ! Suc i) = js '';''
                     then at_token source (tokens ! Suc i) + 1 else start + length (ttext t))
         in [\<lparr>mname = js ''guard/'' @ place f t,
              edits = [\<lparr>efile = f, estart = start, eend = stop, replacement = [], was = str_slice source start stop\<rparr>],
              origin = Operator, ratioOnly = False, mustSurvive = False, equivalent = None\<rparr>]))"

text \<open>One token of the main loop; a literal that was not sampled ends its turn.\<close>

definition token_mutants ::
  "jsstring \<Rightarrow> jsstring \<Rightarrow> operator list \<Rightarrow> token list \<Rightarrow> nat list \<Rightarrow> nat \<Rightarrow> generate_stats \<Rightarrow> mutant list \<times> generate_stats" where
  "token_mutants f source ops tokens wanted i st =
     (let t = tokens ! i;
          rel = (if Relational \<in> set ops then relational_of f source t else []);
          grd = (if Guard \<in> set ops then guard_of f source tokens i else [])
      in if Literal \<in> set ops \<and> isIntLiteral t then
           (case bumpLiteral (ttext t) of
              None \<Rightarrow> (rel @ grd, st)
            | Some b \<Rightarrow>
                if i \<notin> set wanted then (rel, st\<lparr>literalSkipped := literalSkipped st + 1\<rparr>)
                else (rel @ literal_of f source t b # grd, st\<lparr>literalSampled := literalSampled st + 1\<rparr>))
         else (rel @ grd, st))"

fun tokens_mutants ::
  "jsstring \<Rightarrow> jsstring \<Rightarrow> operator list \<Rightarrow> token list \<Rightarrow> nat list \<Rightarrow> nat list \<Rightarrow> generate_stats \<Rightarrow> mutant list \<times> generate_stats" where
  "tokens_mutants f source ops tokens wanted [] st = ([], st)"
| "tokens_mutants f source ops tokens wanted (i # is) st =
     (case token_mutants f source ops tokens wanted i st of (ms, st) \<Rightarrow>
      case tokens_mutants f source ops tokens wanted is st of (ms', st) \<Rightarrow> (ms @ ms', st))"

definition generate ::
  "(jsstring \<Rightarrow> token list \<times> jsstring list) \<Rightarrow> jsstring \<Rightarrow> jsstring \<Rightarrow> operator list \<Rightarrow> generate_stats \<Rightarrow> nat option
     \<Rightarrow> mutant list \<times> generate_stats" where
  "generate wacLex f source ops st perShape =
     (case wacLex source of (tokens, errors) \<Rightarrow>
        if errors \<noteq> [] then ([], st)
        else
          (let members = (if Literal \<in> set ops then shapeMembers tokens else []);
               wanted = (if Literal \<in> set ops then literalWanted perShape tokens else []);
               st = st\<lparr>shapes := shapes st + length members\<rparr>;
               ext = (if Extreme \<in> set ops then concat (map (extreme_of f source tokens) (functions_of tokens)) else [])
           in case tokens_mutants f source ops tokens wanted [0..<length tokens] st of
                (ms, st) \<Rightarrow> (ext @ ms, st)))"


section \<open>Sampling: sample.ts\<close>

text \<open>
  \<open>mulberry32\<close>: the next state and the 32 bits it yields. The source divides them by \<open>2 ^ 32\<close> and
  multiplies by \<open>i + 1\<close>; for fewer than \<open>2 ^ 21\<close> mutants the product is exact, so its floor is the
  quotient below.
\<close>

definition mulberry32 :: "i32 \<Rightarrow> i32 \<times> i32" where
  "mulberry32 a =
     (let a = a + 0x6D2B79F5;
          t = (a XOR drop_bit 15 a) * (1 OR a);
          t = (t + (t XOR drop_bit 7 t) * (61 OR t)) XOR t
      in (a, t XOR drop_bit 14 t))"

definition swap :: "'a list \<Rightarrow> nat \<Rightarrow> nat \<Rightarrow> 'a list" where
  "swap g i j = g[i := g ! j, j := g ! i]"

fun shuffle :: "i32 \<Rightarrow> 'a list \<Rightarrow> nat \<Rightarrow> i32 \<times> 'a list" where
  "shuffle a g 0 = (a, g)"
| "shuffle a g (Suc i) =
     (case mulberry32 a of (a, u) \<Rightarrow>
        shuffle a (swap g (Suc i) ((unat u * (i + 2)) div 2 ^ 32)) i)"

definition file_key :: "mutant \<Rightarrow> jsstring" where
  "file_key m = (case edits m of [] \<Rightarrow> [] | e # es \<Rightarrow> efile e)"

text \<open>The groups in the order of their keys, each shuffled with one generator for all.\<close>

definition file_keys :: "mutant list \<Rightarrow> jsstring list" where
  "file_keys ms = sort (remdups (map file_key ms))"

fun shuffle_groups :: "i32 \<Rightarrow> 'a list list \<Rightarrow> 'a list list" where
  "shuffle_groups a [] = []"
| "shuffle_groups a (g # gs) =
     (case shuffle a g (length g - 1) of (a, g) \<Rightarrow> g # shuffle_groups a gs)"

definition round_picks :: "'a list list \<Rightarrow> nat \<Rightarrow> 'a list" where
  "round_picks groups r = map (\<lambda>g. g ! r) (filter (\<lambda>g. r < length g) groups)"

function round_robin :: "'a list list \<Rightarrow> nat \<Rightarrow> nat \<Rightarrow> 'a list \<Rightarrow> 'a list" where
  "round_robin groups n r picked =
     (if n \<le> length picked \<or> round_picks groups r = [] then picked
      else round_robin groups n (Suc r) (picked @ take (n - length picked) (round_picks groups r)))"
  by pat_completeness auto
termination
proof (relation "measure (\<lambda>(groups, n, r, picked). n - length picked)", goal_cases)
  case (2 groups n r picked)
  have "0 < min (length (round_picks groups r)) (n - length picked)" using 2 by simp
  moreover have "length picked < n" using 2 by simp
  ultimately show ?case by (simp del: min_less_iff_conj)
qed simp

declare round_robin.simps [simp del]

definition sampleMutants :: "mutant list \<Rightarrow> int option \<Rightarrow> int \<Rightarrow> mutant list" where
  "sampleMutants ms n seed =
     (case n of
        None \<Rightarrow> ms
      | Some n \<Rightarrow>
          if n \<le> 0 \<or> int (length ms) \<le> n then ms
          else round_robin
                 (shuffle_groups (word_of_int seed) (map (\<lambda>k. filter (\<lambda>m. file_key m = k) ms) (file_keys ms)))
                 (nat n) 0 [])"

definition fileCount :: "mutant list \<Rightarrow> nat" where
  "fileCount ms = card (set (map file_key ms))"

section \<open>Edits\<close>

text \<open>The reference: the text from left to right, each span replaced as it is met.\<close>

fun rewrite :: "nat \<Rightarrow> jsstring \<Rightarrow> edit list \<Rightarrow> jsstring" where
  "rewrite at s [] = drop at s"
| "rewrite at s (e # es) = str_slice s at (estart e) @ replacement e @ rewrite (eend e) s es"

fun apart :: "nat \<Rightarrow> nat \<Rightarrow> edit list \<Rightarrow> bool" where
  "apart at len [] = (at \<le> len)"
| "apart at len (e # es) = (at \<le> estart e \<and> estart e \<le> eend e \<and> apart (eend e) len es)"

lemma apart_le: "apart at len es \<Longrightarrow> at \<le> len"
  by (induction es arbitrary: at) (auto dest: order_trans)

lemma foldr_rewrite:
  "apart at (length s) es \<Longrightarrow> foldr (\<lambda>e t. apply_edit t e) es s = take at s @ rewrite at s es"
proof (induction es arbitrary: at)
  case (Cons e es)
  then have le: "at \<le> estart e" "estart e \<le> eend e" "eend e \<le> length s" and a: "apart (eend e) (length s) es"
    using apart_le by auto
  have "take (estart e) s = take at s @ str_slice s at (estart e)"
    using le(1) by (simp add: str_slice_def) (metis le_add_diff_inverse take_add)
  with Cons.IH [OF a] le show ?case by (simp add: apply_edit_def min_def)
qed simp

lemma apart_starts: "apart at len es \<Longrightarrow> sorted (map estart es) \<and> (\<forall>e\<in>set es. at \<le> estart e)"
proof (induction es arbitrary: at)
  case (Cons e es)
  then have "sorted (map estart es)" "\<forall>x\<in>set es. eend e \<le> estart x" by auto
  with Cons.prems show ?case by fastforce
qed simp

text \<open>Edits with different starts are put in one order, whatever order they came in.\<close>

lemma sort_by_start:
  assumes "mset es' = mset es" "sorted (map estart es)" "distinct (map estart es)"
  shows "sort_key estart es' = es"
proof (rule properties_for_sort_key [OF assms(1) [symmetric] _ assms(2)])
  fix k assume k: "k \<in> set es"
  have one: "filter (\<lambda>x. estart k = estart x) xs = [k]" if "distinct (map estart xs)" "k \<in> set xs" for xs
    using that by (induction xs) (auto simp: filter_empty_conv image_iff)
  have "distinct (map estart es')"
    using assms(1,3) by (metis distinct_map mset_eq_imp_distinct_iff mset_map)
  with assms k show "filter (\<lambda>x. estart k = estart x) es = filter (\<lambda>x. estart k = estart x) es'"
    using one by (metis set_mset_mset)
qed

lemma edit_text_rewrite:
  assumes "mset es' = mset es" "apart 0 (length s) es" "distinct (map estart es)"
  shows "edit_text s es' = rewrite 0 s es"
proof -
  have "by_start_desc es' = rev es"
    using sort_by_start [of "rev es'" es] assms apart_starts by (simp add: by_start_desc_def)
  then have "edit_text s es' = foldr (\<lambda>e t. apply_edit t e) es s"
    by (simp add: edit_text_def foldl_conv_foldr)
  with foldr_rewrite [OF assms(2)] show ?thesis by simp
qed


section \<open>Literals\<close>

lemma digit_digit_char: "d < 16 \<Longrightarrow> digit (digit_char d) = Some d"
  by (auto simp: digit_def digit_char_def)

lemma value_in_append: "value_in b (xs @ [c]) = value_in b xs * b + (case digit c of None \<Rightarrow> 0 | Some d \<Rightarrow> d)"
  by (simp add: value_in_def)

lemma value_hex_nat: "value_in 16 (hex_nat n) = n"
proof (induction n rule: hex_nat.induct)
  case (1 n)
  show ?case
  proof (cases "n < 16")
    case True
    then show ?thesis by (simp add: hex_nat.simps [of n] value_in_def digit_digit_char)
  next
    case False
    with 1 show ?thesis by (simp add: hex_nat.simps [of n] value_in_append digit_digit_char)
  qed
qed

lemma digit_dec: "d < 10 \<Longrightarrow> digit (48 + d) = Some d"
  by (simp add: digit_def)

lemma value_dec_nat: "value_in 10 (dec_nat n) = n"
proof (induction n rule: dec_nat.induct)
  case (1 n)
  show ?case
  proof (cases "n < 10")
    case True
    then show ?thesis by (simp add: dec_nat.simps [of n] value_in_def digit_dec)
  next
    case False
    with 1 show ?thesis by (simp add: dec_nat.simps [of n] value_in_append digit_dec)
  qed
qed

lemma bump_differs: "bumpLiteral t = Some b \<Longrightarrow> b \<noteq> t"
proof
  assume b: "bumpLiteral t = Some b" "b = t"
  show False
  proof (cases "hex_form t")
    case True
    with b have "t = js ''0x'' @ hex_nat (value_in 16 (drop 2 t) + 1)" by (simp add: bumpLiteral_def)
    then have "drop 2 t = hex_nat (value_in 16 (drop 2 t) + 1)" by (metis append_eq_conv_conj js_def length_map list.size(3,4) numeral_2_eq_2 One_nat_def add_Suc_right add_0_right)
    then have "value_in 16 (drop 2 t) = value_in 16 (drop 2 t) + 1" by (metis value_hex_nat)
    then show False by simp
  next
    case False
    with b have "t = dec_nat (value_in 10 t + 1)" by (auto simp: bumpLiteral_def split: if_splits)
    then have "value_in 10 t = value_in 10 t + 1" by (metis value_dec_nat)
    then show False by simp
  qed
qed

lemma relational_differs: "alt \<in> set (RELATIONAL k) \<Longrightarrow> alt \<noteq> k"
  by (auto simp: RELATIONAL_def js_def split: if_splits)

section \<open>Functions\<close>

lemma match_from_closes:
  "match_from opn cls ts (Suc d) = (n, 0) \<Longrightarrow> opn \<noteq> cls \<Longrightarrow> 0 < n \<and> n \<le> length ts \<and> kind (ts ! (n - 1)) = cls"
proof (induction ts arbitrary: d n)
  case (Cons t ts)
  let ?d = "if kind t = opn then Suc (Suc d) else if kind t = cls then d else Suc d"
  obtain k e where m: "match_from opn cls ts ?d = (k, e)" by fastforce
  with Cons.prems have n: "n = Suc k" "e = 0" by (auto split: if_splits prod.splits)
  show ?case
  proof (cases "?d = 0")
    case True
    with m have "k = 0" by (cases ts) auto
    moreover have "kind t = cls" using True by (simp split: if_splits)
    ultimately show ?thesis using n by simp
  next
    case False
    then obtain d' where "?d = Suc d'" by (meson not0_implies_Suc)
    with m n Cons.IH [of d' k] Cons.prems(2) have "0 < k" "k \<le> length ts" "kind (ts ! (k - 1)) = cls" by auto
    then show ?thesis using n by (cases k) auto
  qed
qed simp

lemma candidate_braces:
  assumes "candidate tokens i = Some f"
  shows "closes f < length tokens" "kind (tokens ! opens f) = js ''{''" "kind (tokens ! closes f) = js ''}''" "opens f < closes f"
proof -
  let ?p = "i + 1 + fst (match_from (js ''('') (js '')'') (drop (i + 1) tokens) 1)"
  obtain n b where m: "match_from (js ''{'') (js ''}'') (drop (?p + 1) tokens) 1 = (n, b)" by fastforce
  with assms have f: "b = 0" "opens f = ?p" "closes f = ?p + n" "kind (tokens ! ?p) = js ''{''"
    by (auto simp: candidate_def Let_def split: if_splits)
  have "js ''{'' \<noteq> js ''}''" by (simp add: js_def)
  with match_from_closes [of "js ''{''" "js ''}''" "drop (?p + 1) tokens" 0 n] m f(1)
  have n: "0 < n" "n \<le> length (drop (?p + 1) tokens)" "kind (drop (?p + 1) tokens ! (n - 1)) = js ''}''" by simp_all
  then show "closes f < length tokens" "kind (tokens ! opens f) = js ''{''" "kind (tokens ! closes f) = js ''}''" "opens f < closes f"
    using f by (simp_all add: less_diff_conv2 add.commute)
qed

definition spans_ok :: "token list \<Rightarrow> nat \<Rightarrow> fn_span list \<Rightarrow> bool" where
  "spans_ok tokens i fs \<longleftrightarrow>
     (\<forall>f\<in>set fs. i < opens f \<and> opens f < closes f \<and> closes f < length tokens
        \<and> kind (tokens ! opens f) = js ''{'' \<and> kind (tokens ! closes f) = js ''}'')
   \<and> sorted_wrt (\<lambda>f g. closes f < opens g) fs"

lemma functions_from_ok: "spans_ok tokens i (functions_from tokens i depth)"
proof (induction tokens i depth rule: functions_from.induct)
  case (1 tokens i depth)
  have weaken: "spans_ok tokens i fs" if "spans_ok tokens (Suc j) fs" "i \<le> j" for fs j
    using that by (fastforce simp: spans_ok_def)
  show ?case
  proof (cases "length tokens \<le> i \<or> kind (tokens ! i) = js ''{'' \<or> kind (tokens ! i) = js ''}'' \<or> depth \<noteq> 0")
    case True
    have e: "js ''}'' \<noteq> js ''{''" by (simp add: js_def)
    show ?thesis
      using True 1 weaken [of i] e unfolding functions_from.simps [of tokens i depth]
      by (auto simp: spans_ok_def)
  next
    case False
    show ?thesis
    proof (cases "candidate tokens i")
      case None
      with False 1 weaken [of i] show ?thesis unfolding functions_from.simps [of tokens i depth] by auto
    next
      case (Some f)
      note c = candidate_closes [OF Some] candidate_braces [OF Some]
      from False 1 Some have "spans_ok tokens (Suc (closes f)) (functions_from tokens (Suc (closes f)) depth)" by auto
      with c have "spans_ok tokens i (f # functions_from tokens (Suc (closes f)) depth)" by (fastforce simp: spans_ok_def)
      with False Some show ?thesis unfolding functions_from.simps [of tokens i depth] by simp
    qed
  qed
qed


section \<open>Generated mutants\<close>

text \<open>What is used of the lexer: a token is the text at its place, and tokens follow one another.\<close>

definition lexed :: "jsstring \<Rightarrow> token list \<Rightarrow> bool" where
  "lexed source tokens \<longleftrightarrow>
     (\<forall>t\<in>set tokens. ttext t \<noteq> [] \<and> at_token source t + length (ttext t) \<le> length source
        \<and> str_slice source (at_token source t) (at_token source t + length (ttext t)) = ttext t
        \<and> (kind t \<in> {js ''{'', js ''}'', js '';''} \<longrightarrow> ttext t = kind t))
   \<and> sorted_wrt (\<lambda>t u. at_token source t + length (ttext t) \<le> at_token source u) tokens"

definition real_edit :: "jsstring \<Rightarrow> jsstring \<Rightarrow> edit \<Rightarrow> bool" where
  "real_edit f source e \<longleftrightarrow>
     efile e = f \<and> estart e \<le> eend e \<and> eend e \<le> length source
   \<and> was e = str_slice source (estart e) (eend e) \<and> replacement e \<noteq> was e"

lemma str_slice_self: "str_slice s a a = []"
  by (simp add: str_slice_def)

lemma real_edit_changes:
  assumes "real_edit f source e"
  shows "apply_edit source e \<noteq> source"
proof
  assume a: "apply_edit source e = source"
  have le: "estart e \<le> eend e" "eend e \<le> length source" using assms by (simp_all add: real_edit_def)
  have "source = take (estart e) source @ str_slice source (estart e) (eend e) @ drop (eend e) source"
    using le by (simp add: str_slice_def) (metis append_assoc append_take_drop_id le_add_diff_inverse take_add)
  with a have "replacement e = str_slice source (estart e) (eend e)"
    unfolding apply_edit_def by (metis append_same_eq same_append_eq)
  with assms show False by (auto simp: real_edit_def)
qed

lemma token_at:
  assumes lx: "lexed source tokens" and asm: "i < length tokens"
  shows "ttext (tokens ! i) \<noteq> []" "at_token source (tokens ! i) + length (ttext (tokens ! i)) \<le> length source"
    "str_slice source (at_token source (tokens ! i)) (at_token source (tokens ! i) + length (ttext (tokens ! i))) = ttext (tokens ! i)"
    "kind (tokens ! i) \<in> {js ''{'', js ''}'', js '';''} \<Longrightarrow> ttext (tokens ! i) = kind (tokens ! i)"
  using lx asm by (auto simp: lexed_def)

lemma tokens_ordered:
  assumes lx: "lexed source tokens" and asm: "i < k" "k < length tokens"
  shows "at_token source (tokens ! i) + length (ttext (tokens ! i)) \<le> at_token source (tokens ! k)"
  using lx asm by (auto simp: lexed_def sorted_wrt_iff_nth_less)

lemma edit_of_real:
  assumes lx: "lexed source tokens" and asm: "i < length tokens" "new \<noteq> ttext (tokens ! i)"
  shows "real_edit f source (edit_of f (at_token source (tokens ! i)) (ttext (tokens ! i)) new)"
  using token_at [OF lx asm(1)] asm(2) by (simp add: real_edit_def edit_of_def)

lemma relational_real:
  assumes lx: "lexed source tokens" and asm: "i < length tokens" "m \<in> set (relational_of f source (tokens ! i))"
  shows "\<exists>e. edits m = [e] \<and> real_edit f source e"
  using asm(2) relational_differs edit_of_real [OF lx asm(1)]
  by (auto simp: relational_of_def split: if_splits)

lemma guard_real:
  assumes lx: "lexed source tokens" and asm: "i < length tokens" "m \<in> set (guard_of f source tokens i)"
  shows "\<exists>e. edits m = [e] \<and> real_edit f source e"
proof -
  let ?a = "at_token source (tokens ! i)"
  let ?semi = "Suc i < length tokens \<and> kind (tokens ! Suc i) = js '';''"
  let ?b = "if ?semi then at_token source (tokens ! Suc i) + 1 else ?a + length (ttext (tokens ! i))"
  from asm(2) have m: "edits m = [\<lparr>efile = f, estart = ?a, eend = ?b, replacement = [], was = str_slice source ?a ?b\<rparr>]"
    by (auto simp: guard_of_def Let_def split: if_splits)
  have b: "?a < ?b \<and> ?b \<le> length source"
  proof (cases ?semi)
    case True
    then have "ttext (tokens ! Suc i) = js '';''" using token_at(4) [OF lx, of "Suc i"] by simp
    with True token_at(2) [OF lx, of "Suc i"] tokens_ordered [OF lx, of i "Suc i"] show ?thesis by (simp add: js_def)
  next
    case False
    then have "?b = ?a + length (ttext (tokens ! i))" by auto
    with token_at(1,2) [OF lx asm(1)] show ?thesis by simp
  qed
  then have "str_slice source ?a ?b \<noteq> []" unfolding str_slice_def by simp
  with b show ?thesis unfolding m real_edit_def by simp
qed

lemma extreme_real:
  assumes lx: "lexed source tokens" and asm: "opens s < closes s" "closes s < length tokens" "kind (tokens ! closes s) = js ''}''"
    "m \<in> set (extreme_of f source tokens s)"
  shows "\<exists>e. edits m = [e] \<and> real_edit f source e"
proof -
  let ?a = "at_token source (tokens ! opens s)" and ?b = "at_token source (tokens ! closes s) + 1"
  have "ttext (tokens ! closes s) = js ''}''" using token_at(4) [OF lx asm(2)] asm(3) by simp
  then have b: "?b \<le> length source" using token_at(2) [OF lx asm(2)] by (simp add: js_def)
  have a: "?a \<le> ?b" using tokens_ordered [OF lx asm(1,2)] by simp
  from asm(4) obtain new where
    "edits m = [\<lparr>efile = f, estart = ?a, eend = ?b, replacement = new, was = str_slice source ?a ?b\<rparr>]"
    "normalise (str_slice source ?a ?b) \<noteq> normalise new"
    by (auto simp: extreme_of_def Let_def split: option.splits if_splits)
  with a b show ?thesis by (auto simp: real_edit_def)
qed

lemma token_mutants_real:
  assumes lx: "lexed source tokens" and asm: "i < length tokens" "m \<in> set (fst (token_mutants f source ops tokens wanted i st))"
  shows "\<exists>e. edits m = [e] \<and> real_edit f source e"
proof -
  from asm(2) consider "m \<in> set (relational_of f source (tokens ! i))" | "m \<in> set (guard_of f source tokens i)"
    | b where "bumpLiteral (ttext (tokens ! i)) = Some b" "m = literal_of f source (tokens ! i) b"
    by (auto simp: token_mutants_def Let_def split: if_splits option.splits)
  then show ?thesis
  proof cases
    case 3
    with bump_differs edit_of_real [OF lx asm(1)] show ?thesis by (auto simp: literal_of_def)
  qed (use relational_real [OF lx asm(1)] guard_real [OF lx asm(1)] in auto)
qed

lemma tokens_mutants_real:
  assumes lx: "lexed source tokens" and asm: "\<forall>i\<in>set is. i < length tokens" "m \<in> set (fst (tokens_mutants f source ops tokens wanted is st))"
  shows "\<exists>e. edits m = [e] \<and> real_edit f source e"
  using asm
proof (induction "is" arbitrary: st)
  case (Cons i "is")
  obtain ms st' where t: "token_mutants f source ops tokens wanted i st = (ms, st')" by fastforce
  with Cons.prems(2) consider "m \<in> set ms" | "m \<in> set (fst (tokens_mutants f source ops tokens wanted is st'))"
    by (auto split: prod.splits)
  then show ?case
  proof cases
    case 1
    with t token_mutants_real [OF lx, of i m f ops wanted st] Cons.prems(1) show ?thesis by simp
  next
    case 2
    with Cons.IH Cons.prems(1) show ?thesis by simp
  qed
qed simp

lemma generated_real:
  assumes "lexed source (fst (wacLex source))" "m \<in> set (fst (generate wacLex f source ops st perShape))"
  shows "\<exists>e. edits m = [e] \<and> real_edit f source e"
proof -
  obtain tokens errors where l: "wacLex source = (tokens, errors)" by fastforce
  have lx: "lexed source tokens" using assms(1) l by simp
  have sp: "spans_ok tokens 0 (functions_of tokens)" unfolding functions_of_def by (rule functions_from_ok)
  from assms(2) l obtain wanted st' where
    "(\<exists>s\<in>set (functions_of tokens). m \<in> set (extreme_of f source tokens s))
     \<or> m \<in> set (fst (tokens_mutants f source ops tokens wanted [0..<length tokens] st'))"
    by (auto simp: generate_def Let_def split: if_splits prod.splits) (metis fst_conv)+
  then show ?thesis
    using extreme_real [OF lx] tokens_mutants_real [OF lx, of "[0..<length tokens]"] sp
    by (fastforce simp: spans_ok_def)
qed


section \<open>Samples\<close>

lemma spread_strict:
  assumes "2 \<le> p" "p < n" "k < j"
  shows "spread n p k < spread n p j"
proof -
  have "2 * (k * (n - 1)) + (p - 1) + 2 * (p - 1) \<le> 2 * (j * (n - 1)) + (p - 1)"
  proof -
    have "k * (n - 1) + (n - 1) \<le> j * (n - 1)" using assms(3) by (metis Suc_leI mult_Suc mult_le_mono1 add.commute)
    moreover have "p - 1 \<le> n - 1" using assms(2) by simp
    ultimately show ?thesis by linarith
  qed
  then have "(2 * (k * (n - 1)) + (p - 1) + 2 * (p - 1)) div (2 * (p - 1)) \<le> spread n p j"
    unfolding spread_def by (rule div_le_mono)
  moreover have "(2 * (k * (n - 1)) + (p - 1) + 2 * (p - 1)) div (2 * (p - 1)) = spread n p k + 1"
    unfolding spread_def using assms(1) by (intro div_add_self2) simp
  ultimately show ?thesis by simp
qed

lemma spread_ends:
  assumes "2 \<le> p"
  shows "spread n p 0 = 0" "spread n p (p - 1) = n - 1"
proof -
  show "spread n p 0 = 0" using assms by (simp add: spread_def)
  have "spread n p (p - 1) = ((p - 1) + (n - 1) * (2 * (p - 1))) div (2 * (p - 1))"
    unfolding spread_def by (rule arg_cong [where f = "\<lambda>x. x div (2 * (p - 1))"]) (simp only: mult.commute mult.left_commute add.commute)
  also have "\<dots> = (n - 1) + (p - 1) div (2 * (p - 1))" using assms by (intro div_mult_self1) simp
  also have "(p - 1) div (2 * (p - 1)) = 0" using assms by (intro div_less) simp
  finally show "spread n p (p - 1) = n - 1" by simp
qed

lemma spread_bound:
  assumes "2 \<le> p" "p < n" "k < p"
  shows "spread n p k < n"
proof -
  have "spread n p k \<le> spread n p (p - 1)"
  proof (cases "k = p - 1")
    case False
    then have "k < p - 1" using assms(3) by linarith
    from spread_strict [OF assms(1,2) this] show ?thesis by simp
  qed simp
  with spread_ends(2) [OF assms(1)] assms show ?thesis by simp
qed

lemma pick_in_range: "(unat (u :: i32) * (i + 2)) div 2 ^ 32 \<le> Suc i"
proof -
  have "unat u < 2 ^ 32" using unsigned_less [of u] by simp
  then have "unat u * (i + 2) < 2 ^ 32 * (i + 2)" by (intro mult_strict_right_mono) simp_all
  then have "(unat u * (i + 2)) div 2 ^ 32 < i + 2" by (metis less_mult_imp_div_less mult.commute)
  then show ?thesis by simp
qed

lemma shuffle_mset: "i < length g \<or> i = 0 \<Longrightarrow> mset (snd (shuffle a g i)) = mset g"
proof (induction a g i rule: shuffle.induct)
  case (2 a g i)
  obtain a' u where m: "mulberry32 a = (a', u)" by fastforce
  let ?j = "(unat u * (i + 2)) div 2 ^ 32"
  have lt: "Suc i < length g" "?j < length g" using 2 pick_in_range [of u i] by auto
  have "mset (swap g (Suc i) ?j) = mset g" using mset_swap [OF lt(2,1)] by (simp add: swap_def)
  moreover have "length (swap g (Suc i) ?j) = length g" by (simp add: swap_def)
  ultimately show ?case using 2 m lt(1) by (simp del: div_mult_self1)
qed simp

lemma shuffle_groups_mset: "list_all2 (\<lambda>g h. mset g = mset h) (shuffle_groups a gs) gs"
proof (induction gs arbitrary: a)
  case (Cons g gs)
  have "mset (snd (shuffle a g (length g - 1))) = mset g" by (rule shuffle_mset) (cases g; simp)
  with Cons show ?case by (auto split: prod.splits)
qed simp

lemma mset_take_le: "mset (take k xs) \<subseteq># mset xs"
  by (metis append_take_drop_id mset_append mset_subset_eq_add_left)

lemma take_round:
  "mset (concat (map (take (Suc r)) gs)) = mset (concat (map (take r) gs)) + mset (round_picks gs r)"
  by (induction gs) (auto simp: round_picks_def take_Suc_conv_app_nth)

lemma round_robin_spec:
  assumes "mset picked = mset (concat (map (take r) gs))" "length picked \<le> n" "n \<le> length (concat gs)"
  shows "\<exists>q part. mset part \<subseteq># mset (round_picks gs q) \<and> length (round_robin gs n r picked) = n
    \<and> mset (round_robin gs n r picked) = mset (concat (map (take q) gs)) + mset part"
  using assms
proof (induction gs n r picked rule: round_robin.induct)
  case (1 gs n r picked)
  let ?ps = "round_picks gs r"
  show ?case
  proof (cases "n \<le> length picked \<or> ?ps = []")
    case True
    then have e: "round_robin gs n r picked = picked" by (simp add: round_robin.simps [of gs n r picked])
    have "length picked = n"
    proof (cases "?ps = []")
      case True
      then have "\<forall>g\<in>set gs. take r g = g" by (auto simp: round_picks_def filter_empty_conv)
      then have "map (take r) gs = gs" by (simp add: map_idI)
      with "1.prems" show ?thesis by (metis le_antisym mset_eq_length)
    qed (use True "1.prems" in simp)
    with e "1.prems"(1) show ?thesis by (intro exI [of _ r] exI [of _ "[]"]) simp
  next
    case False
    let ?new = "picked @ take (n - length picked) ?ps"
    have e: "round_robin gs n r picked = round_robin gs n (Suc r) ?new"
      using False by (simp add: round_robin.simps [of gs n r picked])
    show ?thesis
    proof (cases "length ?ps \<le> n - length picked")
      case True
      then have "mset ?new = mset (concat (map (take (Suc r)) gs))" "length ?new \<le> n"
      proof -
        show "mset ?new = mset (concat (map (take (Suc r)) gs))" using True "1.prems"(1) by (simp only: take_round) simp
        show "length ?new \<le> n" using True False by auto
      qed
      with "1.IH" [OF False] "1.prems"(3) show ?thesis unfolding e by blast
    next
      case full: False
      then have "length ?new = n" using False by simp
      then have "round_robin gs n (Suc r) ?new = ?new" by (simp add: round_robin.simps [of gs n "Suc r" ?new])
      with \<open>length ?new = n\<close> "1.prems"(1) show ?thesis unfolding e
        by (intro exI [of _ r] exI [of _ "take (n - length picked) ?ps"])
          (simp add: mset_take_le)
    qed
  qed
qed


text \<open>How many of a list come from one file.\<close>

definition from_file :: "jsstring \<Rightarrow> mutant list \<Rightarrow> nat" where
  "from_file f ms = length (filter (\<lambda>m. file_key m = f) ms)"

lemma from_file_mset: "from_file f ms = size (filter_mset (\<lambda>m. file_key m = f) (mset ms))"
  by (simp add: from_file_def flip: mset_filter)

lemma from_file_le: "mset xs \<subseteq># mset ys \<Longrightarrow> from_file f xs \<le> from_file f ys"
  by (simp add: from_file_mset multiset_filter_mono size_mset_mono)

lemma keyed_takes:
  assumes "list_all2 (\<lambda>k g. \<forall>m\<in>set g. file_key m = k) ks gs" "distinct ks" "i < length ks"
  shows "from_file (ks ! i) (concat (map (take r) gs)) = min (length (gs ! i)) r"
    and "from_file (ks ! i) (round_picks gs r) \<le> 1"
    and "length (gs ! i) \<le> r \<Longrightarrow> from_file (ks ! i) (round_picks gs r) = 0"
proof -
  have "from_file (ks ! i) (concat (map (take r) gs)) = min (length (gs ! i)) r
      \<and> from_file (ks ! i) (round_picks gs r) = (if r < length (gs ! i) then 1 else 0)"
    using assms
  proof (induction ks gs arbitrary: i rule: list_all2_induct)
    case (Cons k ks g gs)
    have none: "from_file k (concat (map (take r) gs)) = 0 \<and> from_file k (round_picks gs r) = 0"
      using Cons.hyps Cons.prems(1)
      by (auto simp: from_file_def filter_empty_conv round_picks_def list_all2_conv_all_nth in_set_conv_nth dest!: in_set_takeD)
         (metis nth_mem)+
    have other: "from_file (ks ! j) g = 0" if "j < length ks" for j
      using Cons.hyps(1) Cons.prems(1) that by (auto simp: from_file_def filter_empty_conv)
    have other': "from_file (ks ! j) (take r g) = 0" if "j < length ks" for j
      using other [OF that] by (auto simp: from_file_def filter_empty_conv dest: in_set_takeD)
    have "filter (\<lambda>m. file_key m = k) (take r g) = take r g"
      using Cons.hyps(1) by (auto simp: filter_id_conv dest: in_set_takeD)
    then have own: "from_file k (take r g) = min (length g) r" "r < length g \<Longrightarrow> from_file k [g ! r] = 1"
      using Cons.hyps(1) by (simp_all add: from_file_def)
    have app: "from_file f (xs @ ys) = from_file f xs + from_file f ys" for f xs ys by (simp add: from_file_def)
    show ?case
    proof (cases i)
      case 0
      have "round_picks (g # gs) r = (if r < length g then [g ! r] else []) @ round_picks gs r" by (simp add: round_picks_def)
      moreover have "from_file k [] = 0" by (simp add: from_file_def)
      ultimately show ?thesis using 0 none own by (simp add: app)
    next
      case (Suc j)
      with Cons.prems have j: "j < length ks" "distinct ks" by simp_all
      have "round_picks (g # gs) r = (if r < length g then [g ! r] else []) @ round_picks gs r" by (simp add: round_picks_def)
      moreover have "from_file (ks ! j) (if r < length g then [g ! r] else []) = 0"
        using other [OF j(1)] by (auto simp: from_file_def filter_empty_conv split: if_splits)
      ultimately show ?thesis using Suc Cons.IH [OF j(2,1)] other' [OF j(1)] by (simp add: app)
    qed
  qed simp
  then show "from_file (ks ! i) (concat (map (take r) gs)) = min (length (gs ! i)) r"
    "from_file (ks ! i) (round_picks gs r) \<le> 1"
    "length (gs ! i) \<le> r \<Longrightarrow> from_file (ks ! i) (round_picks gs r) = 0" by auto
qed

lemma grouped_mset:
  "distinct ks \<Longrightarrow> mset (concat (map (\<lambda>k. filter (\<lambda>m. file_key m = k) ms) ks)) = filter_mset (\<lambda>m. file_key m \<in> set ks) (mset ms)"
proof (induction ks)
  case (Cons k ks)
  then show ?case by (intro multiset_eqI) auto
qed simp


lemma file_keys_set: "distinct (file_keys ms)" "set (file_keys ms) = set (map file_key ms)"
  by (simp_all add: file_keys_def)

lemma sample_groups:
  fixes ms :: "mutant list" and a :: i32
  defines "gs \<equiv> shuffle_groups a (map (\<lambda>k. filter (\<lambda>m. file_key m = k) ms) (file_keys ms))"
  shows "list_all2 (\<lambda>k g. \<forall>m\<in>set g. file_key m = k) (file_keys ms) gs" "mset (concat gs) = mset ms"
    "\<And>i. i < length (file_keys ms) \<Longrightarrow> length (gs ! i) = from_file (file_keys ms ! i) ms"
proof -
  let ?ks = "file_keys ms" and ?hs = "map (\<lambda>k. filter (\<lambda>m. file_key m = k) ms) (file_keys ms)"
  note d = file_keys_set [of ms]
  have l: "list_all2 (\<lambda>g h. mset g = mset h) gs ?hs" unfolding gs_def by (rule shuffle_groups_mset)
  then have len: "length gs = length ?ks" by (simp add: list_all2_lengthD)
  have nth: "mset (gs ! i) = mset (filter (\<lambda>m. file_key m = ?ks ! i) ms)" if "i < length ?ks" for i
    using l that by (auto simp: list_all2_conv_all_nth)
  show "list_all2 (\<lambda>k g. \<forall>m\<in>set g. file_key m = k) ?ks gs"
    using len mset_eq_setD [OF nth] by (auto simp: list_all2_conv_all_nth)
  show "length (gs ! i) = from_file (?ks ! i) ms" if "i < length ?ks" for i
    using mset_eq_length [OF nth [OF that]] by (simp add: from_file_def)
  have "mset (concat gs) = mset (concat ?hs)"
    using l by (induction rule: list_all2_induct) simp_all
  also have "\<dots> = mset (filter (\<lambda>m. file_key m \<in> set ?ks) ms)" using grouped_mset [OF d(1)] by simp
  also have "filter (\<lambda>m. file_key m \<in> set ?ks) ms = ms" by (simp add: filter_id_conv d(2))
  finally show "mset (concat gs) = mset ms" .
qed

section \<open>Properties\<close>

text \<open>
  C40. Applying a mutant is simultaneous replacement: for edits of a file that lie inside its
  text, do not overlap and start at different places, in whatever order the mutant lists
  them, \<open>applyEdits\<close> gives the text from left to right with each span replaced; files it does
  not name are left alone.
\<close>

theorem applyEdits_is_rewrite:
  assumes "applyEdits sources m = Some out" "sources f = Some s"
    "mset (edits_of m f) = mset es" "apart 0 (length s) es" "distinct (map estart es)"
  shows "out f = Some (rewrite 0 s es) \<and> (\<forall>g. edits_of m g = [] \<longrightarrow> out g = sources g)"
proof -
  have out: "out = (\<lambda>f. map_option (\<lambda>t. edit_text t (edits_of m f)) (sources f))"
    using assms(1) by (auto simp: applyEdits_def split: if_splits)
  have "edit_text t [] = t" for t by (simp add: edit_text_def by_start_desc_def)
  then show ?thesis
    using edit_text_rewrite [OF assms(3-5)] assms(2) by (auto simp: out option.map_ident_strong)
qed

theorem applyEdits_is_rewrite_witness:
  "\<exists>out. applyEdits [js ''a'' \<mapsto> js ''abcdef'']
      \<lparr>mname = [], edits = [edit_of (js ''a'') 4 (js ''e'') [], edit_of (js ''a'') 1 (js ''b'') (js ''XY'')], origin = Operator, ratioOnly = False, mustSurvive = False, equivalent = None\<rparr> = Some out
    \<and> out (js ''a'') = Some (js ''aXYcdf'')"
proof -
  let ?m = "\<lparr>mname = [], edits = [edit_of (js ''a'') 4 (js ''e'') [], edit_of (js ''a'') 1 (js ''b'') (js ''XY'')], origin = Operator, ratioOnly = False, mustSurvive = False, equivalent = None\<rparr>"
  let ?es = "[edit_of (js ''a'') 1 (js ''b'') (js ''XY''), edit_of (js ''a'') 4 (js ''e'') []]"
  obtain out where out: "applyEdits [js ''a'' \<mapsto> js ''abcdef''] ?m = Some out"
    by (simp add: applyEdits_def edit_of_def)
  have "out (js ''a'') = Some (rewrite 0 (js ''abcdef'') ?es)"
    using applyEdits_is_rewrite [OF out, of "js ''a''" "js ''abcdef''" ?es]
    by (simp add: edits_of_def edit_of_def js_def)
  moreover have "rewrite 0 (js ''abcdef'') ?es = js ''aXYcdf''" by code_simp
  ultimately show ?thesis using out by auto
qed

text \<open>
  Every generated mutant is one real change: its single edit is of the file it was made from,
  lies inside the text, quotes exactly the text it replaces and replaces it by something else,
  so that the mutated source is not the source. This needs of the lexer only that it reports
  tokens where they stand, in order.
\<close>

theorem generated_mutants_differ:
  assumes "lexed source (fst (wacLex source))" "m \<in> set (fst (generate wacLex f source ops st perShape))"
  shows "\<exists>e. edits m = [e] \<and> efile e = f \<and> estart e \<le> eend e \<and> eend e \<le> length source
    \<and> was e = str_slice source (estart e) (eend e) \<and> replacement e \<noteq> was e
    \<and> (\<exists>out. applyEdits [f \<mapsto> source] m = Some out \<and> out f \<noteq> Some source)"
proof -
  obtain e where e: "edits m = [e]" "real_edit f source e" using generated_real [OF assms] by blast
  have "edits_of m f = [e]" using e by (simp add: edits_of_def real_edit_def)
  then have "edit_text source (edits_of m f) \<noteq> source"
    using real_edit_changes [OF e(2)] by (simp add: edit_text_def by_start_desc_def)
  then have "\<exists>out. applyEdits [f \<mapsto> source] m = Some out \<and> out f \<noteq> Some source"
    using e by (simp add: applyEdits_def real_edit_def)
  with e show ?thesis by (auto simp: real_edit_def)
qed

theorem generated_mutants_differ_witness:
  "\<exists>e. edits (hd (fst (generate (\<lambda>_. ([\<lparr>kind = js ''<'', ttext = js ''<'', line = 1, col = 2\<rparr>], []))
        (js ''f'') (js ''a<b'') [Relational] \<lparr>literalSampled = 0, literalSkipped = 0, shapes = 0\<rparr> (Some 3)))) = [e]
    \<and> replacement e \<noteq> was e"
proof -
  let ?lex = "\<lambda>_ :: jsstring. ([\<lparr>kind = js ''<'', ttext = js ''<'', line = 1, col = 2\<rparr>], [] :: jsstring list)"
  let ?g = "fst (generate ?lex (js ''f'') (js ''a<b'') [Relational] \<lparr>literalSampled = 0, literalSkipped = 0, shapes = 0\<rparr> (Some 3))"
  have "lexed (js ''a<b'') (fst (?lex (js ''a<b'')))"
    by (simp add: lexed_def at_token_def offset_at_def lineStart_def str_slice_def js_def)
  moreover have "?g \<noteq> []" by code_simp
  then have "hd ?g \<in> set ?g" by (rule hd_in_set)
  ultimately show ?thesis
    using generated_mutants_differ [of "js ''a<b''" ?lex "hd ?g" "js ''f''"] by blast
qed

text \<open>
  The functions found in a file are its braces: each span runs from an opening to a closing
  brace inside the file, and the spans are disjoint and in order. The walk ends on every token
  list.
\<close>

theorem functions_are_spans:
  "(\<forall>f\<in>set (functions_of tokens). 0 < opens f \<and> opens f < closes f \<and> closes f < length tokens
      \<and> kind (tokens ! opens f) = js ''{'' \<and> kind (tokens ! closes f) = js ''}'')
   \<and> sorted_wrt (\<lambda>f g. closes f < opens g) (functions_of tokens)"
  using functions_from_ok [of tokens 0 0] by (simp add: spans_ok_def functions_of_def)

theorem functions_are_spans_witness:
  "map (\<lambda>f. (fname f, opens f, closes f))
       (functions_of (map (\<lambda>k. \<lparr>kind = k, ttext = k, line = 1, col = 1\<rparr>)
          [js ''i32'', js ''ident'', js ''('', js '')'', js ''{'', js ''}'']))
     = [(js ''ident'', 4, 5)]
   \<and> (\<forall>f\<in>set (functions_of (map (\<lambda>k. \<lparr>kind = k, ttext = k, line = 1, col = 1\<rparr>)
          [js ''i32'', js ''ident'', js ''('', js '')'', js ''{'', js ''}''])). opens f < closes f)"
proof
  show "map (\<lambda>f. (fname f, opens f, closes f))
       (functions_of (map (\<lambda>k. \<lparr>kind = k, ttext = k, line = 1, col = 1\<rparr>)
          [js ''i32'', js ''ident'', js ''('', js '')'', js ''{'', js ''}'']))
     = [(js ''ident'', 4, 5)]" by code_simp
qed (use functions_are_spans in blast)

text \<open>
  A sample is fair to files: of \<open>n\<close> mutants asked for, exactly \<open>n\<close> are drawn, each from the
  population and no more often than it is there, and no file gets two more than another that
  is not exhausted; so every file is represented before any gets a second. The same seed gives
  the same draw.
\<close>

theorem sample_stratified:
  assumes "0 < n" "n < length ms" "f \<in> set (map file_key ms)" "g \<in> set (map file_key ms)"
  shows "length (sampleMutants ms (Some (int n)) seed) = n
    \<and> mset (sampleMutants ms (Some (int n)) seed) \<subseteq># mset ms
    \<and> (from_file f (sampleMutants ms (Some (int n)) seed) \<le> from_file g (sampleMutants ms (Some (int n)) seed) + 1
       \<or> from_file g (sampleMutants ms (Some (int n)) seed) = from_file g ms)"
proof -
  let ?ks = "file_keys ms"
  define gs where "gs = shuffle_groups (word_of_int seed) (map (\<lambda>k. filter (\<lambda>m. file_key m = k) ms) ?ks)"
  define res where "res = round_robin gs n 0 []"
  note G = sample_groups [where ms = ms and a = "word_of_int seed", folded gs_def]
  have res: "sampleMutants ms (Some (int n)) seed = res"
    using assms(1,2) by (simp add: sampleMutants_def res_def gs_def)
  have "n \<le> length (concat gs)" using mset_eq_length [OF G(2)] assms(2) by simp
  then obtain q part where P: "mset part \<subseteq># mset (round_picks gs q)" "length res = n"
    "mset res = mset (concat (map (take q) gs)) + mset part"
    using round_robin_spec [of "[]" 0 gs n] by (auto simp: res_def)
  have sub: "mset res \<subseteq># mset ms"
  proof -
    have "mset res \<subseteq># mset (concat (map (take (Suc q)) gs))" using P by (simp add: take_round)
    also have "\<dots> \<subseteq># mset (concat gs)" by (induction gs) (auto intro: subset_mset.add_mono mset_take_le)
    finally show ?thesis using G(2) by simp
  qed
  have cnt: "min (from_file k ms) q \<le> from_file k res \<and> from_file k res \<le> Suc q
      \<and> (from_file k ms \<le> q \<longrightarrow> from_file k res = from_file k ms)"
    if "k \<in> set (map file_key ms)" for k
  proof -
    have "k \<in> set ?ks" using that file_keys_set(2) [of ms] by simp
    then obtain i where i: "i < length ?ks" "?ks ! i = k" unfolding in_set_conv_nth by blast
    have "from_file k res = from_file k (concat (map (take q) gs)) + from_file k part"
      using P(3) by (simp add: from_file_mset)
    moreover have "from_file k part \<le> from_file k (round_picks gs q)" using from_file_le [OF P(1)] .
    moreover have "from_file k (concat (map (take q) gs)) = min (from_file k ms) q"
      using keyed_takes(1) [OF G(1) file_keys_set(1) i(1), of q] G(3) [OF i(1)] i(2) by simp
    moreover have "from_file k (round_picks gs q) \<le> (if from_file k ms \<le> q then 0 else 1)"
      using keyed_takes(2,3) [OF G(1) file_keys_set(1) i(1), of q] G(3) [OF i(1)] i(2) by simp
    ultimately show ?thesis by (cases "from_file k ms \<le> q") simp_all
  qed
  have "from_file f res \<le> from_file g res + 1 \<or> from_file g res = from_file g ms"
    using cnt [OF assms(3)] cnt [OF assms(4)] by (cases "from_file g ms \<le> q") auto
  with P(2) sub show ?thesis by (simp add: res)
qed

theorem sample_stratified_witness:
  "from_file (js ''b'') (sampleMutants (map (\<lambda>f. \<lparr>mname = f, edits = [edit_of f 0 [] []], origin = Operator, ratioOnly = False, mustSurvive = False, equivalent = None\<rparr>)
     [js ''a'', js ''a'', js ''a'', js ''b'']) (Some 2) 1) = 1"
proof -
  let ?ms = "map (\<lambda>f. \<lparr>mname = f, edits = [edit_of f 0 [] []], origin = Operator, ratioOnly = False, mustSurvive = False, equivalent = None\<rparr>) [js ''a'', js ''a'', js ''a'', js ''b'']"
  let ?r = "sampleMutants ?ms (Some (int 2)) 1"
  have T: "length ?r = 2 \<and> mset ?r \<subseteq># mset ?ms \<and> (from_file (js ''a'') ?r \<le> from_file (js ''b'') ?r + 1 \<or> from_file (js ''b'') ?r = from_file (js ''b'') ?ms)"
    by (rule sample_stratified) (simp_all add: file_key_def edit_of_def)
  have one: "from_file (js ''b'') ?ms = 1" by (simp add: from_file_def file_key_def edit_of_def js_def)
  have "set ?r \<subseteq> set ?ms" using set_mset_mono [of "mset ?r" "mset ?ms"] T by simp
  then have "\<forall>m \<in> set ?r. (file_key m \<noteq> js ''b'') = (file_key m = js ''a'')"
    by (auto simp: file_key_def edit_of_def js_def)
  then have "length ?r = from_file (js ''a'') ?r + from_file (js ''b'') ?r"
    using sum_length_filter_compl [of "\<lambda>m. file_key m = js ''b''" ?r]
    by (simp add: from_file_def cong: filter_cong)
  moreover have "from_file (js ''b'') ?r \<le> 1" using from_file_le [of ?r ?ms "js ''b''"] T one by simp
  ultimately have "from_file (js ''b'') ?r = 1" using T one by linarith
  then show ?thesis by simp
qed

text \<open>
  A repeated shape is sampled across its whole run: of more literals than the limit, exactly
  the limit are mutated, all different, the first and the last among them.
\<close>

theorem shape_spread:
  assumes "distinct members" "2 \<le> p" "p < length members"
  shows "length (chosen (Some p) members) = p \<and> distinct (chosen (Some p) members)
    \<and> set (chosen (Some p) members) \<subseteq> set members
    \<and> hd members \<in> set (chosen (Some p) members) \<and> last members \<in> set (chosen (Some p) members)"
proof -
  let ?n = "length members"
  have c: "chosen (Some p) members = map (\<lambda>k. members ! spread ?n p k) [0..<p]"
    using assms by (simp add: chosen_def)
  have b: "spread ?n p k < ?n" if "k < p" for k using spread_bound [OF assms(2,3) that] .
  have "inj_on (\<lambda>k. members ! spread ?n p k) {0..<p}"
  proof (rule inj_onI)
    fix x y assume x: "x \<in> {0..<p}" "y \<in> {0..<p}" "members ! spread ?n p x = members ! spread ?n p y"
    then have "spread ?n p x = spread ?n p y" using assms(1) b by (simp add: nth_eq_iff_index_eq)
    then show "x = y" using spread_strict [OF assms(2,3)] by (metis less_irrefl linorder_neqE_nat)
  qed
  then have "distinct (chosen (Some p) members)" by (simp add: c distinct_map)
  moreover have "members ! spread ?n p 0 \<in> set (chosen (Some p) members)"
    "members ! spread ?n p (p - 1) \<in> set (chosen (Some p) members)" using assms(2) by (auto simp: c)
  then have "members ! 0 \<in> set (chosen (Some p) members)" "members ! (?n - 1) \<in> set (chosen (Some p) members)"
    unfolding spread_ends [OF assms(2)] .
  moreover have "members ! 0 = hd members" "members ! (?n - 1) = last members"
    using assms by (cases members; auto simp: hd_conv_nth last_conv_nth)+
  moreover have "length (chosen (Some p) members) = p" "set (chosen (Some p) members) \<subseteq> set members" using b by (auto simp: c)
  ultimately show ?thesis by simp
qed

theorem shape_spread_witness:
  "last [10, 20, 30, 40, 50] \<in> set (chosen (Some 3) [10, 20, 30, 40, 50])"
  using shape_spread [of "[10, 20, 30, 40, 50]" 3] by simp

end
