(* ===== verification/Imports.thy ===== *)
theory Imports
  imports Mutate
begin

text \<open>
  The import graph of a source tree (\<open>harness/wacFiles.ts\<close>): how an import is resolved against
  the file that names it, which paths a file imports, and the walk that collects an entry and
  everything it reaches, in memory and from disk. The lexer is a parameter, as in \<open>Mutate\<close>. A
  \<open>Map\<close> is the list of its entries in the order they were set; the directory tree that is read
  from is such a list too, and a read of a path that is not in it raises.
\<close>

type_synonym lexer = "jsstring \<Rightarrow> token list \<times> jsstring list"
type_synonym sources = "(jsstring \<times> jsstring) list"

section \<open>Paths\<close>

definition dir_of :: "jsstring \<Rightarrow> jsstring" where
  "dir_of p = (if slash \<in> set p then rev (tl (dropWhile (\<lambda>c. c \<noteq> slash) (rev p))) else js ''.'')"

text \<open>One step of the loop that collapses \<open>.\<close> and \<open>..\<close>.\<close>

definition push_part :: "jsstring \<Rightarrow> jsstring list \<Rightarrow> jsstring list" where
  "push_part part parts =
     (if part = js ''.'' \<or> part = [] then parts
      else if part = js ''..'' \<and> parts \<noteq> [] \<and> last parts \<noteq> js ''..'' then butlast parts
      else parts @ [part])"

definition collapse :: "jsstring list \<Rightarrow> jsstring list" where
  "collapse ps = fold push_part ps []"

definition resolveFrom :: "jsstring \<Rightarrow> jsstring \<Rightarrow> jsstring" where
  "resolveFrom fromPath spec =
     (let joined = dir_of fromPath @ [slash] @ spec;
          absolute = (joined \<noteq> [] \<and> hd joined = slash)
      in (if absolute then [slash] else []) @ join_with [slash] (collapse (split_on slash joined)))"

section \<open>Imports\<close>

definition isFrom :: "token \<Rightarrow> bool" where
  "isFrom t \<longleftrightarrow> kind t = js ''ident'' \<and> ttext t = js ''from''"

definition to_from :: "token list \<Rightarrow> token list" where
  "to_from ts = dropWhile (\<lambda>t. \<not> isFrom t \<and> kind t \<noteq> js '';'') ts"

lemma to_from_shorter: "to_from ts = f # s # rest \<Longrightarrow> length rest < Suc (length ts)"
  using length_dropWhile_le [of "\<lambda>t. \<not> isFrom t \<and> kind t \<noteq> js '';''" ts] by (simp add: to_from_def)

function imports_in :: "token list \<Rightarrow> jsstring list" where
  "imports_in [] = []"
| "imports_in (t # ts) =
     (if kind t \<noteq> js ''import'' then imports_in ts
      else case to_from ts of
             f # s # rest \<Rightarrow> if isFrom f \<and> kind s = js ''string'' then ttext s # imports_in rest else imports_in ts
           | _ \<Rightarrow> imports_in ts)"
  by pat_completeness auto
termination
  by (relation "measure length") (auto dest: to_from_shorter)

definition importPaths :: "lexer \<Rightarrow> jsstring \<Rightarrow> jsstring list" where
  "importPaths wacLex src = imports_in (fst (wacLex src))"

section \<open>The walk\<close>

definition next_paths :: "lexer \<Rightarrow> jsstring \<Rightarrow> jsstring \<Rightarrow> jsstring list" where
  "next_paths wacLex path src = map (resolveFrom path) (importPaths wacLex src)"

text \<open>How many paths of the tree are still to be added: what makes the walk end.\<close>

definition unseen :: "sources \<Rightarrow> sources \<Rightarrow> nat" where
  "unseen all seen = length (filter (\<lambda>p. map_of seen p = None) (map fst all))"

lemma unseen_less:
  assumes "map_of seen p = None" "map_of all p = Some src"
  shows "unseen all (seen @ [(p, src)]) < unseen all seen"
proof -
  let ?new = "filter (\<lambda>q. map_of seen q = None) (map fst all)"
  have "p \<in> set ?new" using assms by (force dest: map_of_SomeD)
  then have "length (filter (\<lambda>q. q \<noteq> p) ?new) < length ?new" by (intro length_filter_less) auto
  moreover have "filter (\<lambda>q. map_of (seen @ [(p, src)]) q = None) (map fst all) = filter (\<lambda>q. q \<noteq> p) ?new"
    by (auto simp: map_add_def filter_map o_def intro!: arg_cong [where f = "map fst"] filter_cong split: option.splits)
  ultimately show ?thesis unfolding unseen_def by argo
qed

function walk :: "lexer \<Rightarrow> sources \<Rightarrow> sources \<Rightarrow> jsstring list \<Rightarrow> sources" where
  "walk wacLex all seen [] = seen"
| "walk wacLex all seen (path # queue) =
     (if map_of seen path \<noteq> None then walk wacLex all seen queue
      else case map_of all path of
             None \<Rightarrow> walk wacLex all seen queue
           | Some src \<Rightarrow> walk wacLex all (seen @ [(path, src)]) (queue @ next_paths wacLex path src))"
  by pat_completeness auto
termination
  by (relation "measures [\<lambda>(l, all, seen, queue). unseen all seen, \<lambda>(l, all, seen, queue). length queue]")
    (auto simp: unseen_less)

definition wacFilesIn :: "lexer \<Rightarrow> sources \<Rightarrow> jsstring \<Rightarrow> sources" where
  "wacFilesIn wacLex all entry = walk wacLex all [] [entry]"

text \<open>From disk, a path that cannot be read raises: \<open>None\<close>.\<close>

function walk_disk :: "lexer \<Rightarrow> sources \<Rightarrow> sources \<Rightarrow> jsstring list \<Rightarrow> sources option" where
  "walk_disk wacLex disk seen [] = Some seen"
| "walk_disk wacLex disk seen (path # queue) =
     (if map_of seen path \<noteq> None then walk_disk wacLex disk seen queue
      else case map_of disk path of
             None \<Rightarrow> None
           | Some src \<Rightarrow> walk_disk wacLex disk (seen @ [(path, src)]) (queue @ next_paths wacLex path src))"
  by pat_completeness auto
termination
  by (relation "measures [\<lambda>(l, all, seen, queue). unseen all seen, \<lambda>(l, all, seen, queue). length queue]")
    (auto simp: unseen_less)

definition wacFiles :: "lexer \<Rightarrow> sources \<Rightarrow> jsstring \<Rightarrow> sources option" where
  "wacFiles wacLex disk entry = walk_disk wacLex disk [] [entry]"

section \<open>The walk collects what is reached\<close>

definition imports_of :: "lexer \<Rightarrow> sources \<Rightarrow> jsstring \<Rightarrow> jsstring \<Rightarrow> bool" where
  "imports_of wacLex all p q \<longleftrightarrow> (\<exists>src. map_of all p = Some src \<and> q \<in> set (next_paths wacLex p src))"

abbreviation reaches :: "lexer \<Rightarrow> sources \<Rightarrow> jsstring \<Rightarrow> jsstring \<Rightarrow> bool" where
  "reaches wacLex all \<equiv> (imports_of wacLex all)\<^sup>*\<^sup>*"

definition walk_inv :: "lexer \<Rightarrow> sources \<Rightarrow> sources \<Rightarrow> jsstring list \<Rightarrow> jsstring \<Rightarrow> bool" where
  "walk_inv wacLex all seen queue entry \<longleftrightarrow>
     distinct (map fst seen)
     \<and> (\<forall>p src. map_of seen p = Some src \<longrightarrow> map_of all p = Some src \<and> reaches wacLex all entry p
          \<and> (\<forall>q \<in> set (next_paths wacLex p src). map_of seen q \<noteq> None \<or> map_of all q = None \<or> q \<in> set queue))
     \<and> (\<forall>q \<in> set queue. reaches wacLex all entry q)
     \<and> (map_of seen entry \<noteq> None \<or> map_of all entry = None \<or> entry \<in> set queue)"

lemma walk_invD:
  assumes "walk_inv wacLex all seen queue entry"
  shows "distinct (map fst seen)"
    and "map_of seen p = Some src \<Longrightarrow> map_of all p = Some src"
    and "map_of seen p = Some src \<Longrightarrow> reaches wacLex all entry p"
    and "map_of seen p = Some src \<Longrightarrow> q \<in> set (next_paths wacLex p src)
      \<Longrightarrow> map_of seen q \<noteq> None \<or> map_of all q = None \<or> q \<in> set queue"
    and "q \<in> set queue \<Longrightarrow> reaches wacLex all entry q"
    and "map_of seen entry \<noteq> None \<or> map_of all entry = None \<or> entry \<in> set queue"
  using assms unfolding walk_inv_def by blast+

lemma walk_invI:
  assumes "distinct (map fst seen)"
    and "\<And>p src. map_of seen p = Some src \<Longrightarrow> map_of all p = Some src"
    and "\<And>p src. map_of seen p = Some src \<Longrightarrow> reaches wacLex all entry p"
    and "\<And>p src q. map_of seen p = Some src \<Longrightarrow> q \<in> set (next_paths wacLex p src)
      \<Longrightarrow> map_of seen q \<noteq> None \<or> map_of all q = None \<or> q \<in> set queue"
    and "\<And>q. q \<in> set queue \<Longrightarrow> reaches wacLex all entry q"
    and "map_of seen entry \<noteq> None \<or> map_of all entry = None \<or> entry \<in> set queue"
  shows "walk_inv wacLex all seen queue entry"
  using assms unfolding walk_inv_def by blast

lemma walk_inv_skip:
  assumes "walk_inv wacLex all seen (path # queue) entry" "map_of seen path \<noteq> None \<or> map_of all path = None"
  shows "walk_inv wacLex all seen queue entry"
proof -
  have drop_path: "map_of seen q \<noteq> None \<or> map_of all q = None \<or> q \<in> set queue"
    if "map_of seen q \<noteq> None \<or> map_of all q = None \<or> q \<in> set (path # queue)" for q
    using that assms(2) by (cases "q = path") auto
  show ?thesis
  proof (rule walk_invI)
    show "map_of seen q \<noteq> None \<or> map_of all q = None \<or> q \<in> set queue"
      if "map_of seen p = Some src" "q \<in> set (next_paths wacLex p src)" for p src q
      using drop_path [OF walk_invD(4) [OF assms(1) that]] .
    show "map_of seen entry \<noteq> None \<or> map_of all entry = None \<or> entry \<in> set queue"
      using drop_path [OF walk_invD(6) [OF assms(1)]] .
  qed (use walk_invD(1,2,3,5) [OF assms(1)] in auto)
qed

lemma walk_inv_add:
  assumes inv: "walk_inv wacLex all seen (path # queue) entry"
    and new: "map_of seen path = None" "map_of all path = Some src"
  shows "walk_inv wacLex all (seen @ [(path, src)]) (queue @ next_paths wacLex path src) entry"
proof -
  have seen': "map_of (seen @ [(path, src)]) q = (if q = path then Some src else map_of seen q)" for q
    using new(1) by (auto simp: map_add_def split: option.splits)
  have r: "reaches wacLex all entry path" using inv by (simp add: walk_inv_def)
  then have "reaches wacLex all entry q" if "q \<in> set (next_paths wacLex path src)" for q
    using that new(2) by (auto simp: imports_of_def intro: rtranclp.rtrancl_into_rtrancl)
  moreover have "path \<notin> set (map fst seen)" using new(1) by (simp add: map_of_eq_None_iff)
  moreover have "distinct (map fst seen)" using inv by (simp add: walk_inv_def)
  moreover have "map_of (seen @ [(path, src)]) q \<noteq> None \<or> map_of all q = None
      \<or> q \<in> set (queue @ next_paths wacLex path src)"
    if "map_of (seen @ [(path, src)]) p = Some s" "q \<in> set (next_paths wacLex p s)" for p s q
  proof (cases "p = path")
    case False
    then have "map_of seen p = Some s" using that(1) by (simp only: seen' if_False)
    then have "map_of seen q \<noteq> None \<or> map_of all q = None \<or> q \<in> set (path # queue)"
      using inv that(2) unfolding walk_inv_def by blast
    then show ?thesis unfolding seen' by auto
  qed (use that in \<open>simp add: seen' del: map_of_append\<close>)
  moreover have "map_of all p = Some s \<and> reaches wacLex all entry p"
    if "map_of (seen @ [(path, src)]) p = Some s" for p s
    using that inv r new(2) unfolding seen' walk_inv_def by (auto split: if_splits)
  moreover have "\<forall>q \<in> set queue. reaches wacLex all entry q" using inv by (simp add: walk_inv_def)
  moreover have "map_of (seen @ [(path, src)]) entry \<noteq> None \<or> map_of all entry = None \<or> entry \<in> set queue"
    using inv unfolding seen' walk_inv_def by auto
  ultimately show ?thesis by (intro walk_invI) (auto simp del: map_of_append)
qed

lemma walk_keeps_inv: "walk_inv wacLex all seen queue entry \<Longrightarrow> walk_inv wacLex all (walk wacLex all seen queue) [] entry"
proof (induction wacLex all seen queue rule: walk.induct)
  case (2 wacLex all seen path queue)
  then show ?case by (auto simp: walk_inv_add dest: walk_inv_skip split: option.splits)
qed simp

lemma walk_inv_start: "walk_inv wacLex all [] [entry] entry"
  by (simp add: walk_inv_def)

lemma walk_inv_done:
  assumes "walk_inv wacLex all seen [] entry"
  shows "map_of seen p = (if reaches wacLex all entry p then map_of all p else None)"
proof -
  have closed: "map_of seen p = map_of all p" if "reaches wacLex all entry p" for p
    using that
  proof (induction rule: rtranclp_induct)
    case base
    show ?case using walk_invD(6) [OF assms] walk_invD(2) [OF assms, of entry] by (cases "map_of seen entry") auto
  next
    case (step y z)
    then obtain src where "map_of seen y = Some src" "z \<in> set (next_paths wacLex y src)"
      by (auto simp: imports_of_def)
    then show ?case using walk_invD(4) [OF assms, of y src z] walk_invD(2) [OF assms, of z] by (cases "map_of seen z") auto
  qed
  show ?thesis
  proof (cases "map_of seen p")
    case None
    with closed show ?thesis by auto
  next
    case (Some s)
    then have "reaches wacLex all entry p" "map_of all p = Some s" using walk_invD(2,3) [OF assms] by blast+
    with Some show ?thesis by simp
  qed
qed

lemma closure_of:
  "map_of (wacFilesIn wacLex all entry) p = (if reaches wacLex all entry p then map_of all p else None)"
  "distinct (map fst (wacFilesIn wacLex all entry))"
proof -
  have "walk_inv wacLex all (wacFilesIn wacLex all entry) [] entry"
    using walk_keeps_inv [OF walk_inv_start] by (simp add: wacFilesIn_def)
  then show "map_of (wacFilesIn wacLex all entry) p = (if reaches wacLex all entry p then map_of all p else None)"
    "distinct (map fst (wacFilesIn wacLex all entry))" using walk_inv_done walk_invD(1) by blast+
qed

text \<open>
  C39. The files an entry is compiled with are exactly those it reaches: walking the import graph
  gives, for every path that is reached through files that exist, its source, and nothing else,
  each once.
\<close>

theorem wacFilesIn_is_closure:
  "map_of (wacFilesIn wacLex all entry) p = (if reaches wacLex all entry p then map_of all p else None)
   \<and> distinct (map fst (wacFilesIn wacLex all entry))"
  using closure_of by blast

text \<open>From disk the walk is the same one, and it raises when an import that is reached is missing.\<close>

lemma walk_disk_Some:
  assumes "walk_inv wacLex disk seen queue entry" "walk_disk wacLex disk seen queue = Some out"
  shows "out = walk wacLex disk seen queue \<and> (\<forall>q \<in> set queue. map_of disk q \<noteq> None)
    \<and> (\<forall>p src q. map_of out p = Some src \<longrightarrow> map_of seen p = None \<longrightarrow> q \<in> set (next_paths wacLex p src) \<longrightarrow> map_of disk q \<noteq> None)"
  using assms
proof (induction wacLex disk seen queue rule: walk_disk.induct)
  case (2 wacLex disk seen path queue)
  show ?case
  proof (cases "map_of seen path")
    case (Some s)
    have inv: "walk_inv wacLex disk seen queue entry" using walk_inv_skip [OF "2.prems"(1)] Some by simp
    have "map_of disk path = Some s" using walk_invD(2) [OF "2.prems"(1) Some] .
    with "2.IH"(1) inv Some "2.prems"(2) show ?thesis by simp
  next
    case None
    then obtain src where src: "map_of disk path = Some src" using "2.prems"(2) by (auto split: option.splits)
    note inv = walk_inv_add [OF "2.prems"(1) None src]
    note IH = "2.IH"(2) [OF _ src inv]
    have run: "walk_disk wacLex disk (seen @ [(path, src)]) (queue @ next_paths wacLex path src) = Some out"
      using "2.prems"(2) None src by simp
    have at: "map_of out path = Some src"
    proof -
      have "walk_inv wacLex disk out [] entry" using walk_keeps_inv [OF inv] IH [OF _ run] None by simp
      moreover have "reaches wacLex disk entry path" using walk_invD(5) [OF "2.prems"(1)] by simp
      ultimately show ?thesis using walk_inv_done src by simp
    qed
    have seen': "map_of (seen @ [(path, src)]) q = None \<longleftrightarrow> map_of seen q = None \<and> q \<noteq> path" for q
      by (auto simp: map_add_def split: option.splits)
    have "map_of disk q \<noteq> None"
      if "map_of out p = Some s" "map_of seen p = None" "q \<in> set (next_paths wacLex p s)" for p s q
    proof (cases "p = path")
      case True
      then have "q \<in> set (next_paths wacLex path src)" using that at by simp
      then show ?thesis using IH [OF _ run] None by simp
    next
      case False
      then show ?thesis using IH [OF _ run] None that seen' by simp
    qed
    then show ?thesis using IH [OF _ run] None src by auto
  qed
qed (auto simp: walk_inv_def)

lemma walk_disk_None:
  assumes "walk_inv wacLex disk seen queue entry" "walk_disk wacLex disk seen queue = None"
  shows "\<exists>p. reaches wacLex disk entry p \<and> map_of disk p = None"
  using assms
proof (induction wacLex disk seen queue rule: walk_disk.induct)
  case (2 wacLex disk seen path queue)
  show ?case
  proof (cases "map_of seen path = None \<and> map_of disk path = None")
    case True
    then show ?thesis using walk_invD(5) [OF "2.prems"(1)] by auto
  next
    case False
    show ?thesis
    proof (cases "map_of seen path")
      case (Some s)
      then show ?thesis using "2.IH"(1) walk_inv_skip [OF "2.prems"(1)] "2.prems"(2) by simp
    next
      case None
      then obtain src where src: "map_of disk path = Some src" using False by auto
      show ?thesis using "2.IH"(2) [OF _ src walk_inv_add [OF "2.prems"(1) None src]] None src "2.prems"(2) by simp
    qed
  qed
qed simp

lemma wacFiles_spec:
  "wacFiles wacLex disk entry =
     (if \<exists>p. reaches wacLex disk entry p \<and> map_of disk p = None then None else Some (wacFilesIn wacLex disk entry))"
proof (cases "wacFiles wacLex disk entry")
  case None
  then show ?thesis using walk_disk_None [OF walk_inv_start] by (simp add: wacFiles_def)
next
  case (Some out)
  then have run: "walk_disk wacLex disk [] [entry] = Some out" by (simp add: wacFiles_def)
  note D = walk_disk_Some [OF walk_inv_start run]
  have inv: "walk_inv wacLex disk out [] entry" using walk_keeps_inv [OF walk_inv_start] D by simp
  have "map_of disk p \<noteq> None" if "reaches wacLex disk entry p" for p
    using that
  proof (induction rule: rtranclp_induct)
    case base
    then show ?case using D by simp
  next
    case (step y z)
    then obtain src where "map_of disk y = Some src" "z \<in> set (next_paths wacLex y src)"
      by (auto simp: imports_of_def)
    moreover have "map_of out y = map_of disk y" using walk_inv_done [OF inv, of y] step(1) by simp
    ultimately show ?case using D by auto
  qed
  with Some D show ?thesis by (auto simp: wacFilesIn_def)
qed

end
