(* ===== verification/Sweep.thy ===== *)
theory Sweep
  imports Complex_Main Imports
begin

text \<open>
  The mutation run before and after its tests: how the curated mutations are located, which
  mutants are selected, how the compiled bytes decide which of them are run at all, which tests
  can see a mutant, and what the results add up to (\<open>tools/mutate.ts\<close>, \<open>tools/mutate/profile.ts\<close>).
  The lexer and the compiler are parameters; a compilation is \<open>None\<close> when it is not ok.
  What is printed on the way is not modelled.
\<close>

type_synonym compiler = "sources \<Rightarrow> jsstring \<Rightarrow> byte list option"

definition starts_with :: "jsstring \<Rightarrow> jsstring \<Rightarrow> bool" where
  "starts_with p s \<longleftrightarrow> take (length p) s = p"

definition has_sub :: "jsstring \<Rightarrow> jsstring \<Rightarrow> bool" where
  "has_sub p s = list_ex (\<lambda>i. starts_with p (drop i s)) [0..<Suc (length s)]"

definition trim :: "jsstring \<Rightarrow> jsstring" where
  "trim s = rev (dropWhile is_space (rev (dropWhile is_space s)))"

section \<open>Options\<close>

definition DEFAULT_OPERATORS :: "operator list" where
  "DEFAULT_OPERATORS = [Guard, Extreme]"

definition operator_named :: "jsstring \<Rightarrow> operator option" where
  "operator_named s =
     (if s = js ''relational'' then Some Relational
      else if s = js ''literal'' then Some Literal
      else if s = js ''guard'' then Some Guard
      else if s = js ''extreme'' then Some Extreme
      else None)"

text \<open>A name that is no operator's selects none: the code casts the list and never looks.\<close>

definition operators :: "jsstring list \<Rightarrow> operator list" where
  "operators args =
     (case find (starts_with (js ''--operators'')) args of
        None \<Rightarrow> []
      | Some a \<Rightarrow>
          if \<not> has_sub (js ''='') a then DEFAULT_OPERATORS
          else
            (let v = split_on 61 a ! 1 in
             if v = js ''all'' then ALL_OPERATORS
             else List.map_filter (\<lambda>o'. operator_named (trim o')) (split_on 44 v)))"

fun arg_after :: "jsstring \<Rightarrow> jsstring list \<Rightarrow> jsstring option" where
  "arg_after x [] = None"
| "arg_after x [y] = None"
| "arg_after x (y # z # zs) = (if y = x then Some z else arg_after x (z # zs))"

definition pkgArg :: "jsstring list \<Rightarrow> jsstring option" where
  "pkgArg args = arg_after (js ''--package'') args"

definition filter_arg :: "jsstring list \<Rightarrow> jsstring option" where
  "filter_arg args = find (\<lambda>a. \<not> starts_with (js ''--'') a \<and> Some a \<noteq> pkgArg args) args"

definition has_flag :: "string \<Rightarrow> jsstring list \<Rightarrow> bool" where
  "has_flag f args \<longleftrightarrow> js f \<in> set args"

definition TIMEOUT_MULTIPLIER :: real where "TIMEOUT_MULTIPLIER = 10"
definition TIMEOUT_FLOOR_MS :: real where "TIMEOUT_FLOOR_MS = 30000"
definition TIMEOUT_CAP_MS :: real where "TIMEOUT_CAP_MS = 600000"

definition deadlineFor :: "real \<Rightarrow> real" where
  "deadlineFor baseline = min TIMEOUT_CAP_MS (max TIMEOUT_FLOOR_MS (baseline * TIMEOUT_MULTIPLIER))"

section \<open>Which packages see a file\<close>

definition is_entry :: "jsstring \<Rightarrow> bool" where
  "is_entry p \<longleftrightarrow> has_sub (js ''/src/'') p \<or> has_sub (js ''/test/wac/'') p \<or> has_sub (js ''/bench/'') p"

definition pkg_of_path :: "jsstring \<Rightarrow> jsstring" where
  "pkg_of_path p = split_on slash p ! 1"

definition sees :: "lexer \<Rightarrow> sources \<Rightarrow> jsstring \<Rightarrow> jsstring \<Rightarrow> bool" where
  "sees wacLex disk f entry =
     (case wacFiles wacLex disk entry of None \<Rightarrow> False | Some included \<Rightarrow> f \<in> set (map fst included))"

text \<open>\<open>wacPaths\<close> are the paths that were listed, \<open>disk\<close> the files that \<open>wacFiles\<close> reads.\<close>

definition dependents :: "lexer \<Rightarrow> sources \<Rightarrow> jsstring list \<Rightarrow> jsstring \<Rightarrow> jsstring list" where
  "dependents wacLex disk wacPaths f =
     remdups (map pkg_of_path (filter (sees wacLex disk f) (filter is_entry wacPaths)))"

definition testDirs :: "(jsstring \<Rightarrow> jsstring list) \<Rightarrow> mutant \<Rightarrow> jsstring list" where
  "testDirs deps m =
     map (\<lambda>p. js ''packages/'' @ p) (sort (remdups (concat (map (\<lambda>e. deps (efile e) @ packagesOf m) (edits m)))))"

section \<open>Curated mutations\<close>

text \<open>
  A curated mutation names one edit, or several. A pattern is a string that is not empty: for an
  empty one the search of the source would not end.
\<close>

record raw_edit =
  rfile :: jsstring
  rfind :: jsstring
  rreplace :: jsstring
  rnth :: "int option"

datatype curated_form = Single jsstring jsstring jsstring | Several "raw_edit list"

record curated =
  cname :: jsstring
  cform :: curated_form
  cnth :: "int option"
  cratioOnly :: bool
  cmustSurvive :: bool
  cequivalent :: "jsstring option"

definition raw_of :: "curated \<Rightarrow> raw_edit list" where
  "raw_of c =
     (case cform c of
        Single f p r \<Rightarrow> [\<lparr>rfile = f, rfind = p, rreplace = r, rnth = cnth c\<rparr>]
      | Several rs \<Rightarrow> rs)"

definition indexOf :: "jsstring \<Rightarrow> jsstring \<Rightarrow> nat \<Rightarrow> nat option" where
  "indexOf p text from = find (\<lambda>i. starts_with p (drop i text)) [from..<length text]"

lemma indexOf_SomeD: "indexOf p text from = Some i \<Longrightarrow> from \<le> i \<and> i < length text"
  by (auto simp: indexOf_def find_Some_iff)

function hits_from :: "jsstring \<Rightarrow> jsstring \<Rightarrow> nat \<Rightarrow> nat list" where
  "hits_from p text from =
     (case indexOf p text from of None \<Rightarrow> [] | Some i \<Rightarrow> i # hits_from p text (i + 1))"
  by pat_completeness auto
termination
  by (relation "measure (\<lambda>(p, text, from). length text - from)") (auto dest: indexOf_SomeD)

declare hits_from.simps [simp del]

datatype problem =
    NoSuchFile jsstring
  | NotFound jsstring jsstring
  | Ambiguous nat jsstring jsstring
  | NoNth int nat jsstring

definition locate_one :: "(jsstring \<rightharpoonup> jsstring) \<Rightarrow> int option \<Rightarrow> raw_edit \<Rightarrow> problem + edit" where
  "locate_one sources cn r =
     (case sources (rfile r) of
        None \<Rightarrow> Inl (NoSuchFile (rfile r))
      | Some text \<Rightarrow>
          (let hits = hits_from (rfind r) text 0;
               nth' = (case rnth r of None \<Rightarrow> cn | Some n \<Rightarrow> Some n);
               k = (case nth' of None \<Rightarrow> 1 | Some n \<Rightarrow> n) - 1
           in if hits = [] then Inl (NotFound (rfile r) (rfind r))
              else if length hits > 1 \<and> nth' = None then Inl (Ambiguous (length hits) (rfile r) (rfind r))
              else if k < 0 \<or> int (length hits) \<le> k then Inl (NoNth (k + 1) (length hits) (rfile r))
              else Inr (edit_of (rfile r) (hits ! nat k) (rfind r) (rreplace r))))"

fun locate_all :: "(jsstring \<rightharpoonup> jsstring) \<Rightarrow> int option \<Rightarrow> raw_edit list \<Rightarrow> problem + edit list" where
  "locate_all sources cn [] = Inr []"
| "locate_all sources cn (r # rs) =
     (case locate_one sources cn r of
        Inl p \<Rightarrow> Inl p
      | Inr e \<Rightarrow> (case locate_all sources cn rs of Inl p \<Rightarrow> Inl p | Inr es \<Rightarrow> Inr (e # es)))"

definition locate :: "(jsstring \<rightharpoonup> jsstring) \<Rightarrow> curated \<Rightarrow> (jsstring \<times> problem) + mutant" where
  "locate sources c =
     (case locate_all sources (cnth c) (raw_of c) of
        Inl p \<Rightarrow> Inl (cname c, p)
      | Inr es \<Rightarrow> Inr \<lparr>mname = cname c, edits = es, origin = Curated, ratioOnly = cratioOnly c,
                       mustSurvive = cmustSurvive c, equivalent = cequivalent c\<rparr>)"

section \<open>Selection\<close>

definition not_under_test :: "jsstring \<Rightarrow> bool" where
  "not_under_test f \<longleftrightarrow> has_sub (js ''/test/'') f \<or> has_sub (js ''/bench/'') f"

fun generate_all ::
  "lexer \<Rightarrow> operator list \<Rightarrow> nat option \<Rightarrow> sources \<Rightarrow> generate_stats \<Rightarrow> mutant list \<times> generate_stats" where
  "generate_all wacLex ops perShape [] st = ([], st)"
| "generate_all wacLex ops perShape ((f, src) # rest) st =
     (if not_under_test f then generate_all wacLex ops perShape rest st
      else case generate wacLex f src ops st perShape of (ms, st) \<Rightarrow>
           case generate_all wacLex ops perShape rest st of (ms', st) \<Rightarrow> (ms @ ms', st))"

text \<open>
  \<open>select_mutants args changed sample\<close>: the list of mutants a run starts from, and the curated
  mutations that could not be located. \<open>changed\<close> are the changed files of \<open>git diff\<close>; \<open>sample\<close> is
  the number of \<open>--sample\<close> (absent, or \<open>Some None\<close> when it is not finite) with its seed.
\<close>

definition select_mutants ::
  "lexer \<Rightarrow> sources \<Rightarrow> curated list \<Rightarrow> jsstring list \<Rightarrow> jsstring list \<Rightarrow> int option option \<Rightarrow> int
     \<Rightarrow> mutant list \<times> (jsstring \<times> problem) list" where
  "select_mutants wacLex sources CURATED args changed sample seed =
     (let located = map (locate (map_of sources)) CURATED;
          broken = List.map_filter (\<lambda>l. case l of Inl b \<Rightarrow> Some b | Inr m \<Rightarrow> None) located;
          ms = List.map_filter (\<lambda>l. case l of Inl b \<Rightarrow> None | Inr m \<Rightarrow> Some m) located;
          perShape = (if has_flag ''--no-sample'' args then None else Some 3);
          ms = (if operators args \<noteq> []
                then ms @ fst (generate_all wacLex (operators args) perShape sources
                           \<lparr>literalSampled = 0, literalSkipped = 0, shapes = 0\<rparr>)
                else ms);
          ms = (if has_flag ''--diff'' args then filter (\<lambda>m. list_ex (\<lambda>e. efile e \<in> set changed) (edits m)) ms else ms);
          ms = (case pkgArg args of None \<Rightarrow> ms | Some p \<Rightarrow> filter (\<lambda>m. p \<in> set (packagesOf m)) ms);
          ms = (case filter_arg args of None \<Rightarrow> ms | Some s \<Rightarrow> filter (\<lambda>m. has_sub s (mname m)) ms);
          ms = (case sample of None \<Rightarrow> ms | Some n \<Rightarrow> sampleMutants ms n seed)
      in (ms, broken))"

section \<open>Trivial compiler equivalence\<close>

definition lane :: "32 word \<Rightarrow> 32 word \<Rightarrow> bytes \<Rightarrow> 32 word" where
  "lane start prime bs = foldl (\<lambda>a x. (a XOR ucast x) * prime) start bs"

definition hash_text :: "bytes \<Rightarrow> jsstring" where
  "hash_text bs =
     dec_nat (length bs) @ js '':'' @ hex_nat (unat (lane 0x811C9DC5 0x01000193 bs))
       @ js '':'' @ hex_nat (unat (lane 0x01000193 0x85EBCA6B bs))"

definition wasmHash :: "lexer \<Rightarrow> compiler \<Rightarrow> sources \<Rightarrow> jsstring \<Rightarrow> jsstring option" where
  "wasmHash wacLex wacCompile files entry =
     map_option hash_text (wacCompile (wacFilesIn wacLex files entry) entry)"

definition files_of :: "mutant \<Rightarrow> jsstring list" where
  "files_of m = sort (remdups (map efile (edits m)))"

text \<open>\<open>new Map(sources)\<close> with the edited files set: the order of the entries is kept.\<close>

definition mutated_sources :: "sources \<Rightarrow> mutant \<Rightarrow> sources option" where
  "mutated_sources sources m =
     map_option (\<lambda>out. map (\<lambda>(f, t). (f, case out f of None \<Rightarrow> t | Some t' \<Rightarrow> t')) sources)
       (applyEdits (map_of sources) m)"

definition named_hash :: "jsstring \<Rightarrow> jsstring option \<Rightarrow> jsstring" where
  "named_hash f h = f @ js ''='' @ (case h of None \<Rightarrow> js ''null'' | Some h \<Rightarrow> h)"

definition signature_of :: "(jsstring \<Rightarrow> jsstring option) \<Rightarrow> jsstring list \<Rightarrow> jsstring" where
  "signature_of hash fs = join_with (js ''|'') (map (\<lambda>f. named_hash f (hash f)) fs)"

definition baseline_hash :: "lexer \<Rightarrow> compiler \<Rightarrow> sources \<Rightarrow> jsstring \<Rightarrow> jsstring option" where
  "baseline_hash wacLex wacCompile sources f = wasmHash wacLex wacCompile sources f"

definition brokenBaseline :: "lexer \<Rightarrow> compiler \<Rightarrow> sources \<Rightarrow> mutant list \<Rightarrow> jsstring list" where
  "brokenBaseline wacLex wacCompile sources ms =
     filter (\<lambda>f. baseline_hash wacLex wacCompile sources f = None) (remdups (concat (map (\<lambda>m. map efile (edits m)) ms)))"

datatype triage = Run | Equivalent | Duplicate jsstring | Invalid jsstring

record triage_state =
  seenHash :: "jsstring \<rightharpoonup> jsstring"
  controlIsNoop :: "jsstring \<rightharpoonup> bool"

text \<open>One mutant. \<open>None\<close> is the error of \<open>applyEdits\<close>, which ends the run.\<close>

definition triage_one ::
  "lexer \<Rightarrow> compiler \<Rightarrow> sources \<Rightarrow> triage_state \<Rightarrow> mutant \<Rightarrow> (triage_state \<times> triage) option" where
  "triage_one wacLex wacCompile sources st m =
     (case mutated_sources sources m of
        None \<Rightarrow> None
      | Some mutated \<Rightarrow>
          (case find (\<lambda>f. wasmHash wacLex wacCompile mutated f = None) (files_of m) of
             Some f \<Rightarrow> Some (st, Invalid f)
           | None \<Rightarrow>
               (let signature = signature_of (wasmHash wacLex wacCompile mutated) (files_of m);
                    isNoop = (signature = signature_of (baseline_hash wacLex wacCompile sources) (files_of m))
                in if mustSurvive m then Some (st\<lparr>controlIsNoop := (controlIsNoop st)(mname m \<mapsto> isNoop)\<rparr>, Run)
                   else if isNoop then Some (st, Equivalent)
                   else case seenHash st signature of
                          Some first \<Rightarrow> Some (st, Duplicate first)
                        | None \<Rightarrow> Some (st\<lparr>seenHash := (seenHash st)(signature \<mapsto> mname m)\<rparr>, Run))))"

fun triage_all ::
  "lexer \<Rightarrow> compiler \<Rightarrow> sources \<Rightarrow> triage_state \<Rightarrow> mutant list \<Rightarrow> (triage_state \<times> (mutant \<times> triage) list) option" where
  "triage_all wacLex wacCompile sources st [] = Some (st, [])"
| "triage_all wacLex wacCompile sources st (m # ms) =
     (case triage_one wacLex wacCompile sources st m of
        None \<Rightarrow> None
      | Some (st, v) \<Rightarrow>
          (case triage_all wacLex wacCompile sources st ms of
             None \<Rightarrow> None
           | Some (st, vs) \<Rightarrow> Some (st, (m, v) # vs)))"

definition no_triage :: triage_state where
  "no_triage = \<lparr>seenHash = Map.empty, controlIsNoop = Map.empty\<rparr>"

definition toRun :: "(mutant \<times> triage) list \<Rightarrow> mutant list" where
  "toRun triaged = map fst (filter (\<lambda>t. snd t = Run) triaged)"

section \<open>Where a curated mutation lands\<close>

definition occurs :: "jsstring \<Rightarrow> jsstring \<Rightarrow> nat \<Rightarrow> bool" where
  "occurs p text i \<longleftrightarrow> i \<le> length text \<and> starts_with p (drop i text)"

lemma hits_from_occurs:
  "hits_from p src i0 = filter (\<lambda>i. starts_with p (drop i src)) [i0..<length src]"
proof (induction p src i0 rule: hits_from.induct)
  case (1 p src i0)
  let ?P = "\<lambda>i. starts_with p (drop i src)"
  show ?case
  proof (cases "indexOf p src i0")
    case None
    then have "filter ?P [i0..<length src] = []" by (simp add: indexOf_def find_None_iff filter_empty_conv)
    with None show ?thesis by (simp add: hits_from.simps [of p src i0])
  next
    case (Some i)
    then obtain k where "k < length [i0..<length src]" "?P ([i0..<length src] ! k)" "i = [i0..<length src] ! k"
      "\<forall>j < k. \<not> ?P ([i0..<length src] ! j)"
      unfolding indexOf_def find_Some_iff by blast
    then have k: "i0 + k < length src" "?P (i0 + k)" "i = i0 + k" "\<forall>j < k. \<not> ?P (i0 + j)" by auto
    then have i: "i0 \<le> i" "i < length src" "?P i" by simp_all
    have none: "\<not> ?P j" if "i0 \<le> j" "j < i" for j
      using k(4) [rule_format, of "j - i0"] that k(3) by simp
    have "[i0..<length src] = [i0..<i] @ i # [Suc i..<length src]"
      using i(1,2) by (metis le_add_diff_inverse less_imp_le_nat upt_add_eq_append upt_conv_Cons)
    moreover have "filter ?P [i0..<i] = []" using none by (simp add: filter_empty_conv)
    ultimately show ?thesis using "1.IH" [OF Some] Some i(3) by (simp add: hits_from.simps [of p src i0])
  qed
qed

lemma set_hits: "p \<noteq> [] \<Longrightarrow> set (hits_from p src 0) = {i. occurs p src i}"
  by (auto simp: hits_from_occurs occurs_def starts_with_def le_less)

lemma sorted_hits: "sorted (hits_from p src 0)" "distinct (hits_from p src 0)"
  by (simp_all add: hits_from_occurs sorted_wrt_filter)

lemma nth_of_sorted:
  fixes xs :: "nat list"
  assumes "sorted xs" "distinct xs" "k < length xs"
  shows "card {i \<in> set xs. i < xs ! k} = k"
proof -
  have "{i \<in> set xs. i < xs ! k} = set (take k xs)"
  proof (intro set_eqI iffI)
    fix i assume "i \<in> {i \<in> set xs. i < xs ! k}"
    then obtain j where j: "j < length xs" "xs ! j = i" "i < xs ! k" by (auto simp: in_set_conv_nth)
    then have "j < k" using sorted_nth_mono [OF assms(1), of k j] assms(3) by (metis leD leI)
    then show "i \<in> set (take k xs)" using j by (auto simp: in_set_conv_nth intro!: exI [of _ j])
  next
    fix i assume "i \<in> set (take k xs)"
    then obtain j where j: "j < k" "xs ! j = i" using assms(3) by (auto simp: in_set_conv_nth)
    then have "i \<le> xs ! k" using sorted_nth_mono [OF assms(1), of j k] assms(3) by simp
    moreover have "i \<noteq> xs ! k" using j assms(2,3) by (auto simp: nth_eq_iff_index_eq)
    ultimately show "i \<in> {i \<in> set xs. i < xs ! k}" using j assms(3) by (auto simp: in_set_conv_nth intro!: exI [of _ j])
  qed
  moreover have "card (set (take k xs)) = k" using assms(2,3) by (simp add: distinct_card)
  ultimately show ?thesis by simp
qed

definition nth_wanted :: "int option \<Rightarrow> raw_edit \<Rightarrow> int option" where
  "nth_wanted cn r = (case rnth r of None \<Rightarrow> cn | Some n \<Rightarrow> Some n)"

text \<open>What a curated edit means: the only place its pattern occurs, or the one that is numbered.\<close>

definition pinpoints :: "(jsstring \<rightharpoonup> jsstring) \<Rightarrow> int option \<Rightarrow> raw_edit \<Rightarrow> edit \<Rightarrow> bool" where
  "pinpoints sources cn r e \<longleftrightarrow>
     (\<exists>text. sources (rfile r) = Some text \<and> e = edit_of (rfile r) (estart e) (rfind r) (rreplace r)
        \<and> occurs (rfind r) text (estart e)
        \<and> (case nth_wanted cn r of
             None \<Rightarrow> \<forall>i. occurs (rfind r) text i \<longrightarrow> i = estart e
           | Some n \<Rightarrow> int (card {i. occurs (rfind r) text i \<and> i < estart e}) = n - 1))"

lemma locate_one_spec:
  assumes "rfind r \<noteq> []"
  shows "case locate_one sources cn r of Inr e \<Rightarrow> pinpoints sources cn r e | Inl p \<Rightarrow> (\<nexists>e. pinpoints sources cn r e)"
proof (cases "sources (rfile r)")
  case None
  then show ?thesis by (simp add: locate_one_def pinpoints_def)
next
  case (Some src)
  let ?hs = "hits_from (rfind r) src 0" and ?w = "nth_wanted cn r"
  let ?k = "(case ?w of None \<Rightarrow> 1 | Some n \<Rightarrow> n) - 1"
  note S = set_hits [OF assms, of src]
  have count: "card {i. occurs (rfind r) src i \<and> i < ?hs ! k} = k" if "k < length ?hs" for k
    using nth_of_sorted [OF sorted_hits that] S by (simp add: set_eq_iff)
  have at: "\<exists>k < length ?hs. ?hs ! k = i" if "occurs (rfind r) src i" for i
    using that S by (metis in_set_conv_nth mem_Collect_eq)
  have eq: "locate_one sources cn r =
     (if ?hs = [] then Inl (NotFound (rfile r) (rfind r))
      else if length ?hs > 1 \<and> ?w = None then Inl (Ambiguous (length ?hs) (rfile r) (rfind r))
      else if ?k < 0 \<or> int (length ?hs) \<le> ?k then Inl (NoNth (?k + 1) (length ?hs) (rfile r))
      else Inr (edit_of (rfile r) (?hs ! nat ?k) (rfind r) (rreplace r)))"
    using Some by (simp add: locate_one_def nth_wanted_def Let_def)
  let ?bad = "?hs = [] \<or> (length ?hs > 1 \<and> ?w = None) \<or> ?k < 0 \<or> int (length ?hs) \<le> ?k"
  consider (bad) ?bad | (one) "?w = None" "\<not> ?bad" | (nth) n where "?w = Some n" "\<not> ?bad"
    by (cases ?w) blast+
  then show ?thesis
  proof cases
    case bad
    have "\<not> pinpoints sources cn r e" for e
    proof
      assume p: "pinpoints sources cn r e"
      then have o: "occurs (rfind r) src (estart e)" using Some by (auto simp: pinpoints_def)
      then obtain k where k: "k < length ?hs" "?hs ! k = estart e" using at by blast
      show False
      proof (cases ?w)
        case None
        then have "\<forall>i \<in> set ?hs. i = estart e" using p Some S by (auto simp: pinpoints_def)
        then have "set ?hs \<subseteq> {estart e}" by blast
        then have "length ?hs \<le> 1" using sorted_hits(2) by (metis card_mono card.empty card_insert_disjoint distinct_card empty_iff finite.intros One_nat_def)
        with bad None k show False by auto
      next
        case (Some n)
        then have "int k = n - 1" using p \<open>sources (rfile r) = Some src\<close> count [OF k(1)] k(2) by (auto simp: pinpoints_def)
        with bad Some k show False by auto
      qed
    qed
    moreover have "\<exists>p. locate_one sources cn r = Inl p" using bad eq by auto
    ultimately show ?thesis by auto
  next
    case one
    then have "length ?hs = 1" by (cases ?hs) auto
    then have "?hs = [?hs ! 0]" by (metis One_nat_def length_0_conv length_Suc_conv nth_Cons_0)
    then have "\<forall>i. occurs (rfind r) src i \<longleftrightarrow> i = ?hs ! 0" using S by (metis list.set(1,2) mem_Collect_eq singleton_iff)
    with one eq Some show ?thesis by (auto simp: pinpoints_def edit_of_def)
  next
    case nth
    then have k: "nat ?k < length ?hs" by auto
    then have "?hs ! nat ?k \<in> {i. occurs (rfind r) src i}" using S nth_mem by blast
    with nth eq Some count [OF k] k show ?thesis by (auto simp: pinpoints_def edit_of_def)
  qed
qed

lemma locate_all_spec:
  assumes "\<forall>r \<in> set rs. rfind r \<noteq> []"
  shows "case locate_all sources cn rs of
           Inr es \<Rightarrow> list_all2 (pinpoints sources cn) rs es
         | Inl p \<Rightarrow> (\<exists>r \<in> set rs. \<nexists>e. pinpoints sources cn r e)"
  using assms
proof (induction rs)
  case (Cons r rs)
  then show ?case using locate_one_spec [of r sources cn] by (auto split: sum.splits)
qed simp

text \<open>
  A curated mutation is applied where it says: it is located exactly when every one of its
  patterns occurs once, or has the numbered occurrence, and then each edit is at that place.
\<close>

theorem located_where_named:
  assumes "\<forall>r \<in> set (raw_of c). rfind r \<noteq> []"
  shows "case locate sources c of
      Inr m \<Rightarrow> mname m = cname c \<and> list_all2 (pinpoints sources (cnth c)) (raw_of c) (edits m)
    | Inl (n, p) \<Rightarrow> n = cname c \<and> (\<exists>r \<in> set (raw_of c). \<nexists>e. pinpoints sources (cnth c) r e)"
  using locate_all_spec [OF assms, of sources "cnth c"] by (auto simp: locate_def split: sum.splits)

theorem located_where_named_witness:
  "\<exists>m. locate [js ''f'' \<mapsto> js ''a+b+c''] \<lparr>cname = js ''n'', cform = Single (js ''f'') (js ''+'') (js ''-''), cnth = Some 2,
      cratioOnly = False, cmustSurvive = False, cequivalent = None\<rparr> = Inr m
     \<and> edits m = [edit_of (js ''f'') 3 (js ''+'') (js ''-'')]
     \<and> pinpoints [js ''f'' \<mapsto> js ''a+b+c''] (Some 2) \<lparr>rfile = js ''f'', rfind = js ''+'', rreplace = js ''-'', rnth = Some 2\<rparr>
         (edit_of (js ''f'') 3 (js ''+'') (js ''-''))"
proof -
  let ?c = "\<lparr>cname = js ''n'', cform = Single (js ''f'') (js ''+'') (js ''-''), cnth = Some 2,
      cratioOnly = False, cmustSurvive = False, cequivalent = None\<rparr>"
  have l: "locate [js ''f'' \<mapsto> js ''a+b+c''] ?c = Inr \<lparr>mname = js ''n'', edits = [edit_of (js ''f'') 3 (js ''+'') (js ''-'')],
      origin = Curated, ratioOnly = False, mustSurvive = False, equivalent = None\<rparr>" by code_simp
  have "\<forall>r \<in> set (raw_of ?c). rfind r \<noteq> []" by (simp add: raw_of_def js_def)
  from located_where_named [OF this, of "[js ''f'' \<mapsto> js ''a+b+c'']"] l show ?thesis by (simp add: raw_of_def)
qed

section \<open>The hash\<close>

lemma lane_prime_inverse: "(x * 0x01000193) * 0x359C449B = (x :: 32 word)"
proof -
  have "(0x01000193 :: 32 word) * 0x359C449B = 1" by simp
  then show ?thesis by (metis mult.assoc mult.right_neutral)
qed

lemma lane_step_inj:
  fixes a b x y :: "32 word"
  assumes "(a XOR x) * 0x01000193 = (b XOR y) * 0x01000193"
  shows "a XOR x = b XOR y"
  using arg_cong [OF assms, of "\<lambda>z. z * 0x359C449B"] by (simp only: lane_prime_inverse)

lemma lane_start_inj: "lane a 0x01000193 bs = lane b 0x01000193 bs \<Longrightarrow> a = b"
proof (induction bs arbitrary: a b)
  case (Cons x bs)
  then have "(a XOR ucast x) * 0x01000193 = (b XOR ucast x) * (0x01000193 :: 32 word)" by (simp add: lane_def)
  then have "a XOR ucast x = b XOR ucast x" by (rule lane_step_inj)
  then have "(a XOR ucast x) XOR ucast x = (b XOR ucast x) XOR ucast x" by simp
  then show ?case by (simp add: xor.assoc)
qed (simp add: lane_def)

lemma lane_byte: "lane a 0x01000193 (xs @ x # ys) = lane a 0x01000193 (xs @ y # ys) \<Longrightarrow> x = y"
proof -
  assume "lane a 0x01000193 (xs @ x # ys) = lane a 0x01000193 (xs @ y # ys)"
  then have "lane ((lane a 0x01000193 xs XOR ucast x) * 0x01000193) 0x01000193 ys
      = lane ((lane a 0x01000193 xs XOR ucast y) * 0x01000193) 0x01000193 ys" by (simp add: lane_def)
  then have "lane a 0x01000193 xs XOR ucast x = lane a 0x01000193 xs XOR ucast y"
    by (rule lane_step_inj [OF lane_start_inj])
  then have "lane a 0x01000193 xs XOR (lane a 0x01000193 xs XOR ucast x)
      = lane a 0x01000193 xs XOR (lane a 0x01000193 xs XOR ucast y)" by simp
  then have "(ucast x :: 32 word) = ucast y" by (simp flip: xor.assoc)
  then have "ucast (ucast x :: 32 word) = (ucast (ucast y :: 32 word) :: byte)" by simp
  then show "x = y" by (simp add: ucast_up_ucast_id is_up.rep_eq)
qed

lemma sep_split:
  assumes "a @ d # b = a' @ d # b'" "d \<notin> set a" "d \<notin> set a'"
  shows "a = a' \<and> b = b'"
  using assms by (auto simp: append_eq_append_conv2 append_eq_Cons_conv Cons_eq_append_conv)

lemma digits_no_colon: "58 \<notin> set (dec_nat n)" "58 \<notin> set (hex_nat n)"
proof -
  show "58 \<notin> set (dec_nat n)" by (induction n rule: dec_nat.induct) (subst dec_nat.simps, auto)
  show "58 \<notin> set (hex_nat n)" by (induction n rule: hex_nat.induct) (subst hex_nat.simps, auto simp: digit_char_def)
qed

lemma hash_textD:
  assumes "hash_text bs = hash_text bs'"
  shows "length bs = length bs'" "lane 0x811C9DC5 0x01000193 bs = lane 0x811C9DC5 0x01000193 bs'"
    "lane 0x01000193 0x85EBCA6B bs = lane 0x01000193 0x85EBCA6B bs'"
proof -
  have inj: "dec_nat m = dec_nat n \<Longrightarrow> m = n" "hex_nat m = hex_nat n \<Longrightarrow> m = n" for m n
    by (metis value_dec_nat, metis value_hex_nat)
  note c = assms [unfolded hash_text_def js_def, simplified]
  note s1 = sep_split [OF _ digits_no_colon(1) digits_no_colon(1)]
  note s2 = sep_split [OF _ digits_no_colon(2) digits_no_colon(2)]
  have *: "dec_nat (length bs) = dec_nat (length bs')"
    "hex_nat (unat (lane 0x811C9DC5 0x01000193 bs)) = hex_nat (unat (lane 0x811C9DC5 0x01000193 bs'))"
    "hex_nat (unat (lane 0x01000193 0x85EBCA6B bs)) = hex_nat (unat (lane 0x01000193 0x85EBCA6B bs'))"
    using s1 s2 c by blast+
  then show "length bs = length bs'" "lane 0x811C9DC5 0x01000193 bs = lane 0x811C9DC5 0x01000193 bs'"
    "lane 0x01000193 0x85EBCA6B bs = lane 0x01000193 0x85EBCA6B bs'"
    by (auto dest!: inj simp: word_unat_eq_iff)
qed

lemma hash_byte: "hash_text (xs @ x # ys) = hash_text (xs @ y # ys) \<longleftrightarrow> x = y"
  using hash_textD(2) lane_byte by blast

text \<open>
  The hash of a compiled file sees every change of its length and every change of one byte.
\<close>

theorem hash_sees_a_byte:
  "(hash_text (xs @ x # ys) = hash_text (xs @ y # ys)) = (x = y)
   \<and> (hash_text bs = hash_text bs' \<longrightarrow> length bs = length bs')"
  using hash_textD(1) hash_byte by blast

theorem hash_sees_a_byte_witness:
  "hash_text [0, 1, 2] \<noteq> hash_text [0, 9, 2] \<and> hash_text [0] \<noteq> hash_text []"
  using hash_sees_a_byte [of "[0]" 1 "[2]" 9 "[0]" "[]"] by simp

section \<open>What is discarded\<close>

definition mutant_hash :: "lexer \<Rightarrow> compiler \<Rightarrow> sources \<Rightarrow> mutant \<Rightarrow> jsstring \<Rightarrow> jsstring option" where
  "mutant_hash wacLex wacCompile sources m f =
     (case mutated_sources sources m of None \<Rightarrow> None | Some mutated \<Rightarrow> wasmHash wacLex wacCompile mutated f)"

definition compiles :: "lexer \<Rightarrow> compiler \<Rightarrow> sources \<Rightarrow> mutant \<Rightarrow> bool" where
  "compiles wacLex wacCompile sources m \<longleftrightarrow> list_all (\<lambda>f. mutant_hash wacLex wacCompile sources m f \<noteq> None) (files_of m)"

definition no_change :: "lexer \<Rightarrow> compiler \<Rightarrow> sources \<Rightarrow> mutant \<Rightarrow> bool" where
  "no_change wacLex wacCompile sources m \<longleftrightarrow>
     list_all (\<lambda>f. mutant_hash wacLex wacCompile sources m f = baseline_hash wacLex wacCompile sources f) (files_of m)"

definition same_build :: "lexer \<Rightarrow> compiler \<Rightarrow> sources \<Rightarrow> mutant \<Rightarrow> mutant \<Rightarrow> bool" where
  "same_build wacLex wacCompile sources m m' \<longleftrightarrow>
     files_of m = files_of m'
     \<and> list_all (\<lambda>f. mutant_hash wacLex wacCompile sources m f = mutant_hash wacLex wacCompile sources m' f) (files_of m)"

definition sig_of :: "lexer \<Rightarrow> compiler \<Rightarrow> sources \<Rightarrow> mutant \<Rightarrow> jsstring" where
  "sig_of wacLex wacCompile sources m = signature_of (mutant_hash wacLex wacCompile sources m) (files_of m)"

subsection \<open>A signature tells the builds apart\<close>

definition plain :: "jsstring \<Rightarrow> bool" where
  "plain f \<longleftrightarrow> 61 \<notin> set f \<and> 124 \<notin> set f"

definition hash_ok :: "jsstring option \<Rightarrow> bool" where
  "hash_ok h \<longleftrightarrow> (case h of None \<Rightarrow> True | Some t \<Rightarrow> 124 \<notin> set t \<and> t \<noteq> js ''null'')"

lemma digits_plain: "124 \<notin> set (dec_nat n)" "124 \<notin> set (hex_nat n)"
proof -
  show "124 \<notin> set (dec_nat n)" by (induction n rule: dec_nat.induct) (subst dec_nat.simps, auto)
  show "124 \<notin> set (hex_nat n)" by (induction n rule: hex_nat.induct) (subst hex_nat.simps, auto simp: digit_char_def)
qed

lemma wasmHash_ok: "hash_ok (wasmHash wacLex wacCompile files f)"
proof -
  have "58 \<in> set (hash_text bs)" for bs by (simp add: hash_text_def js_def)
  moreover have "58 \<notin> set (js ''null'')" by (simp add: js_def)
  ultimately have "hash_text bs \<noteq> js ''null''" for bs by metis
  moreover have "124 \<notin> set (hash_text bs)" for bs using digits_plain by (simp add: hash_text_def js_def)
  ultimately show ?thesis by (auto simp: hash_ok_def wasmHash_def split: option.splits)
qed

lemma mutant_hash_ok: "hash_ok (mutant_hash wacLex wacCompile sources m f)"
  using wasmHash_ok by (cases "mutated_sources sources m") (simp_all add: mutant_hash_def hash_ok_def [of None])

lemma named_hash_inj:
  assumes "hash_ok h" "hash_ok h'" "named_hash f h = named_hash f h'"
  shows "h = h'"
  using assms by (auto simp: hash_ok_def named_hash_def split: option.splits)

lemma hash_bars: "hash_ok h \<Longrightarrow> 124 \<notin> set f \<Longrightarrow> 124 \<notin> set (named_hash f h)"
  by (auto simp: hash_ok_def named_hash_def js_def split: option.splits)

lemma split_on_skip: "d \<notin> set x \<Longrightarrow> split_on d (x @ d # y) = x # split_on d y"
  by (induction x) auto

lemma split_on_none: "d \<notin> set x \<Longrightarrow> split_on d x = [x]"
  by (induction x) auto

lemma split_join: "xs \<noteq> [] \<Longrightarrow> \<forall>x \<in> set xs. d \<notin> set x \<Longrightarrow> split_on d (join_with [d] xs) = xs"
  by (induction "[d]" xs rule: join_with.induct) (auto simp: split_on_skip split_on_none)

lemma split_on_not_Nil [simp]: "split_on d s \<noteq> []"
  by (induction s) (auto split: list.splits)

lemma signature_inj:
  assumes ok: "\<And>f. hash_ok (h f)" "\<And>f. hash_ok (h' f)"
    and bars: "\<forall>f \<in> set fs. 124 \<notin> set f" "\<forall>f \<in> set fs'. 124 \<notin> set f" "fs \<noteq> []" "fs' \<noteq> []"
    and eq: "signature_of h fs = signature_of h' fs'"
  shows "map (\<lambda>f. named_hash f (h f)) fs = map (\<lambda>f. named_hash f (h' f)) fs'"
proof -
  have "split_on 124 (signature_of k gs) = map (\<lambda>f. named_hash f (k f)) gs"
    if "\<And>f. hash_ok (k f)" "\<forall>f \<in> set gs. 124 \<notin> set f" "gs \<noteq> []" for k gs
    using split_join [of "map (\<lambda>f. named_hash f (k f)) gs" 124] that hash_bars
    by (auto simp: signature_of_def js_def)
  then show ?thesis using assms by metis
qed

lemma named_hash_plain:
  assumes "hash_ok h" "hash_ok h'" "61 \<notin> set f" "61 \<notin> set f'" "named_hash f h = named_hash f' h'"
  shows "f = f' \<and> h = h'"
proof -
  have "f = f'" using assms(3-5) sep_split [of f 61 _ f'] by (simp add: named_hash_def js_def)
  with assms named_hash_inj show ?thesis by blast
qed

lemma signature_plain:
  assumes "\<And>f. hash_ok (h f)" "\<And>f. hash_ok (h' f)" "\<forall>f \<in> set fs. plain f" "\<forall>f \<in> set fs'. plain f"
    "fs \<noteq> []" "fs' \<noteq> []" "signature_of h fs = signature_of h' fs'"
  shows "fs = fs' \<and> (\<forall>f \<in> set fs. h f = h' f)"
proof -
  have "map (\<lambda>f. named_hash f (h f)) fs = map (\<lambda>f. named_hash f (h' f)) fs'"
    using assms by (intro signature_inj) (auto simp: plain_def)
  then have len: "length fs = length fs'" and
    nths: "\<And>i. i < length fs \<Longrightarrow> named_hash (fs ! i) (h (fs ! i)) = named_hash (fs' ! i) (h' (fs' ! i))"
    by (auto simp: list_eq_iff_nth_eq)
  then have same: "fs ! i = fs' ! i \<and> h (fs ! i) = h' (fs' ! i)" if "i < length fs" for i
    using named_hash_plain [OF assms(1,2) _ _ nths [OF that]] assms(3,4) that by (auto simp: plain_def)
  then have "fs = fs'" using len by (intro nth_equalityI) auto
  with same show ?thesis by (auto simp: in_set_conv_nth)
qed

subsection \<open>The verdicts\<close>

definition runs :: "(mutant \<times> triage) list \<Rightarrow> nat \<Rightarrow> bool" where
  "runs vs j \<longleftrightarrow> snd (vs ! j) = Run \<and> \<not> mustSurvive (fst (vs ! j))"

text \<open>What the table of signatures holds after the mutants \<open>vs\<close>: one entry for each that was run.\<close>

definition seen_ok :: "lexer \<Rightarrow> compiler \<Rightarrow> sources \<Rightarrow> (mutant \<times> triage) list \<Rightarrow> triage_state \<Rightarrow> bool" where
  "seen_ok wacLex wacCompile sources vs st \<longleftrightarrow>
     (\<forall>s n. seenHash st s = Some n \<longrightarrow>
        (\<exists>j < length vs. runs vs j \<and> mname (fst (vs ! j)) = n \<and> sig_of wacLex wacCompile sources (fst (vs ! j)) = s))
     \<and> (\<forall>j < length vs. runs vs j \<longrightarrow> seenHash st (sig_of wacLex wacCompile sources (fst (vs ! j))) \<noteq> None)"

definition verdict_ok :: "lexer \<Rightarrow> compiler \<Rightarrow> sources \<Rightarrow> (mutant \<times> triage) list \<Rightarrow> nat \<Rightarrow> bool" where
  "verdict_ok wacLex wacCompile sources vs i \<longleftrightarrow>
     (let m = fst (vs ! i); sig = sig_of wacLex wacCompile sources;
          base = signature_of (baseline_hash wacLex wacCompile sources) (files_of m)
      in case snd (vs ! i) of
           Invalid f \<Rightarrow> f \<in> set (files_of m) \<and> mutant_hash wacLex wacCompile sources m f = None
         | Equivalent \<Rightarrow> \<not> mustSurvive m \<and> compiles wacLex wacCompile sources m \<and> sig m = base
         | Duplicate n \<Rightarrow> \<not> mustSurvive m \<and> compiles wacLex wacCompile sources m
             \<and> (\<exists>j < i. runs vs j \<and> mname (fst (vs ! j)) = n \<and> sig (fst (vs ! j)) = sig m)
         | Run \<Rightarrow> compiles wacLex wacCompile sources m
             \<and> (mustSurvive m \<or> (sig m \<noteq> base \<and> (\<forall>j < i. runs vs j \<longrightarrow> sig (fst (vs ! j)) \<noteq> sig m))))"

lemma runs_append [simp]: "j < length vs \<Longrightarrow> runs (vs @ ws) j = runs vs j"
  by (simp add: runs_def nth_append)

lemma verdict_ok_append: "i < length vs \<Longrightarrow> verdict_ok wacLex wacCompile sources (vs @ ws) i = verdict_ok wacLex wacCompile sources vs i"
  by (cases "snd (vs ! i)") (simp_all add: verdict_ok_def nth_append cong: conj_cong)

lemma compiles_find:
  assumes "mutated_sources sources m = Some mutated"
  shows "find (\<lambda>f. wasmHash wacLex wacCompile mutated f = None) (files_of m) = None \<longleftrightarrow> compiles wacLex wacCompile sources m"
  using assms by (auto simp: compiles_def mutant_hash_def find_None_iff list_all_iff)

lemma sig_of_eq:
  "mutated_sources sources m = Some mutated
   \<Longrightarrow> signature_of (wasmHash wacLex wacCompile mutated) (files_of m) = sig_of wacLex wacCompile sources m"
  by (simp add: sig_of_def signature_of_def mutant_hash_def)

lemma triage_step:
  assumes inv: "seen_ok wacLex wacCompile sources vs st"
    and step: "triage_one wacLex wacCompile sources st m = Some (st', v)"
  shows "seen_ok wacLex wacCompile sources (vs @ [(m, v)]) st' \<and> verdict_ok wacLex wacCompile sources (vs @ [(m, v)]) (length vs)"
proof -
  let ?sig = "sig_of wacLex wacCompile sources" and ?vs = "vs @ [(m, v)]"
  let ?base = "signature_of (baseline_hash wacLex wacCompile sources) (files_of m)"
  obtain mutated where mu: "mutated_sources sources m = Some mutated"
    using step by (auto simp: triage_one_def split: option.splits)
  have keep: "seen_ok wacLex wacCompile sources ?vs st" if "\<not> runs ?vs (length vs)"
    using inv that unfolding seen_ok_def by (auto simp: less_Suc_eq nth_append)
  show ?thesis
  proof (cases "find (\<lambda>f. wasmHash wacLex wacCompile mutated f = None) (files_of m)")
    case (Some f)
    with step mu have e: "st' = st" "v = Invalid f" by (simp_all add: triage_one_def)
    have "f \<in> set (files_of m) \<and> mutant_hash wacLex wacCompile sources m f = None"
      using Some mu by (auto simp: find_Some_iff mutant_hash_def)
    with e keep show ?thesis by (simp add: verdict_ok_def runs_def)
  next
    case None
    then have c: "compiles wacLex wacCompile sources m" using compiles_find [OF mu] by simp
    have one: "triage_one wacLex wacCompile sources st m =
      (if mustSurvive m then Some (st\<lparr>controlIsNoop := (controlIsNoop st)(mname m \<mapsto> ?sig m = ?base)\<rparr>, Run)
       else if ?sig m = ?base then Some (st, Equivalent)
       else case seenHash st (?sig m) of
              Some first \<Rightarrow> Some (st, Duplicate first)
            | None \<Rightarrow> Some (st\<lparr>seenHash := (seenHash st)(?sig m \<mapsto> mname m)\<rparr>, Run))"
      using None mu by (simp add: triage_one_def sig_of_eq Let_def)
    consider (control) "mustSurvive m" | (noop) "\<not> mustSurvive m" "?sig m = ?base"
      | (dup) first where "\<not> mustSurvive m" "?sig m \<noteq> ?base" "seenHash st (?sig m) = Some first"
      | (run) "\<not> mustSurvive m" "?sig m \<noteq> ?base" "seenHash st (?sig m) = None"
      by (cases "seenHash st (?sig m)") blast+
    then show ?thesis
    proof cases
      case control
      with one step have e: "v = Run" "seenHash st' = seenHash st" by auto
      moreover have "\<not> runs ?vs (length vs)" using control by (simp add: runs_def)
      ultimately show ?thesis using keep c control by (simp add: verdict_ok_def seen_ok_def)
    next
      case noop
      with one step have e: "v = Equivalent" "st' = st" by auto
      moreover have "\<not> runs ?vs (length vs)" using e by (simp add: runs_def)
      ultimately show ?thesis using keep c noop by (simp add: verdict_ok_def)
    next
      case dup
      with one step have e: "v = Duplicate first" "st' = st" by auto
      obtain j where "j < length vs" "runs vs j" "mname (fst (vs ! j)) = first" "?sig (fst (vs ! j)) = ?sig m"
        using inv dup(3) unfolding seen_ok_def by blast
      then have "\<exists>j < length vs. runs ?vs j \<and> mname (fst (?vs ! j)) = first \<and> ?sig (fst (?vs ! j)) = ?sig m"
        by (auto simp: nth_append)
      moreover have "\<not> runs ?vs (length vs)" using e by (simp add: runs_def)
      ultimately show ?thesis using keep c dup e by (simp add: verdict_ok_def)
    next
      case run
      with one step have e: "v = Run" "seenHash st' = (seenHash st)(?sig m \<mapsto> mname m)" by auto
      have new: "?sig (fst (vs ! j)) \<noteq> ?sig m" if "j < length vs" "runs vs j" for j
        using inv that run(3) unfolding seen_ok_def by force
      have here: "runs ?vs (length vs)" using e run by (simp add: runs_def)
      have "seen_ok wacLex wacCompile sources ?vs st'"
        unfolding seen_ok_def e(2)
      proof (intro conjI allI impI)
        fix s n assume n: "((seenHash st)(?sig m \<mapsto> mname m)) s = Some n"
        show "\<exists>j < length ?vs. runs ?vs j \<and> mname (fst (?vs ! j)) = n \<and> ?sig (fst (?vs ! j)) = s"
        proof (cases "s = ?sig m")
          case True
          with n here show ?thesis by (intro exI [of _ "length vs"]) simp
        next
          case False
          with n inv obtain j where "j < length vs" "runs vs j" "mname (fst (vs ! j)) = n" "?sig (fst (vs ! j)) = s"
            unfolding seen_ok_def by (metis map_upd_Some_unfold)
          then show ?thesis by (intro exI [of _ j]) (simp add: nth_append)
        qed
      next
        fix j assume j: "j < length ?vs" "runs ?vs j"
        show "((seenHash st)(?sig m \<mapsto> mname m)) (?sig (fst (?vs ! j))) \<noteq> None"
          using j inv unfolding seen_ok_def by (cases "j < length vs") (auto simp: nth_append less_Suc_eq)
      qed
      moreover have "\<forall>j < length vs. runs ?vs j \<longrightarrow> ?sig (fst (?vs ! j)) \<noteq> ?sig m" using new by (simp add: nth_append)
      ultimately show ?thesis using c run e by (simp add: verdict_ok_def nth_append)
    qed
  qed
qed

lemma triage_all_ok:
  assumes "seen_ok wacLex wacCompile sources pre st" "triage_all wacLex wacCompile sources st ms = Some (st', vs)"
    "\<forall>i < length pre. verdict_ok wacLex wacCompile sources pre i"
  shows "map fst vs = ms \<and> seen_ok wacLex wacCompile sources (pre @ vs) st'
    \<and> (\<forall>i < length (pre @ vs). verdict_ok wacLex wacCompile sources (pre @ vs) i)"
  using assms
proof (induction ms arbitrary: pre st vs)
  case (Cons m ms)
  then obtain st1 v ws where v: "triage_one wacLex wacCompile sources st m = Some (st1, v)"
    and ws: "triage_all wacLex wacCompile sources st1 ms = Some (st', ws)" "vs = (m, v) # ws"
    by (auto split: option.splits)
  note S = triage_step [OF Cons.prems(1) v]
  have "\<forall>i < length (pre @ [(m, v)]). verdict_ok wacLex wacCompile sources (pre @ [(m, v)]) i"
    using S Cons.prems(3) by (auto simp: less_Suc_eq verdict_ok_append)
  with Cons.IH [OF _ ws(1), of "pre @ [(m, v)]"] S ws(2) show ?case by simp
qed auto

lemma signature_Nil [simp]: "signature_of h fs = [] \<longleftrightarrow> fs = []"
  by (cases "(js ''|'', fs)" rule: join_with.cases) (auto simp: signature_of_def named_hash_def js_def)

lemma signature_empty [simp]: "signature_of h [] = []"
  by simp

lemma signature_cong: "(\<And>f. f \<in> set fs \<Longrightarrow> h f = h' f) \<Longrightarrow> signature_of h fs = signature_of h' fs"
  by (auto simp: signature_of_def intro!: arg_cong [where f = "join_with _"])

lemma no_change_sig:
  assumes "\<forall>f \<in> set (files_of m). plain f"
  shows "sig_of wacLex wacCompile sources m = signature_of (baseline_hash wacLex wacCompile sources) (files_of m)
     \<longleftrightarrow> no_change wacLex wacCompile sources m"
proof (cases "files_of m = []")
  case False
  have ok: "hash_ok (baseline_hash wacLex wacCompile sources f)" for f using wasmHash_ok by (simp add: baseline_hash_def)
  show ?thesis unfolding sig_of_def no_change_def list_all_iff
    using signature_plain [OF mutant_hash_ok ok assms assms False False] signature_cong by meson
qed (simp add: sig_of_def no_change_def)

lemma same_build_sig:
  assumes "\<forall>f \<in> set (files_of m). plain f" "\<forall>f \<in> set (files_of m'). plain f"
  shows "sig_of wacLex wacCompile sources m = sig_of wacLex wacCompile sources m' \<longleftrightarrow> same_build wacLex wacCompile sources m m'"
proof (cases "files_of m = [] \<or> files_of m' = []")
  case True
  then have "files_of m = files_of m'" if "sig_of wacLex wacCompile sources m = sig_of wacLex wacCompile sources m'"
    using that unfolding sig_of_def by (metis signature_Nil)
  with True show ?thesis by (auto simp: sig_of_def same_build_def)
next
  case False
  then have ne: "files_of m \<noteq> []" "files_of m' \<noteq> []" by simp_all
  show ?thesis
  proof
    assume "sig_of wacLex wacCompile sources m = sig_of wacLex wacCompile sources m'"
    from signature_plain [OF mutant_hash_ok mutant_hash_ok assms ne this [unfolded sig_of_def]]
    show "same_build wacLex wacCompile sources m m'" unfolding same_build_def list_all_iff .
  next
    assume b: "same_build wacLex wacCompile sources m m'"
    then have "files_of m = files_of m'" by (simp add: same_build_def)
    moreover have "signature_of (mutant_hash wacLex wacCompile sources m) (files_of m)
        = signature_of (mutant_hash wacLex wacCompile sources m') (files_of m)"
      using b by (intro signature_cong) (simp add: same_build_def list_all_iff)
    ultimately show "sig_of wacLex wacCompile sources m = sig_of wacLex wacCompile sources m'" by (simp add: sig_of_def)
  qed
qed

lemma sort_remdups_cong:
  fixes xs ys :: "'a :: linorder list"
  assumes "set xs = set ys"
  shows "sort (remdups xs) = sort (remdups ys)"
  using assms by (intro sorted_distinct_set_unique) auto

lemma set_files_of [simp]: "set (files_of m) = efile ` set (edits m)"
  by (simp add: files_of_def)

lemma testDirs_files:
  assumes "files_of m = files_of m'"
  shows "testDirs deps m = testDirs deps m'"
proof -
  have f: "efile ` set (edits m) = efile ` set (edits m')" using assms by (metis set_files_of)
  define g where "g = (\<lambda>f. package_of (edit_of f 0 [] []))"
  have g: "package_of e = g (efile e)" for e by (simp add: g_def package_of_def edit_of_def)
  have sets: "set (concat (map (\<lambda>e. h (efile e)) es)) = (\<Union>f \<in> efile ` set es. set (h f))" for h :: "jsstring \<Rightarrow> jsstring list" and es
    by simp
  have "set (concat (map package_of (edits m))) = set (concat (map package_of (edits m')))"
    unfolding g sets f ..
  then have p: "packagesOf m = packagesOf m'" unfolding packagesOf_def id_def by (rule sort_remdups_cong)
  have d: "set (concat (map (\<lambda>e. deps (efile e) @ packagesOf m') (edits m)))
      = set (concat (map (\<lambda>e. deps (efile e) @ packagesOf m') (edits m')))"
    unfolding sets [of "\<lambda>f. deps f @ packagesOf m'"] f ..
  show ?thesis unfolding testDirs_def p sort_remdups_cong [OF d] ..
qed

text \<open>
  C37. Nothing is discarded but what no test could tell apart: a mutant is left out only if it does
  not compile, if every file it edits compiles to the hash of the original, or if an earlier mutant
  that is run edits the same files, each to the same hash, and faces the same tests. What is run
  differs from the original and from every other mutant that is run; a control always is, if it
  compiles.
\<close>

theorem discarded_is_redundant:
  assumes "triage_all wacLex wacCompile sources no_triage ms = Some (st, vs)"
    and "\<forall>m \<in> set ms. \<forall>f \<in> set (files_of m). plain f" and "i < length ms"
  shows "map fst vs = ms
    \<and> (case snd (vs ! i) of
         Invalid f \<Rightarrow> f \<in> set (files_of (ms ! i)) \<and> mutant_hash wacLex wacCompile sources (ms ! i) f = None
       | Equivalent \<Rightarrow> \<not> mustSurvive (ms ! i) \<and> compiles wacLex wacCompile sources (ms ! i)
           \<and> no_change wacLex wacCompile sources (ms ! i)
       | Duplicate n \<Rightarrow> \<not> mustSurvive (ms ! i) \<and> compiles wacLex wacCompile sources (ms ! i)
           \<and> (\<exists>j < i. snd (vs ! j) = Run \<and> mname (ms ! j) = n \<and> same_build wacLex wacCompile sources (ms ! j) (ms ! i)
                \<and> testDirs deps (ms ! j) = testDirs deps (ms ! i))
       | Run \<Rightarrow> compiles wacLex wacCompile sources (ms ! i)
           \<and> (mustSurvive (ms ! i)
              \<or> \<not> no_change wacLex wacCompile sources (ms ! i)
                \<and> (\<forall>j < i. snd (vs ! j) = Run \<and> \<not> mustSurvive (ms ! j) \<longrightarrow>
                      \<not> same_build wacLex wacCompile sources (ms ! j) (ms ! i))))"
proof -
  have "seen_ok wacLex wacCompile sources [] no_triage" by (simp add: seen_ok_def no_triage_def)
  from triage_all_ok [OF this assms(1)] have ms: "map fst vs = ms"
    and ok: "\<forall>i < length vs. verdict_ok wacLex wacCompile sources vs i" by auto
  have len: "length vs = length ms" using ms by (metis length_map)
  have fst: "fst (vs ! j) = ms ! j" if "j < length ms" for j using ms that len by (metis nth_map)
  have pl: "\<forall>f \<in> set (files_of (ms ! j)). plain f" if "j < length ms" for j using assms(2) that nth_mem by blast
  have v: "verdict_ok wacLex wacCompile sources vs i" using ok len assms(3) by simp
  have sb: "sig_of wacLex wacCompile sources (ms ! j) = sig_of wacLex wacCompile sources (ms ! i)
      \<longleftrightarrow> same_build wacLex wacCompile sources (ms ! j) (ms ! i)" if "j < i" for j
    using same_build_sig [OF pl pl, of j i] that assms(3) by simp
  have td: "testDirs deps (ms ! j) = testDirs deps (ms ! i)" if "same_build wacLex wacCompile sources (ms ! j) (ms ! i)" for j
    by (rule testDirs_files) (use that in \<open>simp add: same_build_def\<close>)
  have fst': "fst (vs ! j) = ms ! j" if "j < i" for j using fst that assms(3) by simp
  note nc = no_change_sig [OF pl [OF assms(3)], of wacLex wacCompile sources]
  note v' = v [unfolded verdict_ok_def Let_def fst [OF assms(3)] nc runs_def]
  show ?thesis
  proof (cases "snd (vs ! i)")
    case Run
    with v' ms fst' sb show ?thesis by simp
  next
    case Equivalent
    with v' ms show ?thesis by simp
  next
    case (Duplicate n)
    with v' obtain j where j: "j < i" "snd (vs ! j) = Run" "mname (ms ! j) = n"
      "sig_of wacLex wacCompile sources (ms ! j) = sig_of wacLex wacCompile sources (ms ! i)" using fst' by auto
    then have "same_build wacLex wacCompile sources (ms ! j) (ms ! i)" using sb by simp
    with j td Duplicate v' ms show ?thesis by auto
  next
    case (Invalid f)
    with v' ms show ?thesis by simp
  qed
qed

text \<open>A compiler that emits the bytes of the source; two mutants that edit it to the same text.\<close>

definition identity_compiler :: compiler where
  "identity_compiler files entry = map_option (map of_nat) (map_of files entry)"

definition twins :: "mutant list" where
  "twins = map (\<lambda>n. \<lparr>mname = n, edits = [edit_of (js ''f'') 0 (js ''a'') (js ''b'')], origin = Curated,
     ratioOnly = False, mustSurvive = False, equivalent = None\<rparr>) [js ''x'', js ''y'']"

lemma twins_hash:
  "wasmHash (\<lambda>s. ([], [])) identity_compiler [(js ''f'', [c])] (js ''f'') = Some (hash_text [of_nat c])"
  by (simp add: wasmHash_def wacFilesIn_def identity_compiler_def next_paths_def importPaths_def)

lemma twins_triage:
  "\<exists>st. triage_all (\<lambda>s. ([], [])) identity_compiler [(js ''f'', js ''a'')] no_triage twins
     = Some (st, [(twins ! 0, Run), (twins ! 1, Duplicate (js ''x''))])"
proof -
  have mu: "mutated_sources [(js ''f'', [97])] (twins ! k) = Some [(js ''f'', [98])]" if "k < 2" for k
  proof -
    have "list_all (\<lambda>m. mutated_sources [(js ''f'', [97])] m = Some [(js ''f'', [98])]) twins" by code_simp
    moreover have "length twins = 2" by (simp add: twins_def)
    ultimately show ?thesis using that by (simp add: list_all_length)
  qed
  have fs: "files_of (twins ! 0) = [js ''f'']" "files_of (twins ! 1) = [js ''f'']" by code_simp+
  have tw: "twins = [twins ! 0, twins ! 1]" "mname (twins ! 0) = js ''x''"
    "\<not> mustSurvive (twins ! 0)" "\<not> mustSurvive (twins ! 1)" by (simp_all add: twins_def)
  have "hash_text [98] \<noteq> hash_text [97]" using hash_byte [of "[]" 98 "[]" 97] by simp
  then have "triage_all (\<lambda>s. ([], [])) identity_compiler [(js ''f'', [97])] no_triage [twins ! 0, twins ! 1]
      = Some (no_triage\<lparr>seenHash := [signature_of (\<lambda>f. Some (hash_text [98])) [js ''f''] \<mapsto> js ''x'']\<rparr>,
          [(twins ! 0, Run), (twins ! 1, Duplicate (js ''x''))])"
    using mu [of 0] mu [of 1] tw(2-4) twins_hash [of 97] twins_hash [of 98] fs
    by (simp add: triage_one_def no_triage_def Let_def signature_of_def named_hash_def baseline_hash_def)
  moreover have "js ''a'' = [97]" by (simp add: js_def)
  ultimately show ?thesis using tw(1) by metis
qed

theorem discarded_is_redundant_witness:
  "\<exists>st vs. triage_all (\<lambda>s. ([], [])) identity_compiler [(js ''f'', js ''a'')] no_triage twins = Some (st, vs)
     \<and> map snd vs = [Run, Duplicate (js ''x'')]
     \<and> same_build (\<lambda>s. ([], [])) identity_compiler [(js ''f'', js ''a'')] (twins ! 0) (twins ! 1)"
proof -
  obtain st where vs: "triage_all (\<lambda>s. ([], [])) identity_compiler [(js ''f'', js ''a'')] no_triage twins
     = Some (st, [(twins ! 0, Run), (twins ! 1, Duplicate (js ''x''))])" using twins_triage by blast
  have "\<forall>m \<in> set twins. \<forall>f \<in> set (files_of m). plain f" by code_simp
  moreover have "1 < length twins" by (simp add: twins_def)
  ultimately have "\<exists>j < 1. same_build (\<lambda>s. ([], [])) identity_compiler [(js ''f'', js ''a'')] (twins ! j) (twins ! 1)"
    using discarded_is_redundant [OF vs, of 1 "\<lambda>f. []"] by auto
  with vs show ?thesis by simp
qed

text \<open>
  The deadline of a mutant is between half a minute and ten, and grows with the time its
  scope takes unmutated; but a scope that takes more than ten minutes unmutated gets a deadline
  it cannot meet, so each of its mutants, a control too, is counted as killed.
\<close>

theorem deadline_is_capped:
  "30000 \<le> deadlineFor b \<and> deadlineFor b \<le> 600000 \<and> (b \<le> b' \<longrightarrow> deadlineFor b \<le> deadlineFor b')
   \<and> (600000 < b \<longrightarrow> deadlineFor b < b)"
  by (auto simp: deadlineFor_def TIMEOUT_CAP_MS_def TIMEOUT_FLOOR_MS_def TIMEOUT_MULTIPLIER_def)

theorem deadline_is_capped_witness: "deadlineFor 900000 < 900000 \<and> deadlineFor 1 \<le> deadlineFor 900000"
  using deadline_is_capped [of 900000 900000] deadline_is_capped [of 1 900000] by simp

end
