(* ===== verification/Sweep_Tests.thy ===== *)
theory Sweep_Tests
  imports Sweep
begin

text \<open>
  Which tests a mutant faces: the packages that can see it, from the import graph, and inside
  them the tests that a profile says execute one of its lines (\<open>tools/mutate/profile.ts\<close>, and
  \<open>testDirs\<close> and \<open>linesOf\<close> of \<open>tools/mutate.ts\<close>). The profile is built from the counters that
  the instrumented runs dumped, one record per test file.
\<close>

section \<open>Which tests a mutant faces\<close>

record profile =
  plines :: "jsstring \<rightharpoonup> jsstring list"
  pknown :: "jsstring list"
  phome :: "jsstring \<rightharpoonup> jsstring"
  testFiles :: "jsstring list"
  pcost :: "jsstring \<rightharpoonup> real"

text \<open>One dumped file of counters: its test file, every instrumented line, and the lines of each test.\<close>

record raw_profile =
  rentry :: jsstring
  allPoints :: "jsstring list"
  ptests :: "(jsstring \<times> jsstring list) list"

definition add_point :: "jsstring \<Rightarrow> jsstring \<Rightarrow> profile \<Rightarrow> profile" where
  "add_point test pt p =
     p\<lparr>plines := (plines p)(pt \<mapsto> (case plines p pt of None \<Rightarrow> [] | Some ts \<Rightarrow> ts) @ [test])\<rparr>"

text \<open>The path of the repository is taken off; it holds no line break.\<close>

definition strip_root :: "jsstring \<Rightarrow> jsstring" where
  "strip_root s = (case rev (hits_from (js ''/wac-mono/'') s 0) of [] \<Rightarrow> s | i # is \<Rightarrow> drop (i + 10) s)"

definition add_raw :: "raw_profile \<Rightarrow> profile \<Rightarrow> profile" where
  "add_raw r p =
     fold (\<lambda>(test, pts) p. fold (add_point test) pts (p\<lparr>phome := (phome p)(test \<mapsto> strip_root (rentry r))\<rparr>))
       (ptests r) (p\<lparr>pknown := pknown p @ allPoints r\<rparr>)"

definition buildProfile :: "jsstring list \<Rightarrow> (jsstring \<rightharpoonup> real) \<Rightarrow> raw_profile list \<Rightarrow> profile" where
  "buildProfile fs costs raws =
     fold add_raw raws \<lparr>plines = Map.empty, pknown = [], phome = Map.empty, testFiles = fs, pcost = costs\<rparr>"

definition tests_at :: "profile \<Rightarrow> jsstring \<Rightarrow> jsstring list" where
  "tests_at p loc = (case plines p loc of None \<Rightarrow> [] | Some ts \<Rightarrow> ts)"

definition selectTests :: "profile \<Rightarrow> jsstring list \<Rightarrow> jsstring list option" where
  "selectTests p locations =
     (let hit = filter (\<lambda>l. l \<in> set (pknown p)) locations;
          picked = remdups (concat (map (tests_at p) hit))
      in if hit = [] then None
         else if picked = [] \<and> \<not> list_all (\<lambda>l. l \<in> set (pknown p)) locations then None
         else Some (sort picked))"

datatype plan = Narrow "jsstring list" | Widen | Unhit

definition planFor :: "profile \<Rightarrow> jsstring list \<Rightarrow> plan" where
  "planFor p locations =
     (case selectTests p locations of
        None \<Rightarrow> Widen
      | Some picked \<Rightarrow> if picked = [] then Unhit else Narrow picked)"

definition regex_specials :: jsstring where
  "regex_specials = js ''.*+?^${}()|[]'' @ [92]"

definition escape :: "jsstring \<Rightarrow> jsstring" where
  "escape n = concat (map (\<lambda>c. if c \<in> set regex_specials then [92, c] else [c]) n)"

definition filterFor :: "jsstring list \<Rightarrow> jsstring option" where
  "filterFor names =
     (if names = [] then None
      else Some (js ''/^(?:'' @ join_with (js ''|'') (map escape names) @ js '')$/''))"

text \<open>\<open>byCost\<close>; the order of names that pcost the same is the platform's \<open>localeCompare\<close>.\<close>

definition dearer :: "(jsstring \<Rightarrow> jsstring \<Rightarrow> bool) \<Rightarrow> profile \<Rightarrow> jsstring \<Rightarrow> jsstring \<Rightarrow> bool" where
  "dearer locale_gt p a b =
     (case (pcost p a, pcost p b) of
        (None, None) \<Rightarrow> locale_gt a b
      | (None, Some y) \<Rightarrow> True
      | (Some x, None) \<Rightarrow> False
      | (Some x, Some y) \<Rightarrow> if x = y then locale_gt a b else y < x)"

fun insert_by :: "('a \<Rightarrow> 'a \<Rightarrow> bool) \<Rightarrow> 'a \<Rightarrow> 'a list \<Rightarrow> 'a list" where
  "insert_by gt x [] = [x]"
| "insert_by gt x (y # ys) = (if gt x y then y # insert_by gt x ys else x # y # ys)"

definition byCost :: "(jsstring \<Rightarrow> jsstring \<Rightarrow> bool) \<Rightarrow> jsstring list \<Rightarrow> profile option \<Rightarrow> jsstring list" where
  "byCost locale_gt files p =
     (case p of None \<Rightarrow> sort files | Some p \<Rightarrow> foldr (insert_by (dearer locale_gt p)) (sort files) [])"

definition linesOf :: "(jsstring \<rightharpoonup> jsstring) \<Rightarrow> jsstring \<Rightarrow> nat \<Rightarrow> nat \<Rightarrow> jsstring list" where
  "linesOf sources f start stop =
     (case sources f of
        None \<Rightarrow> []
      | Some src \<Rightarrow>
          (let l = 1 + length (filter (\<lambda>c. c = 10) (take start src));
               n = length (filter (\<lambda>c. c = 10) (str_slice src start stop))
           in map (\<lambda>k. f @ js '':'' @ dec_nat (l + k)) [0..<Suc n]))"

section \<open>The packages that see a mutant\<close>

text \<open>
  C38. A mutant is tested by every package that can see it: a package is in its scope exactly when
  the mutant edits one of its files, or one of the package's entries resolves and reaches an
  edited file through its imports.
\<close>

theorem scope_is_complete:
  "js ''packages/'' @ p \<in> set (testDirs (dependents wacLex disk wacPaths) m) \<longleftrightarrow>
     p \<in> set (packagesOf m)
     \<or> (\<exists>e \<in> set (edits m). \<exists>entry \<in> set wacPaths. is_entry entry \<and> pkg_of_path entry = p
          \<and> wacFiles wacLex disk entry \<noteq> None \<and> reaches wacLex disk entry (efile e))"
proof -
  have sees: "sees wacLex disk f entry \<longleftrightarrow>
      wacFiles wacLex disk entry \<noteq> None \<and> reaches wacLex disk entry f" for f entry
  proof (cases "\<exists>q. reaches wacLex disk entry q \<and> map_of disk q = None")
    case False
    have "f \<in> set (map fst (wacFilesIn wacLex disk entry)) \<longleftrightarrow> map_of (wacFilesIn wacLex disk entry) f \<noteq> None"
      by (simp add: map_of_eq_None_iff)
    with False show ?thesis using closure_of(1) [of wacLex disk entry f] by (auto simp: sees_def wacFiles_spec)
  qed (auto simp: sees_def wacFiles_spec)
  have "packagesOf m = []" if "edits m = []" using that by (simp add: packagesOf_def)
  then show ?thesis by (auto simp: testDirs_def dependents_def sees neq_Nil_conv)
qed

section \<open>The tests that reach a line\<close>

definition instrumented :: "raw_profile list \<Rightarrow> jsstring set" where
  "instrumented raws = (\<Union>r \<in> set raws. set (allPoints r))"

text \<open>The tests that executed one of the lines that carry a point.\<close>

definition hitting :: "raw_profile list \<Rightarrow> jsstring list \<Rightarrow> jsstring set" where
  "hitting raws locs =
     {t. \<exists>r \<in> set raws. \<exists>pts. (t, pts) \<in> set (ptests r) \<and> (\<exists>l \<in> set locs. l \<in> instrumented raws \<and> l \<in> set pts)}"

lemma points_add: "set (tests_at (fold (add_point t) pts p) l) = set (tests_at p l) \<union> (if l \<in> set pts then {t} else {})
    \<and> pknown (fold (add_point t) pts p) = pknown p"
  by (induction pts arbitrary: p) (auto simp: add_point_def tests_at_def)

lemma tests_add:
  "set (tests_at (fold (\<lambda>(test, pts) p. fold (add_point test) pts (p\<lparr>phome := h p test\<rparr>)) ts p) l)
     = set (tests_at p l) \<union> {t. \<exists>pts. (t, pts) \<in> set ts \<and> l \<in> set pts}
   \<and> pknown (fold (\<lambda>(test, pts) p. fold (add_point test) pts (p\<lparr>phome := h p test\<rparr>)) ts p) = pknown p"
proof (induction ts arbitrary: p)
  case (Cons x ts)
  obtain t pts where x: "x = (t, pts)" by fastforce
  have "tests_at (p\<lparr>phome := h p t\<rparr>) l = tests_at p l" by (simp add: tests_at_def)
  with Cons [of "fold (add_point t) pts (p\<lparr>phome := h p t\<rparr>)"] points_add [of t pts "p\<lparr>phome := h p t\<rparr>" l] x
  show ?case by auto
qed simp

lemma raws_add:
  "set (tests_at (fold add_raw raws p) l) = set (tests_at p l) \<union> {t. \<exists>r \<in> set raws. \<exists>pts. (t, pts) \<in> set (ptests r) \<and> l \<in> set pts}
   \<and> set (pknown (fold add_raw raws p)) = set (pknown p) \<union> instrumented raws"
proof (induction raws arbitrary: p)
  case (Cons r raws)
  have "set (tests_at (add_raw r p) l) = set (tests_at p l) \<union> {t. \<exists>pts. (t, pts) \<in> set (ptests r) \<and> l \<in> set pts}
      \<and> pknown (add_raw r p) = pknown p @ allPoints r"
    using tests_add [where p = "p\<lparr>pknown := pknown p @ allPoints r\<rparr>" and ts = "ptests r" and l = l
        and h = "\<lambda>p t. (phome p)(t \<mapsto> strip_root (rentry r))"]
    by (simp add: add_raw_def tests_at_def)
  with Cons [of "add_raw r p"] show ?case by (auto simp: instrumented_def)
qed (simp add: instrumented_def)

lemma profile_tests:
  "set (tests_at (buildProfile fs costs raws) l) = {t. \<exists>r \<in> set raws. \<exists>pts. (t, pts) \<in> set (ptests r) \<and> l \<in> set pts}"
  "set (pknown (buildProfile fs costs raws)) = instrumented raws"
  using raws_add [where raws = raws] by (auto simp: buildProfile_def tests_at_def)

text \<open>
  A run is narrowed to exactly the tests that executed an instrumented line of the mutant; it
  is widened only when some line carries no point, and a mutant is called unhit only when every
  line carries one and no test executed any.
\<close>

theorem plan_is_exact:
  "case planFor (buildProfile fs costs raws) locs of
     Narrow ts \<Rightarrow> ts \<noteq> [] \<and> sorted ts \<and> distinct ts \<and> set ts = hitting raws locs
   | Widen \<Rightarrow> hitting raws locs = {} \<and> (locs = [] \<or> (\<exists>l \<in> set locs. l \<notin> instrumented raws))
   | Unhit \<Rightarrow> hitting raws locs = {} \<and> locs \<noteq> [] \<and> set locs \<subseteq> instrumented raws"
proof -
  let ?p = "buildProfile fs costs raws"
  let ?hit = "filter (\<lambda>l. l \<in> set (pknown ?p)) locs"
  let ?picked = "remdups (concat (map (tests_at ?p) ?hit))"
  have picked: "set ?picked = hitting raws locs" by (auto simp: profile_tests hitting_def)
  have hit: "?hit = [] \<Longrightarrow> hitting raws locs = {}" using picked by (metis concat.simps(1) list.simps(8) remdups.simps(1) set_empty)
  have all: "list_all (\<lambda>l. l \<in> set (pknown ?p)) locs \<longleftrightarrow> set locs \<subseteq> instrumented raws"
    by (auto simp: list_all_iff profile_tests)
  have none: "?hit = [] \<longleftrightarrow> set locs \<inter> instrumented raws = {}" by (auto simp: filter_empty_conv profile_tests)
  have sel: "selectTests ?p locs = (if ?hit = [] then None
      else if ?picked = [] \<and> \<not> set locs \<subseteq> instrumented raws then None else Some (sort ?picked))"
    by (simp add: selectTests_def Let_def all)
  consider "?hit = []" | "?hit \<noteq> []" "?picked = []" "\<not> set locs \<subseteq> instrumented raws"
    | "?hit \<noteq> []" "?picked = []" "set locs \<subseteq> instrumented raws" | "?hit \<noteq> []" "?picked \<noteq> []" by blast
  then show ?thesis
  proof cases
    case 1
    then have "planFor ?p locs = Widen" using sel by (simp add: planFor_def)
    moreover have "locs = [] \<or> (\<exists>l \<in> set locs. l \<notin> instrumented raws)" using 1 none by (cases locs) auto
    ultimately show ?thesis using hit [OF 1] by simp
  next
    case 2
    then have "planFor ?p locs = Widen" using sel by (simp add: planFor_def)
    moreover have "hitting raws locs = {}" using 2(2) picked by (metis set_empty)
    ultimately show ?thesis using 2(3) by auto
  next
    case 3
    have "selectTests ?p locs = Some []" using sel 3(1,3) unfolding 3(2) by simp
    then have "planFor ?p locs = Unhit" by (simp add: planFor_def)
    moreover have "hitting raws locs = {}" using 3(2) picked by (metis set_empty)
    ultimately show ?thesis using 3(1,3) by auto
  next
    case 4
    then have "selectTests ?p locs = Some (sort ?picked)" using sel by presburger
    moreover have "sort ?picked \<noteq> []" using 4(2) by (metis set_sort set_empty)
    ultimately have "planFor ?p locs = Narrow (sort ?picked)" by (simp add: planFor_def)
    then show ?thesis using picked \<open>sort ?picked \<noteq> []\<close> by (simp add: set_sort)
  qed
qed

text \<open>
  The lines of a span: one for each place from its start to its end, with the number of line
  breaks before it.
\<close>

definition line_at :: "jsstring \<Rightarrow> nat \<Rightarrow> nat" where
  "line_at src i = 1 + length (filter (\<lambda>c. c = 10) (take i src))"

lemma line_at_Suc: "i < length src \<Longrightarrow> line_at src (Suc i) = line_at src i + (if src ! i = 10 then 1 else 0)"
  by (simp add: line_at_def take_Suc_conv_app_nth)

lemma line_at_between: "line_at src a \<le> l \<Longrightarrow> l \<le> line_at src (a + k) \<Longrightarrow> a + k \<le> length src \<Longrightarrow> \<exists>i. a \<le> i \<and> i \<le> a + k \<and> line_at src i = l"
proof (induction k)
  case (Suc k)
  show ?case
  proof (cases "l \<le> line_at src (a + k)")
    case True
    with Suc obtain i where "a \<le> i" "i \<le> a + k" "line_at src i = l" by auto
    then show ?thesis by (intro exI [of _ i]) simp
  next
    case False
    then have "line_at src (a + Suc k) = l" using Suc.prems line_at_Suc [of "a + k" src] by (auto split: if_splits)
    then show ?thesis by (intro exI [of _ "a + Suc k"]) simp
  qed
qed auto

lemma line_at_mono: "a \<le> b \<Longrightarrow> line_at src a \<le> line_at src b"
  by (auto simp: line_at_def le_iff_add take_add)

lemma linesOf_spec:
  assumes "sources f = Some src" "a \<le> b" "b \<le> length src"
  shows "set (linesOf sources f a b) = (\<lambda>i. f @ js '':'' @ dec_nat (line_at src i)) ` {a..b}"
proof -
  let ?n = "length (filter (\<lambda>c. c = 10) (str_slice src a b))"
  have "take b src = take a src @ str_slice src a b"
    using assms(2) by (simp add: str_slice_def) (metis le_add_diff_inverse take_add)
  then have n: "line_at src b = line_at src a + ?n" by (simp add: line_at_def)
  have "{line_at src a..line_at src b} = line_at src ` {a..b}"
  proof (intro equalityI subsetI)
    fix l assume "l \<in> {line_at src a..line_at src b}"
    then obtain i where "a \<le> i" "i \<le> b" "line_at src i = l"
      using line_at_between [of src a l "b - a"] assms(2,3) by auto
    then show "l \<in> line_at src ` {a..b}" by auto
  qed (use line_at_mono in auto)
  moreover have "(\<lambda>k. line_at src a + k) ` {0..<Suc ?n} = {line_at src a..line_at src b}"
    unfolding n by (auto simp: image_iff intro!: bexI [of _ "_ - line_at src a"])
  moreover have "set (linesOf sources f a b) = (\<lambda>l. f @ js '':'' @ dec_nat l) ` (\<lambda>k. line_at src a + k) ` {0..<Suc ?n}"
    using assms(1) by (simp add: linesOf_def line_at_def Let_def image_image del: upt_Suc)
  ultimately show ?thesis by (metis image_image)
qed

section \<open>The filter\<close>

text \<open>
  What a filter of this form matches. A name matches \<open>/^(?:a|b)$/\<close> when it is one of the
  alternatives; an alternative is read up to a bar that no backslash precedes, a backslash takes
  the next character as it is, and any other special character is outside this fragment.
\<close>

fun alternatives :: "jsstring \<Rightarrow> jsstring \<Rightarrow> jsstring list option" where
  "alternatives acc [] = Some [rev acc]"
| "alternatives acc (c # cs) =
     (if c = 124 then map_option ((#) (rev acc)) (alternatives [] cs)
      else if c = 92 then (case cs of [] \<Rightarrow> None | d # ds \<Rightarrow> alternatives (d # acc) ds)
      else if c \<in> set regex_specials then None
      else alternatives (c # acc) cs)"

definition filter_matches :: "jsstring \<Rightarrow> jsstring \<Rightarrow> bool" where
  "filter_matches flt n \<longleftrightarrow>
     (\<exists>body alts. flt = js ''/^(?:'' @ body @ js '')$/'' \<and> alternatives [] body = Some alts \<and> n \<in> set alts)"

lemma alternatives_escape: "alternatives acc (escape n @ cs) = alternatives (rev n @ acc) cs"
  by (induction n arbitrary: acc) (auto simp: escape_def regex_specials_def js_def)

lemma alternatives_join: "names \<noteq> [] \<Longrightarrow> alternatives [] (join_with (js ''|'') (map escape names)) = Some names"
proof (induction names rule: induct_list012)
  case (2 x)
  then show ?case using alternatives_escape [of "[]" x "[]"] by simp
next
  case (3 x y zs)
  then show ?case using alternatives_escape [of "[]" x "124 # join_with (js ''|'') (map escape (y # zs))"]
    by (simp add: js_def)
qed simp

text \<open>
  The filter for a set of tests matches those names and nothing else, whatever characters
  they hold.
\<close>

theorem filter_is_exact:
  "case filterFor names of None \<Rightarrow> names = [] | Some flt \<Rightarrow> filter_matches flt n = (n \<in> set names)"
  using alternatives_join [of names] by (auto simp: filterFor_def filter_matches_def)

section \<open>The order of the files\<close>

lemma mset_insert_by: "mset (insert_by gt x xs) = add_mset x (mset xs)"
  by (induction xs) auto

lemma byCost_permutes: "mset (byCost locale_gt fs p) = mset fs"
proof -
  have "mset (foldr (insert_by gt) xs []) = mset xs" for gt and xs :: "jsstring list"
    by (induction xs) (auto simp: mset_insert_by)
  then show ?thesis by (simp add: byCost_def split: option.splits)
qed

end
