(* ===== verification/Sweep_Run.thy ===== *)
theory Sweep_Run
  imports Sweep_Tests
begin

text \<open>
  The run itself and its report (\<open>tools/mutate.ts\<close>). Several workers take mutants from one
  counter; each writes the mutated files into a staged copy of the tree that is its own, runs the
  tests there and writes the originals back. A worker can be suspended at every \<open>await\<close>, so the
  run is a step relation whose steps are the stretches between two of them. The test command is
  not code of the repository: what it may answer on a tree is the relation \<open>suite\<close>.
\<close>

section \<open>What is measured\<close>

definition scope_key :: "jsstring list \<Rightarrow> jsstring" where
  "scope_key dirs = join_with (js '' '') dirs"

text \<open>Scopes whose unmutated suite fails are red; a mutant in one of them is not measured.\<close>

definition scopes :: "(mutant \<Rightarrow> jsstring list) \<Rightarrow> mutant list \<Rightarrow> jsstring list" where
  "scopes dirs ms = remdups (map (\<lambda>m. scope_key (dirs m)) ms)"

definition redScopes :: "(jsstring \<Rightarrow> int) \<Rightarrow> (mutant \<Rightarrow> jsstring list) \<Rightarrow> mutant list \<Rightarrow> jsstring list" where
  "redScopes baselineCode dirs ms =
     filter (\<lambda>k. filter (\<lambda>d. d \<noteq> []) (split_on 32 k) \<noteq> [] \<and> baselineCode k \<noteq> 0) (scopes dirs ms)"

definition measurable :: "jsstring list \<Rightarrow> (mutant \<Rightarrow> jsstring list) \<Rightarrow> mutant list \<Rightarrow> mutant list" where
  "measurable red dirs ms = filter (\<lambda>m. scope_key (dirs m) \<notin> set red) ms"

definition unmeasurable :: "jsstring list \<Rightarrow> (mutant \<Rightarrow> jsstring list) \<Rightarrow> mutant list \<Rightarrow> mutant list" where
  "unmeasurable red dirs ms = filter (\<lambda>m. scope_key (dirs m) \<in> set red) ms"

section \<open>One mutant\<close>

record job =
  runDirs :: "jsstring list"
  job_filter :: "jsstring option"
  unhit :: bool
  narrow :: bool

text \<open>Which tests a mutant is run against; \<open>dirs\<close> is its scope and \<open>whole\<close> the files of it.\<close>

definition job_for ::
  "(jsstring \<Rightarrow> jsstring \<Rightarrow> bool) \<Rightarrow> profile option \<Rightarrow> (jsstring \<rightharpoonup> jsstring list) \<Rightarrow> (jsstring \<rightharpoonup> jsstring)
     \<Rightarrow> jsstring list \<Rightarrow> mutant \<Rightarrow> job" where
  "job_for locale_gt profile scopeFiles sources dirs m =
     (let whole = (case scopeFiles (scope_key dirs) of None \<Rightarrow> dirs | Some fs \<Rightarrow> fs);
          wide = \<lparr>runDirs = whole, job_filter = None, unhit = False, narrow = False\<rparr>
      in case profile of
           None \<Rightarrow> wide
         | Some p \<Rightarrow>
             (case planFor p (concat (map (\<lambda>e. linesOf sources (efile e) (estart e) (eend e)) (edits m))) of
                Widen \<Rightarrow> wide
              | Unhit \<Rightarrow> wide\<lparr>unhit := True\<rparr>
              | Narrow ts \<Rightarrow>
                  if filterFor ts \<noteq> None \<and> list_all (\<lambda>t. phome p t \<noteq> None \<and> phome p t \<noteq> Some []) ts
                  then \<lparr>runDirs = byCost locale_gt (sort (remdups (List.map_filter (phome p) ts))) (Some p),
                        job_filter = filterFor ts, unhit = False, narrow = True\<rparr>
                  else wide))"

record result =
  rindex :: nat
  rmutant :: mutant
  killed :: bool
  timedOut :: bool
  rdirs :: "jsstring list"
  notCovered :: bool

text \<open>
  The result of a run that timed out or ended with an exit code; the line of its output that the
  report quotes is left out.
\<close>

definition result_of :: "nat \<Rightarrow> mutant \<Rightarrow> jsstring list \<Rightarrow> job \<Rightarrow> bool \<times> int \<Rightarrow> result" where
  "result_of i m dirs j outcome =
     (let dead = fst outcome \<or> snd outcome \<noteq> 0
      in \<lparr>rindex = i, rmutant = m, killed = dead, timedOut = fst outcome, rdirs = dirs, notCovered = unhit j \<and> \<not> dead\<rparr>)"

section \<open>The workers\<close>

datatype phase =
    Idle
  | Writing nat "jsstring list"
  | Testing nat
  | Restoring nat "jsstring list"
  | Finished

type_synonym tree = "jsstring \<rightharpoonup> jsstring"

record sweep =
  nextIndex :: nat
  pcs :: "phase list"
  trees :: "tree list"
  results :: "result list"
  narrowed :: nat
  widened :: nat

text \<open>What a run is made of: the mutants, their scopes and jobs, the sources and the test command.\<close>

record setting =
  mutants :: "mutant list"
  dirs_of :: "mutant \<Rightarrow> jsstring list"
  job_of :: "mutant \<Rightarrow> job"
  originals :: tree
  profiled :: bool
  suite :: "tree \<Rightarrow> job \<Rightarrow> bool \<times> int \<Rightarrow> bool"

definition touched :: "mutant \<Rightarrow> jsstring list" where
  "touched m = rev (remdups (rev (map efile (edits m))))"

definition mutated :: "setting \<Rightarrow> nat \<Rightarrow> tree" where
  "mutated c i = the (applyEdits (originals c) (mutants c ! i))"

inductive sweep_step :: "setting \<Rightarrow> sweep \<Rightarrow> sweep \<Rightarrow> bool" for c where
  take_next: "w < length (pcs s) \<Longrightarrow> pcs s ! w = Idle \<Longrightarrow> nextIndex s < length (mutants c) \<Longrightarrow>
     sweep_step c s (s\<lparr>nextIndex := nextIndex s + 1,
       pcs := (pcs s)[w := Writing (nextIndex s) (touched (mutants c ! nextIndex s))]\<rparr>)"
| no_more: "w < length (pcs s) \<Longrightarrow> pcs s ! w = Idle \<Longrightarrow> length (mutants c) \<le> nextIndex s \<Longrightarrow>
     sweep_step c s (s\<lparr>nextIndex := nextIndex s + 1, pcs := (pcs s)[w := Finished]\<rparr>)"
| write_file: "w < length (pcs s) \<Longrightarrow> pcs s ! w = Writing i (f # fs) \<Longrightarrow>
     sweep_step c s (s\<lparr>pcs := (pcs s)[w := Writing i fs], trees := (trees s)[w := (trees s ! w)(f := mutated c i f)]\<rparr>)"
| start_tests: "w < length (pcs s) \<Longrightarrow> pcs s ! w = Writing i [] \<Longrightarrow>
     sweep_step c s (s\<lparr>pcs := (pcs s)[w := Testing i],
       narrowed := narrowed s + (if profiled c \<and> narrow (job_of c (mutants c ! i)) then 1 else 0),
       widened := widened s + (if profiled c \<and> \<not> narrow (job_of c (mutants c ! i)) then 1 else 0)\<rparr>)"
| end_tests: "w < length (pcs s) \<Longrightarrow> pcs s ! w = Testing i \<Longrightarrow> suite c (trees s ! w) (job_of c (mutants c ! i)) outcome \<Longrightarrow>
     sweep_step c s (s\<lparr>pcs := (pcs s)[w := Restoring i (touched (mutants c ! i))],
       results := results s @ [result_of i (mutants c ! i) (dirs_of c (mutants c ! i)) (job_of c (mutants c ! i)) outcome]\<rparr>)"
| restore_file: "w < length (pcs s) \<Longrightarrow> pcs s ! w = Restoring i (f # fs) \<Longrightarrow>
     sweep_step c s (s\<lparr>pcs := (pcs s)[w := Restoring i fs], trees := (trees s)[w := (trees s ! w)(f := originals c f)]\<rparr>)"
| restored: "w < length (pcs s) \<Longrightarrow> pcs s ! w = Restoring i [] \<Longrightarrow>
     sweep_step c s (s\<lparr>pcs := (pcs s)[w := Idle]\<rparr>)"

definition staged :: "setting \<Rightarrow> nat \<Rightarrow> sweep" where
  "staged c k = \<lparr>nextIndex = 0, pcs = replicate k Idle, trees = replicate k (originals c), results = [], narrowed = 0, widened = 0\<rparr>"

abbreviation swept :: "setting \<Rightarrow> nat \<Rightarrow> sweep \<Rightarrow> bool" where
  "swept c k s \<equiv> (sweep_step c)\<^sup>*\<^sup>* (staged c k) s"

definition all_finished :: "sweep \<Rightarrow> bool" where
  "all_finished s \<longleftrightarrow> list_all (\<lambda>pc. pc = Finished) (pcs s)"

section \<open>The report\<close>

definition truthy :: "jsstring option \<Rightarrow> bool" where
  "truthy t \<longleftrightarrow> t \<noteq> None \<and> t \<noteq> Some []"

definition realSurvivors :: "jsstring list \<Rightarrow> result list \<Rightarrow> result list" where
  "realSurvivors known rs =
     filter (\<lambda>r. \<not> mustSurvive (rmutant r) \<and> \<not> killed r \<and> \<not> ratioOnly (rmutant r)
               \<and> \<not> truthy (equivalent (rmutant r)) \<and> mname (rmutant r) \<notin> set known) rs"

definition staleKnown :: "jsstring list \<Rightarrow> result list \<Rightarrow> result list" where
  "staleKnown known rs = filter (\<lambda>r. \<not> mustSurvive (rmutant r) \<and> killed r \<and> mname (rmutant r) \<in> set known) rs"

definition notNoop :: "(jsstring \<rightharpoonup> bool) \<Rightarrow> result list \<Rightarrow> result list" where
  "notNoop noop rs = filter (\<lambda>r. mustSurvive (rmutant r) \<and> noop (mname (rmutant r)) \<noteq> Some True) rs"

definition brokenControls :: "result list \<Rightarrow> result list" where
  "brokenControls rs = filter (\<lambda>r. mustSurvive (rmutant r) \<and> killed r) rs"

definition killedCount :: "result list \<Rightarrow> nat" where
  "killedCount rs = length (filter (\<lambda>r. \<not> mustSurvive (rmutant r) \<and> killed r) rs)"

definition harness_broken :: "(jsstring \<rightharpoonup> bool) \<Rightarrow> result list \<Rightarrow> bool" where
  "harness_broken noop rs \<longleftrightarrow> notNoop noop rs \<noteq> [] \<or> brokenControls rs \<noteq> []"

text \<open>
  The exit code of a run that comes to its report. A run that ends before it (nothing selected, a file
  that does not compile unmutated, a dry run, an interrupt) exits there, with a code of its own.
\<close>

definition exit_code :: "jsstring list \<Rightarrow> (jsstring \<rightharpoonup> bool) \<Rightarrow> nat \<Rightarrow> result list \<Rightarrow> nat" where
  "exit_code known noop broken rs =
     (if harness_broken noop rs then 2
      else if realSurvivors known rs \<noteq> [] \<or> broken > 0 \<or> staleKnown known rs \<noteq> [] then 1
      else 0)"

text \<open>The denominator of the line that says how many mutants were narrowed.\<close>

definition selection_total :: "sweep \<Rightarrow> nat" where
  "selection_total s = narrowed s + widened s + length (filter notCovered (results s))"

section \<open>The workers do not disturb each other\<close>

lemma applyEdits_untouched:
  assumes "applyEdits t m = Some out" "f \<notin> set (touched m)"
  shows "out f = t f"
proof -
  have "filter (\<lambda>e. efile e = f) (edits m) = []" using assms(2) by (auto simp: touched_def filter_empty_conv)
  then have "edit_text x (edits_of m f) = x" for x by (simp add: edits_of_def edit_text_def by_start_desc_def)
  with assms(1) show ?thesis by (cases "t f") (auto simp: applyEdits_def split: if_splits)
qed

text \<open>A tree in which the first of the touched files hold \<open>a\<close> and the others \<open>b\<close>.\<close>

definition mixed :: "tree \<Rightarrow> tree \<Rightarrow> jsstring list \<Rightarrow> tree" where
  "mixed a b fs = (\<lambda>f. if f \<in> set fs then b f else a f)"

lemma mixed_step: "(mixed a b (f # fs))(f := a f) = mixed a b fs" if "f \<notin> set fs"
  using that by (auto simp: mixed_def)

definition tree_ok :: "setting \<Rightarrow> phase \<Rightarrow> tree \<Rightarrow> bool" where
  "tree_ok c pc t \<longleftrightarrow>
     (case pc of
        Idle \<Rightarrow> t = originals c
      | Writing i fs \<Rightarrow> i < length (mutants c) \<and> distinct fs \<and> t = mixed (mutated c i) (originals c) fs
      | Testing i \<Rightarrow> i < length (mutants c) \<and> t = mutated c i
      | Restoring i fs \<Rightarrow> i < length (mutants c) \<and> distinct fs \<and> t = mixed (originals c) (mutated c i) fs
      | Finished \<Rightarrow> t = originals c)"

fun running :: "phase \<Rightarrow> nat list" where
  "running (Writing i fs) = [i]"
| "running (Testing i) = [i]"
| "running _ = []"

definition result_ok :: "setting \<Rightarrow> result \<Rightarrow> bool" where
  "result_ok c r \<longleftrightarrow>
     (let i = rindex r; m = mutants c ! i
      in i < length (mutants c)
         \<and> (\<exists>outcome. suite c (mutated c i) (job_of c m) outcome \<and> r = result_of i m (dirs_of c m) (job_of c m) outcome))"

definition counted :: "phase \<Rightarrow> nat" where
  "counted pc = (case pc of Testing i \<Rightarrow> 1 | _ \<Rightarrow> 0)"

definition sweep_inv :: "setting \<Rightarrow> sweep \<Rightarrow> bool" where
  "sweep_inv c s \<longleftrightarrow>
     list_all2 (tree_ok c) (pcs s) (trees s)
     \<and> mset (concat (map running (pcs s))) + mset (map rindex (results s)) = mset [0..<min (nextIndex s) (length (mutants c))]
     \<and> (Finished \<in> set (pcs s) \<longrightarrow> length (mutants c) \<le> nextIndex s)
     \<and> list_all (result_ok c) (results s)
     \<and> narrowed s + widened s = (if profiled c then sum_list (map counted (pcs s)) + length (results s) else 0)"

lemma mset_running_upd:
  assumes "w < length xs"
  shows "mset (concat (map running (xs[w := y]))) + mset (running (xs ! w)) = mset (concat (map running xs)) + mset (running y)"
    "sum_list (map counted (xs[w := y])) + counted (xs ! w) = sum_list (map counted xs) + counted y"
proof -
  define us vs x where "us = take w xs" and "vs = drop (Suc w) xs" and "x = xs ! w"
  note d = this
  have u: "xs = us @ x # vs" unfolding d by (rule id_take_nth_drop [OF assms])
  have v: "xs[w := y] = us @ y # vs" unfolding d by (rule upd_conv_take_nth_drop [OF assms])
  show "mset (concat (map running (xs[w := y]))) + mset (running (xs ! w)) = mset (concat (map running xs)) + mset (running y)"
    "sum_list (map counted (xs[w := y])) + counted (xs ! w) = sum_list (map counted xs) + counted y"
    unfolding v d(3) [symmetric] by (simp_all add: u)
qed

lemma sweep_inv_start: "sweep_inv c (staged c k)"
proof -
  have "concat (map running (replicate k Idle)) = []" by (induction k) auto
  moreover have "sum_list (map counted (replicate k Idle)) = 0" by (induction k) (auto simp: counted_def)
  ultimately show ?thesis
    by (auto simp: sweep_inv_def staged_def list_all2_conv_all_nth tree_ok_def)
qed

lemma all2_upd: "list_all2 P xs ys \<Longrightarrow> P x y \<Longrightarrow> list_all2 P (xs[w := x]) (ys[w := y])"
  by (rule list_all2_update_cong)

lemma mset_balance:
  fixes A :: "'a multiset"
  assumes "A' + r = A + p" "A + R = N" "p + R' + N = r + R + N'"
  shows "A' + R' = N'"
proof (rule multiset_eqI)
  fix x
  show "count (A' + R') x = count N' x"
    using assms [THEN arg_cong, of "\<lambda>M. count M x"] by simp
qed

lemma upt_min_Suc: "i < n \<Longrightarrow> mset [0..<min (Suc i) n] = add_mset i (mset [0..<min i n])"
  by (simp add: min_def)

lemma set_upd_Finished: "Finished \<in> set (xs[w := y]) \<Longrightarrow> y \<noteq> Finished \<Longrightarrow> Finished \<in> set xs"
  using set_update_subset_insert [of xs w y] by auto

text \<open>What a step on worker \<open>w\<close> leaves to be shown: its own tree, and what is counted.\<close>

lemma sweep_inv_worker:
  assumes inv: "sweep_inv c s" and w: "w < length (pcs s)"
    and pcs: "pcs s' = (pcs s)[w := pc]" "trees s' = (trees s)[w := t]" and ok: "tree_ok c pc t"
    and idx: "mset (running pc) + mset (map rindex (results s')) + mset [0..<min (nextIndex s) (length (mutants c))]
      = mset (running (pcs s ! w)) + mset (map rindex (results s)) + mset [0..<min (nextIndex s') (length (mutants c))]"
    and fin: "pc = Finished \<Longrightarrow> length (mutants c) \<le> nextIndex s'" "nextIndex s \<le> nextIndex s'"
    and res: "list_all (result_ok c) (results s')"
    and cnt: "profiled c \<Longrightarrow> narrowed s' + widened s' + counted (pcs s ! w) + length (results s)
        = narrowed s + widened s + counted pc + length (results s')"
      "\<not> profiled c \<Longrightarrow> narrowed s' + widened s' = narrowed s + widened s"
  shows "sweep_inv c s'"
proof -
  have I: "list_all2 (tree_ok c) (pcs s) (trees s)"
    "mset (concat (map running (pcs s))) + mset (map rindex (results s)) = mset [0..<min (nextIndex s) (length (mutants c))]"
    "Finished \<in> set (pcs s) \<longrightarrow> length (mutants c) \<le> nextIndex s"
    "narrowed s + widened s = (if profiled c then sum_list (map counted (pcs s)) + length (results s) else 0)"
    using inv unfolding sweep_inv_def by blast+
  have "list_all2 (tree_ok c) (pcs s') (trees s')" unfolding pcs by (intro all2_upd I(1) ok)
  moreover have "mset (concat (map running (pcs s'))) + mset (map rindex (results s')) = mset [0..<min (nextIndex s') (length (mutants c))]"
  proof -
    have "mset (concat (map running (pcs s'))) + mset (running (pcs s ! w)) = mset (concat (map running (pcs s))) + mset (running pc)"
      unfolding pcs by (rule mset_running_upd(1) [OF w])
    then show ?thesis using I(2) idx by (rule mset_balance)
  qed
  moreover have "Finished \<in> set (pcs s') \<longrightarrow> length (mutants c) \<le> nextIndex s'"
    using I(3) fin set_upd_Finished [of "pcs s" w pc] unfolding pcs by (metis le_trans)
  moreover have "narrowed s' + widened s' = (if profiled c then sum_list (map counted (pcs s')) + length (results s') else 0)"
    using I(4) cnt mset_running_upd(2) [OF w, of pc] unfolding pcs by (cases "profiled c") simp_all
  ultimately show ?thesis using res unfolding sweep_inv_def by blast
qed

lemmas sweep_inv_pc = sweep_inv_worker [where t = "trees s ! w" and s = s and w = w for s w, unfolded list_update_id]

lemma touched_distinct: "distinct (touched m)"
  by (simp add: touched_def)

lemma sweep_inv_step:
  assumes "sweep_step c s s'" and inv: "sweep_inv c s"
    and loaded: "\<forall>m \<in> set (mutants c). applyEdits (originals c) m \<noteq> None"
  shows "sweep_inv c s'"
proof -
  have tree: "tree_ok c (pcs s ! w) (trees s ! w)" if "w < length (pcs s)" for w
    using inv that by (auto simp: sweep_inv_def list_all2_conv_all_nth)
  have res: "list_all (result_ok c) (results s)" using inv by (simp add: sweep_inv_def)
  have same: "mixed (mutated c i) (originals c) (touched (mutants c ! i)) = originals c"
    "mixed (originals c) (mutated c i) (touched (mutants c ! i)) = mutated c i" if "i < length (mutants c)" for i
  proof -
    have "applyEdits (originals c) (mutants c ! i) \<noteq> None" using loaded nth_mem [OF that] by blast
    then obtain out where out: "applyEdits (originals c) (mutants c ! i) = Some out" by blast
    have m: "mutated c i f = originals c f" if "f \<notin> set (touched (mutants c ! i))" for f
      using applyEdits_untouched [OF out that] by (simp add: mutated_def out)
    show "mixed (mutated c i) (originals c) (touched (mutants c ! i)) = originals c"
      "mixed (originals c) (mutated c i) (touched (mutants c ! i)) = mutated c i"
      using m by (auto simp: mixed_def)
  qed
  from assms(1) show ?thesis
  proof cases
    case (take_next w)
    note w = sweep_inv_pc [OF inv take_next(2), where pc = "Writing (nextIndex s) (touched (mutants c ! nextIndex s))"]
    show ?thesis
      by (rule w) (use take_next tree [of w] same [of "nextIndex s"] res touched_distinct in
          \<open>simp_all add: tree_ok_def counted_def upt_min_Suc\<close>)
  next
    case (no_more w)
    show ?thesis
      by (rule sweep_inv_pc [OF inv no_more(2), where pc = Finished])
        (use no_more tree [of w] res in \<open>simp_all add: tree_ok_def counted_def min_def\<close>)
  next
    case (write_file w i f fs)
    have "tree_ok c (Writing i fs) ((trees s ! w)(f := mutated c i f))"
      using tree [OF write_file(2)] write_file(3) mixed_step by (simp add: tree_ok_def)
    then show ?thesis
      by (intro sweep_inv_worker [OF inv write_file(2), where pc = "Writing i fs" and t = "(trees s ! w)(f := mutated c i f)"]) (use write_file res in \<open>simp_all add: counted_def\<close>)
  next
    case (start_tests w i)
    have "tree_ok c (Testing i) (trees s ! w)"
      using tree [OF start_tests(2)] start_tests(3) by (simp add: tree_ok_def mixed_def)
    then show ?thesis
      by (intro sweep_inv_pc [OF inv start_tests(2), where pc = "Testing i"])
        (use start_tests res in \<open>simp_all add: counted_def\<close>)
  next
    case (end_tests w i outcome)
    have t: "i < length (mutants c)" "trees s ! w = mutated c i"
      using tree [OF end_tests(2)] end_tests(3) by (simp_all add: tree_ok_def)
    then have "tree_ok c (Restoring i (touched (mutants c ! i))) (trees s ! w)"
      using same touched_distinct by (simp add: tree_ok_def)
    moreover have "result_ok c (result_of i (mutants c ! i) (dirs_of c (mutants c ! i)) (job_of c (mutants c ! i)) outcome)"
      using t end_tests(4) unfolding result_ok_def Let_def
      by (intro conjI exI [of _ outcome]) (simp_all add: result_of_def Let_def)
    ultimately show ?thesis
      by (intro sweep_inv_pc [OF inv end_tests(2), where pc = "Restoring i (touched (mutants c ! i))"])
        (use end_tests res in \<open>simp_all add: counted_def result_of_def\<close>)
  next
    case (restore_file w i f fs)
    have "tree_ok c (Restoring i fs) ((trees s ! w)(f := originals c f))"
      using tree [OF restore_file(2)] restore_file(3) mixed_step by (simp add: tree_ok_def)
    then show ?thesis
      by (intro sweep_inv_worker [OF inv restore_file(2), where pc = "Restoring i fs" and t = "(trees s ! w)(f := originals c f)"]) (use restore_file res in \<open>simp_all add: counted_def\<close>)
  next
    case (restored w i)
    have "tree_ok c Idle (trees s ! w)" using tree [OF restored(2)] restored(3) by (simp add: tree_ok_def mixed_def)
    then show ?thesis
      by (intro sweep_inv_pc [OF inv restored(2), where pc = Idle])
        (use restored res in \<open>simp_all add: counted_def\<close>)
  qed
qed

lemma swept_inv:
  assumes "swept c k s" "\<forall>m \<in> set (mutants c). applyEdits (originals c) m \<noteq> None"
  shows "sweep_inv c s"
  using assms(1) by (induction rule: rtranclp_induct) (auto intro: sweep_inv_start sweep_inv_step [OF _ _ assms(2)])

section \<open>A run ends, with one result for each mutant\<close>

text \<open>What is still to be done: by a worker, and for the mutants that were not taken.\<close>

fun left :: "nat \<Rightarrow> phase \<Rightarrow> nat" where
  "left b Finished = 0"
| "left b Idle = 1"
| "left b (Restoring i fs) = 2 + length fs"
| "left b (Testing i) = 3 + b"
| "left b (Writing i fs) = 4 + b + length fs"

definition bound :: "setting \<Rightarrow> nat" where
  "bound c = sum_list (map (\<lambda>m. length (touched m)) (mutants c))"

definition work_left :: "setting \<Rightarrow> sweep \<Rightarrow> nat" where
  "work_left c s = sum_list (map (left (bound c)) (pcs s)) + (length (mutants c) - nextIndex s) * (5 + 2 * bound c)"

lemma touched_bound: "i < length (mutants c) \<Longrightarrow> length (touched (mutants c ! i)) \<le> bound c"
  unfolding bound_def by (rule member_le_sum_list) auto

lemma left_upd:
  assumes "w < length xs"
  shows "sum_list (map (left b) (xs[w := y])) + left b (xs ! w) = sum_list (map (left b) xs) + left b y"
  using assms by (induction xs arbitrary: w) (auto split: nat.splits)

lemma work_upd:
  assumes "w < length (pcs s)" "pcs s' = (pcs s)[w := pc]" "nextIndex s \<le> nextIndex s'" "left (bound c) pc < left (bound c) (pcs s ! w)"
  shows "work_left c s' < work_left c s"
proof -
  have "sum_list (map (left (bound c)) (pcs s')) < sum_list (map (left (bound c)) (pcs s))"
    using left_upd [OF assms(1), of "bound c" pc] assms(2,4) by simp
  moreover have "(length (mutants c) - nextIndex s') * (5 + 2 * bound c) \<le> (length (mutants c) - nextIndex s) * (5 + 2 * bound c)"
    using assms(3) by (intro mult_le_mono1) simp
  ultimately show ?thesis unfolding work_left_def by (rule add_less_le_mono)
qed

lemma step_works:
  assumes "sweep_step c s s'" "sweep_inv c s"
  shows "work_left c s' < work_left c s"
  using assms(1)
proof cases
  case (take_next w)
  have "length (touched (mutants c ! nextIndex s)) \<le> bound c" using take_next touched_bound by simp
  moreover have "length (mutants c) - nextIndex s = Suc (length (mutants c) - Suc (nextIndex s))" using take_next by simp
  ultimately show ?thesis using left_upd [OF take_next(2), of "bound c" "Writing (nextIndex s) (touched (mutants c ! nextIndex s))"] take_next
    by (simp add: work_left_def)
next
  case (end_tests w i outcome)
  have "tree_ok c (pcs s ! w) (trees s ! w)" using assms(2) end_tests by (auto simp: sweep_inv_def list_all2_conv_all_nth)
  then have "length (touched (mutants c ! i)) \<le> bound c" using end_tests touched_bound by (simp add: tree_ok_def)
  with end_tests show ?thesis by (intro work_upd [of w s s' "Restoring i (touched (mutants c ! i))"]) simp_all
qed (auto intro!: work_upd)

lemma step_exists:
  assumes inv: "sweep_inv c s" and "\<not> all_finished s" and total: "\<And>t j. \<exists>outcome. suite c t j outcome"
  shows "\<exists>s'. sweep_step c s s'"
proof -
  obtain w where w: "w < length (pcs s)" "pcs s ! w \<noteq> Finished"
    using assms(2) by (auto simp: all_finished_def list_all_length)
  show ?thesis
  proof (cases "pcs s ! w")
    case Idle
    then show ?thesis using w take_next [of w s c] no_more [of w s c] by (meson not_le)
  next
    case (Writing i fs)
    then show ?thesis using w by (cases fs) (auto intro: sweep_step.intros)
  next
    case (Testing i)
    then show ?thesis using w total end_tests [of w s i c] by meson
  next
    case (Restoring i fs)
    then show ?thesis using w by (cases fs) (auto intro: sweep_step.intros)
  qed (use w in simp)
qed

lemma run_finishes:
  assumes "sweep_inv c s" and total: "\<And>t j. \<exists>outcome. suite c t j outcome"
    and loaded: "\<forall>m \<in> set (mutants c). applyEdits (originals c) m \<noteq> None"
  shows "\<exists>s'. (sweep_step c)\<^sup>*\<^sup>* s s' \<and> all_finished s'"
  using assms(1)
proof (induction "work_left c s" arbitrary: s rule: less_induct)
  case less
  show ?case
  proof (cases "all_finished s")
    case False
    with step_exists [OF less.prems _ total] obtain t where t: "sweep_step c s t" by blast
    with less step_works sweep_inv_step [OF _ _ loaded] show ?thesis by (meson converse_rtranclp_into_rtranclp)
  qed blast
qed

lemma finished_results:
  assumes "sweep_inv c s" "all_finished s" "pcs s \<noteq> []"
  shows "map rindex (sort_key rindex (results s)) = [0..<length (mutants c)]"
    and "list_all (result_ok c) (results s)" and "list_all (\<lambda>t. t = originals c) (trees s)"
    and "profiled c \<Longrightarrow> narrowed s + widened s = length (mutants c)"
proof -
  have fin: "pcs s ! w = Finished" if "w < length (pcs s)" for w using assms(2) that by (simp add: all_finished_def list_all_length)
  have none: "concat (map running (pcs s)) = []" "sum_list (map counted (pcs s)) = 0"
    using assms(2) by (auto simp: all_finished_def list_all_iff counted_def)
  have "Finished \<in> set (pcs s)" using assms(2,3) by (cases "pcs s") (auto simp: all_finished_def)
  then have "length (mutants c) \<le> nextIndex s" using assms(1) by (simp add: sweep_inv_def)
  then have ms: "mset (map rindex (results s)) = mset [0..<length (mutants c)]"
    using assms(1) none by (simp add: sweep_inv_def min_def split: if_splits)
  have "sorted (map rindex (sort_key rindex (results s)))" by simp
  moreover have "mset (map rindex (sort_key rindex (results s))) = mset [0..<length (mutants c)]" using ms by simp
  ultimately show "map rindex (sort_key rindex (results s)) = [0..<length (mutants c)]"
    by (metis properties_for_sort sorted_upt)
  show "list_all (result_ok c) (results s)" using assms(1) by (simp add: sweep_inv_def)
  show "list_all (\<lambda>t. t = originals c) (trees s)"
    using assms(1) fin by (auto simp: sweep_inv_def list_all_length list_all2_conv_all_nth tree_ok_def)
  have "length (results s) = length (mutants c)" using ms mset_eq_length by fastforce
  then show "narrowed s + widened s = length (mutants c)" if "profiled c"
    using assms(1) none that by (simp add: sweep_inv_def)
qed

lemma swept_length: "swept c k s \<Longrightarrow> length (pcs s) = k"
proof (induction rule: rtranclp_induct)
  case (step y z)
  from step(2) have "length (pcs z) = length (pcs y)" by cases simp_all
  with step show ?case by simp
qed (simp add: staged_def)

text \<open>
  C33. However the workers are interleaved, the tests of a mutant run on a tree that holds exactly
  that mutant's edits, and a worker between two mutants has the original tree.
\<close>

theorem tests_see_one_mutant:
  assumes "swept c k s" "\<forall>m \<in> set (mutants c). applyEdits (originals c) m \<noteq> None" "w < k"
  shows "case pcs s ! w of
      Testing i \<Rightarrow> i < length (mutants c) \<and> Some (trees s ! w) = applyEdits (originals c) (mutants c ! i)
    | Idle \<Rightarrow> trees s ! w = originals c
    | Finished \<Rightarrow> trees s ! w = originals c
    | _ \<Rightarrow> True"
proof -
  have "w < length (pcs s)" using swept_length [OF assms(1)] assms(3) by simp
  then have "tree_ok c (pcs s ! w) (trees s ! w)"
    using swept_inv [OF assms(1,2)] by (auto simp: sweep_inv_def list_all2_conv_all_nth)
  then show ?thesis using assms(2) by (auto simp: tree_ok_def mutated_def split: phase.splits)
qed

text \<open>
  C36. A run is never stuck and always ends, whatever the tests answer: from each state it reaches
  it can go on to the end, and each step brings the end nearer.
\<close>

theorem sweep_terminates:
  assumes "swept c k s" "\<forall>m \<in> set (mutants c). applyEdits (originals c) m \<noteq> None"
    and "\<And>t j. \<exists>outcome. suite c t j outcome"
  shows "(\<exists>s'. (sweep_step c)\<^sup>*\<^sup>* s s' \<and> all_finished s') \<and> (\<forall>s'. sweep_step c s s' \<longrightarrow> work_left c s' < work_left c s)"
  using run_finishes [OF swept_inv [OF assms(1,2)] assms(3,2)] step_works [OF _ swept_inv [OF assms(1,2)]] by blast

text \<open>
  C34. At the end every mutant has one result, in the order of the mutants whatever order they
  finished in, and it is what the tests answered on its tree; every staged tree is as it was.
  With a profile each mutant is counted once as narrowed or widened, so the total that is
  printed counts those that no test covers a second time.
\<close>

theorem sweep_accounts_for_all:
  assumes "swept c k s" "0 < k" "all_finished s" "\<forall>m \<in> set (mutants c). applyEdits (originals c) m \<noteq> None"
  shows "map rindex (sort_key rindex (results s)) = [0..<length (mutants c)]
    \<and> list_all (result_ok c) (results s) \<and> list_all (\<lambda>t. t = originals c) (trees s)
    \<and> (profiled c \<longrightarrow> selection_total s = length (mutants c) + length (filter notCovered (results s)))"
proof -
  have "pcs s \<noteq> []" using swept_length [OF assms(1)] assms(2) by auto
  from finished_results [OF swept_inv [OF assms(1,4)] assms(3) this] show ?thesis by (simp add: selection_total_def)
qed

section \<open>What a clean exit means\<close>

definition survived :: "bool \<times> int \<Rightarrow> bool" where
  "survived outcome \<longleftrightarrow> \<not> fst outcome \<and> snd outcome = 0"

lemma exit_zero:
  "exit_code known noop broken rs = 0 \<longleftrightarrow>
     broken = 0
     \<and> (\<forall>r \<in> set rs. if mustSurvive (rmutant r) then \<not> killed r \<and> noop (mname (rmutant r)) = Some True
          else if killed r then mname (rmutant r) \<notin> set known
          else ratioOnly (rmutant r) \<or> truthy (equivalent (rmutant r)) \<or> mname (rmutant r) \<in> set known)"
  by (auto simp: exit_code_def harness_broken_def notNoop_def brokenControls_def realSurvivors_def staleKnown_def filter_empty_conv)

text \<open>What triage notes of a control: whether its signature is the original's.\<close>

abbreviation control_names :: "mutant list \<Rightarrow> jsstring list" where
  "control_names ms \<equiv> map mname (filter mustSurvive ms)"

lemma triage_one_noop:
  assumes "triage_one wacLex wacCompile sources st m = Some (st', v)"
  shows "controlIsNoop st' = (if mustSurvive m \<and> v = Run
    then (controlIsNoop st)(mname m \<mapsto> (sig_of wacLex wacCompile sources m = signature_of (baseline_hash wacLex wacCompile sources) (files_of m)))
    else controlIsNoop st)"
  using assms sig_of_eq [of sources m]
  by (auto simp: triage_one_def Let_def split: option.splits if_splits)

lemma triage_all_noop:
  assumes "triage_all wacLex wacCompile sources st ms = Some (st', vs)" "distinct (control_names ms)"
  shows "(\<forall>m. (m, Run) \<in> set vs \<longrightarrow> mustSurvive m \<longrightarrow> controlIsNoop st' (mname m) =
      Some (sig_of wacLex wacCompile sources m = signature_of (baseline_hash wacLex wacCompile sources) (files_of m)))
    \<and> (\<forall>n. n \<notin> set (control_names ms) \<longrightarrow> controlIsNoop st' n = controlIsNoop st n) \<and> map fst vs = ms"
  using assms
proof (induction ms arbitrary: st vs)
  case (Cons m ms)
  from Cons.prems(1) obtain st1 v vs1 where one: "triage_one wacLex wacCompile sources st m = Some (st1, v)"
    and all: "triage_all wacLex wacCompile sources st1 ms = Some (st', vs1)" and vs: "vs = (m, v) # vs1"
    by (auto split: option.splits prod.splits)
  have d: "distinct (control_names ms)" "mustSurvive m \<Longrightarrow> mname m \<notin> set (control_names ms)"
    using Cons.prems(2) by (auto split: if_splits)
  note IH = Cons.IH [OF all d(1)]
  show ?case
    using IH d(2) triage_one_noop [OF one] unfolding vs by (auto split: if_splits)
qed simp

text \<open>
  C35. What exit code 0 means. Let a sweep that is not a dry run have triaged its mutants, left out those in
  a red scope (one whose unmutated tests fail) and run the rest to the end, with controls of distinct
  names. If it exits with 0 then every curated mutation was located, and of the mutants it measured each
  control survived on its own tree and compiles there to the hashes of the original, and each other one
  was killed on its own tree, or survived there and is documented, a documented one that was killed being
  a failure too. Nothing is said of a mutant that is not measured: a control that does not compile or
  whose scope is red is dropped, and the exit code is still 0.
\<close>

theorem clean_exit_means:
  assumes "swept c k s" "0 < k" "all_finished s" "\<forall>m \<in> set (mutants c). applyEdits (originals c) m \<noteq> None"
    and "triage_all wacLex wacCompile sources no_triage ms = Some (st, vs)"
    and "mutants c = measurable red (dirs_of c) (toRun vs)"
    and "distinct (control_names ms)" "\<forall>m \<in> set ms. \<forall>f \<in> set (files_of m). plain f"
    and "exit_code known (controlIsNoop st) broken (sort_key rindex (results s)) = 0" and "i < length (mutants c)"
  shows "broken = 0 \<and> (\<exists>tree outcome. applyEdits (originals c) (mutants c ! i) = Some tree
    \<and> suite c tree (job_of c (mutants c ! i)) outcome
    \<and> (if mustSurvive (mutants c ! i) then survived outcome \<and> no_change wacLex wacCompile sources (mutants c ! i)
       else if survived outcome
         then ratioOnly (mutants c ! i) \<or> truthy (equivalent (mutants c ! i)) \<or> mname (mutants c ! i) \<in> set known
         else mname (mutants c ! i) \<notin> set known))"
proof -
  let ?m = "mutants c ! i"
  have "pcs s \<noteq> []" using swept_length [OF assms(1)] assms(2) by auto
  note F = finished_results [OF swept_inv [OF assms(1,4)] assms(3) this]
  have "i \<in> set (map rindex (sort_key rindex (results s)))" unfolding F(1) using assms(10) by simp
  then obtain r where r: "r \<in> set (results s)" "rindex r = i" by auto
  then obtain outcome where o: "suite c (mutated c i) (job_of c ?m) outcome"
    "r = result_of i ?m (dirs_of c ?m) (job_of c ?m) outcome"
    using F(2) by (auto simp: list_all_iff result_ok_def Let_def)
  have k: "killed r = (\<not> survived outcome)" "rmutant r = ?m" by (auto simp: o(2) result_of_def survived_def Let_def)
  note T = triage_all_noop [OF assms(5,7)]
  have v: "(?m, Run) \<in> set vs"
    using nth_mem [OF assms(10)] unfolding assms(6) by (auto simp: measurable_def toRun_def)
  then have "?m \<in> set ms" using T by force
  then have "\<forall>f \<in> set (files_of ?m). plain f" using assms(8) by blast
  from no_change_sig [OF this, of wacLex wacCompile sources] T v
  have n: "mustSurvive ?m \<Longrightarrow> controlIsNoop st (mname ?m) = Some (no_change wacLex wacCompile sources ?m)" by simp
  have "applyEdits (originals c) ?m = Some (mutated c i)"
    using assms(4,10) nth_mem by (fastforce simp: mutated_def)
  moreover have "broken = 0 \<and> (if mustSurvive ?m then survived outcome \<and> no_change wacLex wacCompile sources ?m
       else if survived outcome
         then ratioOnly ?m \<or> truthy (equivalent ?m) \<or> mname ?m \<in> set known
         else mname ?m \<notin> set known)"
    using assms(9) r(1) k n unfolding exit_zero by (auto split: if_splits)
  ultimately show ?thesis using o(1) by blast
qed

section \<open>A small run\<close>

text \<open>Two workers, one mutant, and tests that fail on any tree but the original.\<close>

definition small :: setting where
  "small = \<lparr>mutants = take 1 twins, dirs_of = (\<lambda>m. [js ''packages/p'']),
     job_of = (\<lambda>m. \<lparr>runDirs = [js ''packages/p''], job_filter = None, unhit = False, narrow = False\<rparr>),
     originals = [js ''f'' \<mapsto> js ''a''], profiled = True,
     suite = (\<lambda>t j outcome. outcome = (False, if t (js ''f'') = Some (js ''a'') then 0 else 1))\<rparr>"

lemma small_facts:
  "\<forall>m \<in> set (mutants small). applyEdits (originals small) m \<noteq> None"
  "\<exists>outcome. suite small t j outcome" "length (mutants small) = 1" "profiled small"
  "applyEdits (originals small) (mutants small ! 0) = Some [js ''f'' \<mapsto> js ''b'']"
  by (auto simp: small_def twins_def applyEdits_def edit_of_def edits_of_def edit_text_def by_start_desc_def apply_edit_def js_def)

lemma small_ends: "\<exists>s. swept small 2 s \<and> all_finished s"
  using run_finishes [OF sweep_inv_start small_facts(2,1)] .

theorem tests_see_one_mutant_witness:
  "\<exists>s. swept small 2 s \<and> pcs s ! 0 = Testing 0 \<and> trees s ! 0 = [js ''f'' \<mapsto> js ''b'']"
proof -
  let ?s0 = "staged small 2"
  let ?s1 = "?s0\<lparr>nextIndex := nextIndex ?s0 + 1, pcs := (pcs ?s0)[0 := Writing (nextIndex ?s0) (touched (mutants small ! nextIndex ?s0))]\<rparr>"
  have 1: "sweep_step small ?s0 ?s1"
    by (rule take_next) (simp_all add: staged_def small_facts)
  have t: "touched (mutants small ! 0) = [js ''f'']" by (simp add: small_def twins_def touched_def edit_of_def)
  let ?s2 = "?s1\<lparr>pcs := (pcs ?s1)[0 := Writing 0 []], trees := (trees ?s1)[0 := (trees ?s1 ! 0)(js ''f'' := mutated small 0 (js ''f''))]\<rparr>"
  have 2: "sweep_step small ?s1 ?s2"
    by (rule write_file) (simp_all add: staged_def t)
  obtain s where 3: "sweep_step small ?s2 s" "pcs s ! 0 = Testing 0"
    using start_tests [of 0 ?s2 0 small] by (fastforce simp: staged_def)
  have "swept small 2 s" using 1 2 3(1) by (meson converse_rtranclp_into_rtranclp r_into_rtranclp)
  from tests_see_one_mutant [OF this small_facts(1), of 0] 3(2) this small_facts(5) show ?thesis by auto
qed

theorem sweep_terminates_witness: "\<exists>s. swept small 2 s \<and> all_finished s"
  using sweep_terminates [OF rtranclp.rtrancl_refl small_facts(1,2), of 2] by blast

theorem sweep_accounts_for_all_witness:
  "\<exists>s. swept small 2 s \<and> map rindex (sort_key rindex (results s)) = [0] \<and> selection_total s = 1"
proof -
  obtain s where s: "swept small 2 s" "all_finished s" using small_ends by blast
  have T: "map rindex (sort_key rindex (results s)) = [0..<length (mutants small)]
    \<and> list_all (result_ok small) (results s) \<and> list_all (\<lambda>t. t = originals small) (trees s)
    \<and> (profiled small \<longrightarrow> selection_total s = length (mutants small) + length (filter notCovered (results s)))"
    by (rule sweep_accounts_for_all [OF s(1) _ s(2) small_facts(1)]) simp
  have "\<not> notCovered r" if "result_ok small r" for r
    using that by (auto simp: result_ok_def result_of_def small_def Let_def)
  then have "filter notCovered (results s) = []" using T by (auto simp: filter_empty_conv list_all_iff)
  with T s(1) small_facts(3,4) show ?thesis by auto
qed

theorem clean_exit_means_witness:
  "\<exists>s (st :: triage_state). swept small 2 s \<and> all_finished s \<and> exit_code [] (controlIsNoop st) 0 (sort_key rindex (results s)) = 0
     \<and> (\<exists>outcome. suite small [js ''f'' \<mapsto> js ''b''] (job_of small (mutants small ! 0)) outcome \<and> \<not> survived outcome)"
proof -
  obtain s where s: "swept small 2 s" "all_finished s" using small_ends by blast
  obtain st where vs: "triage_all (\<lambda>s. ([], [])) identity_compiler [(js ''f'', js ''a'')] no_triage twins
     = Some (st, [(twins ! 0, Run), (twins ! 1, Duplicate (js ''x''))])" using twins_triage by blast
  have m: "mutants small = measurable [] (dirs_of small) (toRun [(twins ! 0, Run), (twins ! 1, Duplicate (js ''x''))])"
    by (simp add: small_def twins_def measurable_def toRun_def)
  have d: "distinct (control_names twins)" "\<forall>m \<in> set twins. \<forall>f \<in> set (files_of m). plain f"
    by (simp add: twins_def) code_simp
  have "mutated small 0 (js ''f'') \<noteq> Some (js ''a'')" by (simp add: mutated_def small_facts(5)) (simp add: js_def)
  then have "killed r \<and> \<not> mustSurvive (rmutant r)" if "result_ok small r" for r
    using that by (auto simp: result_ok_def result_of_def small_def twins_def Let_def)
  moreover have "list_all (result_ok small) (results s)"
    using swept_inv [OF s(1) small_facts(1)] by (simp add: sweep_inv_def)
  ultimately have e: "exit_code [] (controlIsNoop st) 0 (sort_key rindex (results s)) = 0" by (auto simp: exit_zero list_all_iff)
  have "0 < length (mutants small)" "\<not> mustSurvive (mutants small ! 0)" "\<not> ratioOnly (mutants small ! 0)"
    "equivalent (mutants small ! 0) = None" by (simp_all add: small_def twins_def)
  with clean_exit_means [OF s(1) _ s(2) small_facts(1) vs m d e, of 0] small_facts(5) have
    "\<exists>outcome. suite small [js ''f'' \<mapsto> js ''b''] (job_of small (mutants small ! 0)) outcome \<and> \<not> survived outcome"
    by (auto simp: truthy_def split: if_splits)
  with s e show ?thesis by blast
qed

end
