(* ===== verification/Spec2Isabelle.thy ===== *)
theory Spec2Isabelle
  imports Prelude Utf8 Layout Queue Child_Life Schedule Faults Wire Child_Stack Bridge_Race Bridge_Stop Spawn World_Writes World_Hosts Browser_Props Stream_Rings Sweep_Run
begin

text \<open>
  \<^bold>\<open>A verification of the host side of wac-mono.\<close>

  The repository holds programs written in the language wac and, in TypeScript, what surrounds
  them: the platform that gives a program in a WebAssembly worker its capabilities, the bridge for
  streaming transforms, and the tools that test the packages. This library models that TypeScript
  and proves what it promises. Paths below are relative to \<open>src/\<close>.

  \<^bold>\<open>The parts and how they meet.\<close>
  A program runs in a worker and cannot wait for a promise, so each capability it calls becomes a
  request in shared memory: the worker claims a slot, writes the request, and parks; the host takes
  it, runs a handler, and writes the answer. The layout of that memory and its pools of buffers are
  \<open>packages/platform/host/layout.ts\<close>; the worker's half of the protocol is \<open>call.ts\<close> and the host's
  \<open>respond.ts\<close>; \<open>schedule.ts\<close> may decide in which order finished answers are delivered. What the
  payloads mean is written by \<open>provider.ts\<close> on the one side and by the worlds \<open>deno.ts\<close>,
  \<open>node.ts\<close> and \<open>browser.ts\<close> on the other, with \<open>faults.ts\<close> giving every error its category. A world holds the grants
  of one program: which files, network and environment its handlers may use. Programs start
  other programs: a child called in the same worker is a frame of \<open>child.ts\<close>, a spawned one has
  pipes (\<open>queue.ts\<close>), a life (\<open>children.ts\<close>, \<open>childLife.ts\<close>) and a world of its own, with at most
  its parent's grants. \<open>packages/stream/host\<close> is a second, simpler bridge
  of two byte rings. Beside them stands \<open>tools/mutate.ts\<close>, which breaks the packages on purpose and
  counts what the tests notice.

  \<^bold>\<open>The theories.\<close>
  \<^item> \<open>Prelude\<close>: bytes, typed arrays with their out-of-range errors, and the locale
    \<open>event_machine\<close>: a machine with an invariant that its steps keep, and what then holds of every
    run. It is interpreted on the queue, its driver, the scheduler, a child's life, the stack of
    children, and through sublocales on the worlds of the hosts.
  \<^item> \<open>Utf8\<close>: what \<open>TextEncoder\<close> and \<open>TextDecoder\<close> do with the strings that cross the bridge.
  \<^item> \<open>Layout\<close>: the constants, the views and the pools of \<open>layout.ts\<close>. The views do not overlap. The
    locale \<open>buffer_pool\<close> is the contract of a pool, interpreted on \<open>acquireBuf\<close> and \<open>releaseBuf\<close>.
  \<^item> \<open>Bridge\<close>, \<open>Bridge_System\<close>: every function of \<open>call.ts\<close> and \<open>respond.ts\<close> that touches the shared
    memory, and worker and host against each other: a step is the code of one side up to the next
    access the other side races for, so every interleaving is a run. \<open>Bridge_Slot\<close>, \<open>Bridge_Mem\<close> and
    \<open>Bridge_Inv\<close> carry the invariant; \<open>Bridge_Props\<close> has what a caller gets: its own answer, a
    schedule on which a call completes, no slot and no buffer lost. Three races the code leaves open are
    named (\<open>raced\<close>: a sweep between the two stores of \<open>cancel\<close>, a cancel before the scheduler is handed an
    answer, a generation that wraps), and these properties are of the runs without them; \<open>Bridge_Race\<close> is
    the run in which the first delivers a cancelled call's answer to the next call of the slot.
    \<open>Bridge_Stop\<close> takes \<open>failPending\<close> and \<open>stop\<close> one access at a time beside the worker, with or without
    a scheduler and with races: which calls get the refusal, and how a handler that ends later spoils it.
  \<^item> \<open>Queue\<close>: \<open>queue.ts\<close> as its pure transition function and as the class that drives it, the
    second refining the first: bytes come out in the order they went in, no reader or writer is
    forgotten, and who can be left waiting.
  \<^item> \<open>Child_Life\<close>, \<open>Child_Stack\<close>, \<open>Schedule\<close>, \<open>Faults\<close>, \<open>Wire\<close>: the component of that name; \<open>Wire\<close>
    shows that each side reads what the other wrote.
  \<^item> \<open>Spawn\<close>: \<open>spawnChild\<close> of \<open>children.ts\<close>: the marker, the queues, the two promises, the grace timer
    and what a message, an error and a kill do. It refines \<open>Child_Life\<close>.
  \<^item> \<open>World\<close>: what the worlds of the hosts share: the operation codes of \<open>ops.ts\<close>, the runtime as
    calls and replies, the state the handlers close over, starting a child and closing a handle. A
    handler is cut where it calls the runtime, and several wait at once. The contracts a host's
    handlers keep are locales: \<open>confined\<close> (\<open>World_Authority\<close>: calls are covered by grants),
    \<open>handle_space\<close> and \<open>handle_closing\<close> (\<open>World_Handles\<close>: handles are distinct, and closed ones
    never come back), \<open>world_family\<close> and \<open>world_kin\<close> (\<open>World_Tree\<close>: worlds that start worlds) and \<open>typed_handlers\<close> (\<open>World_Types\<close>: a handler takes every
    reply its call can have).
  \<^item> \<open>Deno_World\<close>, \<open>Node_World\<close>: every handler of \<open>deno.ts\<close> and of \<open>node.ts\<close>, and the interpretations
    of the contracts on both. \<open>World_Hosts\<close> shows where the two answer alike; \<open>World_Writes\<close> runs a
    child's world and its parent's queue together, with the \<open>write\<close> of the child's options between them:
    the handler of Deno does not wait for the queue, the one of Node does.
  \<^item> \<open>Browser_World\<close>: every handler of \<open>browser.ts\<close>, the world of a page, with its walks over the
    Origin Private File System and its document. It is interpreted for every contract but
    \<open>handle_closing\<close>, which it does not keep; \<open>Browser_Props\<close> says what it does keep, and three ways
    in which it departs from the other hosts.
  \<^item> \<open>Stream_Rings\<close>: the rings under every interleaving of the two sides, each load, copy, store,
    addition and notification a step of its own, a sleep ended only by a notification, with 32-bit
    counters: a pipe below \<open>2 ^ 31\<close> bytes, no lost wakeup, and the two ways it fails.
  \<^item> \<open>Mutate\<close>: edits, operators and sampling (\<open>tools/mutate/types.ts\<close>, \<open>operators.ts\<close>, \<open>sample.ts\<close>).
  \<^item> \<open>Imports\<close>: the import graph of \<open>harness/wacFiles.ts\<close>; the walk collects what is reachable.
  \<^item> \<open>Sweep\<close>, \<open>Sweep_Tests\<close>, \<open>Sweep_Run\<close>: \<open>tools/mutate.ts\<close> and \<open>tools/mutate/profile.ts\<close>: locating
    the curated mutations, what is discarded before it is run, which tests a mutant faces, the
    parallel run, and what its exit code means.

  \<^bold>\<open>How the code is represented.\<close>
  A class or record of the code is a \<open>record\<close>, a union a \<open>datatype\<close>, a throw or early return a value
  of an option or sum type. An \<open>Int32Array\<close> cell is a \<open>32 word\<close> and is read signed, as the code
  does; byte offsets and lengths are natural numbers where the code cannot overflow them. A string
  is the list of its code units. A \<open>Map\<close> whose order matters is a list of pairs. Where the code
  waits (\<open>Atomics.wait\<close>, \<open>await\<close>) the model has a step that can be taken again, or a step relation
  whose steps are the stretches between two waits. Loops are recursive functions with a
  termination proof; only the loop of \<open>rest\<close> in the queue counts its turns, and one turn per byte and
  one more is proved to be enough. Parameters stand for what is not in the repository: the
  replies of the runtime under the handlers, the compiler and lexer of wac, and the test command.
  The replies of the runtime are one datatype, untyped where the code's are typed: a world accepts only
  those a call can have (\<open>replies\<close>), and the branches for any other (\<open>unexpected\<close>) are there because the
  functions are total; the interpretations of \<open>typed_handlers\<close> show that no run takes them.

  \<^bold>\<open>Not modelled.\<close>
  The launchers (\<open>entry.ts\<close>, \<open>entryNode.ts\<close>, \<open>entryBrowser.ts\<close>), \<open>build.ts\<close>, the coverage drivers (\<open>cov.ts\<close>), benchmarks, vendoring tools and harness scripts are
  input and output; clocks, timeouts and the text printed for people are left out everywhere. The
  wac packages are not TypeScript.
\<close>

end
